(* ===== verification/Marl_Prelude.thy ===== *)
theory Marl_Prelude
  imports Main "HOL-Library.Word" "HOL-Library.Multiset"
begin

text \<open>
  Shared ground of the development of the fiber scheduler library.

  \<^item> \<open>fault\<close> and \<open>'a result\<close>: the ways an operation of the library stops the process
    (\<open>marl::fatal\<close>, a failed \<open>MARL_ASSERT\<close>) or leaves the defined behaviour of C++ (an
    access outside an array, a null or dangling access, a division by zero, a call of the
    standard library outside of its preconditions). A fallible
    operation returns \<open>Inl\<close> of a fault or \<open>Inr\<close> of its value; \<open>rbind\<close> sequences two.
  \<^item> \<open>reach\<close>: the states a step relation reaches from an initial one, and the locale
    \<open>invariant_system\<close>, the contract of an inductive invariant, and \<open>simulation\<close>, that of a projection. A step relation here
    leads to a \<open>result\<close>: a step that ends in \<open>Inl\<close> is a run that aborts.
  \<^item> generic lemmas on lists, counts and words.
\<close>

named_theorems marl_defs \<open>definitions unfolded by the component proofs\<close>
named_theorems marl_inv \<open>preservation of the component invariants\<close>

section \<open>Faults and results\<close>

datatype fault =
    AssertFailed string   \<comment> \<open>\<open>MARL_ASSERT\<close> with its message: \<open>debug.hpp\<close> calls \<open>fatal\<close>\<close>
  | Fatal string          \<comment> \<open>\<open>MARL_FATAL\<close>\<close>
  | OutOfBounds           \<comment> \<open>access outside of a built-in array\<close>
  | BadAccess             \<comment> \<open>access through a null or a dangling pointer\<close>
  | DivByZero
  | Undefined             \<comment> \<open>a call of the standard library outside of its preconditions\<close>
  | SystemError string    \<comment> \<open>an exception \<open>std::system_error\<close> with its code\<close>

type_synonym 'a result = "fault + 'a"

definition rbind :: "'a result \<Rightarrow> ('a \<Rightarrow> 'b result) \<Rightarrow> 'b result" where
  "rbind m f = (case m of Inl e \<Rightarrow> Inl e | Inr x \<Rightarrow> f x)"

definition marl_assert :: "bool \<Rightarrow> string \<Rightarrow> unit result" where
  "marl_assert cond msg = (if \<not> cond then Inl (AssertFailed msg) else Inr ())"

lemma rbind_simps [simp]: "rbind (Inl e) f = Inl e" "rbind (Inr x) f = f x"
  by (simp_all add: rbind_def)

lemma rbind_eq_Inr [simp]: "rbind m f = Inr y \<longleftrightarrow> (\<exists>x. m = Inr x \<and> f x = Inr y)"
  by (cases m) auto

lemma rbind_eq_Inl: "rbind m f = Inl e \<longleftrightarrow> m = Inl e \<or> (\<exists>x. m = Inr x \<and> f x = Inl e)"
  by (cases m) auto

lemma rbind_assoc: "rbind (rbind m f) g = rbind m (\<lambda>x. rbind (f x) g)"
  by (cases m) auto

lemma rbind_cong [fundef_cong]:
  "m = m' \<Longrightarrow> (\<And>x. m' = Inr x \<Longrightarrow> f x = f' x) \<Longrightarrow> rbind m f = rbind m' f'"
  by (cases m') auto

lemma marl_assert_True [simp]: "marl_assert True msg = Inr ()"
  by (simp add: marl_assert_def)

lemma marl_assert_False [simp]: "marl_assert False msg = Inl (AssertFailed msg)"
  by (simp add: marl_assert_def)

lemma marl_assert_eq_Inr [simp]: "marl_assert c msg = Inr u \<longleftrightarrow> c"
  by (simp add: marl_assert_def)

lemma marl_assert_eq_Inl [simp]: "marl_assert c msg = Inl e \<longleftrightarrow> \<not> c \<and> e = AssertFailed msg"
  by (auto simp: marl_assert_def)

text \<open>A result is \<open>ok\<close> when the operation returned.\<close>

definition ok :: "'a result \<Rightarrow> bool" where
  "ok r = (case r of Inl _ \<Rightarrow> False | Inr _ \<Rightarrow> True)"

lemma ok_simps [simp]: "ok (Inr x)" "\<not> ok (Inl e)"
  by (simp_all add: ok_def)

lemma ok_iff: "ok r \<longleftrightarrow> (\<exists>x. r = Inr x)"
  by (cases r) auto

section \<open>Reachable states and invariants\<close>

inductive reach :: "('s \<Rightarrow> bool) \<Rightarrow> ('s \<Rightarrow> 's result \<Rightarrow> bool) \<Rightarrow> 's \<Rightarrow> bool"
  for init step where
  reach_init: "init s \<Longrightarrow> reach init step s"
| reach_step: "reach init step s \<Longrightarrow> step s (Inr t) \<Longrightarrow> reach init step t"

text \<open>
  The contract of an inductive invariant: it holds initially, every step from a state that
  satisfies it returns (no assertion fails, nothing is undefined) and re-establishes it.
\<close>

locale invariant_system =
  fixes init :: "'s \<Rightarrow> bool"
    and step :: "'s \<Rightarrow> 's result \<Rightarrow> bool"
    and inv :: "'s \<Rightarrow> bool"
  assumes inv_init: "init s \<Longrightarrow> inv s"
    and inv_step: "inv s \<Longrightarrow> step s r \<Longrightarrow> \<exists>t. r = Inr t \<and> inv t"
begin

lemma reach_inv: "reach init step s \<Longrightarrow> inv s"
proof (induction rule: reach.induct)
  case (reach_init s)
  then show ?case by (rule inv_init)
next
  case (reach_step s t)
  then show ?case using inv_step by blast
qed

lemma reach_no_fault: "reach init step s \<Longrightarrow> step s r \<Longrightarrow> ok r"
  using reach_inv inv_step by (fastforce simp: ok_iff)

end

text \<open>The contract of a projection: every step of the detailed system is a step of the abstract one or leaves its state alone.\<close>

locale simulation =
  fixes init :: "'s \<Rightarrow> bool" and step :: "'s \<Rightarrow> 's result \<Rightarrow> bool"
    and init' :: "'t \<Rightarrow> bool" and step' :: "'t \<Rightarrow> 't result \<Rightarrow> bool" and abstr :: "'s \<Rightarrow> 't"
  assumes sim_init: "init s \<Longrightarrow> init' (abstr s)"
    and sim_step: "step s (Inr t) \<Longrightarrow> abstr t = abstr s \<or> step' (abstr s) (Inr (abstr t))"
begin

lemma reach_abs: "reach init step s \<Longrightarrow> reach init' step' (abstr s)"
proof (induction rule: reach.induct)
  case (reach_step s t)
  then show ?case using sim_step [of s t] by (auto intro: reach.reach_step)
qed (auto intro: reach_init sim_init)

end

lemma reach_reach: "reach (reach init step) step s \<Longrightarrow> reach init step s"
  by (induction rule: reach.induct) (auto intro: reach.intros)

section \<open>Lists, counts and words\<close>

lemma distinct_remove1_set: "distinct xs \<Longrightarrow> set (remove1 x xs) = set xs - {x}"
  by simp

lemma remove1_notin [simp]: "x \<notin> set xs \<Longrightarrow> remove1 x xs = xs"
  by (rule remove1_idem)

lemma length_remove1_in: "x \<in> set xs \<Longrightarrow> length (remove1 x xs) = length xs - 1"
  by (simp add: length_remove1)

definition remove_nth :: "nat \<Rightarrow> 'a list \<Rightarrow> 'a list" where
  "remove_nth k xs = take k xs @ drop (Suc k) xs"

lemma mset_remove_nth: "k < length xs \<Longrightarrow> mset xs = add_mset (xs ! k) (mset (remove_nth k xs))"
  by (metis add_mset_add_single append_take_drop_id id_take_nth_drop mset.simps(2) mset_append
      remove_nth_def union_mset_add_mset_right)

lemma mset_update_remove_nth:
  "k < length xs \<Longrightarrow> mset (xs[k := x]) = add_mset x (mset (remove_nth k xs))"
  by (simp add: mset_update mset_remove_nth [of k xs])

lemma length_remove_nth: "k < length xs \<Longrightarrow> length (remove_nth k xs) = length xs - 1"
  by (simp add: remove_nth_def)

lemma of_nat_Suc_minus_1: "(of_nat (Suc n) :: 'a::len word) - 1 = of_nat n"
  by simp

lemma of_nat_eq_0_less:
  "n < 2 ^ LENGTH('a) \<Longrightarrow> (of_nat n :: 'a::len word) = 0 \<longleftrightarrow> n = 0"
  by (auto simp: word_of_nat_eq_0_iff dest: dvd_imp_le)

lemma of_nat_gt_0_less:
  "n < 2 ^ LENGTH('a) \<Longrightarrow> (0 :: 'a::len word) < of_nat n \<longleftrightarrow> 0 < n"
  by (simp add: word_neq_0_conv [symmetric] of_nat_eq_0_less)

lemma unat_of_nat_less:
  "n < 2 ^ LENGTH('a) \<Longrightarrow> unat (of_nat n :: 'a::len word) = n"
  by (simp add: unat_of_nat)

lemma count_mset_list: "count (mset xs) x = count_list xs x"
  by (induction xs) auto

lemma sum_list_map_mset: "sum_list (map f xs) = sum_mset (image_mset f (mset xs))"
  by (induction xs) auto

lemma card_insert_diff: "finite A \<Longrightarrow> x \<notin> A \<Longrightarrow> card (insert x A) = Suc (card A)"
  by simp

lemma nth_in_remove: "j < length xs \<Longrightarrow> j \<noteq> k \<Longrightarrow> xs ! j \<in> set (remove_nth k xs)"
  unfolding remove_nth_def using nth_mem [of j "take k xs"] nth_mem [of "j - Suc k" "drop (Suc k) xs"]
  by (cases "j < k") (auto simp: nth_append)

lemma remove_nth_update: "y \<in> set (remove_nth k xs) \<Longrightarrow> y \<in> set (xs[k := x])"
  by (cases "k < length xs") (auto simp: remove_nth_def upd_conv_take_nth_drop list_update_beyond)

lemma sum_pos_iff: "0 < (\<Sum>k < (m :: nat). f k :: nat) \<longleftrightarrow> (\<exists>k < m. 0 < f k)"
  by (induction m) (auto simp: less_Suc_eq)

end
