(* ===== verification/Waiting_Fibers.thy ===== *)
theory Waiting_Fibers
  imports Marl_Prelude "HOL-Library.AList"
begin

text \<open>
  \<open>Scheduler::WaitingFibers\<close> (\<open>scheduler.hpp\<close> 227--261, \<open>scheduler.cpp\<close> 271--327): the fibers
  of a worker that wait with a deadline. The code keeps two containers in step: an ordered
  \<open>std::set\<close> of (deadline, fiber) pairs and an \<open>unordered_map\<close> from the fiber to its deadline.
  The set is a sorted list without repetitions, the map an association list. A fiber
  pointer is a value of any linearly ordered type: the order of addresses, which breaks the
  ties between equal deadlines, is the order of that type. Time points are integers.

  The locale \<open>timer_queue\<close> is what the worker relies on: the structure behaves as one finite
  map from fibers to deadlines, none of its assertions fails, and \<open>take\<close> hands out the
  fiber with the least deadline that has passed. It is interpreted on the two-container
  code; the loop that drains the expired fibers is verified once, inside the locale.
\<close>

section \<open>The ordered pairs\<close>

datatype 'f timeout = Timeout (timepoint: int) (tfiber: 'f)

definition timeout_less :: "'f::linorder timeout \<Rightarrow> 'f timeout \<Rightarrow> bool" where
  "timeout_less a b =
     (if timepoint a \<noteq> timepoint b then timepoint a < timepoint b else tfiber a < tfiber b)"

instantiation timeout :: (linorder) linorder
begin

definition less_timeout :: "'a timeout \<Rightarrow> 'a timeout \<Rightarrow> bool" where
  "less_timeout = timeout_less"

definition less_eq_timeout :: "'a timeout \<Rightarrow> 'a timeout \<Rightarrow> bool" where
  "less_eq_timeout a b \<longleftrightarrow> timeout_less a b \<or> a = b"

instance
  by standard
    (auto simp: less_timeout_def less_eq_timeout_def timeout_less_def split: if_splits,
     metis linorder_neqE timeout.expand)

end

lemma timeout_le_timepoint: "a \<le> b \<Longrightarrow> timepoint a \<le> timepoint b"
  by (auto simp: less_eq_timeout_def timeout_less_def split: if_splits)

section \<open>The structure and its operations\<close>

record 'f waiting_fibers =
  wf_timeouts :: "'f timeout list"
  wf_fibers :: "('f \<times> int) list"

definition wf_new :: "'f waiting_fibers" where
  "wf_new = \<lparr>wf_timeouts = [], wf_fibers = []\<rparr>"

definition wf_bool :: "'f waiting_fibers \<Rightarrow> bool" where
  "wf_bool q = (wf_fibers q \<noteq> [])"

definition wf_take ::
  "int \<Rightarrow> 'f waiting_fibers \<Rightarrow> ('f option \<times> 'f waiting_fibers) result" where
  "wf_take now q =
     (if \<not> wf_bool q then Inr (None, q)
      else case wf_timeouts q of
        [] \<Rightarrow> Inl BadAccess
      | it # rest \<Rightarrow>
          if now < timepoint it then Inr (None, q)
          else
            let fiber = tfiber it;
                deleted = map_of (wf_fibers q) fiber \<noteq> None
            in rbind (marl_assert deleted ''WaitingFibers::take() maps out of sync'') (\<lambda>_.
               Inr (Some fiber, q\<lparr>wf_timeouts := rest,
                                  wf_fibers := AList.delete fiber (wf_fibers q)\<rparr>)))"

definition wf_next :: "'f waiting_fibers \<Rightarrow> int result" where
  "wf_next q =
     rbind (marl_assert (wf_bool q) ''WaitingFibers::next() called when there' no waiting fibers'') (\<lambda>_.
       case wf_timeouts q of [] \<Rightarrow> Inl BadAccess | it # _ \<Rightarrow> Inr (timepoint it))"

definition wf_add ::
  "int \<Rightarrow> 'f::linorder \<Rightarrow> 'f waiting_fibers \<Rightarrow> 'f waiting_fibers result" where
  "wf_add t fiber q =
     (let added = map_of (wf_fibers q) fiber = None;
          q' = q\<lparr>wf_timeouts := insort_insert (Timeout t fiber) (wf_timeouts q),
                 wf_fibers := (if added then (fiber, t) # wf_fibers q else wf_fibers q)\<rparr>
      in rbind (marl_assert added ''WaitingFibers::add() fiber already waiting'') (\<lambda>_. Inr q'))"

definition wf_erase ::
  "'f \<Rightarrow> 'f waiting_fibers \<Rightarrow> 'f waiting_fibers result" where
  "wf_erase fiber q =
     (case map_of (wf_fibers q) fiber of
        None \<Rightarrow> Inr q
      | Some t \<Rightarrow>
          let erased = Timeout t fiber \<in> set (wf_timeouts q)
          in rbind (marl_assert erased ''WaitingFibers::erase() maps out of sync'') (\<lambda>_.
             Inr (q\<lparr>wf_timeouts := remove1 (Timeout t fiber) (wf_timeouts q),
                    wf_fibers := AList.delete fiber (wf_fibers q)\<rparr>)))"

definition wf_contains :: "'f \<Rightarrow> 'f waiting_fibers \<Rightarrow> bool" where
  "wf_contains fiber q = (map_of (wf_fibers q) fiber \<noteq> None)"

section \<open>The two containers agree\<close>

definition wf_abs :: "'f waiting_fibers \<Rightarrow> ('f \<rightharpoonup> int)" where
  "wf_abs q = map_of (wf_fibers q)"

definition wf_inv :: "'f::linorder waiting_fibers \<Rightarrow> bool" where
  "wf_inv q \<longleftrightarrow>
     sorted (wf_timeouts q) \<and> distinct (wf_timeouts q) \<and> distinct (map fst (wf_fibers q)) \<and>
     set (wf_timeouts q) = (\<lambda>(f, t). Timeout t f) ` set (wf_fibers q)"

lemma wf_inv_mem:
  assumes "wf_inv q"
  shows "Timeout t f \<in> set (wf_timeouts q) \<longleftrightarrow> wf_abs q f = Some t"
  using assms by (auto simp: wf_inv_def wf_abs_def intro!: image_eqI [where x = "(f, t)"])

lemma wf_bool_abs: "wf_bool q \<longleftrightarrow> wf_abs q \<noteq> Map.empty"
  by (simp add: wf_bool_def wf_abs_def)

lemma wf_inv_Nil: "wf_inv q \<Longrightarrow> wf_timeouts q = [] \<longleftrightarrow> wf_fibers q = []"
  by (auto simp: wf_inv_def)

lemma wf_inv_head:
  assumes "wf_inv q" and "wf_timeouts q = it # rest"
  shows "wf_abs q (tfiber it) = Some (timepoint it)"
    and "wf_abs q g = Some u \<Longrightarrow> timepoint it \<le> u"
proof -
  show "wf_abs q (tfiber it) = Some (timepoint it)"
    using wf_inv_mem [OF assms(1), of "timepoint it" "tfiber it"] assms(2) by simp
  assume "wf_abs q g = Some u"
  then have "Timeout u g \<in> set (it # rest)"
    using wf_inv_mem [OF assms(1)] assms(2) by metis
  moreover have "sorted (it # rest)" using assms by (simp add: wf_inv_def)
  ultimately have "it \<le> Timeout u g" by auto
  then show "timepoint it \<le> u" using timeout_le_timepoint by fastforce
qed

lemma delete_image:
  assumes "distinct (map fst al)" and "map_of al f = Some t"
  shows "(\<lambda>(f, t). Timeout t f) ` set (AList.delete f al) =
         (\<lambda>(f, t). Timeout t f) ` set al - {Timeout t f}"
  using assms by (auto simp: AList.delete_eq image_iff dest: eq_key_imp_eq_value)

lemma wf_inv_delete:
  assumes "wf_inv q" and "wf_abs q f = Some t"
  shows "wf_inv (q\<lparr>wf_timeouts := remove1 (Timeout t f) (wf_timeouts q),
                   wf_fibers := AList.delete f (wf_fibers q)\<rparr>)"
  using assms delete_image [of "wf_fibers q" f t]
  by (auto simp: wf_inv_def wf_abs_def sorted_remove1 distinct_delete)

lemma wf_inv_insert:
  assumes "wf_inv q" and "wf_abs q f = None"
  shows "wf_inv (q\<lparr>wf_timeouts := insort_insert (Timeout t f) (wf_timeouts q),
                   wf_fibers := (f, t) # wf_fibers q\<rparr>)"
  using assms
  by (auto simp: wf_inv_def wf_abs_def sorted_insort_insert distinct_insort_insert
      set_insort_insert map_of_eq_None_iff)

section \<open>The interface of a queue of deadlines\<close>

text \<open>One run of the loop \<open>while (auto fiber = waiting.take(now))\<close>.\<close>

inductive takes :: "('q \<Rightarrow> ('f option \<times> 'q) result) \<Rightarrow> 'q \<Rightarrow> 'f list \<Rightarrow> 'q \<Rightarrow> bool"
  for tk where
  takes_stop: "tk q = Inr (None, q') \<Longrightarrow> takes tk q [] q'"
| takes_more: "tk q = Inr (Some f, q') \<Longrightarrow> takes tk q' fs q'' \<Longrightarrow> takes tk q (f # fs) q''"

inductive_cases takes_NilE: "takes tk q [] q'"
inductive_cases takes_ConsE: "takes tk q (f # fs) q'"

locale timer_queue =
  fixes empty :: 'q
    and nonempty :: "'q \<Rightarrow> bool"
    and take :: "int \<Rightarrow> 'q \<Rightarrow> ('f option \<times> 'q) result"
    and nxt :: "'q \<Rightarrow> int result"
    and add :: "int \<Rightarrow> 'f \<Rightarrow> 'q \<Rightarrow> 'q result"
    and erase :: "'f \<Rightarrow> 'q \<Rightarrow> 'q result"
    and contains :: "'f \<Rightarrow> 'q \<Rightarrow> bool"
    and abs :: "'q \<Rightarrow> 'f \<rightharpoonup> int"
    and invar :: "'q \<Rightarrow> bool"
  assumes empty_spec: "invar empty \<and> abs empty = Map.empty"
    and finite_abs: "invar q \<Longrightarrow> finite (dom (abs q))"
    and nonempty_spec: "invar q \<Longrightarrow> nonempty q \<longleftrightarrow> abs q \<noteq> Map.empty"
    and contains_spec: "invar q \<Longrightarrow> contains f q \<longleftrightarrow> f \<in> dom (abs q)"
    and nxt_spec: "invar q \<Longrightarrow> abs q \<noteq> Map.empty \<Longrightarrow>
      \<exists>t f. nxt q = Inr t \<and> abs q f = Some t \<and> (\<forall>g u. abs q g = Some u \<longrightarrow> t \<le> u)"
    and add_spec: "invar q \<Longrightarrow> abs q f = None \<Longrightarrow>
      \<exists>q'. add t f q = Inr q' \<and> invar q' \<and> abs q' = (abs q)(f \<mapsto> t)"
    and erase_spec: "invar q \<Longrightarrow>
      \<exists>q'. erase f q = Inr q' \<and> invar q' \<and> abs q' = (abs q)(f := None)"
    and take_spec: "invar q \<Longrightarrow>
      (case take now q of
         Inl e \<Rightarrow> False
       | Inr (None, q') \<Rightarrow> q' = q \<and> (\<forall>g u. abs q g = Some u \<longrightarrow> now < u)
       | Inr (Some f, q') \<Rightarrow> invar q' \<and> abs q' = (abs q)(f := None) \<and>
           (\<exists>t. abs q f = Some t \<and> t \<le> now \<and> (\<forall>g u. abs q g = Some u \<longrightarrow> t \<le> u)))"
begin

lemma take_None:
  assumes "invar q" and "take now q = Inr (None, q')"
  shows "q' = q" and "abs q g = Some u \<Longrightarrow> now < u"
  using take_spec [OF assms(1), of now] assms(2) by auto

lemma take_Some:
  assumes "invar q" and "take now q = Inr (Some f, q')"
  shows "invar q'" and "abs q' = (abs q)(f := None)"
    and "\<exists>t. abs q f = Some t \<and> t \<le> now \<and> (\<forall>g u. abs q g = Some u \<longrightarrow> t \<le> u)"
  using take_spec [OF assms(1), of now] assms(2) by auto

lemma take_ok: "invar q \<Longrightarrow> \<exists>f q'. take now q = Inr (f, q')"
  using take_spec [of q now] by (cases "take now q") auto

text \<open>The loop ends, whatever the clock says.\<close>

lemma takes_total: "invar q \<Longrightarrow> \<exists>fs q'. takes (take now) q fs q'"
proof (induction "card (dom (abs q))" arbitrary: q rule: less_induct)
  case less
  obtain r q' where r: "take now q = Inr (r, q')" using take_ok [OF less.prems] by blast
  show ?case
  proof (cases r)
    case None
    with r show ?thesis by (blast intro: takes_stop)
  next
    case (Some f)
    note q' = take_Some [OF less.prems r [unfolded Some]]
    from q'(3) have "f \<in> dom (abs q)" by auto
    then have "card (dom (abs q')) < card (dom (abs q))"
      unfolding q'(2) dom_fun_upd using finite_abs [OF less.prems]
      by (simp only: if_True simp_thms card_Diff1_less)
    then obtain fs q'' where "takes (take now) q' fs q''" using less.hyps q'(1) by blast
    with r Some show ?thesis by (blast intro: takes_more)
  qed
qed

text \<open>
  It takes out exactly the fibers whose deadline has passed, each once and in the order of
  their deadlines, and leaves the others untouched.
\<close>

lemma takes_spec:
  assumes "takes (take now) q fs q'" and "invar q"
  shows "invar q' \<and> distinct fs \<and> set fs = {f. \<exists>t. abs q f = Some t \<and> t \<le> now} \<and>
         abs q' = abs q |` (- set fs) \<and> sorted (map (\<lambda>f. the (abs q f)) fs)"
  using assms
proof (induction rule: takes.induct)
  case (takes_stop q q')
  note n = take_None [OF takes_stop.prems takes_stop.hyps]
  show ?case using takes_stop.prems n by (fastforce simp: not_le restrict_map_def)
next
  case (takes_more q f q' fs q'')
  note s = take_Some [OF takes_more.prems takes_more.hyps(1)]
  note IH = takes_more.IH [OF s(1)]
  obtain t where t: "abs q f = Some t" "t \<le> now" "\<forall>g u. abs q g = Some u \<longrightarrow> t \<le> u"
    using s(3) by blast
  have mem: "g \<in> set fs \<longleftrightarrow> g \<noteq> f \<and> (\<exists>u. abs q g = Some u \<and> u \<le> now)" for g
    using IH s(2) by auto
  have sorted_eq: "map (\<lambda>g. the (abs q g)) fs = map (\<lambda>g. the (abs q' g)) fs"
    using mem s(2) by auto
  have "set (f # fs) = {g. \<exists>u. abs q g = Some u \<and> u \<le> now}" using mem t by auto
  moreover have "\<forall>u \<in> set (map (\<lambda>g. the (abs q g)) fs). t \<le> u"
    using mem t(3) by auto
  then have "sorted (map (\<lambda>g. the (abs q g)) (f # fs))"
    unfolding list.map sorted_simps(2) sorted_eq using IH t(1) by simp
  moreover have "abs q'' = abs q |` (- set (f # fs))"
    using IH s(2) by (auto simp: restrict_map_def fun_eq_iff)
  ultimately show ?case using IH mem by simp
qed

end

interpretation wf: timer_queue wf_new wf_bool wf_take wf_next wf_add wf_erase wf_contains
  wf_abs "wf_inv :: 'f::linorder waiting_fibers \<Rightarrow> bool"
proof (unfold_locales, goal_cases)
  case 1
  show ?case by (simp add: wf_inv_def wf_new_def wf_abs_def)
next
  case (2 q)
  show ?case by (simp add: wf_abs_def finite_dom_map_of)
next
  case (3 q)
  show ?case by (rule wf_bool_abs)
next
  case (4 q f)
  show ?case by (auto simp: wf_contains_def wf_abs_def)
next
  case (5 q)
  then have "wf_timeouts q \<noteq> []" by (auto simp: wf_inv_Nil wf_abs_def)
  then obtain it rest where "wf_timeouts q = it # rest" by (cases "wf_timeouts q") auto
  with 5 wf_inv_head [OF 5(1) this] show ?case
    by (auto simp: wf_next_def wf_bool_abs)
next
  case (6 q f t)
  then show ?case using wf_inv_insert [OF 6, of t]
    by (auto simp: wf_add_def wf_abs_def Let_def)
next
  case (7 q f)
  then show ?case using wf_inv_delete [of q f] wf_inv_mem [of q _ f]
    by (auto simp: wf_erase_def wf_abs_def Let_def delete_conv' fun_upd_idem split: option.splits)
next
  case (8 q now)
  show ?case
  proof (cases "wf_timeouts q")
    case Nil
    with 8 show ?thesis by (auto simp: wf_take_def wf_bool_def wf_inv_Nil wf_abs_def)
  next
    case (Cons it rest)
    note h = wf_inv_head [OF 8 Cons]
    have later: "now < u" if "now < timepoint it" and "map_of (wf_fibers q) g = Some u" for g u
      using h(2) [of g u] that by (simp add: wf_abs_def)
    have "Timeout (timepoint it) (tfiber it) = it" by simp
    with wf_inv_delete [OF 8 h(1)] h later Cons show ?thesis
      by (auto simp: wf_take_def wf_bool_abs wf_abs_def Let_def delete_conv' not_less)
  qed
qed

end
