(* ===== verification/Task_Model.thy ===== *)
theory Task_Model
  imports Marl_Prelude
begin

unbundle bit_operations_syntax

text \<open>
  \<open>marl::Task\<close> (\<open>task.hpp\<close>) and the scope guard \<open>marl::Finally\<close> (\<open>finally.hpp\<close>, \<open>defer.hpp\<close>).

  A task is a \<open>std::function\<close>, which may be empty, with its flags; the flags are the integer
  bit set of the code and \<open>task_is\<close> tests them with the same mask. A scope guard runs its
  function in its destructor unless it was moved from; \<open>guard_scope\<close> is the life of the
  guards of one block: constructions and moves in order, then the destructors in reverse order.
\<close>

section \<open>Tasks\<close>

datatype flags = FlagNone | SameThread

fun flag_value :: "flags \<Rightarrow> int" where
  "flag_value FlagNone = 0"
| "flag_value SameThread = 1"

record 'f task =
  task_function :: "'f option"
  task_flags :: flags

definition task_empty :: "'f task" where
  "task_empty = \<lparr>task_function = None, task_flags = FlagNone\<rparr>"

definition task_new :: "'f \<Rightarrow> flags \<Rightarrow> 'f task" where
  "task_new f fl = \<lparr>task_function = Some f, task_flags = fl\<rparr>"

text \<open>
  Move construction and move assignment: the new task takes the function, the moved-from
  one keeps its flags and is left without a function.
\<close>

definition task_move :: "'f task \<Rightarrow> 'f task \<times> 'f task" where
  "task_move other =
     (\<lparr>task_function = task_function other, task_flags = task_flags other\<rparr>,
      other\<lparr>task_function := None\<rparr>)"

definition task_assign_function :: "'f \<Rightarrow> 'f task \<Rightarrow> 'f task" where
  "task_assign_function f t = t\<lparr>task_function := Some f, task_flags := FlagNone\<rparr>"

definition task_bool :: "'f task \<Rightarrow> bool" where
  "task_bool t = (task_function t \<noteq> None)"

text \<open>Calling an empty \<open>std::function\<close> throws \<open>std::bad_function_call\<close>, which nothing catches.\<close>

definition task_call :: "'f task \<Rightarrow> 'f result" where
  "task_call t =
     (case task_function t of None \<Rightarrow> Inl (Fatal ''bad_function_call'') | Some f \<Rightarrow> Inr f)"

definition task_is :: "'f task \<Rightarrow> flags \<Rightarrow> bool" where
  "task_is t flag = (flag_value (task_flags t) AND flag_value flag = flag_value flag)"

lemma task_is_SameThread [simp]: "task_is t SameThread \<longleftrightarrow> task_flags t = SameThread"
  by (cases "task_flags t") (simp_all add: task_is_def)

lemma task_is_None [simp]: "task_is t FlagNone"
  by (simp add: task_is_def)

lemma task_move_simps [simp]:
  "task_flags (fst (task_move t)) = task_flags t"
  "task_function (fst (task_move t)) = task_function t"
  "task_flags (snd (task_move t)) = task_flags t"
  "\<not> task_bool (snd (task_move t))"
  by (simp_all add: task_move_def task_bool_def)

section \<open>Scope guards\<close>

record 'f finally_impl =
  fin_func :: 'f
  fin_valid :: bool

definition make_finally :: "'f \<Rightarrow> 'f finally_impl" where
  "make_finally f = \<lparr>fin_func = f, fin_valid = True\<rparr>"

text \<open>
  \<open>FinallyImpl(FinallyImpl &&other)\<close>: the new guard starts with the default \<open>valid_ = true\<close>
  whatever the state of \<open>other\<close>.
\<close>

definition finally_move :: "'f finally_impl \<Rightarrow> 'f finally_impl \<times> 'f finally_impl" where
  "finally_move other =
     (\<lparr>fin_func = fin_func other, fin_valid = True\<rparr>, other\<lparr>fin_valid := False\<rparr>)"

definition finally_destroy :: "'f finally_impl \<Rightarrow> 'f list" where
  "finally_destroy g = (if fin_valid g then [fin_func g] else [])"

text \<open>
  The guards of a block, oldest first. \<open>GDefer f\<close> is the macro \<open>defer(f)\<close>; \<open>GMove i\<close>
  constructs a new guard from the \<open>i\<close>-th one.
\<close>

datatype 'f guard_op = GDefer 'f | GMove nat

fun guard_step :: "'f finally_impl list \<Rightarrow> 'f guard_op \<Rightarrow> 'f finally_impl list" where
  "guard_step gs (GDefer f) = gs @ [make_finally f]"
| "guard_step gs (GMove i) =
     (if i < length gs
      then (let (new, old) = finally_move (gs ! i) in gs[i := old] @ [new])
      else gs)"

definition guard_exit :: "'f finally_impl list \<Rightarrow> 'f list" where
  "guard_exit gs = concat (map finally_destroy (rev gs))"

definition guard_scope :: "'f guard_op list \<Rightarrow> 'f list" where
  "guard_scope ops = guard_exit (foldl guard_step [] ops)"

text \<open>A program moves only from guards that still hold their function.\<close>

fun guard_moves_ok :: "'f finally_impl list \<Rightarrow> 'f guard_op list \<Rightarrow> bool" where
  "guard_moves_ok gs [] = True"
| "guard_moves_ok gs (GDefer f # ops) = guard_moves_ok (guard_step gs (GDefer f)) ops"
| "guard_moves_ok gs (GMove i # ops) =
     (i < length gs \<and> fin_valid (gs ! i) \<and> guard_moves_ok (guard_step gs (GMove i)) ops)"

fun deferred :: "'f guard_op list \<Rightarrow> 'f list" where
  "deferred [] = []"
| "deferred (GDefer f # ops) = f # deferred ops"
| "deferred (GMove i # ops) = deferred ops"

lemma guard_exit_append: "guard_exit (gs @ hs) = guard_exit hs @ guard_exit gs"
  by (simp add: guard_exit_def)

lemma guard_exit_single [simp]: "guard_exit [g] = finally_destroy g"
  by (simp add: guard_exit_def)

lemma guard_exit_update:
  assumes "i < length gs" and "fin_valid (gs ! i)"
  shows "add_mset (fin_func (gs ! i)) (mset (guard_exit (gs[i := (gs ! i)\<lparr>fin_valid := False\<rparr>])))
         = mset (guard_exit gs)"
proof -
  have split: "gs = take i gs @ gs ! i # drop (Suc i) gs" using assms(1) by (rule id_take_nth_drop)
  have upd: "gs[i := x] = take i gs @ x # drop (Suc i) gs" for x
    using assms(1) by (rule upd_conv_take_nth_drop)
  have "mset (guard_exit gs) =
      mset (guard_exit (drop (Suc i) gs)) + mset (finally_destroy (gs ! i)) + mset (guard_exit (take i gs))"
    by (subst split) (simp add: guard_exit_def)
  with assms(2) show ?thesis
    by (simp add: upd guard_exit_def finally_destroy_def)
qed

lemma guard_step_mset:
  assumes "guard_moves_ok gs (x # ops)"
  shows "mset (guard_exit (guard_step gs x)) = mset (guard_exit gs) + mset (deferred [x])"
  using assms guard_exit_update
  by (cases x)
    (auto simp: guard_exit_append finally_destroy_def make_finally_def finally_move_def)

lemma guard_fold_mset:
  "guard_moves_ok gs ops \<Longrightarrow>
   mset (guard_exit (foldl guard_step gs ops)) = mset (guard_exit gs) + mset (deferred ops)"
proof (induction ops arbitrary: gs)
  case Nil
  then show ?case by simp
next
  case (Cons x ops)
  then have "guard_moves_ok (guard_step gs x) ops" by (cases x) auto
  with Cons.IH guard_step_mset [OF Cons.prems] show ?case by (cases x) auto
qed

lemma guard_fold_defers:
  "foldl guard_step gs (map GDefer fs) = gs @ map make_finally fs"
  by (induction fs arbitrary: gs) auto

lemma guard_exit_defers: "guard_exit (map make_finally fs) = rev fs"
  by (simp add: guard_exit_def rev_map comp_def make_finally_def finally_destroy_def)

section \<open>Guards with several owners\<close>

text \<open>\<open>make_shared_finally\<close>: the guard lives as long as a \<open>std::shared_ptr\<close> refers to it; its destructor runs when the last one is gone.\<close>

record 'f shared_finally =
  sf_guard :: "'f finally_impl"
  sf_owners :: nat
  sf_ran :: "'f list"

definition make_shared_finally :: "'f \<Rightarrow> 'f shared_finally" where
  "make_shared_finally f = \<lparr>sf_guard = make_finally f, sf_owners = 1, sf_ran = []\<rparr>"

definition shared_copy :: "'f shared_finally \<Rightarrow> 'f shared_finally" where
  "shared_copy g = g\<lparr>sf_owners := sf_owners g + 1\<rparr>"

definition shared_drop :: "'f shared_finally \<Rightarrow> 'f shared_finally" where
  "shared_drop g = g\<lparr>sf_owners := sf_owners g - 1,
     sf_ran := sf_ran g @ (if sf_owners g = 1 then finally_destroy (sf_guard g) else [])\<rparr>"

text \<open>Only an owner copies or drops; \<open>True\<close> is a copy.\<close>

fun shared_run :: "bool list \<Rightarrow> 'f shared_finally \<Rightarrow> 'f shared_finally option" where
  "shared_run [] g = Some g"
| "shared_run (copy # ops) g =
     (if sf_owners g = 0 then None else shared_run ops (if copy then shared_copy g else shared_drop g))"

lemma shared_run_state:
  "shared_run ops g = Some g' \<Longrightarrow> sf_ran g = (if sf_owners g = 0 then finally_destroy (sf_guard g) else []) \<Longrightarrow>
   sf_guard g' = sf_guard g \<and> sf_ran g' = (if sf_owners g' = 0 then finally_destroy (sf_guard g') else [])"
proof (induction ops arbitrary: g)
  case (Cons copy ops)
  let ?g = "if copy then shared_copy g else shared_drop g"
  have "sf_owners g \<noteq> 0" "shared_run ops ?g = Some g'" using Cons.prems(1) by (auto split: if_splits)
  moreover have "sf_ran ?g = (if sf_owners ?g = 0 then finally_destroy (sf_guard ?g) else [])" "sf_guard ?g = sf_guard g"
    using Cons.prems(2) \<open>sf_owners g \<noteq> 0\<close> by (auto simp: shared_copy_def shared_drop_def)
  ultimately show ?case using Cons.IH by metis
qed simp

text \<open>The function runs exactly once, and only when the last owner is gone.\<close>

lemma shared_finally_once:
  "shared_run ops (make_shared_finally f) = Some g \<Longrightarrow> sf_ran g = (if sf_owners g = 0 then [f] else [])"
  using shared_run_state [of ops "make_shared_finally f" g]
  by (auto simp: make_shared_finally_def make_finally_def finally_destroy_def)

end
