(* ===== verification/Worker_Model.thy ===== *)
theory Worker_Model
  imports Waiting_Fibers Task_Model
begin

text \<open>
  \<open>Scheduler::Worker\<close> (\<open>scheduler.hpp\<close> 263--397, \<open>scheduler.cpp\<close> 318--681) as a state machine.

  A worker is one thread that runs many fibers, one at a time. The record \<open>worker\<close> holds the
  fields of the class, with those of the nested struct \<open>Work\<close> written \<open>work_...\<close>. Fibers are
  numbered as the code numbers them (\<open>Fiber::id_\<close>): 0 is the main fiber, the fibers that
  \<open>createWorkerFiber\<close> makes are 1, 2, ...; a pointer to a fiber is its number.

  \<^bold>\<open>Control.\<close> Each fiber has its own stack; a switch leaves the current one in the middle of
  \<open>suspend\<close>, of \<open>runUntilIdle\<close> or at the end of \<open>run\<close>. The field \<open>fiber_cont\<close> records that place
  for every fiber that is not running, and \<open>resume\<close> is the code after \<open>from->switchTo(to)\<close>
  on the stack of the fiber that is switched to. The field \<open>wpc\<close> is the place of the running
  fiber. Its values are the points where \<open>work_.mutex\<close> is free, where other threads may act on
  the worker, and the heads of the loops.

  \<^bold>\<open>Steps.\<close> Every function of the class is a definition; one that blocks in the middle is
  cut there (\<open>suspend\<close>, \<open>waitForWork\<close> and \<open>waitForWork_wake\<close>, \<open>suspend_switch\<close>, \<open>resume\<close>).
  The relation \<open>tstep\<close> has one rule for each transition of the worker's own thread; \<open>wstep\<close> adds
  one for each operation other threads apply to the worker. The values of the clock, the
  fiber that \<open>unordered_set::begin\<close> yields and the value of a predicate are
  arguments of the rules, so a run may see any of them.

  Two fields are not in the code: \<open>executed\<close>, the bodies of the tasks started so far, and
  \<open>wait_result\<close>, what the last \<open>Worker::wait\<close> to return gave back.
\<close>

section \<open>State\<close>

datatype fstate = Idle | Yielded | Waiting | Queued | Running

datatype mode = MultiThreaded | SingleThreaded

text \<open>The body of a task: user code, or the lambda that \<open>Worker::stop\<close> enqueues. The lambda captures \<open>this\<close>, the worker to be
  stopped, given here by its \<open>id_\<close>; since the task may be stolen it can run on another worker.\<close>

datatype 'u body = User 'u | SetShutdown "32 word"

text \<open>
  What the fiber runs when it calls \<open>wait\<close>: a task taken by \<open>runUntilIdle\<close>, or, on the main
  fiber of a single-threaded worker, the code of the bound thread. The call is
  \<open>Worker::wait(timeout)\<close> or \<open>Worker::wait(lock, timeout, pred)\<close>.
\<close>

datatype ctx = InTask | Outside

datatype wait_kind = WaitPlain | WaitPred

datatype cont =
    NotStarted                               \<comment> \<open>new fiber: its function is \<open>run()\<close>\<close>
  | Suspended ctx wait_kind "int option"     \<comment> \<open>in \<open>suspend\<close>, at \<open>switchToFiber\<close>\<close>
  | Parked                                   \<comment> \<open>in \<open>runUntilIdle\<close>, at \<open>switchToFiber\<close>\<close>
  | Finished                                 \<comment> \<open>at the last \<open>switchToFiber\<close> of \<open>run\<close>\<close>

text \<open>The two callers of \<open>waitForWork\<close>.\<close>

datatype site = SLoop | SSuspend ctx wait_kind "int option"

datatype pc =
    PStart                                   \<comment> \<open>thread not yet holding the mutex\<close>
  | PRun                                     \<comment> \<open>entry of \<open>run\<close>\<close>
  | PRunWait "int option"                    \<comment> \<open>in \<open>Work::wait\<close> called by \<open>run\<close>\<close>
  | PLoop                                    \<comment> \<open>head of \<open>runUntilShutdown\<close>\<close>
  | PSpin site bool                          \<comment> \<open>in \<open>spinForWork\<close>; whether it stole a task\<close>
  | PWait site "int option"                  \<comment> \<open>in \<open>Work::wait\<close> called by \<open>waitForWork\<close>\<close>
  | PIdle                                    \<comment> \<open>head of the outer loop of \<open>runUntilIdle\<close>\<close>
  | PTask                                    \<comment> \<open>in the body of a task\<close>
  | POutside                                 \<comment> \<open>in the code of the bound thread\<close>
  | PWaitRet ctx wait_kind "int option"      \<comment> \<open>in \<open>Worker::wait\<close>, after \<open>suspend\<close>\<close>
  | PExit                                    \<comment> \<open>worker left its loop for good\<close>

record 'u worker =
  own_id :: "32 word"
  wmode :: mode
  work_num :: "64 word"
  work_num_blocked_fibers :: "64 word"
  work_tasks :: "'u body task list"
  work_fibers :: "nat list"
  work_waiting :: "nat waiting_fibers"
  work_notify_added :: bool
  current_fiber :: nat
  idle_fibers :: "nat set"
  worker_fibers :: nat
  fiber_state :: "nat \<Rightarrow> fstate"
  shutdown :: bool
  fiber_cont :: "nat \<Rightarrow> cont"
  wpc :: pc
  executed :: "'u body list"
  wait_result :: "bool option"

definition main_fiber :: nat where
  "main_fiber = 0"

text \<open>
  The constructor and \<open>start\<close>: a multi-threaded worker begins in its new thread, a
  single-threaded one returns to the code that called \<open>Scheduler::bind\<close>. The initial
  state of a \<open>Fiber\<close> is \<open>Running\<close>.
\<close>

definition worker_start :: "mode \<Rightarrow> 32 word \<Rightarrow> 'u worker" where
  "worker_start m i =
     \<lparr>own_id = i, wmode = m, work_num = 0, work_num_blocked_fibers = 0, work_tasks = [], work_fibers = [],
      work_waiting = wf_new, work_notify_added = True, current_fiber = main_fiber,
      idle_fibers = {}, worker_fibers = 0, fiber_state = (\<lambda>_. Running), shutdown = False,
      fiber_cont = (\<lambda>_. NotStarted),
      wpc = (case m of MultiThreaded \<Rightarrow> PStart | SingleThreaded \<Rightarrow> POutside),
      executed = [], wait_result = None\<rparr>"

section \<open>Fiber states and switches\<close>

definition changeFiberState :: "nat \<Rightarrow> fstate \<Rightarrow> fstate \<Rightarrow> 'u worker \<Rightarrow> 'u worker result" where
  "changeFiberState fiber from to w =
     rbind (marl_assert (fiber_state w fiber = from) ''fiber was in an unexpected state'') (\<lambda>_.
     Inr (w\<lparr>fiber_state := (fiber_state w)(fiber := to)\<rparr>))"

definition setFiberState :: "nat \<Rightarrow> fstate \<Rightarrow> 'u worker \<Rightarrow> 'u worker" where
  "setFiberState fiber to w = w\<lparr>fiber_state := (fiber_state w)(fiber := to)\<rparr>"

text \<open>
  The code after the switch on the stack of the fiber that became current: the end of
  \<open>suspend\<close>, the end of the inner loop of \<open>runUntilIdle\<close>, the start of \<open>run\<close>, or what
  follows \<open>run\<close>. The function of a created fiber must not return.
\<close>

definition resume :: "'u worker \<Rightarrow> 'u worker result" where
  "resume w =
     (let f = current_fiber w in
      case fiber_cont w f of
        NotStarted \<Rightarrow> Inr (w\<lparr>wpc := PRun\<rparr>)
      | Suspended c k t \<Rightarrow>
          Inr ((setFiberState f Running
                 (w\<lparr>work_num_blocked_fibers := work_num_blocked_fibers w - 1\<rparr>))
               \<lparr>wpc := PWaitRet c k t\<rparr>)
      | Parked \<Rightarrow> rbind (changeFiberState f Idle Running w) (\<lambda>w'. Inr (w'\<lparr>wpc := PIdle\<rparr>))
      | Finished \<Rightarrow>
          if f = main_fiber then Inr (w\<lparr>wpc := PExit\<rparr>)
          else Inl (Fatal ''function of a fiber returned''))"

text \<open>
  \<open>switchToFiber(to)\<close>, called at the place \<open>here\<close> of the current fiber. \<open>Fiber::switchTo\<close>
  does nothing when \<open>to\<close> is the current fiber, which then goes on behind the call.
\<close>

definition switchToFiber :: "cont \<Rightarrow> nat \<Rightarrow> 'u worker \<Rightarrow> 'u worker result" where
  "switchToFiber here to w =
     rbind (marl_assert (to = main_fiber \<or> to \<notin> idle_fibers w) ''switching to idle fiber'') (\<lambda>_.
     resume (w\<lparr>fiber_cont := (fiber_cont w)(current_fiber w := here), current_fiber := to\<rparr>))"

definition createWorkerFiber :: "'u worker \<Rightarrow> nat \<times> 'u worker" where
  "createWorkerFiber w =
     (let fiber_id = worker_fibers w + 1
      in (fiber_id, w\<lparr>worker_fibers := worker_fibers w + 1,
                      fiber_state := (fiber_state w)(fiber_id := Running),
                      fiber_cont := (fiber_cont w)(fiber_id := NotStarted)\<rparr>))"

section \<open>Queues: what other threads do under the mutex\<close>

text \<open>The second component of the results is whether \<open>work_.added.notify_one()\<close> is called.\<close>

definition enqueue_fiber :: "nat \<Rightarrow> 'u worker \<Rightarrow> ('u worker \<times> bool) result" where
  "enqueue_fiber fiber w =
     (let push = (\<lambda>w1.
        rbind (marl_assert (\<not> wf_contains fiber (work_waiting w1))
                 ''fiber is unexpectedly in the waiting list'') (\<lambda>_.
        let w2 = setFiberState fiber Queued (w1\<lparr>work_fibers := work_fibers w1 @ [fiber]\<rparr>)
        in Inr (w2\<lparr>work_num := work_num w2 + 1\<rparr>, work_notify_added w)))
      in case fiber_state w fiber of
           Running \<Rightarrow> Inr (w, False)
         | Queued \<Rightarrow> Inr (w, False)
         | Waiting \<Rightarrow>
             rbind (wf_erase fiber (work_waiting w)) (\<lambda>q. push (w\<lparr>work_waiting := q\<rparr>))
         | Idle \<Rightarrow> push w
         | Yielded \<Rightarrow> push w)"

definition enqueueAndUnlock :: "'u body task \<Rightarrow> 'u worker \<Rightarrow> 'u worker \<times> bool" where
  "enqueueAndUnlock task w =
     (w\<lparr>work_tasks := work_tasks w @ [task], work_num := work_num w + 1\<rparr>, work_notify_added w)"

definition enqueue_task :: "'u body task \<Rightarrow> 'u worker \<Rightarrow> 'u worker \<times> bool" where
  "enqueue_task task w = enqueueAndUnlock task w"

text \<open>\<open>steal\<close>: \<open>locked\<close> is whether \<open>try_lock\<close> succeeds.\<close>

definition steal :: "bool \<Rightarrow> 'u worker \<Rightarrow> 'u worker \<times> 'u body task option" where
  "steal locked w =
     (if work_num w = 0 then (w, None)
      else if \<not> locked then (w, None)
      else case work_tasks w of
             [] \<Rightarrow> (w, None)
           | t # ts \<Rightarrow>
               if task_is t SameThread then (w, None)
               else (w\<lparr>work_num := work_num w - 1, work_tasks := ts\<rparr>, Some t))"

section \<open>Waiting for work\<close>

text \<open>\<open>while (auto fiber = work_.waiting.take(now))\<close>: every taken fiber leaves the queue.\<close>

lemma wf_take_shrinks:
  "wf_take now q = Inr (Some f, q') \<Longrightarrow> length (wf_timeouts q') < length (wf_timeouts q)"
  by (auto simp: wf_take_def Let_def split: if_splits list.splits)

function enqueueFiberTimeouts :: "int \<Rightarrow> 'u worker \<Rightarrow> 'u worker result" where
  "enqueueFiberTimeouts now w =
     rbind (wf_take now (work_waiting w)) (\<lambda>rq.
       case fst rq of
         None \<Rightarrow> Inr (w\<lparr>work_waiting := snd rq\<rparr>)
       | Some fiber \<Rightarrow>
           rbind (changeFiberState fiber Waiting Queued (w\<lparr>work_waiting := snd rq\<rparr>)) (\<lambda>w1.
           enqueueFiberTimeouts now
             (w1\<lparr>work_fibers := work_fibers w1 @ [fiber], work_num := work_num w1 + 1\<rparr>)))"
  by pat_completeness auto
termination
  by (relation "measure (\<lambda>(now, w). length (wf_timeouts (work_waiting w)))")
    (auto simp: changeFiberState_def dest: wf_take_shrinks)

declare enqueueFiberTimeouts.simps [simp del]

text \<open>
  \<open>Work::wait\<close>: it arms \<open>notify_added\<close> and blocks, until the deadline of the first waiting
  fiber if there is one. \<open>to\<close> is the place in the code, given that deadline.
\<close>

definition work_wait :: "(int option \<Rightarrow> pc) \<Rightarrow> 'u worker \<Rightarrow> 'u worker result" where
  "work_wait to w =
     (if wf_bool (work_waiting w)
      then rbind (wf_next (work_waiting w)) (\<lambda>t.
             Inr (w\<lparr>work_notify_added := True, wpc := to (Some t)\<rparr>))
      else Inr (w\<lparr>work_notify_added := True, wpc := to None\<rparr>))"

definition deadline_passed :: "int option \<Rightarrow> int \<Rightarrow> bool" where
  "deadline_passed d now = (case d of None \<Rightarrow> False | Some t \<Rightarrow> t \<le> now)"

text \<open>The part of \<open>suspend\<close> after \<open>waitForWork\<close>; \<open>pick\<close> is what \<open>idle_fibers.begin()\<close> yields.\<close>

definition suspend_switch ::
  "ctx \<Rightarrow> wait_kind \<Rightarrow> int option \<Rightarrow> nat \<Rightarrow> 'u worker \<Rightarrow> 'u worker result" where
  "suspend_switch c k t pick w =
     (let w1 = w\<lparr>work_num_blocked_fibers := work_num_blocked_fibers w + 1\<rparr> in
      case work_fibers w1 of
        to # rest \<Rightarrow>
          let w2 = w1\<lparr>work_num := work_num w1 - 1, work_fibers := rest\<rparr> in
          rbind (marl_assert (fiber_state w2 to = Queued) ''fiber was in an unexpected state'') (\<lambda>_.
          switchToFiber (Suspended c k t) to w2)
      | [] \<Rightarrow>
          if idle_fibers w1 \<noteq> {} then
            let w2 = w1\<lparr>idle_fibers := idle_fibers w1 - {pick}\<rparr> in
            rbind (marl_assert (fiber_state w2 pick = Idle) ''fiber was in an unexpected state'') (\<lambda>_.
            switchToFiber (Suspended c k t) pick w2)
          else
            let (fiber, w2) = createWorkerFiber w1
            in switchToFiber (Suspended c k t) fiber w2)"

definition runUntilIdle_begin :: "'u worker \<Rightarrow> 'u worker result" where
  "runUntilIdle_begin w =
     rbind (marl_assert (fiber_state w (current_fiber w) = Running)
              ''fiber was in an unexpected state'') (\<lambda>_.
     rbind (marl_assert (work_num w = of_nat (length (work_fibers w)) + of_nat (length (work_tasks w)))
              ''work.num out of sync'') (\<lambda>_.
     Inr (w\<lparr>wpc := PIdle\<rparr>)))"

definition after_waitForWork :: "site \<Rightarrow> nat \<Rightarrow> 'u worker \<Rightarrow> 'u worker result" where
  "after_waitForWork s pick w =
     (case s of SLoop \<Rightarrow> runUntilIdle_begin w | SSuspend c k t \<Rightarrow> suspend_switch c k t pick w)"

text \<open>
  \<open>waitForWork\<close> up to the point where it releases the mutex. In multi-threaded mode it also
  calls \<open>scheduler_->onBeginSpinning(id_)\<close> there.
\<close>

definition waitForWork :: "site \<Rightarrow> nat \<Rightarrow> 'u worker \<Rightarrow> 'u worker result" where
  "waitForWork s pick w =
     rbind (marl_assert (work_num w = of_nat (length (work_fibers w)) + of_nat (length (work_tasks w)))
              ''work.num out of sync'') (\<lambda>_.
     if 0 < work_num w then after_waitForWork s pick w
     else case wmode w of
            MultiThreaded \<Rightarrow> Inr (w\<lparr>wpc := PSpin s False\<rparr>)
          | SingleThreaded \<Rightarrow> work_wait (PWait s) w)"

text \<open>\<open>spinForWork\<close> adds a stolen task under the mutex and returns; it also returns when there
  is work or after a millisecond. The worker then takes the mutex and calls \<open>Work::wait\<close>.\<close>

definition spinForWork_stolen :: "site \<Rightarrow> 'u body task \<Rightarrow> 'u worker \<Rightarrow> 'u worker" where
  "spinForWork_stolen s stolen w =
     w\<lparr>work_tasks := work_tasks w @ [stolen], work_num := work_num w + 1, wpc := PSpin s True\<rparr>"

text \<open>The condition under which the wait of \<open>waitForWork\<close> ends, and the code behind it.\<close>

definition waitForWork_ready :: "int option \<Rightarrow> int \<Rightarrow> 'u worker \<Rightarrow> bool" where
  "waitForWork_ready d now w \<longleftrightarrow>
     0 < work_num w \<or> (shutdown w \<and> work_num_blocked_fibers w = 0) \<or> deadline_passed d now"

definition waitForWork_wake :: "site \<Rightarrow> int \<Rightarrow> nat \<Rightarrow> 'u worker \<Rightarrow> 'u worker result" where
  "waitForWork_wake s now pick w =
     (let w1 = w\<lparr>work_notify_added := False\<rparr> in
      rbind (if wf_bool (work_waiting w1) then enqueueFiberTimeouts now w1 else Inr w1) (\<lambda>w2.
      after_waitForWork s pick w2))"

section \<open>Suspending a fiber\<close>

definition suspend ::
  "ctx \<Rightarrow> wait_kind \<Rightarrow> int option \<Rightarrow> nat \<Rightarrow> 'u worker \<Rightarrow> 'u worker result" where
  "suspend c k timeout pick w =
     rbind
       (case timeout of
          Some t \<Rightarrow>
            rbind (changeFiberState (current_fiber w) Running Waiting w) (\<lambda>w1.
            rbind (wf_add t (current_fiber w1) (work_waiting w1)) (\<lambda>q.
            Inr (w1\<lparr>work_waiting := q\<rparr>)))
        | None \<Rightarrow> changeFiberState (current_fiber w) Running Yielded w) (\<lambda>w2.
     waitForWork (SSuspend c k timeout) pick w2)"

fun ctx_pc :: "ctx \<Rightarrow> pc" where
  "ctx_pc InTask = PTask"
| "ctx_pc Outside = POutside"

text \<open>
  \<open>Worker::wait(timeout)\<close> and \<open>Worker::wait(lock, timeout, pred)\<close> up to the call of \<open>suspend\<close>;
  \<open>pv\<close> is the value of the predicate.
\<close>

definition wait_plain :: "ctx \<Rightarrow> int option \<Rightarrow> nat \<Rightarrow> 'u worker \<Rightarrow> 'u worker result" where
  "wait_plain c timeout pick w = suspend c WaitPlain timeout pick w"

definition wait_pred :: "ctx \<Rightarrow> int option \<Rightarrow> bool \<Rightarrow> nat \<Rightarrow> 'u worker \<Rightarrow> 'u worker result" where
  "wait_pred c timeout pv pick w =
     (if pv then Inr (w\<lparr>wait_result := Some True, wpc := ctx_pc c\<rparr>)
      else suspend c WaitPred timeout pick w)"

text \<open>Both after \<open>suspend\<close> returned: the clock reads \<open>now\<close>.\<close>

definition wait_after_suspend ::
  "ctx \<Rightarrow> wait_kind \<Rightarrow> int option \<Rightarrow> int \<Rightarrow> bool \<Rightarrow> nat \<Rightarrow> 'u worker \<Rightarrow> 'u worker result" where
  "wait_after_suspend c k timeout now pv pick w =
     (case k of
        WaitPlain \<Rightarrow>
          Inr (w\<lparr>wait_result := Some (timeout = None \<or> \<not> deadline_passed timeout now),
                 wpc := ctx_pc c\<rparr>)
      | WaitPred \<Rightarrow>
          if deadline_passed timeout now
          then Inr (w\<lparr>wait_result := Some False, wpc := ctx_pc c\<rparr>)
          else wait_pred c timeout pv pick w)"

section \<open>The loops\<close>

definition run_begin :: "'u worker \<Rightarrow> 'u worker result" where
  "run_begin w =
     (case wmode w of
        MultiThreaded \<Rightarrow> work_wait PRunWait w
      | SingleThreaded \<Rightarrow>
          rbind (marl_assert (fiber_state w (current_fiber w) = Running)
                   ''fiber was in an unexpected state'') (\<lambda>_.
          Inr (w\<lparr>wpc := PLoop\<rparr>)))"

definition run_ready :: "int option \<Rightarrow> int \<Rightarrow> 'u worker \<Rightarrow> bool" where
  "run_ready d now w \<longleftrightarrow>
     0 < work_num w \<or> wf_bool (work_waiting w) \<or> shutdown w \<or> deadline_passed d now"

definition run_wake :: "'u worker \<Rightarrow> 'u worker result" where
  "run_wake w =
     rbind (marl_assert (fiber_state w (current_fiber w) = Running)
              ''fiber was in an unexpected state'') (\<lambda>_.
     Inr (w\<lparr>work_notify_added := False, wpc := PLoop\<rparr>))"

text \<open>
  One test of the loop of \<open>runUntilShutdown\<close>. Behind the loop, \<open>run\<close> switches to the main
  fiber, while \<open>stop\<close>, which runs the loop of a single-threaded worker on the main fiber,
  returns.
\<close>

definition runUntilShutdown :: "nat \<Rightarrow> 'u worker \<Rightarrow> 'u worker result" where
  "runUntilShutdown pick w =
     (if \<not> shutdown w \<or> 0 < work_num w \<or> 0 < work_num_blocked_fibers w
      then waitForWork SLoop pick w
      else if wmode w = SingleThreaded \<and> current_fiber w = main_fiber
      then Inr (w\<lparr>wpc := PExit\<rparr>)
      else switchToFiber Finished main_fiber w)"

definition run_body :: "'u body \<Rightarrow> 'u worker \<Rightarrow> 'u worker" where
  "run_body b w =
     (case b of User u \<Rightarrow> w | SetShutdown i \<Rightarrow> if i = own_id w then w\<lparr>shutdown := True\<rparr> else w)
       \<lparr>executed := executed w @ [b], wpc := PTask\<rparr>"

text \<open>One round of the loops of \<open>runUntilIdle\<close>: a queued fiber first, else a task, else leave.\<close>

definition runUntilIdle :: "'u worker \<Rightarrow> 'u worker result" where
  "runUntilIdle w =
     (case work_fibers w of
        fiber # rest \<Rightarrow>
          let w1 = w\<lparr>work_num := work_num w - 1, work_fibers := rest\<rparr> in
          rbind (marl_assert (fiber \<notin> idle_fibers w1) ''dequeued fiber is idle'') (\<lambda>_.
          rbind (marl_assert (fiber \<noteq> current_fiber w1) ''dequeued fiber is currently running'') (\<lambda>_.
          rbind (marl_assert (fiber_state w1 fiber = Queued) ''fiber was in an unexpected state'') (\<lambda>_.
          rbind (changeFiberState (current_fiber w1) Running Idle w1) (\<lambda>w2.
          rbind (marl_assert (current_fiber w2 \<notin> idle_fibers w2) ''fiber already idle'') (\<lambda>_.
          switchToFiber Parked fiber
            (w2\<lparr>idle_fibers := insert (current_fiber w2) (idle_fibers w2)\<rparr>))))))
      | [] \<Rightarrow>
          (case work_tasks w of
             task # rest \<Rightarrow>
               rbind (task_call task) (\<lambda>b.
               Inr (run_body b (w\<lparr>work_num := work_num w - 1, work_tasks := rest\<rparr>)))
           | [] \<Rightarrow> Inr (w\<lparr>wpc := PLoop\<rparr>)))"

text \<open>\<open>stop\<close> of a single-threaded worker; the task that \<open>stop\<close> of the other mode enqueues.\<close>

definition stop_single :: "'u worker \<Rightarrow> 'u worker" where
  "stop_single w = w\<lparr>shutdown := True, wpc := PLoop\<rparr>"

definition stop_task :: "32 word \<Rightarrow> 'u body task" where
  "stop_task i = task_new (SetShutdown i) FlagNone"

section \<open>The step relation\<close>

text \<open>The places where the thread of the worker does not hold \<open>work_.mutex\<close>.\<close>

fun mutex_free :: "pc \<Rightarrow> bool" where
  "mutex_free PStart = True"
| "mutex_free (PRunWait d) = True"
| "mutex_free (PSpin s b) = True"
| "mutex_free (PWait s d) = True"
| "mutex_free PTask = True"
| "mutex_free POutside = True"
| "mutex_free (PWaitRet c k t) = True"
| "mutex_free _ = False"

fun user_ctx :: "pc \<Rightarrow> ctx option" where
  "user_ctx PTask = Some InTask"
| "user_ctx POutside = Some Outside"
| "user_ctx _ = None"

text \<open>
  What the model takes from outside the worker:
  \<^item> \<open>pick_ok\<close>: \<open>begin()\<close> of a set that is not empty is one of its elements;
  \<^item> \<open>queue_room\<close>, \<open>fiber_room\<close>: the queues and the fibers fit into memory, so the 64-bit
    counters and the 32-bit number of a fiber do not wrap;
  \<^item> an enqueued task has a function, and \<open>Fiber::notify\<close> is called for a fiber that is in
    use, not for one that is parked in \<open>idle_fibers\<close>.
\<close>

definition pick_ok :: "nat \<Rightarrow> 'u worker \<Rightarrow> bool" where
  "pick_ok pick w \<longleftrightarrow> pick \<in> idle_fibers w \<or> idle_fibers w = {}"

definition queue_room :: "'u worker \<Rightarrow> bool" where
  "queue_room w \<longleftrightarrow>
     length (work_fibers w) + length (work_tasks w) + length (wf_fibers (work_waiting w)) + 1 < 2 ^ 63"

definition fiber_room :: "'u worker \<Rightarrow> bool" where
  "fiber_room w \<longleftrightarrow> worker_fibers w + 1 < 2 ^ 32"

text \<open>The steps of the thread of the worker, and all steps: what the other threads do to it under the mutex, the task that it has
  stolen from another worker, and the flag \<open>shutdown\<close>, which another worker sets, without the mutex, when it runs the task of
  \<open>stop\<close> that it has stolen.\<close>

inductive tstep :: "'u worker \<Rightarrow> 'u worker result \<Rightarrow> bool" where
  ts_start: "wpc w = PStart \<Longrightarrow> tstep w (Inr (w\<lparr>wpc := PRun\<rparr>))"
| ts_run: "wpc w = PRun \<Longrightarrow> tstep w (run_begin w)"
| ts_run_wake: "wpc w = PRunWait d \<Longrightarrow> run_ready d now w \<Longrightarrow> tstep w (run_wake w)"
| ts_loop: "wpc w = PLoop \<Longrightarrow> pick_ok pick w \<Longrightarrow> tstep w (runUntilShutdown pick w)"
| ts_spin_return: "wpc w = PSpin s b \<Longrightarrow> tstep w (work_wait (PWait s) w)"
| ts_wake: "wpc w = PWait s d \<Longrightarrow> waitForWork_ready d now w \<Longrightarrow> pick_ok pick w \<Longrightarrow> fiber_room w \<Longrightarrow>
    tstep w (waitForWork_wake s now' pick w)"
| ts_idle: "wpc w = PIdle \<Longrightarrow> tstep w (runUntilIdle w)"
| ts_task_done: "wpc w = PTask \<Longrightarrow> tstep w (Inr (w\<lparr>wpc := PIdle\<rparr>))"
| ts_wait_plain: "user_ctx (wpc w) = Some c \<Longrightarrow> pick_ok pick w \<Longrightarrow> fiber_room w \<Longrightarrow> queue_room w \<Longrightarrow>
    tstep w (wait_plain c timeout pick w)"
| ts_wait_pred: "user_ctx (wpc w) = Some c \<Longrightarrow> pick_ok pick w \<Longrightarrow> fiber_room w \<Longrightarrow> queue_room w \<Longrightarrow>
    tstep w (wait_pred c timeout pv pick w)"
| ts_wait_return: "wpc w = PWaitRet c k timeout \<Longrightarrow> pick_ok pick w \<Longrightarrow> fiber_room w \<Longrightarrow> queue_room w \<Longrightarrow>
    tstep w (wait_after_suspend c k timeout now pv pick w)"
| ts_stop: "wpc w = POutside \<Longrightarrow> tstep w (Inr (stop_single w))"

inductive wstep :: "'u worker \<Rightarrow> 'u worker result \<Rightarrow> bool" where
  ws_thread: "tstep w r \<Longrightarrow> wstep w r"
| ws_spin_steal: "wpc w = PSpin s False \<Longrightarrow> task_bool t \<Longrightarrow> queue_room w \<Longrightarrow>
    wstep w (Inr (spinForWork_stolen s t w))"
| ws_enqueue_task: "mutex_free (wpc w) \<Longrightarrow> task_bool t \<Longrightarrow> queue_room w \<Longrightarrow>
    wstep w (Inr (fst (enqueue_task t w)))"
| ws_enqueue_fiber: "mutex_free (wpc w) \<Longrightarrow> f \<le> worker_fibers w \<Longrightarrow> fiber_state w f \<noteq> Idle \<Longrightarrow>
    queue_room w \<Longrightarrow> wstep w (rbind (enqueue_fiber f w) (\<lambda>r. Inr (fst r)))"
| ws_steal: "mutex_free (wpc w) \<Longrightarrow> wstep w (Inr (fst (steal locked w)))"
| ws_shutdown: "wmode w = MultiThreaded \<Longrightarrow> wstep w (Inr (w\<lparr>shutdown := True\<rparr>))"

definition worker_init :: "'u worker \<Rightarrow> bool" where
  "worker_init w \<longleftrightarrow> (\<exists>m i. w = worker_start m i)"

abbreviation worker_reach :: "'u worker \<Rightarrow> bool" where
  "worker_reach \<equiv> reach worker_init wstep"

end
