(* ===== verification/Worker_Invariant.thy ===== *)
theory Worker_Invariant
  imports Worker_Model
begin

text \<open>
  The invariant of a worker and its proof. \<open>ginv\<close> says that the five states of a fiber, the
  three containers a fiber can be in (\<open>work_.fibers\<close>, \<open>work_.waiting\<close>, \<open>idle_fibers_\<close>) and the
  place where its stack stands agree, and that the two counters of \<open>Work\<close> count what they are
  meant to count. It does not mention the program counter: its argument is the role
  of the running fiber, which is active except while it sits in \<open>suspend\<close>. \<open>winv\<close> adds
  the conditions of each program counter, and the last phase of a worker, in which the
  main fiber has been resumed out of \<open>idle_fibers_\<close> by the end of \<open>run\<close>.

  Every operation has one lemma: from the invariant it returns (none of its \<open>MARL_ASSERT\<close>s
  fails) and re-establishes it. They discharge the locale \<open>invariant_system\<close>.
\<close>

section \<open>The invariant\<close>

datatype role = RActive | RBlocked

abbreviation waits :: "'u worker \<Rightarrow> nat set" where
  "waits w \<equiv> dom (wf_abs (work_waiting w))"

definition located :: "'u worker \<Rightarrow> nat \<Rightarrow> bool" where
  "located w f \<longleftrightarrow>
     (f \<in> set (work_fibers w) \<longleftrightarrow> fiber_state w f = Queued) \<and>
     (f \<in> waits w \<longleftrightarrow> fiber_state w f = Waiting) \<and>
     (f \<in> idle_fibers w \<longleftrightarrow> fiber_state w f = Idle)"

fun is_suspended :: "cont \<Rightarrow> bool" where
  "is_suspended (Suspended c k t) = True"
| "is_suspended _ = False"

definition blocked_state :: "fstate \<Rightarrow> bool" where
  "blocked_state s \<longleftrightarrow> s = Yielded \<or> s = Waiting \<or> s = Queued"

fun role_state :: "role \<Rightarrow> fstate \<Rightarrow> bool" where
  "role_state RActive s = (s = Running)"
| "role_state RBlocked s = blocked_state s"

fun cont_state :: "cont \<Rightarrow> fstate \<Rightarrow> bool" where
  "cont_state (Suspended c k t) s = blocked_state s"
| "cont_state Parked s = (s = Idle)"
| "cont_state _ s = False"

text \<open>The fibers that \<open>work_.num_blocked_fibers\<close> counts.\<close>

definition blocked_fibers :: "'u worker \<Rightarrow> nat set" where
  "blocked_fibers w =
     {f. f \<le> worker_fibers w \<and> f \<noteq> current_fiber w \<and> is_suspended (fiber_cont w f)}"

definition queued_total :: "'u worker \<Rightarrow> nat" where
  "queued_total w =
     length (work_fibers w) + length (work_tasks w) + length (wf_fibers (work_waiting w))"

definition outside_ok :: "'u worker \<Rightarrow> bool" where
  "outside_ok w \<longleftrightarrow>
     (\<forall>f k t. f \<noteq> current_fiber w \<longrightarrow> fiber_cont w f = Suspended Outside k t \<longrightarrow>
        f = main_fiber \<and> wmode w = SingleThreaded)"

definition counters_ok :: "'u worker \<Rightarrow> bool" where
  "counters_ok w \<longleftrightarrow>
     work_num w = of_nat (length (work_fibers w) + length (work_tasks w)) \<and>
     work_num_blocked_fibers w = of_nat (card (blocked_fibers w)) \<and>
     queued_total w < 2 ^ 63 \<and> worker_fibers w < 2 ^ 32"

definition containers_ok :: "'u worker \<Rightarrow> bool" where
  "containers_ok w \<longleftrightarrow>
     distinct (work_fibers w) \<and> wf_inv (work_waiting w) \<and>
     (\<forall>t \<in> set (work_tasks w). task_bool t)"

definition ginv :: "role \<Rightarrow> 'u worker \<Rightarrow> bool" where
  "ginv r w \<longleftrightarrow>
     (\<forall>f. located w f) \<and> (\<forall>f > worker_fibers w. fiber_state w f = Running) \<and>
     current_fiber w \<le> worker_fibers w \<and> role_state r (fiber_state w (current_fiber w)) \<and>
     (\<forall>f \<le> worker_fibers w. f \<noteq> current_fiber w \<longrightarrow> cont_state (fiber_cont w f) (fiber_state w f)) \<and>
     outside_ok w \<and> counters_ok w \<and> containers_ok w"

fun site_role :: "site \<Rightarrow> role" where
  "site_role SLoop = RActive"
| "site_role (SSuspend c k t) = RBlocked"

fun pc_role :: "pc \<Rightarrow> role" where
  "pc_role (PSpin s b) = site_role s"
| "pc_role (PWait s d) = site_role s"
| "pc_role _ = RActive"

text \<open>The code of the bound thread runs on the main fiber of a single-threaded worker only.\<close>

definition bound_thread :: "'u worker \<Rightarrow> bool" where
  "bound_thread w \<longleftrightarrow> current_fiber w = main_fiber \<and> wmode w = SingleThreaded"

fun ctx_ok :: "ctx \<Rightarrow> 'u worker \<Rightarrow> bool" where
  "ctx_ok InTask w = True"
| "ctx_ok Outside w = bound_thread w"

fun site_ok :: "site \<Rightarrow> 'u worker \<Rightarrow> bool" where
  "site_ok SLoop w = True"
| "site_ok (SSuspend c k t) w = ctx_ok c w"

fun pc_ok :: "pc \<Rightarrow> 'u worker \<Rightarrow> bool" where
  "pc_ok (PRunWait d) w = work_notify_added w"
| "pc_ok (PSpin s b) w = site_ok s w"
| "pc_ok (PWait s d) w = (work_notify_added w \<and> site_ok s w)"
| "pc_ok POutside w = bound_thread w"
| "pc_ok (PWaitRet c k t) w = ctx_ok c w"
| "pc_ok PExit w = False"
| "pc_ok _ w = True"

definition exit_inv :: "'u worker \<Rightarrow> bool" where
  "exit_inv w \<longleftrightarrow>
     (wpc w = PIdle \<or> wpc w = PLoop \<or> wpc w = PExit) \<and> current_fiber w = main_fiber \<and>
     shutdown w \<and> work_num w = 0 \<and> work_num_blocked_fibers w = 0 \<and> work_fibers w = [] \<and>
     work_tasks w = [] \<and> waits w = {}"

definition live_inv :: "'u worker \<Rightarrow> bool" where
  "live_inv w \<longleftrightarrow> ginv (pc_role (wpc w)) w \<and> pc_ok (wpc w) w"

definition winv :: "'u worker \<Rightarrow> bool" where
  "winv w \<longleftrightarrow> live_inv w \<or> exit_inv w"

lemmas ginv_defs = ginv_def located_def outside_ok_def counters_ok_def containers_ok_def

section \<open>Changes the invariant does not see\<close>

lemma blocked_fibers_cong:
  "worker_fibers w' = worker_fibers w \<Longrightarrow> current_fiber w' = current_fiber w \<Longrightarrow>
   fiber_cont w' = fiber_cont w \<Longrightarrow> blocked_fibers w' = blocked_fibers w"
  by (simp add: blocked_fibers_def)

lemma ginv_pc [simp]: "ginv r (w\<lparr>wpc := p\<rparr>) = ginv r w"
  by (simp add: ginv_defs queued_total_def blocked_fibers_def)

lemma ginv_notify [simp]: "ginv r (w\<lparr>work_notify_added := b\<rparr>) = ginv r w"
  by (simp add: ginv_defs queued_total_def blocked_fibers_def)

lemma ginv_shutdown [simp]: "ginv r (w\<lparr>shutdown := b\<rparr>) = ginv r w"
  by (simp add: ginv_defs queued_total_def blocked_fibers_def)

lemma ginv_executed [simp]: "ginv r (w\<lparr>executed := b\<rparr>) = ginv r w"
  by (simp add: ginv_defs queued_total_def blocked_fibers_def)

lemma ginv_wait_result [simp]: "ginv r (w\<lparr>wait_result := b\<rparr>) = ginv r w"
  by (simp add: ginv_defs queued_total_def blocked_fibers_def)

text \<open>Operations on the queues leave the control part of a worker alone.\<close>

definition same_control :: "'u worker \<Rightarrow> 'u worker \<Rightarrow> bool" where
  "same_control w w' \<longleftrightarrow>
     wpc w' = wpc w \<and> wmode w' = wmode w \<and> current_fiber w' = current_fiber w \<and>
     work_notify_added w' = work_notify_added w \<and> shutdown w' = shutdown w \<and>
     worker_fibers w' = worker_fibers w \<and> fiber_cont w' = fiber_cont w \<and>
     idle_fibers w' = idle_fibers w \<and> executed w' = executed w"

lemma same_control_refl [simp]: "same_control w w"
  by (simp add: same_control_def)

lemma same_control_trans: "same_control u v \<Longrightarrow> same_control v w \<Longrightarrow> same_control u w"
  by (simp add: same_control_def)

lemma ctx_ok_cong: "same_control w w' \<Longrightarrow> ctx_ok c w' = ctx_ok c w"
  by (cases c) (simp_all add: same_control_def bound_thread_def)

lemma site_ok_cong: "same_control w w' \<Longrightarrow> site_ok s w' = site_ok s w"
  by (cases s) (simp_all add: ctx_ok_cong)

lemma pc_ok_cong: "same_control w w' \<Longrightarrow> pc_ok p w' = pc_ok p w"
  by (cases p) (simp_all add: ctx_ok_cong site_ok_cong, simp_all add: same_control_def bound_thread_def)

lemma bound_thread_upd [simp]:
  "bound_thread (w\<lparr>wpc := p\<rparr>) = bound_thread w"
  "bound_thread (w\<lparr>work_notify_added := b\<rparr>) = bound_thread w"
  "bound_thread (w\<lparr>wait_result := x\<rparr>) = bound_thread w"
  "bound_thread (w\<lparr>shutdown := b\<rparr>) = bound_thread w"
  "bound_thread (w\<lparr>executed := y\<rparr>) = bound_thread w"
  by (simp_all add: bound_thread_def)

lemma ctx_ok_upd [simp]:
  "ctx_ok c (w\<lparr>wpc := p\<rparr>) = ctx_ok c w"
  "ctx_ok c (w\<lparr>work_notify_added := b\<rparr>) = ctx_ok c w"
  "ctx_ok c (w\<lparr>wait_result := x\<rparr>) = ctx_ok c w"
  by (cases c; simp)+

lemma site_ok_upd [simp]:
  "site_ok s (w\<lparr>wpc := p\<rparr>) = site_ok s w"
  "site_ok s (w\<lparr>work_notify_added := b\<rparr>) = site_ok s w"
  by (cases s; simp)+

lemma finite_blocked_fibers [simp]: "finite (blocked_fibers w)"
  by (rule finite_subset [of _ "{.. worker_fibers w}"]) (auto simp: blocked_fibers_def)

lemma card_blocked_fibers: "card (blocked_fibers w) \<le> Suc (worker_fibers w)"
proof -
  have "card (blocked_fibers w) \<le> card {.. worker_fibers w}"
    by (rule card_mono) (auto simp: blocked_fibers_def)
  then show ?thesis by simp
qed

lemma wf_length: "wf_inv q \<Longrightarrow> length (wf_fibers q) = card (dom (wf_abs q))"
  using distinct_card [of "map fst (wf_fibers q)"]
  by (simp add: wf_inv_def wf_abs_def dom_map_of_conv_image_fst)

text \<open>What the counters tell: the tests of the code are the tests they stand for.\<close>

lemma ginv_num_zero:
  assumes "ginv r w"
  shows "work_num w = 0 \<longleftrightarrow> work_fibers w = [] \<and> work_tasks w = []"
proof -
  have "length (work_fibers w) + length (work_tasks w) < 2 ^ LENGTH(64)"
    using assms by (simp add: ginv_def counters_ok_def queued_total_def)
  from of_nat_eq_0_less [OF this] show ?thesis
    using assms by (simp add: ginv_def counters_ok_def)
qed

lemma ginv_blocked_zero:
  assumes "ginv r w"
  shows "work_num_blocked_fibers w = 0 \<longleftrightarrow> blocked_fibers w = {}"
proof -
  have "card (blocked_fibers w) < 2 ^ 64"
    using assms card_blocked_fibers [of w] by (simp add: ginv_def counters_ok_def)
  then show ?thesis
    using assms by (simp add: ginv_def counters_ok_def of_nat_eq_0_less)
qed

lemma ginv_queued:
  assumes "ginv r w" and "f \<in> set (work_fibers w)"
  shows "fiber_state w f = Queued" and "f \<le> worker_fibers w" and "f \<notin> idle_fibers w"
    and "f \<notin> waits w" and "f \<noteq> current_fiber w \<Longrightarrow> is_suspended (fiber_cont w f)"
proof -
  show q: "fiber_state w f = Queued" using assms by (simp add: ginv_defs)
  then show le: "f \<le> worker_fibers w" using assms(1) by (force simp: ginv_def not_le [symmetric])
  show "f \<notin> idle_fibers w" "f \<notin> waits w" using assms(1) q by (auto simp: ginv_defs)
  assume "f \<noteq> current_fiber w"
  with assms(1) le q show "is_suspended (fiber_cont w f)"
    by (cases "fiber_cont w f") (force simp: ginv_def)+
qed

section \<open>The queues\<close>

lemma enqueue_task_ginv:
  assumes "ginv r w" and "queue_room w" and "task_bool t"
  shows "ginv r (fst (enqueue_task t w)) \<and> same_control w (fst (enqueue_task t w))"
  using assms
  by (auto simp: enqueue_task_def enqueueAndUnlock_def ginv_defs same_control_def queue_room_def
      queued_total_def blocked_fibers_def)

lemma steal_ginv:
  assumes "ginv r w"
  shows "ginv r (fst (steal locked w)) \<and> same_control w (fst (steal locked w))"
  using assms
  by (auto simp: steal_def ginv_defs same_control_def queued_total_def blocked_fibers_def
      split: list.splits)

lemma push_queued_ginv:
  assumes inv: "ginv r w" and f: "f \<le> worker_fibers w" "blocked_state (fiber_state w f)"
    and nq: "fiber_state w f \<noteq> Queued"
    and q: "wf_inv q" "wf_abs q = (wf_abs (work_waiting w))(f := None)"
    and total: "queued_total w' < 2 ^ 63"
    and w': "w' = w\<lparr>work_waiting := q, work_fibers := work_fibers w @ [f],
                    fiber_state := (fiber_state w)(f := Queued), work_num := work_num w + 1\<rparr>"
  shows "ginv r w' \<and> same_control w w'"
proof -
  have "f \<notin> set (work_fibers w)" "f \<notin> idle_fibers w"
    using inv f(2) nq by (auto simp: ginv_defs blocked_state_def)
  moreover have "role_state r (fiber_state w' (current_fiber w'))"
    using inv f(2) w' by (cases r) (auto simp: ginv_def blocked_state_def)
  moreover have "cont_state (fiber_cont w' g) (fiber_state w' g)"
    if "g \<le> worker_fibers w'" "g \<noteq> current_fiber w'" for g
    using inv that w' f(2)
    by (cases "fiber_cont w g") (fastforce simp: ginv_def blocked_state_def)+
  ultimately show ?thesis
    using inv f q total unfolding w'
    by (auto simp: ginv_defs same_control_def blocked_fibers_def)
qed

lemma wf_erase_absent:
  "wf_inv q \<Longrightarrow> wf_abs q f = None \<Longrightarrow> (wf_abs q)(f := None) = wf_abs q"
  by (simp add: fun_upd_idem)

lemma enqueue_fiber_ginv:
  assumes inv: "ginv r w" and "queue_room w" and f: "f \<le> worker_fibers w"
    and used: "fiber_state w f \<noteq> Idle"
  shows "\<exists>w' b. enqueue_fiber f w = Inr (w', b) \<and> ginv r w' \<and> same_control w w'"
proof (cases "fiber_state w f = Running \<or> fiber_state w f = Queued")
  case True
  then show ?thesis using inv by (auto simp: enqueue_fiber_def Let_def)
next
  case False
  then have bs: "blocked_state (fiber_state w f)" "fiber_state w f \<noteq> Queued"
    using used by (cases "fiber_state w f"; simp add: blocked_state_def)+
  have wfq: "wf_inv (work_waiting w)" using inv by (simp add: ginv_def containers_ok_def)
  obtain q where q: "wf_erase f (work_waiting w) = Inr q" "wf_inv q"
    "wf_abs q = (wf_abs (work_waiting w))(f := None)"
    using wf.erase_spec [OF wfq, of f] by blast
  define w' where "w' = w\<lparr>work_waiting := q, work_fibers := work_fibers w @ [f],
                    fiber_state := (fiber_state w)(f := Queued), work_num := work_num w + 1\<rparr>"
  have "card (dom (wf_abs q)) \<le> card (dom (wf_abs (work_waiting w)))"
    by (rule card_mono) (auto simp: q(3) wf.finite_abs [OF wfq])
  then have "queued_total w' < 2 ^ 63"
    using assms(2) wf_length [OF q(2)] wf_length [OF wfq]
    by (simp add: w'_def queued_total_def queue_room_def)
  from push_queued_ginv [OF inv f bs q(2,3) this w'_def]
  have res: "ginv r w' \<and> same_control w w'" .
  have "enqueue_fiber f w = Inr (w', work_notify_added w)"
  proof (cases "fiber_state w f")
    case Waiting
    have "\<not> wf_contains f q" using wf.contains_spec [OF q(2)] q(3) by simp
    with Waiting q(1) show ?thesis
      by (simp add: enqueue_fiber_def Let_def setFiberState_def w'_def)
  next
    case Yielded
    then have "f \<notin> waits w" using inv by (simp add: ginv_defs)
    then have "wf_abs (work_waiting w) f = None" "\<not> wf_contains f (work_waiting w)"
      using wf.contains_spec [OF wfq] by auto
    moreover from this(1) q(1) have "q = work_waiting w" by (simp add: wf_erase_def wf_abs_def)
    ultimately show ?thesis using Yielded
      by (simp add: enqueue_fiber_def Let_def setFiberState_def w'_def)
  qed (use bs in \<open>auto simp: blocked_state_def\<close>)
  with res show ?thesis by blast
qed

lemma push_queued_order:
  "w\<lparr>work_waiting := q, fiber_state := s, work_fibers := l, work_num := n\<rparr> =
   w\<lparr>work_waiting := q, work_fibers := l, fiber_state := s, work_num := n\<rparr>"
  by (cases w) simp

lemma enqueueFiberTimeouts_ginv:
  "ginv r w \<Longrightarrow>
   \<exists>w'. enqueueFiberTimeouts now w = Inr w' \<and> ginv r w' \<and> same_control w w' \<and>
        work_tasks w' = work_tasks w"
proof (induction now w rule: enqueueFiberTimeouts.induct)
  case (1 now w)
  have wfq: "wf_inv (work_waiting w)" using "1.prems" by (simp add: ginv_def containers_ok_def)
  obtain r0 q where tk: "wf_take now (work_waiting w) = Inr (r0, q)"
    using wf.take_ok [OF wfq] by blast
  show ?case
  proof (cases r0)
    case None
    with wf.take_None [OF wfq] tk have "q = work_waiting w" by blast
    with tk None "1.prems" show ?thesis by (simp add: enqueueFiberTimeouts.simps [of now w])
  next
    case (Some f)
    note q = wf.take_Some [OF wfq tk [unfolded Some]]
    then have fw: "f \<in> waits w" by auto
    then have st: "fiber_state w f = Waiting" using "1.prems" by (simp add: ginv_defs)
    then have le: "f \<le> worker_fibers w"
      using "1.prems" by (force simp: ginv_def not_le [symmetric])
    define w1 where "w1 = w\<lparr>work_waiting := q, work_fibers := work_fibers w @ [f],
                    fiber_state := (fiber_state w)(f := Queued), work_num := work_num w + 1\<rparr>"
    have "Suc (card (dom (wf_abs q))) = card (dom (wf_abs (work_waiting w)))"
      unfolding q(2) dom_fun_upd using card_Suc_Diff1 [OF wf.finite_abs [OF wfq] fw]
      by (simp only: if_True simp_thms)
    then have "queued_total w1 < 2 ^ 63"
      using "1.prems" wf_length [OF q(1)] wf_length [OF wfq]
      by (simp add: w1_def queued_total_def ginv_def counters_ok_def)
    then have inv1: "ginv r w1 \<and> same_control w w1"
      using push_queued_ginv [OF "1.prems" le _ _ q(1,2) _ w1_def] st by (simp add: blocked_state_def)
    have rec: "enqueueFiberTimeouts now w = enqueueFiberTimeouts now w1"
      using tk Some st
      by (simp add: enqueueFiberTimeouts.simps [of now w] changeFiberState_def w1_def push_queued_order)
    have "\<exists>w'. enqueueFiberTimeouts now w1 = Inr w' \<and> ginv r w' \<and> same_control w1 w' \<and>
               work_tasks w' = work_tasks w1"
      using "1.IH" [OF tk, of f "w\<lparr>work_waiting := q, fiber_state := (fiber_state w)(f := Queued)\<rparr>"]
        inv1 Some st
      by (simp add: changeFiberState_def w1_def push_queued_order)
    with rec inv1 show ?thesis using same_control_trans by (auto simp: w1_def)
  qed
qed

section \<open>Switching fibers\<close>

text \<open>
  The current fiber leaves, either into \<open>suspend\<close> or into \<open>idle_fibers_\<close>. \<open>leave\<close> is the
  state in which the worker stands when it enters \<open>from->switchTo(to)\<close>, up to the count of
  blocked fibers, which \<open>suspend\<close> has already raised.
\<close>

definition leaving :: "cont \<Rightarrow> 'u worker \<Rightarrow> bool" where
  "leaving here w \<longleftrightarrow>
     (case here of
        Suspended c k t \<Rightarrow> ginv RBlocked w \<and> ctx_ok c w
      | Parked \<Rightarrow> ginv RActive w
      | _ \<Rightarrow> False)"

fun leave_state :: "cont \<Rightarrow> fstate \<Rightarrow> fstate" where
  "leave_state Parked s = Idle"
| "leave_state _ s = s"

fun leave_idle :: "cont \<Rightarrow> nat \<Rightarrow> nat set \<Rightarrow> nat set" where
  "leave_idle Parked f I = insert f I"
| "leave_idle _ f I = I"

fun leave_blocked :: "cont \<Rightarrow> 64 word \<Rightarrow> 64 word" where
  "leave_blocked (Suspended c k t) n = n + 1"
| "leave_blocked _ n = n"

definition leave :: "cont \<Rightarrow> 'u worker \<Rightarrow> 'u worker" where
  "leave here w =
     w\<lparr>fiber_state := (fiber_state w)(current_fiber w := leave_state here (fiber_state w (current_fiber w))),
       idle_fibers := leave_idle here (current_fiber w) (idle_fibers w),
       work_num_blocked_fibers := leave_blocked here (work_num_blocked_fibers w),
       fiber_cont := (fiber_cont w)(current_fiber w := here)\<rparr>"

lemma ginvD:
  assumes "ginv r w"
  shows "located w f" and "worker_fibers w < f \<Longrightarrow> fiber_state w f = Running"
    and "current_fiber w \<le> worker_fibers w" and "role_state r (fiber_state w (current_fiber w))"
    and "f \<le> worker_fibers w \<Longrightarrow> f \<noteq> current_fiber w \<Longrightarrow> cont_state (fiber_cont w f) (fiber_state w f)"
    and "outside_ok w" and "counters_ok w" and "containers_ok w"
  using assms unfolding ginv_def by blast+

lemma leaving_ginv: "leaving here w \<Longrightarrow> \<exists>r. ginv r w"
  by (cases here) (auto simp: leaving_def)

lemma leaving_cont_state:
  "leaving here w \<Longrightarrow> cont_state here (leave_state here (fiber_state w (current_fiber w)))"
  using ginvD(4) [of RBlocked w] by (cases here) (auto simp: leaving_def)

lemma leave_located:
  assumes "leaving here w"
  shows "located (leave here w) f"
proof (cases here)
  case (Suspended c k t)
  then show ?thesis using assms ginvD(1) [of RBlocked w f]
    by (auto simp: leaving_def leave_def located_def)
next
  case Parked
  then show ?thesis using assms ginvD(1,4) [of RActive w]
    by (auto simp: leaving_def leave_def located_def)
qed (use assms in \<open>auto simp: leaving_def\<close>)

lemma leave_outside_ok:
  assumes l: "leaving here w" and susp: "fiber_cont (leave here w) f = Suspended Outside k t"
  shows "f = main_fiber \<and> wmode w = SingleThreaded"
proof (cases "f = current_fiber w")
  case True
  with susp have "here = Suspended Outside k t" by (simp add: leave_def)
  with l True show ?thesis by (simp add: leaving_def bound_thread_def)
next
  case False
  with susp show ?thesis
    using leaving_ginv [OF l] ginvD(6) by (fastforce simp: leave_def outside_ok_def)
qed

lemma leave_cont_state:
  assumes "leaving here w" and "f \<le> worker_fibers w"
  shows "cont_state (fiber_cont (leave here w) f) (fiber_state (leave here w) f)"
proof (cases "f = current_fiber w")
  case True
  then show ?thesis using leaving_cont_state [OF assms(1)] by (simp add: leave_def)
next
  case False
  then show ?thesis using leaving_ginv [OF assms(1)] ginvD(5) assms(2) by (fastforce simp: leave_def)
qed

text \<open>The fibers blocked once \<open>to\<close> is the current one.\<close>

lemma leave_blocked_count:
  assumes l: "leaving here w" and to: "to \<le> worker_fibers w"
    and B: "B = {f. f \<le> worker_fibers w \<and> f \<noteq> to \<and> is_suspended (fiber_cont (leave here w) f)}"
  shows "work_num_blocked_fibers (leave here w) =
    of_nat (card B) + (if is_suspended (fiber_cont (leave here w) to) then 1 else 0)"
proof -
  define A where "A = {f. f \<le> worker_fibers w \<and> is_suspended (fiber_cont (leave here w) f)}"
  have fin: "finite A" by (rule finite_subset [of _ "{.. worker_fibers w}"]) (auto simp: A_def)
  have "current_fiber w \<le> worker_fibers w" and
    nb: "work_num_blocked_fibers w = of_nat (card (blocked_fibers w))"
    using leaving_ginv [OF l] ginvD(3,7) by (fastforce simp: counters_ok_def)+
  then have "A = (if is_suspended here then insert (current_fiber w) (blocked_fibers w)
                  else blocked_fibers w)"
    by (auto simp: A_def blocked_fibers_def leave_def)
  moreover have "current_fiber w \<notin> blocked_fibers w" by (simp add: blocked_fibers_def)
  ultimately have "work_num_blocked_fibers (leave here w) = of_nat (card A)"
    using nb by (cases here) (simp_all add: leave_def)
  moreover have "A = (if is_suspended (fiber_cont (leave here w) to) then insert to B else B)"
    using to by (auto simp: A_def B)
  moreover have "to \<notin> B" "finite B" using fin by (auto simp: A_def B intro: finite_subset)
  ultimately show ?thesis by simp
qed

lemma leave_simps [simp]:
  "work_num (leave here w) = work_num w" "work_fibers (leave here w) = work_fibers w"
  "work_tasks (leave here w) = work_tasks w" "work_waiting (leave here w) = work_waiting w"
  "worker_fibers (leave here w) = worker_fibers w" "wmode (leave here w) = wmode w"
  "current_fiber (leave here w) = current_fiber w" "shutdown (leave here w) = shutdown w"
  "executed (leave here w) = executed w"
  by (simp_all add: leave_def)

lemma leave_state_live:
  "leaving here w \<Longrightarrow> worker_fibers w < f \<Longrightarrow> fiber_state (leave here w) f = Running"
  using leaving_ginv [of here w] ginvD(2,3) by (fastforce simp: leave_def)

lemma switch_to_queued:
  assumes l: "leaving here w" and fs: "work_fibers w = to # rest"
    and w2: "w2 = (leave here w)\<lparr>work_num := work_num w - 1, work_fibers := rest, current_fiber := to\<rparr>"
  shows "\<exists>w'. resume w2 = Inr w' \<and> live_inv w'"
proof -
  obtain r where inv: "ginv r w" using leaving_ginv [OF l] by blast
  note loc = leave_located [OF l]
  have q: "fiber_state (leave here w) to = Queued" using loc [of to] fs by (simp add: located_def)
  then have le: "to \<le> worker_fibers w" using leave_state_live [OF l, of to] by fastforce
  from leave_cont_state [OF l this] q obtain c k t where
    cont: "fiber_cont (leave here w) to = Suspended c k t"
    by (cases "fiber_cont (leave here w) to") auto
  define w' where "w' = w2\<lparr>work_num_blocked_fibers := work_num_blocked_fibers w2 - 1,
    fiber_state := (fiber_state w2)(to := Running), wpc := PWaitRet c k t\<rparr>"
  have "resume w2 = Inr w'"
    using cont by (simp add: resume_def w2 w'_def setFiberState_def)
  have nd: "distinct (to # rest)" using ginvD(8) [OF inv] fs by (simp add: containers_ok_def)
  have "located w' f" for f
    using loc [of f] q nd fs by (auto simp: located_def w'_def w2)
  moreover have "f > worker_fibers w' \<Longrightarrow> fiber_state w' f = Running" for f
    using leave_state_live [OF l] by (simp add: w'_def w2)
  moreover have "cont_state (fiber_cont w' f) (fiber_state w' f)"
    if "f \<le> worker_fibers w'" "f \<noteq> current_fiber w'" for f
    using leave_cont_state [OF l, of f] that by (simp add: w'_def w2)
  moreover have out: "outside_ok w'"
    using leave_outside_ok [OF l] by (auto simp: outside_ok_def w'_def w2)
  moreover have "blocked_fibers w' =
      {f. f \<le> worker_fibers w \<and> f \<noteq> to \<and> is_suspended (fiber_cont (leave here w) f)}"
    by (auto simp: blocked_fibers_def w'_def w2)
  then have "counters_ok w'"
    using leave_blocked_count [OF l le] cont ginvD(7) [OF inv] fs
    by (auto simp: counters_ok_def w'_def w2 queued_total_def)
  moreover have "containers_ok w'"
    using ginvD(8) [OF inv] nd by (simp add: containers_ok_def w'_def w2)
  moreover have "current_fiber w' = to" "worker_fibers w' = worker_fibers w"
    "fiber_state w' to = Running" by (simp_all add: w'_def w2)
  ultimately have "ginv RActive w'" using le by (simp add: ginv_def)
  moreover have "ctx_ok c w'"
    using leave_outside_ok [OF l, of to] cont by (cases c) (auto simp: bound_thread_def w'_def w2)
  ultimately have "live_inv w'" by (simp add: live_inv_def w'_def)
  with \<open>resume w2 = Inr w'\<close> show ?thesis by blast
qed

lemma switch_to_idle:
  assumes l: "leaving (Suspended c k t) w" and pick: "pick \<in> idle_fibers w"
    and w2: "w2 = (leave (Suspended c k t) w)\<lparr>idle_fibers := idle_fibers w - {pick}, current_fiber := pick\<rparr>"
  shows "\<exists>w'. resume w2 = Inr w' \<and> live_inv w'"
proof -
  obtain r where inv: "ginv r w" using leaving_ginv [OF l] by blast
  define here where "here = Suspended c k t"
  note l = l [folded here_def] and w2 = w2 [folded here_def]
  note loc = leave_located [OF l]
  have idle: "idle_fibers (leave here w) = idle_fibers w" by (simp add: here_def leave_def)
  have q: "fiber_state (leave here w) pick = Idle" using loc [of pick] pick idle by (simp add: located_def)
  then have le: "pick \<le> worker_fibers w" using leave_state_live [OF l, of pick] by fastforce
  from leave_cont_state [OF l this] q have cont: "fiber_cont (leave here w) pick = Parked"
    by (cases "fiber_cont (leave here w) pick") (auto simp: blocked_state_def)
  define w' where "w' = w2\<lparr>fiber_state := (fiber_state w2)(pick := Running), wpc := PIdle\<rparr>"
  have "resume w2 = Inr w'"
    using cont q by (simp add: resume_def w2 w'_def changeFiberState_def)
  have "located w' f" for f
    using loc [of f] q idle by (auto simp: located_def w'_def w2)
  moreover have "f > worker_fibers w' \<Longrightarrow> fiber_state w' f = Running" for f
    using leave_state_live [OF l] by (simp add: w'_def w2)
  moreover have "cont_state (fiber_cont w' f) (fiber_state w' f)"
    if "f \<le> worker_fibers w'" "f \<noteq> current_fiber w'" for f
    using leave_cont_state [OF l, of f] that by (simp add: w'_def w2)
  moreover have "outside_ok w'"
    using leave_outside_ok [OF l] by (auto simp: outside_ok_def w'_def w2)
  moreover have "blocked_fibers w' =
      {f. f \<le> worker_fibers w \<and> f \<noteq> pick \<and> is_suspended (fiber_cont (leave here w) f)}"
    by (auto simp: blocked_fibers_def w'_def w2)
  then have "counters_ok w'"
    using leave_blocked_count [OF l le] cont ginvD(7) [OF inv]
    by (auto simp: counters_ok_def w'_def w2 queued_total_def)
  moreover have "containers_ok w'"
    using ginvD(8) [OF inv] by (simp add: containers_ok_def w'_def w2)
  moreover have "current_fiber w' = pick" "worker_fibers w' = worker_fibers w"
    "fiber_state w' pick = Running" by (simp_all add: w'_def w2)
  ultimately have "ginv RActive w'" using le by (simp add: ginv_def)
  then have "live_inv w'" by (simp add: live_inv_def w'_def)
  with \<open>resume w2 = Inr w'\<close> show ?thesis by blast
qed

lemma switch_to_new:
  assumes l: "leaving here w" and room: "fiber_room w"
    and w2: "w2 = (leave here w)\<lparr>worker_fibers := n, fiber_state := (fiber_state (leave here w))(n := Running),
                 fiber_cont := (fiber_cont (leave here w))(n := NotStarted), current_fiber := n\<rparr>"
    and n: "n = Suc (worker_fibers w)"
  shows "\<exists>w'. resume w2 = Inr w' \<and> live_inv w'"
proof -
  obtain r where inv: "ginv r w" using leaving_ginv [OF l] by blast
  note loc = leave_located [OF l]
  have run: "fiber_state (leave here w) n = Running" using leave_state_live [OF l, of n] n by simp
  define w' where "w' = w2\<lparr>wpc := PRun\<rparr>"
  have "resume w2 = Inr w'" by (simp add: resume_def w2 w'_def)
  have "located w' f" for f
    using loc [of f] run by (auto simp: located_def w'_def w2)
  moreover have "f > worker_fibers w' \<Longrightarrow> fiber_state w' f = Running" for f
    using leave_state_live [OF l] n by (simp add: w'_def w2)
  moreover have "cont_state (fiber_cont w' f) (fiber_state w' f)"
    if "f \<le> worker_fibers w'" "f \<noteq> current_fiber w'" for f
    using leave_cont_state [OF l, of f] that n by (simp add: w'_def w2)
  moreover have "outside_ok w'"
    using leave_outside_ok [OF l] by (auto simp: outside_ok_def w'_def w2)
  moreover
  have bs: "{f. f \<le> worker_fibers w \<and> f \<noteq> current_fiber w \<and> is_suspended (fiber_cont (leave here w) f)}
      = blocked_fibers w" by (auto simp: blocked_fibers_def leave_def)
  have cur: "current_fiber w \<le> worker_fibers w" "current_fiber w \<notin> blocked_fibers w"
    using ginvD(3) [OF inv] by (auto simp: blocked_fibers_def)
  have "blocked_fibers w' = (if is_suspended (fiber_cont (leave here w) (current_fiber w))
      then insert (current_fiber w) (blocked_fibers w) else blocked_fibers w)"
    using n cur(1) by (auto simp: blocked_fibers_def w'_def w2 leave_def split: if_splits)
  then have "counters_ok w'"
    using leave_blocked_count [OF l cur(1) bs [symmetric]] ginvD(7) [OF inv] room n cur(2)
    by (auto simp: counters_ok_def w'_def w2 queued_total_def fiber_room_def)
  moreover have "containers_ok w'"
    using ginvD(8) [OF inv] by (simp add: containers_ok_def w'_def w2)
  moreover have "current_fiber w' = n" "worker_fibers w' = n" "fiber_state w' n = Running"
    by (simp_all add: w'_def w2)
  ultimately have "ginv RActive w'" by (simp add: ginv_def)
  then have "live_inv w'" by (simp add: live_inv_def w'_def)
  with \<open>resume w2 = Inr w'\<close> show ?thesis by blast
qed

text \<open>The states in which the code calls \<open>switchToFiber\<close>, written with \<open>leave\<close>.\<close>

lemma suspend_switch_inv:
  assumes inv: "ginv RBlocked w" and pick: "pick_ok pick w" and room: "fiber_room w"
    and ctx: "ctx_ok c w"
  shows "\<exists>w'. suspend_switch c k t pick w = Inr w' \<and> live_inv w'"
proof -
  have l: "leaving (Suspended c k t) w" using inv ctx by (simp add: leaving_def)
  show ?thesis
  proof (cases "work_fibers w")
    case (Cons to rest)
    then have "fiber_state w to = Queued" "to \<notin> idle_fibers w"
      using ginv_queued [OF inv, of to] by auto
    then have "suspend_switch c k t pick w =
        resume ((leave (Suspended c k t) w)\<lparr>work_num := work_num w - 1, work_fibers := rest,
          current_fiber := to\<rparr>)"
      using Cons by (cases w) (simp add: suspend_switch_def switchToFiber_def leave_def Let_def)
    with switch_to_queued [OF l Cons refl] show ?thesis by simp
  next
    case Nil
    show ?thesis
    proof (cases "idle_fibers w = {}")
      case False
      then have p: "pick \<in> idle_fibers w" using pick by (simp add: pick_ok_def)
      then have "fiber_state w pick = Idle" using ginvD(1) [OF inv] by (simp add: located_def)
      then have "suspend_switch c k t pick w =
          resume ((leave (Suspended c k t) w)\<lparr>idle_fibers := idle_fibers w - {pick}, current_fiber := pick\<rparr>)"
        using Nil False by (cases w) (simp add: suspend_switch_def switchToFiber_def leave_def Let_def)
      with switch_to_idle [OF l p refl] show ?thesis by simp
    next
      case True
      have cur: "current_fiber w \<noteq> Suc (worker_fibers w)" using ginvD(3) [OF inv] by simp
      let ?n = "Suc (worker_fibers w)"
      have "suspend_switch c k t pick w =
          resume ((leave (Suspended c k t) w)\<lparr>worker_fibers := ?n,
            fiber_state := (fiber_state (leave (Suspended c k t) w))(?n := Running),
            fiber_cont := (fiber_cont (leave (Suspended c k t) w))(?n := NotStarted), current_fiber := ?n\<rparr>)"
        using Nil True cur
        by (cases w)
          (simp add: suspend_switch_def switchToFiber_def createWorkerFiber_def leave_def Let_def
            fun_upd_twist)
      with switch_to_new [OF l room refl refl] show ?thesis by simp
    qed
  qed
qed

lemma runUntilIdle_begin_inv:
  "ginv RActive w \<Longrightarrow> \<exists>w'. runUntilIdle_begin w = Inr w' \<and> live_inv w'"
  using ginvD(4,7) [of RActive w]
  by (simp add: runUntilIdle_begin_def live_inv_def counters_ok_def)

lemma after_waitForWork_inv:
  assumes "ginv (site_role s) w" and "pick_ok pick w" and "s \<noteq> SLoop \<Longrightarrow> fiber_room w"
    and "site_ok s w"
  shows "\<exists>w'. after_waitForWork s pick w = Inr w' \<and> live_inv w'"
  using assms suspend_switch_inv [of w pick] runUntilIdle_begin_inv [of w]
  by (cases s) (simp_all add: after_waitForWork_def)

lemma work_wait_inv:
  assumes "ginv r w" and "\<And>d. pc_role (to d) = r"
    and "\<And>d b. pc_ok (to d) (w\<lparr>work_notify_added := True, wpc := to d\<rparr>)"
  shows "\<exists>w'. work_wait to w = Inr w' \<and> live_inv w'"
proof -
  have "wf_inv (work_waiting w)" using ginvD(8) [OF assms(1)] by (simp add: containers_ok_def)
  from wf.nxt_spec [OF this] show ?thesis
    using assms by (auto simp: work_wait_def live_inv_def wf_bool_abs)
qed

lemma waitForWork_inv:
  assumes inv: "ginv (site_role s) w" and "pick_ok pick w" and "s \<noteq> SLoop \<Longrightarrow> fiber_room w"
    and "site_ok s w"
  shows "\<exists>w'. waitForWork s pick w = Inr w' \<and> live_inv w'"
proof -
  have "work_num w = of_nat (length (work_fibers w)) + of_nat (length (work_tasks w))"
    using ginvD(7) [OF inv] by (simp add: counters_ok_def)
  moreover have "\<exists>w'. after_waitForWork s pick w = Inr w' \<and> live_inv w'"
    by (rule after_waitForWork_inv [OF assms])
  moreover have "\<exists>w'. work_wait (PWait s) w = Inr w' \<and> live_inv w'"
    by (rule work_wait_inv [OF inv]) (simp_all add: assms(4))
  moreover have "live_inv (w\<lparr>wpc := PSpin s False\<rparr>)"
    using inv assms(4) by (simp add: live_inv_def)
  ultimately show ?thesis by (simp add: waitForWork_def split: mode.split)
qed

lemma pick_ok_cong: "same_control w w' \<Longrightarrow> pick_ok pick w' = pick_ok pick w"
  and fiber_room_cong: "same_control w w' \<Longrightarrow> fiber_room w' = fiber_room w"
  by (simp_all add: same_control_def pick_ok_def fiber_room_def)

lemma waitForWork_wake_inv:
  assumes inv: "ginv (site_role s) w" and "pick_ok pick w" and "fiber_room w" and "site_ok s w"
  shows "\<exists>w'. waitForWork_wake s now pick w = Inr w' \<and> live_inv w'"
proof -
  let ?w1 = "w\<lparr>work_notify_added := False\<rparr>"
  obtain w2 where w2: "(if wf_bool (work_waiting ?w1) then enqueueFiberTimeouts now ?w1 else Inr ?w1) = Inr w2"
    "ginv (site_role s) w2" "same_control ?w1 w2"
    using enqueueFiberTimeouts_ginv [of "site_role s" ?w1 now] inv by (cases "wf_bool (work_waiting ?w1)") auto
  have "pick_ok pick ?w1" "fiber_room ?w1" "site_ok s ?w1"
    using assms by (simp_all add: pick_ok_def fiber_room_def)
  with w2(3) have "pick_ok pick w2" "fiber_room w2" "site_ok s w2"
    by (simp_all add: pick_ok_cong fiber_room_cong site_ok_cong)
  from after_waitForWork_inv [OF w2(2) this] w2(1) show ?thesis
    by (simp add: waitForWork_wake_def Let_def)
qed

section \<open>Suspending\<close>

lemma suspend_inv:
  assumes inv: "ginv RActive w" and "pick_ok pick w" and "fiber_room w" and room: "queue_room w"
    and "ctx_ok c w"
  shows "\<exists>w'. suspend c k timeout pick w = Inr w' \<and> live_inv w'"
proof -
  let ?f = "current_fiber w"
  have run: "fiber_state w ?f = Running" using ginvD(4) [OF inv] by simp
  have wfq: "wf_inv (work_waiting w)" using ginvD(8) [OF inv] by (simp add: containers_ok_def)
  have loc: "?f \<notin> set (work_fibers w)" "?f \<notin> waits w" "?f \<notin> idle_fibers w"
    using ginvD(1) [OF inv, of ?f] run by (auto simp: located_def)
  define q where "q = (case timeout of Some t \<Rightarrow> (work_waiting w)
    \<lparr>wf_timeouts := insort_insert (Timeout t ?f) (wf_timeouts (work_waiting w)),
     wf_fibers := (?f, t) # wf_fibers (work_waiting w)\<rparr> | None \<Rightarrow> work_waiting w)"
  define w2 where "w2 = w\<lparr>fiber_state := (fiber_state w)(?f := if timeout = None then Yielded else Waiting),
                          work_waiting := q\<rparr>"
  have "wf_abs (work_waiting w) ?f = None" using loc(2) by (simp add: domIff)
  then have q: "wf_inv q" using wf_inv_insert [OF wfq] wfq by (simp add: q_def split: option.split)
  have qa: "wf_abs q = (case timeout of Some t \<Rightarrow> (wf_abs (work_waiting w))(?f \<mapsto> t)
                                  | None \<Rightarrow> wf_abs (work_waiting w))"
    by (simp add: q_def wf_abs_def split: option.split)
  have "length (wf_fibers q) \<le> Suc (length (wf_fibers (work_waiting w)))"
    by (simp add: q_def split: option.split)
  then have tot: "queued_total w2 < 2 ^ 63"
    using room by (simp add: queued_total_def queue_room_def w2_def)
  have "located w2 f" for f
    using ginvD(1) [OF inv, of f] loc qa
    by (cases timeout) (auto simp: located_def w2_def)
  moreover have "counters_ok w2" "containers_ok w2" "outside_ok w2"
    using ginvD(6-8) [OF inv] q tot
    by (simp_all add: counters_ok_def containers_ok_def outside_ok_def w2_def blocked_fibers_def)
  moreover have "f > worker_fibers w2 \<Longrightarrow> fiber_state w2 f = Running" for f
    using ginvD(2,3) [OF inv] by (simp add: w2_def)
  ultimately have "ginv RBlocked w2"
    using ginvD(3,5) [OF inv] by (simp add: ginv_def w2_def blocked_state_def)
  moreover have "pick_ok pick w2" "fiber_room w2" "site_ok (SSuspend c k timeout) w2"
    using assms by (cases c; simp add: pick_ok_def fiber_room_def bound_thread_def w2_def)+
  ultimately have "\<exists>w'. waitForWork (SSuspend c k timeout) pick w2 = Inr w' \<and> live_inv w'"
    by (intro waitForWork_inv) simp_all
  moreover have "suspend c k timeout pick w = waitForWork (SSuspend c k timeout) pick w2"
    using run loc(2)
    by (cases timeout)
      (simp_all add: suspend_def changeFiberState_def wf_add_def wf_abs_def Let_def w2_def q_def domIff)
  ultimately show ?thesis by simp
qed

lemma ctx_pc_inv:
  "ginv RActive w \<Longrightarrow> ctx_ok c w \<Longrightarrow> live_inv (w\<lparr>wait_result := x, wpc := ctx_pc c\<rparr>)"
  by (cases c) (simp_all add: live_inv_def)

lemma wait_pred_inv:
  assumes "ginv RActive w" and "pick_ok pick w" and "fiber_room w" and "queue_room w" and "ctx_ok c w"
  shows "\<exists>w'. wait_pred c timeout pv pick w = Inr w' \<and> live_inv w'"
  using suspend_inv [OF assms] ctx_pc_inv [OF assms(1,5)] by (simp add: wait_pred_def)

lemma wait_after_suspend_inv:
  assumes "ginv RActive w" and "pick_ok pick w" and "fiber_room w" and "queue_room w" and "ctx_ok c w"
  shows "\<exists>w'. wait_after_suspend c k timeout now pv pick w = Inr w' \<and> live_inv w'"
  using wait_pred_inv [OF assms] ctx_pc_inv [OF assms(1,5)]
  by (simp add: wait_after_suspend_def split: wait_kind.split)

section \<open>The loops\<close>

lemma run_begin_inv:
  assumes "ginv RActive w"
  shows "\<exists>w'. run_begin w = Inr w' \<and> live_inv w'"
  using assms work_wait_inv [OF assms, of PRunWait] ginvD(4) [OF assms]
  by (simp add: run_begin_def live_inv_def split: mode.split)

lemma run_wake_inv:
  "ginv RActive w \<Longrightarrow> \<exists>w'. run_wake w = Inr w' \<and> live_inv w'"
  using ginvD(4) [of RActive w] by (simp add: run_wake_def live_inv_def)

lemma ginv_take_task:
  assumes "ginv r w" and "work_tasks w = t # ts"
  shows "ginv r (w\<lparr>work_num := work_num w - 1, work_tasks := ts\<rparr>)"
  using assms by (auto simp: ginv_defs queued_total_def blocked_fibers_def)

lemma runUntilIdle_inv:
  assumes inv: "ginv RActive w"
  shows "\<exists>w'. runUntilIdle w = Inr w' \<and> live_inv w'"
proof (cases "work_fibers w")
  case (Cons to rest)
  have l: "leaving Parked w" using inv by (simp add: leaving_def)
  have run: "fiber_state w (current_fiber w) = Running" using ginvD(4) [OF inv] by simp
  then have "current_fiber w \<notin> idle_fibers w" using ginvD(1) [OF inv] by (simp add: located_def)
  moreover have "fiber_state w to = Queued" "to \<notin> idle_fibers w"
    using ginv_queued [OF inv, of to] Cons by auto
  moreover from this(1) run have "to \<noteq> current_fiber w" by auto
  ultimately have "runUntilIdle w =
      resume ((leave Parked w)\<lparr>work_num := work_num w - 1, work_fibers := rest, current_fiber := to\<rparr>)"
    using run Cons
    by (cases w) (simp add: runUntilIdle_def switchToFiber_def changeFiberState_def leave_def Let_def)
  with switch_to_queued [OF l Cons refl] show ?thesis by simp
next
  case Nil
  show ?thesis
  proof (cases "work_tasks w")
    case (Cons t ts)
    have "task_bool t" using ginvD(8) [OF inv] Cons by (simp add: containers_ok_def)
    then obtain b where "task_call t = Inr b" by (auto simp: task_bool_def task_call_def)
    with Nil Cons ginv_take_task [OF inv Cons] show ?thesis
      by (cases b) (simp_all add: runUntilIdle_def run_body_def live_inv_def)
  qed (use Nil inv in \<open>simp add: runUntilIdle_def live_inv_def\<close>)
qed

lemma no_blocked_no_waits:
  assumes inv: "ginv RActive w" and B: "blocked_fibers w = {}"
  shows "waits w = {}"
proof -
  have False if "f \<in> waits w" for f
  proof -
    have st: "fiber_state w f = Waiting" using that ginvD(1) [OF inv, of f] by (simp add: located_def)
    then have "f \<le> worker_fibers w" using ginvD(2) [OF inv, of f] by (fastforce simp: not_le [symmetric])
    moreover have "f \<noteq> current_fiber w" using st ginvD(4) [OF inv] by auto
    ultimately have "is_suspended (fiber_cont w f)"
      using ginvD(5) [OF inv, of f] st by (cases "fiber_cont w f") auto
    with \<open>f \<le> worker_fibers w\<close> \<open>f \<noteq> current_fiber w\<close> B show False by (auto simp: blocked_fibers_def)
  qed
  then show ?thesis by blast
qed

lemma runUntilShutdown_inv:
  assumes inv: "ginv RActive w" and pc: "wpc w = PLoop" and "pick_ok pick w"
  shows "\<exists>w'. runUntilShutdown pick w = Inr w' \<and> (live_inv w' \<or> exit_inv w' \<and> blocked_fibers w = {})"
proof (cases "\<not> shutdown w \<or> 0 < work_num w \<or> 0 < work_num_blocked_fibers w")
  case True
  have "\<exists>w'. waitForWork SLoop pick w = Inr w' \<and> live_inv w'"
    by (rule waitForWork_inv) (use inv assms(3) in simp_all)
  with True show ?thesis by (auto simp: runUntilShutdown_def)
next
  case False
  then have z: "shutdown w" "work_num w = 0" "work_num_blocked_fibers w = 0"
    by (simp_all add: word_neq_0_conv [symmetric])
  then have e: "work_fibers w = []" "work_tasks w = []" and B: "blocked_fibers w = {}"
    using ginv_num_zero [OF inv] ginv_blocked_zero [OF inv] by auto
  have nw: "waits w = {}" by (rule no_blocked_no_waits [OF inv B])
  show ?thesis
  proof (cases "current_fiber w = main_fiber")
    case True
    with False z e nw B show ?thesis
      by (auto simp: runUntilShutdown_def switchToFiber_def resume_def exit_inv_def)
  next
    case False
    then have "cont_state (fiber_cont w main_fiber) (fiber_state w main_fiber)"
      "\<not> is_suspended (fiber_cont w main_fiber)"
      using ginvD(5) [OF inv, of main_fiber] B by (auto simp: main_fiber_def blocked_fibers_def)
    then have "fiber_cont w main_fiber = Parked" "fiber_state w main_fiber = Idle"
      by (cases "fiber_cont w main_fiber"; simp)+
    with False z e nw B show ?thesis
      by (auto simp: runUntilShutdown_def switchToFiber_def resume_def changeFiberState_def
          exit_inv_def)
  qed
qed

section \<open>Every step keeps the invariant\<close>

lemma tstep_not_exit: "tstep w r \<Longrightarrow> wpc w \<noteq> PExit"
  by (induction rule: tstep.induct) auto

lemma ctx_ok_shutdown [simp]: "ctx_ok c (w\<lparr>shutdown := b\<rparr>) = ctx_ok c w"
  by (cases c) simp_all

lemma site_ok_shutdown [simp]: "site_ok s (w\<lparr>shutdown := b\<rparr>) = site_ok s w"
  by (cases s) simp_all

lemma pc_ok_shutdown: "pc_ok p (w\<lparr>shutdown := b\<rparr>) = pc_ok p w"
  by (cases p) simp_all

lemma exit_inv_step:
  assumes "exit_inv w" and "wstep w r"
  shows "\<exists>w'. r = Inr w' \<and> exit_inv w'"
  using assms(2,1)
  by (auto simp: exit_inv_def runUntilIdle_def runUntilShutdown_def switchToFiber_def resume_def
      elim!: wstep.cases tstep.cases)

lemma user_ctx_pc: "user_ctx p = Some c \<Longrightarrow> p = ctx_pc c"
  by (cases p) auto

lemma live_inv_user:
  assumes "live_inv w" and "user_ctx (wpc w) = Some c"
  shows "ginv RActive w" and "ctx_ok c w"
  using assms user_ctx_pc [OF assms(2)] by (cases c; simp add: live_inv_def)+

lemma live_inv_queue:
  "live_inv w \<Longrightarrow> ginv (pc_role (wpc w)) w' \<and> same_control w w' \<Longrightarrow> live_inv w'"
  by (auto simp: live_inv_def pc_ok_cong) (simp_all add: same_control_def)

lemma live_inv_tstep:
  assumes inv: "live_inv w" and "tstep w r"
  shows "\<exists>w'. r = Inr w' \<and> (live_inv w' \<or> exit_inv w' \<and> wpc w = PLoop \<and> blocked_fibers w = {})"
  using assms(2)
proof cases
  case ts_start
  then show ?thesis using inv by (simp add: live_inv_def)
next
  case ts_run
  then show ?thesis using run_begin_inv [of w] inv by (auto simp: live_inv_def)
next
  case (ts_run_wake d now)
  then show ?thesis using run_wake_inv [of w] inv by (auto simp: live_inv_def)
next
  case (ts_loop pick)
  then show ?thesis using runUntilShutdown_inv [of w] inv by (simp add: live_inv_def)
next
  case (ts_spin_return s b)
  then have "ginv (site_role s) w" "site_ok s w" using inv by (simp_all add: live_inv_def)
  then have "\<exists>w'. work_wait (PWait s) w = Inr w' \<and> live_inv w'"
    by (intro work_wait_inv) simp_all
  then show ?thesis using ts_spin_return by auto
next
  case (ts_wake s d now pick now')
  then have "ginv (site_role s) w" "site_ok s w" using inv by (simp_all add: live_inv_def)
  with waitForWork_wake_inv [of s w pick now'] ts_wake show ?thesis by auto
next
  case ts_idle
  then show ?thesis using runUntilIdle_inv [of w] inv by (auto simp: live_inv_def)
next
  case ts_task_done
  then show ?thesis using inv by (simp add: live_inv_def)
next
  case (ts_wait_plain c pick timeout)
  then show ?thesis using live_inv_user [OF inv ts_wait_plain(2)] suspend_inv [of w pick c]
    by (auto simp: wait_plain_def)
next
  case (ts_wait_pred c pick timeout pv)
  then show ?thesis using live_inv_user [OF inv ts_wait_pred(2)] wait_pred_inv [of w pick c]
    by auto
next
  case (ts_wait_return c k timeout pick now pv)
  then have "ginv RActive w" "ctx_ok c w" using inv by (simp_all add: live_inv_def)
  with wait_after_suspend_inv [of w pick c k timeout now pv] ts_wait_return show ?thesis
    by auto
next
  case ts_stop
  then show ?thesis using inv by (simp add: live_inv_def stop_single_def)
qed

lemma live_inv_step:
  assumes inv: "live_inv w" and "wstep w r"
  shows "\<exists>w'. r = Inr w' \<and> winv w'"
  using assms(2)
proof cases
  case ws_thread
  then show ?thesis using live_inv_tstep [OF inv] by (auto simp: winv_def)
next
  case (ws_spin_steal s t)
  have "ginv (site_role s) w" "site_ok s w" using inv ws_spin_steal by (simp_all add: live_inv_def)
  from enqueue_task_ginv [OF this(1) ws_spin_steal(4,3)] this(2) show ?thesis
    using ws_spin_steal(1)
    by (auto simp: winv_def live_inv_def spinForWork_stolen_def enqueue_task_def enqueueAndUnlock_def
        site_ok_cong)
next
  case (ws_enqueue_task t)
  then show ?thesis
    using live_inv_queue [OF inv enqueue_task_ginv] inv by (auto simp: winv_def live_inv_def)
next
  case (ws_enqueue_fiber f)
  have "ginv (pc_role (wpc w)) w" using inv by (simp add: live_inv_def)
  from enqueue_fiber_ginv [OF this ws_enqueue_fiber(5,3,4)] live_inv_queue [OF inv] show ?thesis
    using ws_enqueue_fiber(1) by (auto simp: winv_def)
next
  case (ws_steal locked)
  then show ?thesis using live_inv_queue [OF inv steal_ginv] inv by (auto simp: winv_def live_inv_def)
next
  case ws_shutdown
  then show ?thesis using inv by (auto simp: winv_def live_inv_def pc_ok_shutdown)
qed

lemma worker_start_inv: "winv (worker_start m i)"
  by (cases m)
    (auto simp: winv_def live_inv_def ginv_defs worker_start_def blocked_fibers_def queued_total_def
      main_fiber_def bound_thread_def wf_new_def wf_abs_def wf_inv_def)

interpretation worker_system: invariant_system worker_init wstep winv
proof (unfold_locales, goal_cases)
  case (1 s)
  then show ?case by (auto simp: worker_init_def worker_start_inv)
next
  case (2 s r)
  then show ?case using live_inv_step exit_inv_step by (fastforce simp: winv_def)
qed

text \<open>The fibers in the queues of a worker that has not ended were created by it.\<close>

lemma fibers_exist:
  assumes "winv w"
  shows "set (work_fibers w) \<union> dom (wf_abs (work_waiting w)) \<subseteq> {..worker_fibers w}" "current_fiber w \<le> worker_fibers w"
proof -
  have "set (work_fibers w) \<union> dom (wf_abs (work_waiting w)) \<subseteq> {..worker_fibers w} \<and> current_fiber w \<le> worker_fibers w"
  proof (cases "live_inv w")
    case True
    then have inv: "ginv (pc_role (wpc w)) w" by (simp add: live_inv_def)
    have "f \<le> worker_fibers w" if "fiber_state w f \<noteq> Running" for f
      using inv that unfolding ginv_def by (meson not_le_imp_less)
    moreover have "located w f" for f using inv unfolding ginv_def by blast
    ultimately have "set (work_fibers w) \<union> dom (wf_abs (work_waiting w)) \<subseteq> {..worker_fibers w}"
      unfolding located_def by (metis UnE atMost_iff fstate.distinct(17,19) subsetI)
    then show ?thesis using inv by (simp add: ginv_def)
  next
    case False
    then show ?thesis using assms by (simp add: winv_def exit_inv_def main_fiber_def)
  qed
  then show "set (work_fibers w) \<union> dom (wf_abs (work_waiting w)) \<subseteq> {..worker_fibers w}" "current_fiber w \<le> worker_fibers w"
    by blast+
qed

end
