(* ===== verification/Worker_Properties.thy ===== *)
theory Worker_Properties
  imports Worker_Invariant
begin

text \<open>
  What the invariant of a worker says about the code: assertions never fail, containers and
  counters agree with the states of the fibers, a blocked worker is always notified, a
  stopped worker has finished all its work, expired fibers are resumed in the order of their
  deadlines, tasks run in the order in which they were queued, and the results of \<open>wait\<close>.
\<close>

section \<open>Concrete runs\<close>

text \<open>A bound thread; one task queued; the same after \<open>stop\<close>; a thread that waits; one that stopped.\<close>

definition demo_task :: "nat body task" where
  "demo_task = task_new (User 7) FlagNone"

definition demo_bound :: "nat worker" where
  "demo_bound = worker_start SingleThreaded (- 1)"

definition demo_queued :: "nat worker" where
  "demo_queued = fst (enqueue_task demo_task demo_bound)"

definition demo_stopping :: "nat worker" where
  "demo_stopping = stop_single demo_queued"

definition demo_waiting :: "nat worker" where
  "demo_waiting = demo_bound\<lparr>fiber_state := (fiber_state demo_bound)(0 := Yielded),
     work_notify_added := True, wpc := PWait (SSuspend Outside WaitPlain None) None\<rparr>"

definition demo_exit :: "nat worker" where
  "demo_exit = (stop_single demo_bound)\<lparr>wpc := PExit\<rparr>"

lemmas demo_defs = demo_task_def demo_bound_def demo_queued_def demo_stopping_def
  demo_waiting_def demo_exit_def worker_start_def main_fiber_def wf_new_def task_new_def
  enqueue_task_def enqueueAndUnlock_def stop_single_def queue_room_def task_bool_def
  pick_ok_def fiber_room_def wf_bool_def wf_abs_def

lemma demo_bound_reach: "worker_reach demo_bound"
  by (rule reach_init) (auto simp: worker_init_def demo_bound_def)

lemma demo_queued_reach: "worker_reach demo_queued"
  unfolding demo_queued_def
  by (rule reach_step [OF demo_bound_reach ws_enqueue_task]) (simp_all add: demo_defs)

lemma demo_stopping_reach: "worker_reach demo_stopping"
  unfolding demo_stopping_def
  by (rule reach_step [OF demo_queued_reach ws_thread [OF ts_stop]]) (simp add: demo_defs)

lemma demo_waiting_reach: "worker_reach demo_waiting"
proof (rule reach_step [OF demo_bound_reach])
  have "wait_plain Outside None 0 demo_bound = Inr demo_waiting"
    by (simp add: wait_plain_def suspend_def changeFiberState_def waitForWork_def work_wait_def demo_defs)
  moreover have "wstep demo_bound (wait_plain Outside None 0 demo_bound)"
    by (rule ws_thread [OF ts_wait_plain]) (simp_all add: demo_defs)
  ultimately show "wstep demo_bound (Inr demo_waiting)" by simp
qed

lemma demo_exit_reach: "worker_reach demo_exit"
proof (rule reach_step)
  show "worker_reach (stop_single demo_bound)"
    by (rule reach_step [OF demo_bound_reach ws_thread [OF ts_stop]]) (simp add: demo_defs)
  have "wstep (stop_single demo_bound) (runUntilShutdown 0 (stop_single demo_bound))"
    by (rule ws_thread [OF ts_loop]) (simp_all add: demo_defs)
  then show "wstep (stop_single demo_bound) (Inr demo_exit)"
    by (simp add: runUntilShutdown_def demo_defs)
qed

section \<open>Safety\<close>

text \<open>In every state a worker can reach, under any interleaving with the other threads, no
  step of it aborts: none of the \<open>MARL_ASSERT\<close>s of \<open>scheduler.cpp\<close> (fiber states, \<open>work.num\<close>,
  the waiting maps, idle and running fibers, switches) can fail, and no fiber function returns.\<close>

theorem worker_no_fault:
  assumes "worker_reach w" and "wstep w r"
  shows "ok r"
  using assms by (rule worker_system.reach_no_fault)

theorem worker_no_fault_witness: "ok (runUntilShutdown 0 demo_stopping)"
  by (rule worker_no_fault [OF demo_stopping_reach ws_thread [OF ts_loop]]) (simp_all add: demo_defs)

lemma reach_live:
  "worker_reach w \<Longrightarrow> mutex_free (wpc w) \<Longrightarrow> live_inv w"
  using worker_system.reach_inv [of w] by (auto simp: winv_def exit_inv_def)

text \<open>C8. Whenever other threads can look at a worker (its mutex is free), the state of every fiber
  says where it is: \<open>Queued\<close> exactly in \<open>work_.fibers\<close>, \<open>Waiting\<close> exactly in \<open>work_.waiting\<close>,
  \<open>Idle\<close> exactly in \<open>idle_fibers_\<close>; no fiber is queued twice.\<close>

theorem worker_containers_agree:
  assumes "worker_reach w" and "mutex_free (wpc w)"
  shows "(f \<in> set (work_fibers w) \<longleftrightarrow> fiber_state w f = Queued) \<and>
         (wf_contains f (work_waiting w) \<longleftrightarrow> fiber_state w f = Waiting) \<and>
         (f \<in> idle_fibers w \<longleftrightarrow> fiber_state w f = Idle) \<and> distinct (work_fibers w)"
proof -
  have inv: "ginv (pc_role (wpc w)) w" using reach_live [OF assms] by (simp add: live_inv_def)
  then have "wf_inv (work_waiting w)" "distinct (work_fibers w)"
    using ginvD(8) by (auto simp: containers_ok_def)
  with wf.contains_spec [of "work_waiting w" f] ginvD(1) [OF inv, of f] show ?thesis by (simp add: located_def)
qed

theorem worker_containers_agree_witness:
  "(0 \<in> set (work_fibers demo_waiting) \<longleftrightarrow> fiber_state demo_waiting 0 = Queued) \<and>
   fiber_state demo_waiting 0 = Yielded"
  using worker_containers_agree [OF demo_waiting_reach, of 0] by (simp add: demo_defs)

text \<open>At most one fiber of a worker runs: a fiber in state \<open>Running\<close> that exists is the current
  one, and while the current fiber is inside \<open>suspend\<close> none is.\<close>

theorem worker_one_running:
  assumes "worker_reach w" and "mutex_free (wpc w)" and "f \<le> worker_fibers w"
    and "fiber_state w f = Running"
  shows "f = current_fiber w \<and> pc_role (wpc w) = RActive"
proof -
  have inv: "ginv (pc_role (wpc w)) w" using reach_live [OF assms(1,2)] by (simp add: live_inv_def)
  have "f = current_fiber w"
    using ginvD(5) [OF inv assms(3)] assms(4)
    by (cases "fiber_cont w f") (auto simp: blocked_state_def)
  with ginvD(4) [OF inv] assms(4) show ?thesis
    by (cases "pc_role (wpc w)") (auto simp: blocked_state_def)
qed

theorem worker_one_running_witness:
  "0 = current_fiber demo_queued \<and> pc_role (wpc demo_queued) = RActive"
  by (rule worker_one_running [OF demo_queued_reach]) (simp_all add: demo_defs)

lemma worker_counters_unat:
  assumes "worker_reach w"
  shows "unat (work_num w) = length (work_fibers w) + length (work_tasks w)"
proof (cases "live_inv w")
  case True
  then have c: "counters_ok w" using ginvD(7) by (auto simp: live_inv_def)
  then have "length (work_fibers w) + length (work_tasks w) < 2 ^ LENGTH(64)"
    by (simp add: counters_ok_def queued_total_def)
  then show ?thesis using c unfolding counters_ok_def by (simp del: of_nat_add add: unat_of_nat)
next
  case False
  then have "exit_inv w" using worker_system.reach_inv [OF assms] by (simp add: winv_def)
  then show ?thesis by (simp add: exit_inv_def)
qed

text \<open>C9. The 64-bit counter \<open>work_.num\<close> is at all times the number of queued fibers and tasks, so
  the unlocked reads of it in \<open>steal\<close> and \<open>spinForWork\<close> see the true amount of work; and
  \<open>num_blocked_fibers\<close> is the number of fibers whose stack stands in \<open>suspend\<close>.\<close>

theorem worker_counters_exact:
  assumes "worker_reach w"
  shows "unat (work_num w) = length (work_fibers w) + length (work_tasks w) \<and>
         (mutex_free (wpc w) \<longrightarrow> unat (work_num_blocked_fibers w) = card (blocked_fibers w))"
proof -
  have "unat (work_num_blocked_fibers w) = card (blocked_fibers w)" if "mutex_free (wpc w)"
  proof -
    have c: "counters_ok w" using reach_live [OF assms that] ginvD(7) by (auto simp: live_inv_def)
    then have "card (blocked_fibers w) < 2 ^ LENGTH(64)"
      using card_blocked_fibers [of w] by (simp add: counters_ok_def)
    then show ?thesis using c by (simp add: counters_ok_def unat_of_nat)
  qed
  with worker_counters_unat [OF assms] show ?thesis by blast
qed

theorem worker_counters_exact_witness:
  "unat (work_num demo_queued) = length (work_fibers demo_queued) + length (work_tasks demo_queued) \<and>
   work_tasks demo_queued = [demo_task]"
  using worker_counters_exact [OF demo_queued_reach] by (simp add: demo_defs)

section \<open>No lost wake-up\<close>

lemma reach_wait_armed:
  assumes "worker_reach w" and "wpc w = PWait s d \<or> wpc w = PRunWait d"
  shows "work_notify_added w" and "mutex_free (wpc w)"
proof -
  show "mutex_free (wpc w)" using assms(2) by auto
  from reach_live [OF assms(1) this] assms(2) show "work_notify_added w"
    by (auto simp: live_inv_def)
qed

text \<open>No wake-up is lost: while the thread of a worker is blocked in \<open>waitForWork\<close>, a task
  that another thread enqueues makes it call \<open>work_.added.notify_one()\<close>, and the condition
  the blocked thread re-evaluates is then true.\<close>

theorem enqueue_task_wakes:
  assumes "worker_reach w" and "wpc w = PWait s d" and "queue_room w" and "task_bool t"
  shows "snd (enqueue_task t w) \<and> waitForWork_ready d now (fst (enqueue_task t w))"
proof -
  let ?w = "fst (enqueue_task t w)"
  note arm = reach_wait_armed [OF assms(1)] assms(2)
  have "live_inv w" using reach_live [OF assms(1)] assms(2) by simp
  then have inv: "ginv (pc_role (wpc w)) ?w"
    using enqueue_task_ginv [OF _ assms(3,4)] by (simp add: live_inv_def)
  have "work_tasks ?w \<noteq> []" by (simp add: enqueue_task_def enqueueAndUnlock_def)
  then have "0 < work_num ?w" using ginv_num_zero [OF inv] by (simp add: word_neq_0_conv [symmetric])
  with arm show ?thesis
    by (simp add: waitForWork_ready_def enqueue_task_def enqueueAndUnlock_def)
qed

theorem enqueue_task_wakes_witness:
  "snd (enqueue_task demo_task demo_waiting) \<and>
   waitForWork_ready None 0 (fst (enqueue_task demo_task demo_waiting))"
  by (rule enqueue_task_wakes [OF demo_waiting_reach]) (simp_all add: demo_defs)

text \<open>C10. The same for \<open>Fiber::notify\<close>: notifying a fiber that is blocked in \<open>wait\<close>, the one on
  whose stack the thread sleeps included, queues it once, removes it from the waiting
  fibers, signals the condition variable and makes the condition true.\<close>

theorem enqueue_fiber_wakes:
  assumes "worker_reach w" and "wpc w = PWait s d" and "queue_room w" and "f \<le> worker_fibers w"
    and "fiber_state w f = Yielded \<or> fiber_state w f = Waiting"
  shows "\<exists>w'. enqueue_fiber f w = Inr (w', True) \<and> work_fibers w' = work_fibers w @ [f] \<and>
              fiber_state w' f = Queued \<and> \<not> wf_contains f (work_waiting w') \<and>
              waitForWork_ready d now w'"
proof -
  note arm = reach_wait_armed [OF assms(1)] assms(2)
  have "live_inv w" using reach_live [OF assms(1)] assms(2) by simp
  then have inv: "ginv (pc_role (wpc w)) w" by (simp add: live_inv_def)
  from enqueue_fiber_ginv [OF inv assms(3,4)] assms(5) obtain w' b
    where r: "enqueue_fiber f w = Inr (w', b)" and inv': "ginv (pc_role (wpc w)) w'" by fastforce
  from r assms(5) have b: "b = work_notify_added w" "work_fibers w' = work_fibers w @ [f]"
    "fiber_state w' f = Queued" "\<not> wf_contains f (work_waiting w')"
    by (auto simp: enqueue_fiber_def Let_def setFiberState_def)
  then have "0 < work_num w'" using ginv_num_zero [OF inv'] by (simp add: word_neq_0_conv [symmetric])
  with arm r b show ?thesis by (simp add: waitForWork_ready_def)
qed

theorem enqueue_fiber_wakes_witness:
  "\<exists>w'. enqueue_fiber 0 demo_waiting = Inr (w', True) \<and>
        work_fibers w' = work_fibers demo_waiting @ [0] \<and> fiber_state w' 0 = Queued \<and>
        \<not> wf_contains 0 (work_waiting w') \<and> waitForWork_ready None 5 w'"
  by (rule enqueue_fiber_wakes [OF demo_waiting_reach]) (simp_all add: demo_defs)

section \<open>Shutdown\<close>

text \<open>C12. A worker leaves its loop only when everything is done: it was told to shut down, its
  queues are empty, no fiber waits for a deadline and no fiber is blocked, and it is back on
  its main fiber. This is what \<open>stop\<close>, and so \<open>unbind\<close> and the destructor of the scheduler,
  promise.\<close>

theorem worker_exit_complete:
  assumes "worker_reach w" and "wpc w = PExit"
  shows "shutdown w \<and> work_tasks w = [] \<and> work_fibers w = [] \<and> \<not> wf_bool (work_waiting w) \<and>
         work_num_blocked_fibers w = 0 \<and> current_fiber w = main_fiber"
proof -
  have "\<not> live_inv w" using assms(2) by (simp add: live_inv_def)
  then have "exit_inv w" using worker_system.reach_inv [OF assms(1)] by (simp add: winv_def)
  then show ?thesis by (auto simp: exit_inv_def wf_bool_abs)
qed

theorem worker_exit_complete_witness:
  "shutdown demo_exit \<and> work_tasks demo_exit = [] \<and> work_fibers demo_exit = [] \<and>
   \<not> wf_bool (work_waiting demo_exit) \<and> work_num_blocked_fibers demo_exit = 0 \<and>
   current_fiber demo_exit = main_fiber"
  by (rule worker_exit_complete [OF demo_exit_reach]) (simp add: demo_exit_def)

text \<open>
  The thread of a worker on its own: no other thread acts on it and the bodies of the tasks
  return without waiting.
\<close>

definition own_step :: "'u worker \<Rightarrow> 'u worker result" where
  "own_step w =
     (case wpc w of
        PLoop \<Rightarrow> runUntilShutdown main_fiber w
      | PIdle \<Rightarrow> runUntilIdle w
      | PTask \<Rightarrow> Inr (w\<lparr>wpc := PIdle\<rparr>)
      | _ \<Rightarrow> Inr w)"

primrec own_run :: "nat \<Rightarrow> 'u worker \<Rightarrow> 'u worker result" where
  "own_run 0 w = Inr w"
| "own_run (Suc n) w = rbind (own_step w) (own_run n)"

definition bodies :: "'u body task list \<Rightarrow> 'u body list" where
  "bodies ts = map (\<lambda>t. the (task_function t)) ts"

lemma own_run_add: "own_run (m + n) w = rbind (own_run m w) (own_run n)"
  by (induction m arbitrary: w) (auto simp: rbind_assoc intro!: rbind_cong)

lemma own_run_tasks:
  assumes "wpc w = PIdle" and "work_fibers w = []" and "shutdown w"
    and "\<forall>t \<in> set (work_tasks w). task_bool t" and "work_num w = of_nat (length (work_tasks w))"
  shows "own_run (2 * length (work_tasks w)) w =
    Inr (w\<lparr>work_num := 0, work_tasks := [], executed := executed w @ bodies (work_tasks w)\<rparr>)"
  using assms
proof (induction "work_tasks w" arbitrary: w)
  case Nil
  then show ?case by (cases w) (simp add: bodies_def)
next
  case (Cons t ts)
  then obtain b where b: "task_function t = Some b" by (cases "work_tasks w") (auto simp: task_bool_def)
  define w1 where "w1 = w\<lparr>work_num := work_num w - 1, work_tasks := ts, executed := executed w @ [b]\<rparr>"
  have w: "work_tasks w = t # ts" using Cons.hyps(2) by simp
  have "own_run 2 w = Inr w1"
    using Cons.prems w b
    by (cases w; cases b)
      (auto simp: numeral_2_eq_2 own_step_def runUntilIdle_def task_call_def run_body_def w1_def)
  moreover have "own_run (2 * length ts) w1 =
      Inr (w1\<lparr>work_num := 0, work_tasks := [], executed := executed w1 @ bodies ts\<rparr>)"
    using Cons.hyps(1) [of w1] Cons.prems w by (simp add: w1_def)
  moreover have "2 * length (work_tasks w) = 2 + 2 * length ts" using w by simp
  ultimately show ?case
    using w b by (simp only: own_run_add rbind_simps) (simp add: w1_def bodies_def)
qed

text \<open>C13. Stopping a single-threaded worker runs everything that was queued, in the order in which
  it was queued, and then returns: with \<open>n\<close> tasks waiting, none of which waits for anything itself, and no fiber blocked, the loop
  takes \<open>2 n + 3\<close> steps to its end.\<close>

theorem stop_runs_all_tasks:
  assumes "worker_reach w" and "wpc w = POutside" and "work_fibers w = []"
    and "work_num_blocked_fibers w = 0" and "work_tasks w \<noteq> []"
  shows "\<exists>w'. own_run (2 * length (work_tasks w) + 3) (stop_single w) = Inr w' \<and> wpc w' = PExit \<and>
              executed w' = executed w @ bodies (work_tasks w)"
proof -
  have live: "live_inv w" using reach_live [OF assms(1)] assms(2) by simp
  then have inv: "ginv RActive w" and b: "bound_thread w" using assms(2) by (simp_all add: live_inv_def)
  have num: "work_num w = of_nat (length (work_tasks w))" "0 < work_num w"
    using ginvD(7) [OF inv] ginv_num_zero [OF inv] assms(3,5)
    by (simp_all add: counters_ok_def word_neq_0_conv [symmetric])
  have t: "\<forall>t \<in> set (work_tasks w). task_bool t" using ginvD(8) [OF inv] by (simp add: containers_ok_def)
  define w1 where "w1 = w\<lparr>shutdown := True, wpc := PIdle\<rparr>"
  have 1: "own_run 1 (stop_single w) = Inr w1"
    using num assms(3) ginvD(4) [OF inv]
    by (simp add: stop_single_def own_step_def runUntilShutdown_def waitForWork_def after_waitForWork_def
        runUntilIdle_begin_def w1_def)
  have 2: "own_run (2 * length (work_tasks w)) w1 =
      Inr (w1\<lparr>work_num := 0, work_tasks := [], executed := executed w @ bodies (work_tasks w)\<rparr>)"
    using own_run_tasks [of w1] num t assms(3) by (simp add: w1_def)
  have 3: "own_run 2 (w1\<lparr>work_num := 0, work_tasks := [], executed := executed w @ bodies (work_tasks w)\<rparr>)
      = Inr (w1\<lparr>work_num := 0, work_tasks := [], executed := executed w @ bodies (work_tasks w), wpc := PExit\<rparr>)"
    using b assms(3,4)
    by (simp add: numeral_2_eq_2 own_step_def runUntilIdle_def runUntilShutdown_def w1_def bound_thread_def)
  have n: "2 * length (work_tasks w) + 3 = 1 + (2 * length (work_tasks w) + 2)" by simp
  show ?thesis unfolding n own_run_add 1 2 3 rbind_simps by simp
qed

theorem stop_runs_all_tasks_witness:
  "\<exists>w'. own_run (2 * length (work_tasks demo_queued) + 3) (stop_single demo_queued) = Inr w' \<and>
        wpc w' = PExit \<and> executed w' = executed demo_queued @ bodies (work_tasks demo_queued)"
  by (rule stop_runs_all_tasks [OF demo_queued_reach]) (simp_all add: demo_defs)

section \<open>Deadlines\<close>

lemma enqueueFiberTimeouts_takes:
  assumes "takes (wf_take now) q fs q'" and "q = work_waiting w"
    and "distinct fs" and "\<forall>f \<in> set fs. fiber_state w f = Waiting"
  shows "enqueueFiberTimeouts now w =
    Inr (w\<lparr>work_waiting := q', work_fibers := work_fibers w @ fs,
           fiber_state := (\<lambda>f. if f \<in> set fs then Queued else fiber_state w f),
           work_num := work_num w + of_nat (length fs)\<rparr>)"
  using assms
proof (induction arbitrary: w rule: takes.induct)
  case (takes_stop q q')
  then have "enqueueFiberTimeouts now w = Inr (w\<lparr>work_waiting := q'\<rparr>)"
    by (simp add: enqueueFiberTimeouts.simps [of now w])
  then show ?case by (cases w) simp
next
  case (takes_more q f q' fs q'')
  define w1 where "w1 = w\<lparr>work_waiting := q', work_fibers := work_fibers w @ [f],
                    fiber_state := (fiber_state w)(f := Queued), work_num := work_num w + 1\<rparr>"
  have "enqueueFiberTimeouts now w = enqueueFiberTimeouts now w1"
    using takes_more.hyps(1) takes_more.prems
    by (simp add: enqueueFiberTimeouts.simps [of now w] changeFiberState_def w1_def push_queued_order)
  also have "\<dots> = Inr (w1\<lparr>work_waiting := q'', work_fibers := work_fibers w1 @ fs,
           fiber_state := (\<lambda>g. if g \<in> set fs then Queued else fiber_state w1 g),
           work_num := work_num w1 + of_nat (length fs)\<rparr>)"
    using takes_more.prems by (intro takes_more.IH) (auto simp: w1_def)
  also have "(\<lambda>g. if g \<in> set fs then Queued else fiber_state w1 g) =
      (\<lambda>g. if g \<in> set (f # fs) then Queued else fiber_state w g)"
    by (auto simp: w1_def)
  finally show ?case by (simp add: w1_def add.assoc)
qed

text \<open>C14. When a worker looks at the clock, it queues exactly the fibers whose deadline has passed,
  each once, in the order of their deadlines and behind the fibers already queued; the
  others keep waiting with their deadlines.\<close>

theorem expired_fibers_queued_in_order:
  assumes "worker_reach w" and "mutex_free (wpc w)"
  shows "\<exists>w' fs. enqueueFiberTimeouts now w = Inr w' \<and> work_fibers w' = work_fibers w @ fs \<and>
     distinct fs \<and> set fs = {f. \<exists>t. wf_abs (work_waiting w) f = Some t \<and> t \<le> now} \<and>
     sorted (map (\<lambda>f. the (wf_abs (work_waiting w) f)) fs) \<and>
     wf_abs (work_waiting w') = wf_abs (work_waiting w) |` (- set fs) \<and>
     (\<forall>f. fiber_state w' f = (if f \<in> set fs then Queued else fiber_state w f))"
proof -
  have inv: "ginv (pc_role (wpc w)) w" using reach_live [OF assms] by (simp add: live_inv_def)
  then have q: "wf_inv (work_waiting w)" using ginvD(8) by (auto simp: containers_ok_def)
  obtain fs q' where t: "takes (wf_take now) (work_waiting w) fs q'" using wf.takes_total [OF q] by blast
  note spec = wf.takes_spec [OF t q]
  have "\<forall>f \<in> set fs. fiber_state w f = Waiting"
    using spec ginvD(1) [OF inv] by (auto simp: located_def)
  with enqueueFiberTimeouts_takes [OF t refl] spec show ?thesis by auto
qed

definition demo_sleeping :: "nat worker" where
  "demo_sleeping = demo_bound\<lparr>fiber_state := (fiber_state demo_bound)(0 := Waiting),
     work_waiting := \<lparr>wf_timeouts = [Timeout 10 0], wf_fibers = [(0, 10)]\<rparr>,
     work_notify_added := True, wpc := PWait (SSuspend Outside WaitPlain (Some 10)) (Some 10)\<rparr>"

lemma demo_sleeping_reach: "worker_reach demo_sleeping"
proof (rule reach_step [OF demo_bound_reach])
  have "wait_plain Outside (Some 10) 0 demo_bound = Inr demo_sleeping"
    by (simp add: wait_plain_def suspend_def changeFiberState_def waitForWork_def work_wait_def
        wf_add_def wf_next_def Let_def insort_insert_key_def demo_sleeping_def demo_defs)
  moreover have "wstep demo_bound (wait_plain Outside (Some 10) 0 demo_bound)"
    by (rule ws_thread [OF ts_wait_plain]) (simp_all add: demo_defs)
  ultimately show "wstep demo_bound (Inr demo_sleeping)" by simp
qed

theorem expired_fibers_queued_in_order_witness:
  "\<exists>w' fs. enqueueFiberTimeouts 12 demo_sleeping = Inr w' \<and>
     work_fibers w' = work_fibers demo_sleeping @ fs \<and> set fs = {0}"
proof -
  have "{f. \<exists>t. wf_abs (work_waiting demo_sleeping) f = Some t \<and> t \<le> 12} = {0}"
    by (auto simp: demo_sleeping_def wf_abs_def split: if_splits)
  with expired_fibers_queued_in_order [OF demo_sleeping_reach, of 12] show ?thesis
    by (fastforce simp: demo_sleeping_def)
qed

section \<open>The result of \<open>wait\<close>\<close>

text \<open>\<open>suspend\<close> never continues in the code of the caller: it ends in a blocked or a switched worker.\<close>

lemma resume_not_user: "resume w = Inr w' \<Longrightarrow> user_ctx (wpc w') = None"
  by (auto simp: resume_def Let_def changeFiberState_def split: cont.splits if_splits)

lemma switchToFiber_not_user: "switchToFiber here to w = Inr w' \<Longrightarrow> user_ctx (wpc w') = None"
  by (auto simp: switchToFiber_def dest: resume_not_user)

lemma suspend_not_user:
  assumes "suspend c k timeout pick w = Inr w'"
  shows "user_ctx (wpc w') = None"
proof -
  obtain w1 where "waitForWork (SSuspend c k timeout) pick w1 = Inr w'"
    using assms by (auto simp: suspend_def)
  then show ?thesis
    by (auto simp: waitForWork_def after_waitForWork_def work_wait_def suspend_switch_def Let_def
        createWorkerFiber_def
        split: if_splits mode.splits list.splits dest: switchToFiber_not_user)
qed

text \<open>\<open>Worker::wait(lock, timeout, pred)\<close>, which is behind the condition variable, the wait
  group and the event: when it gives control back to its caller after a suspension, it
  either returns true and the predicate was just found true, or it returns false and the
  deadline has passed. Without a timeout it returns only with the predicate true.\<close>

theorem wait_pred_result:
  assumes "wait_after_suspend c WaitPred timeout now pv pick w = Inr w'"
    and "user_ctx (wpc w') \<noteq> None"
  shows "(wait_result w' = Some True \<and> pv \<and> \<not> deadline_passed timeout now) \<or>
         (wait_result w' = Some False \<and> timeout \<noteq> None \<and> deadline_passed timeout now)"
  using assms
  by (auto simp: wait_after_suspend_def wait_pred_def deadline_passed_def
      split: if_splits option.splits dest: suspend_not_user)

theorem wait_pred_result_witness:
  "(wait_result (demo_bound\<lparr>wait_result := Some False, wpc := POutside\<rparr>) = Some True \<and> True \<and>
      \<not> deadline_passed (Some 3) 4) \<or>
   (wait_result (demo_bound\<lparr>wait_result := Some False, wpc := POutside\<rparr>) = Some False \<and>
      Some (3::int) \<noteq> None \<and> deadline_passed (Some 3) 4)"
  by (rule wait_pred_result [where c = Outside and pick = 0 and w = demo_bound])
    (simp_all add: wait_after_suspend_def deadline_passed_def)

text \<open>A wait whose deadline has passed reports a timeout even when its predicate holds: the
  code tests the clock before it evaluates the predicate again.\<close>

theorem wait_timeout_ignores_predicate:
  "wait_after_suspend c WaitPred (Some t) t True pick w =
     Inr (w\<lparr>wait_result := Some False, wpc := ctx_pc c\<rparr>)"
  by (simp add: wait_after_suspend_def deadline_passed_def)

section \<open>Stealing, and notifying a parked fiber\<close>

text \<open>\<open>steal\<close> takes the oldest task or nothing. It never takes a task flagged
  \<open>SameThread\<close>, never touches the rest of the queue, and fails only when the worker has no
  work, its lock is taken, it has no task, or its oldest task is bound to its thread.\<close>

theorem steal_spec:
  assumes "worker_reach w"
  shows "case steal locked w of
      (w', Some t) \<Rightarrow> locked \<and> task_flags t \<noteq> SameThread \<and> work_tasks w = t # work_tasks w' \<and>
                     w' = w\<lparr>work_num := work_num w - 1, work_tasks := work_tasks w'\<rparr>
    | (w', None) \<Rightarrow> w' = w \<and> (locked \<longrightarrow> work_tasks w = [] \<or> task_flags (hd (work_tasks w)) = SameThread)"
proof -
  have "work_num w = 0 \<longrightarrow> work_tasks w = []"
    using worker_counters_unat [OF assms] by auto
  then show ?thesis by (auto simp: steal_def split: list.splits)
qed

theorem steal_spec_witness:
  "case steal True demo_queued of (w', Some t) \<Rightarrow> work_tasks demo_queued = t # work_tasks w' | _ \<Rightarrow> False"
  using steal_spec [OF demo_queued_reach, of True]
  by (auto simp: steal_def demo_defs split: prod.splits option.splits)

text \<open>\<open>Worker::enqueue(Fiber*)\<close> accepts a fiber in state \<open>Idle\<close> (its \<open>switch\<close> has a branch for
  it), but a worker that dequeues such a fiber aborts: the fiber is still in \<open>idle_fibers_\<close>.\<close>

theorem notify_parked_fiber_aborts:
  assumes "f \<in> idle_fibers w" and "fiber_state w f = Idle" and "work_fibers w = []"
    and "\<not> wf_contains f (work_waiting w)"
  shows "\<exists>w' b. enqueue_fiber f w = Inr (w', b) \<and>
     runUntilIdle w' = Inl (AssertFailed ''dequeued fiber is idle'')"
  using assms by (simp add: enqueue_fiber_def Let_def setFiberState_def runUntilIdle_def)

theorem notify_parked_fiber_aborts_witness:
  "\<exists>w' b. enqueue_fiber 1 (demo_bound\<lparr>fiber_state := (\<lambda>_. Running)(1 := Idle), idle_fibers := {1}\<rparr>) = Inr (w', b) \<and>
     runUntilIdle w' = Inl (AssertFailed ''dequeued fiber is idle'')"
  by (rule notify_parked_fiber_aborts) (simp_all add: demo_defs wf_contains_def)

end
