(* ===== verification/Wait_Group.thy ===== *)
theory Wait_Group
  imports Marl_Prelude
begin

text \<open>
  The counter of \<open>marl::WaitGroup\<close> (\<open>wait_group.hpp\<close>): an atomic \<open>unsigned int\<close> that \<open>add\<close> raises
  and \<open>done\<close> lowers; \<open>wait\<close> blocks until it is zero. \<open>wg_done\<close> returns whether it is the call that
  notifies the condition variable.

  The locale \<open>latch\<close> is what the clients (\<open>dag.hpp\<close>, \<open>parallelize.hpp\<close>, \<open>blocking_call.hpp\<close>) rely
  on: the group counts outstanding tasks, \<open>done\<close> is legal while one is outstanding, and the
  group is open exactly when none is. The client lemma is that a group whose every \<open>done\<close> is
  matched by an earlier \<open>add\<close> never aborts and is open when all are matched.
\<close>

record wait_group =
  wg_count :: "32 word"

definition wg_new :: "32 word \<Rightarrow> wait_group" where
  "wg_new initial_count = \<lparr>wg_count = initial_count\<rparr>"

definition wg_add :: "32 word \<Rightarrow> wait_group \<Rightarrow> wait_group" where
  "wg_add n g = g\<lparr>wg_count := wg_count g + n\<rparr>"

definition wg_done :: "wait_group \<Rightarrow> (wait_group \<times> bool) result" where
  "wg_done g =
     rbind (marl_assert (0 < wg_count g) ''marl::WaitGroup::done() called too many times'') (\<lambda>_.
     let n = wg_count g - 1
     in Inr (g\<lparr>wg_count := n\<rparr>, n = 0))"

text \<open>The predicate on which \<open>wait\<close> blocks.\<close>

definition wg_open :: "wait_group \<Rightarrow> bool" where
  "wg_open g = (wg_count g = 0)"

section \<open>The interface of a latch\<close>

locale latch =
  fixes create :: "'c \<Rightarrow> 'g"
    and one :: 'c
    and add :: "'c \<Rightarrow> 'g \<Rightarrow> 'g"
    and finish :: "'g \<Rightarrow> ('g \<times> bool) result"
    and is_open :: "'g \<Rightarrow> bool"
    and outstanding :: "'g \<Rightarrow> nat"
    and bound :: nat
  assumes is_open_spec: "is_open g \<longleftrightarrow> outstanding g = 0"
    and add_spec: "outstanding g + 1 < bound \<Longrightarrow> outstanding (add one g) = outstanding g + 1"
    and finish_spec: "0 < outstanding g \<Longrightarrow>
      \<exists>g'. finish g = Inr (g', outstanding g = 1) \<and> outstanding g' = outstanding g - 1"
begin

text \<open>The clients' use: a list of calls, \<open>True\<close> for \<open>add(1)\<close> and \<open>False\<close> for \<open>done()\<close>.\<close>

primrec calls :: "bool list \<Rightarrow> 'g \<Rightarrow> 'g result" where
  "calls [] g = Inr g"
| "calls (b # bs) g = (if b then calls bs (add one g) else rbind (finish g) (\<lambda>r. calls bs (fst r)))"

lemma calls_balanced:
  assumes "\<forall>k \<le> length bs. count_list (take k bs) False \<le> outstanding g + count_list (take k bs) True"
    and "outstanding g + length bs < bound"
  shows "\<exists>g'. calls bs g = Inr g' \<and>
    outstanding g' + count_list bs False = outstanding g + count_list bs True"
  using assms
proof (induction bs arbitrary: g)
  case Nil
  then show ?case by simp
next
  case (Cons b bs)
  have pre: "count_list (take k bs) False + (if b then 0 else 1) \<le>
      outstanding g + count_list (take k bs) True + (if b then 1 else 0)" if "k \<le> length bs" for k
    using Cons.prems(1) [rule_format, of "Suc k"] that by (simp split: if_splits)
  show ?case
  proof (cases b)
    case True
    with Cons.prems(2) add_spec [of g] have "outstanding (add one g) = outstanding g + 1" by simp
    with Cons.IH [of "add one g"] pre Cons.prems(2) True show ?thesis by simp
  next
    case False
    with pre [of 0] have "0 < outstanding g" by simp
    then obtain g' where "finish g = Inr (g', outstanding g = 1)" "outstanding g' = outstanding g - 1"
      using finish_spec by blast
    with Cons.IH [of g'] pre Cons.prems(2) False \<open>0 < outstanding g\<close> show ?thesis by fastforce
  qed
qed

end

definition wg_outstanding :: "wait_group \<Rightarrow> nat" where
  "wg_outstanding g = unat (wg_count g)"

interpretation wg: latch wg_new "1 :: 32 word" wg_add wg_done wg_open wg_outstanding "2 ^ 32"
proof (unfold_locales, goal_cases)
  case (1 g)
  show ?case by (simp add: wg_open_def wg_outstanding_def unat_eq_0)
next
  case (2 g)
  then show ?case by (simp add: wg_outstanding_def wg_add_def unat_word_ariths)
next
  case (3 g)
  then have "0 < wg_count g" by (simp add: wg_outstanding_def word_gt_0 unat_gt_0)
  moreover from this have "unat (wg_count g - 1) = unat (wg_count g) - 1"
    by (simp add: unat_minus_one word_gt_0)
  moreover from this calculation(1) have "wg_count g - 1 = 0 \<longleftrightarrow> unat (wg_count g) = 1"
    by (metis One_nat_def Suc_pred less_nat_zero_code unat_eq_0 unat_gt_0 word_gt_0 diff_Suc_1)
  ultimately show ?case by (auto simp: wg_done_def wg_outstanding_def Let_def)
qed

end
