(* ===== verification/Dag_Model.thy ===== *)
theory Dag_Model
  imports Wait_Group
begin

text \<open>
  The task graphs of \<open>dag.hpp\<close>: the builder, the graph it makes, and its runs.

  \<^bold>\<open>Data.\<close> A node has its work (possibly none), the index of its counter and the list of the
  nodes that depend on it; the vectors of the code are lists. \<open>InvalidIndex\<close> is the
  all-ones \<open>size_t\<close> that stands for "no counter" and "no node". The numbers of incoming
  edges are 32-bit words, as in the code. The data of type \<open>T\<close> handed to the works
  plays no role for the order in which they run, and the works are opaque values.

  \<^bold>\<open>Runs.\<close> \<open>invoke\<close> is executed by the thread that calls \<open>run\<close> and by the scheduled tasks, all of
  them at the same time. A run state holds one control state per such thread and
  \<open>dag_step\<close> lets any of them take its next step: enter a node, end its work, deliver one
  notification (with the atomic decrement of the counter and, if needed, the \<open>WaitGroup::add\<close>
  and \<open>schedule\<close> of an earlier ready node), or finish. A scheduled task can run at any
  time after it was scheduled. The lists \<open>dr_started\<close> and \<open>dr_finished\<close> and the multiset
  \<open>dr_notified\<close> record the history; the code does not have them and no step depends on them.
\<close>

section \<open>The graph and its builder\<close>

definition InvalidIndex :: nat where
  "InvalidIndex = 2 ^ 64 - 1"

definition RootIndex :: nat where
  "RootIndex = 0"

record 'w dag_node =
  dn_work :: "'w option"
  dn_counterIndex :: nat
  dn_outs :: "nat list"

record 'w dag =
  dag_nodes :: "'w dag_node list"
  dag_initialCounters :: "32 word list"

record 'w dag_builder =
  db_dag :: "'w dag"
  db_numIns :: "32 word list"

definition node_new :: "'w option \<Rightarrow> 'w dag_node" where
  "node_new w = \<lparr>dn_work = w, dn_counterIndex = InvalidIndex, dn_outs = []\<rparr>"

definition builder_new :: "'w dag_builder" where
  "builder_new =
     \<lparr>db_dag = \<lparr>dag_nodes = [node_new None], dag_initialCounters = []\<rparr>, db_numIns = [0]\<rparr>"

definition addDependency :: "nat \<Rightarrow> nat \<Rightarrow> 'w dag_builder \<Rightarrow> 'w dag_builder result" where
  "addDependency parent child b =
     (let ns = dag_nodes (db_dag b) in
      rbind (marl_assert (child < length (db_numIns b)) ''index exceeds vector size'') (\<lambda>_.
      rbind (marl_assert (parent < length ns) ''index exceeds vector size'') (\<lambda>_.
      Inr (b\<lparr>db_numIns := (db_numIns b)[child := db_numIns b ! child + 1],
             db_dag := (db_dag b)\<lparr>dag_nodes :=
               ns[parent := (ns ! parent)\<lparr>dn_outs := dn_outs (ns ! parent) @ [child]\<rparr>]\<rparr>\<rparr>))))"

fun addDependencies :: "nat list \<Rightarrow> nat \<Rightarrow> 'w dag_builder \<Rightarrow> 'w dag_builder result" where
  "addDependencies [] child b = Inr b"
| "addDependencies (p # ps) child b =
     rbind (addDependency p child b) (\<lambda>b'. addDependencies ps child b')"

definition builder_node ::
  "'w \<Rightarrow> nat list \<Rightarrow> 'w dag_builder \<Rightarrow> (nat \<times> 'w dag_builder) result" where
  "builder_node work after b =
     rbind (marl_assert (length (db_numIns b) = length (dag_nodes (db_dag b)))
              ''NodeBuilder vectors out of sync'') (\<lambda>_.
     let index = length (dag_nodes (db_dag b));
         b1 = b\<lparr>db_numIns := db_numIns b @ [0],
                db_dag := (db_dag b)\<lparr>dag_nodes := dag_nodes (db_dag b) @ [node_new (Some work)]\<rparr>\<rparr>
     in rbind (addDependencies after index b1) (\<lambda>b2. Inr (index, b2)))"

definition builder_then :: "nat \<Rightarrow> 'w \<Rightarrow> 'w dag_builder \<Rightarrow> (nat \<times> 'w dag_builder) result" where
  "builder_then self work b =
     rbind (builder_node work [] b) (\<lambda>r.
     rbind (addDependency self (fst r) (snd r)) (\<lambda>b'. Inr (fst r, b')))"

definition build_step :: "32 word list \<Rightarrow> 'w dag \<Rightarrow> nat \<Rightarrow> 'w dag" where
  "build_step numIns d i =
     (if 1 < numIns ! i
      then d\<lparr>dag_nodes := (dag_nodes d)[i := (dag_nodes d ! i)
                 \<lparr>dn_counterIndex := length (dag_initialCounters d)\<rparr>],
             dag_initialCounters := dag_initialCounters d @ [numIns ! i]\<rparr>
      else d)"

definition build :: "'w dag_builder \<Rightarrow> 'w dag result" where
  "build b =
     rbind (marl_assert (length (db_numIns b) = length (dag_nodes (db_dag b)))
              ''NodeBuilder vectors out of sync'') (\<lambda>_.
     Inr (foldl (build_step (db_numIns b)) (db_dag b) [0..<length (dag_nodes (db_dag b))]))"

text \<open>A program that builds a graph: the calls on the builder, in order.\<close>

datatype 'w builder_op =
    BNode 'w "nat list"     \<comment> \<open>\<open>builder.node(work, {after...})\<close>\<close>
  | BThen nat 'w            \<comment> \<open>\<open>parent.then(work)\<close>\<close>
  | BDep nat nat            \<comment> \<open>\<open>builder.addDependency(parent, child)\<close>\<close>

fun builder_apply :: "'w builder_op \<Rightarrow> 'w dag_builder \<Rightarrow> 'w dag_builder result" where
  "builder_apply (BNode w after) b = rbind (builder_node w after b) (\<lambda>r. Inr (snd r))"
| "builder_apply (BThen p w) b = rbind (builder_then p w b) (\<lambda>r. Inr (snd r))"
| "builder_apply (BDep p c) b = addDependency p c b"

fun builder_ops :: "'w builder_op list \<Rightarrow> 'w dag_builder \<Rightarrow> 'w dag_builder result" where
  "builder_ops [] b = Inr b"
| "builder_ops (x # xs) b = rbind (builder_apply x b) (builder_ops xs)"

section \<open>Runs\<close>

datatype dag_thread =
    TInvoke nat                 \<comment> \<open>about to \<open>invoke\<close> a node\<close>
  | TWork nat                   \<comment> \<open>in the work of a node\<close>
  | TNotify nat "nat list" nat  \<comment> \<open>in the loop over the outs: node, outs left, \<open>toInvoke\<close>\<close>

text \<open>A thread is a scheduled task (\<open>True\<close>) or the thread that called \<open>run\<close> (\<open>False\<close>).\<close>

record dag_run =
  dr_counters :: "32 word list"
  dr_wg :: wait_group
  dr_threads :: "(bool \<times> dag_thread) list"
  dr_started :: "nat list"
  dr_finished :: "nat list"
  dr_notified :: "nat multiset"

definition initCounters :: "'w dag \<Rightarrow> 32 word list" where
  "initCounters d = dag_initialCounters d"

definition run_start :: "'w dag \<Rightarrow> dag_run" where
  "run_start d =
     \<lparr>dr_counters = initCounters d, dr_wg = wg_new 0, dr_threads = [(False, TInvoke RootIndex)],
      dr_started = [], dr_finished = [], dr_notified = {#}\<rparr>"

text \<open>\<open>notify\<close>: the new counters, and whether the node has no unfinished predecessor left.\<close>

definition dag_notify :: "'w dag \<Rightarrow> nat \<Rightarrow> 32 word list \<Rightarrow> (32 word list \<times> bool) result" where
  "dag_notify d nodeIdx counters =
     rbind (marl_assert (nodeIdx < length (dag_nodes d)) ''index exceeds vector size'') (\<lambda>_.
     let ci = dn_counterIndex (dag_nodes d ! nodeIdx) in
     if ci = InvalidIndex then Inr (counters, True)
     else if ci < length counters
     then let c = counters ! ci - 1 in Inr (counters[ci := c], c = 0)
     else Inl OutOfBounds)"

definition set_thread :: "nat \<Rightarrow> dag_thread \<Rightarrow> dag_run \<Rightarrow> dag_run" where
  "set_thread k t s = s\<lparr>dr_threads := (dr_threads s)[k := (fst (dr_threads s ! k), t)]\<rparr>"

text \<open>The next step of thread \<open>k\<close>, in the order of the code of \<open>invoke\<close>.\<close>

definition invoke_enter :: "'w dag \<Rightarrow> nat \<Rightarrow> nat \<Rightarrow> dag_run \<Rightarrow> dag_run result" where
  "invoke_enter d k i s =
     rbind (marl_assert (i < length (dag_nodes d)) ''index exceeds vector size'') (\<lambda>_.
     let node = dag_nodes d ! i; s1 = s\<lparr>dr_started := dr_started s @ [i]\<rparr> in
     case dn_work node of
       Some w \<Rightarrow> Inr (set_thread k (TWork i) s1)
     | None \<Rightarrow> Inr (set_thread k (TNotify i (dn_outs node) InvalidIndex)
                     (s1\<lparr>dr_finished := dr_finished s1 @ [i]\<rparr>)))"

definition invoke_work_done :: "'w dag \<Rightarrow> nat \<Rightarrow> nat \<Rightarrow> dag_run \<Rightarrow> dag_run result" where
  "invoke_work_done d k i s =
     Inr (set_thread k (TNotify i (dn_outs (dag_nodes d ! i)) InvalidIndex)
           (s\<lparr>dr_finished := dr_finished s @ [i]\<rparr>))"

definition invoke_notify ::
  "'w dag \<Rightarrow> nat \<Rightarrow> nat \<Rightarrow> nat \<Rightarrow> nat list \<Rightarrow> nat \<Rightarrow> dag_run \<Rightarrow> dag_run result" where
  "invoke_notify d k n idx rest toInvoke s =
     rbind (dag_notify d idx (dr_counters s)) (\<lambda>r.
     let s1 = s\<lparr>dr_counters := fst r, dr_notified := add_mset idx (dr_notified s)\<rparr> in
     if snd r then
       if toInvoke \<noteq> InvalidIndex
       then let s2 = set_thread k (TNotify n rest idx) (s1\<lparr>dr_wg := wg_add 1 (dr_wg s1)\<rparr>)
            in Inr (s2\<lparr>dr_threads := dr_threads s2 @ [(True, TInvoke toInvoke)]\<rparr>)
       else Inr (set_thread k (TNotify n rest idx) s1)
     else Inr (set_thread k (TNotify n rest toInvoke) s1))"

definition invoke_leave :: "nat \<Rightarrow> nat \<Rightarrow> dag_run \<Rightarrow> dag_run result" where
  "invoke_leave k toInvoke s =
     (if toInvoke \<noteq> InvalidIndex then Inr (set_thread k (TInvoke toInvoke) s)
      else
        let s1 = s\<lparr>dr_threads := remove_nth k (dr_threads s)\<rparr> in
        if fst (dr_threads s ! k)
        then rbind (wg_done (dr_wg s1)) (\<lambda>r. Inr (s1\<lparr>dr_wg := fst r\<rparr>))
        else Inr s1)"

definition invoke_next :: "'w dag \<Rightarrow> nat \<Rightarrow> dag_run \<Rightarrow> dag_run result" where
  "invoke_next d k s =
     (case snd (dr_threads s ! k) of
        TInvoke i \<Rightarrow> invoke_enter d k i s
      | TWork i \<Rightarrow> invoke_work_done d k i s
      | TNotify n (idx # rest) toInvoke \<Rightarrow> invoke_notify d k n idx rest toInvoke s
      | TNotify n [] toInvoke \<Rightarrow> invoke_leave k toInvoke s)"

inductive dag_step :: "'w dag \<Rightarrow> dag_run \<Rightarrow> dag_run result \<Rightarrow> bool" for d where
  ds_thread: "k < length (dr_threads s) \<Longrightarrow> dag_step d s (invoke_next d k s)"

definition dag_init :: "'w dag \<Rightarrow> dag_run \<Rightarrow> bool" where
  "dag_init d s \<longleftrightarrow> s = run_start d"

abbreviation dag_reach :: "'w dag \<Rightarrow> dag_run \<Rightarrow> bool" where
  "dag_reach d \<equiv> reach (dag_init d) (dag_step d)"

text \<open>\<open>run\<close> returns: its own \<open>invoke\<close> is over and \<open>wg.wait()\<close> passes.\<close>

definition run_returned :: "dag_run \<Rightarrow> bool" where
  "run_returned s \<longleftrightarrow> (\<forall>t \<in> set (dr_threads s). fst t) \<and> wg_open (dr_wg s)"

section \<open>Well-formed graphs\<close>

definition dag_size :: "'w dag \<Rightarrow> nat" where
  "dag_size d = length (dag_nodes d)"

definition outs_of :: "'w dag \<Rightarrow> nat \<Rightarrow> nat multiset" where
  "outs_of d m = mset (dn_outs (dag_nodes d ! m))"

text \<open>All edges of the graph, as the multiset of their targets; the number of edges into a node.\<close>

definition edges :: "'w dag \<Rightarrow> nat multiset" where
  "edges d = sum_list (map (outs_of d) [0..<dag_size d])"

definition indeg :: "'w dag \<Rightarrow> nat \<Rightarrow> nat" where
  "indeg d n = count (edges d) n"

text \<open>
  What \<open>invoke\<close> relies on: the indices are nodes, the root has no incoming edge, a node has a
  counter of its own, set to the number of its incoming edges, exactly if there
  is more than one.
\<close>

definition dag_ok :: "'w dag \<Rightarrow> bool" where
  "dag_ok d \<longleftrightarrow>
     0 < dag_size d \<and> dag_size d < 2 ^ 32 \<and> indeg d RootIndex = 0 \<and>
     (\<forall>n \<in># edges d. n < dag_size d) \<and>
     (\<forall>n < dag_size d.
        let ci = dn_counterIndex (dag_nodes d ! n) in
        if 1 < indeg d n
        then ci < length (dag_initialCounters d) \<and> ci \<noteq> InvalidIndex \<and>
             unat (dag_initialCounters d ! ci) = indeg d n
        else ci = InvalidIndex) \<and>
     (\<forall>m < dag_size d. \<forall>n < dag_size d. m \<noteq> n \<longrightarrow> 1 < indeg d m \<longrightarrow> 1 < indeg d n \<longrightarrow>
        dn_counterIndex (dag_nodes d ! m) \<noteq> dn_counterIndex (dag_nodes d ! n))"

text \<open>Every node but the root depends on something, and only on nodes made before it.\<close>

definition dag_connected :: "'w dag \<Rightarrow> bool" where
  "dag_connected d \<longleftrightarrow>
     (\<forall>m < dag_size d. \<forall>n \<in># outs_of d m. m < n) \<and>
     (\<forall>n < dag_size d. n \<noteq> RootIndex \<longrightarrow> 0 < indeg d n)"

end
