(* ===== verification/Dag_Proofs.thy ===== *)
theory Dag_Proofs
  imports Dag_Model
begin

text \<open>
  The invariant of a run of a task graph and what follows from it: a run never aborts, starts
  every node at most once and only after all its predecessors have ended, takes at most
  \<open>3 * nodes + edges\<close> steps, and when it returns it has run every node. \<open>Dag_Builder\<close> shows that the
  builder makes graphs for which this holds.
\<close>

section \<open>Abstraction of the threads of a run\<close>

fun th_working :: "dag_thread \<Rightarrow> nat multiset" where
  "th_working (TWork i) = {#i#}"
| "th_working _ = {#}"

fun th_pending :: "dag_thread \<Rightarrow> nat multiset" where
  "th_pending (TInvoke i) = {#i#}"
| "th_pending (TNotify n os v) = (if v \<noteq> InvalidIndex then {#v#} else {#})"
| "th_pending _ = {#}"

fun th_left :: "dag_thread \<Rightarrow> nat multiset" where
  "th_left (TNotify n os v) = mset os"
| "th_left _ = {#}"

definition tsum :: "(dag_thread \<Rightarrow> 'a::comm_monoid_add) \<Rightarrow> dag_run \<Rightarrow> 'a" where
  "tsum f s = sum_mset (image_mset (\<lambda>t. f (snd t)) (mset (dr_threads s)))"

text \<open>The nodes that were started or that some thread is committed to start.\<close>

definition trig :: "dag_run \<Rightarrow> nat multiset" where
  "trig s = mset (dr_started s) + tsum th_pending s"

definition triggered :: "'w dag \<Rightarrow> dag_run \<Rightarrow> nat \<Rightarrow> bool" where
  "triggered d s n \<longleftrightarrow> n = RootIndex \<or> (0 < indeg d n \<and> count (dr_notified s) n = indeg d n)"

definition counters_ok :: "'w dag \<Rightarrow> dag_run \<Rightarrow> bool" where
  "counters_ok d s \<longleftrightarrow> length (dr_counters s) = length (dag_initialCounters d) \<and>
     (\<forall>n < dag_size d. 1 < indeg d n \<longrightarrow>
        unat (dr_counters s ! dn_counterIndex (dag_nodes d ! n)) = indeg d n - count (dr_notified s) n)"

definition dag_inv :: "'w dag \<Rightarrow> dag_run \<Rightarrow> bool" where
  "dag_inv d s \<longleftrightarrow>
     mset (dr_started s) = mset (dr_finished s) + tsum th_working s \<and>
     dr_notified s + tsum th_left s = sum_list (map (outs_of d) (dr_finished s)) \<and>
     (\<forall>n. count (trig s) n = (if triggered d s n then 1 else 0)) \<and>
     counters_ok d s \<and>
     wg_outstanding (dr_wg s) = size (filter_mset fst (mset (dr_threads s))) \<and>
     length (dr_threads s) \<le> size (trig s)"

lemmas dag_invD =
  dag_inv_def [THEN iffD1, THEN conjunct1]
  dag_inv_def [THEN iffD1, THEN conjunct2, THEN conjunct1]
  dag_inv_def [THEN iffD1, THEN conjunct2, THEN conjunct2, THEN conjunct1, rule_format]
  dag_inv_def [THEN iffD1, THEN conjunct2, THEN conjunct2, THEN conjunct2, THEN conjunct1]
  dag_inv_def [THEN iffD1, THEN conjunct2, THEN conjunct2, THEN conjunct2, THEN conjunct2, THEN conjunct1]
  dag_inv_def [THEN iffD1, THEN conjunct2, THEN conjunct2, THEN conjunct2, THEN conjunct2, THEN conjunct2]

section \<open>Multisets of threads\<close>

lemma set_thread_simps [simp]:
  "dr_counters (set_thread k t s) = dr_counters s" "dr_wg (set_thread k t s) = dr_wg s"
  "dr_started (set_thread k t s) = dr_started s" "dr_finished (set_thread k t s) = dr_finished s"
  "dr_notified (set_thread k t s) = dr_notified s"
  "length (dr_threads (set_thread k t s)) = length (dr_threads s)"
  by (simp_all add: set_thread_def)

lemma mset_set_thread:
  "k < length (dr_threads s) \<Longrightarrow> mset (dr_threads (set_thread k t s)) =
     add_mset (fst (dr_threads s ! k), t) (mset (remove_nth k (dr_threads s)))"
  by (simp add: set_thread_def mset_update_remove_nth)

definition others :: "(dag_thread \<Rightarrow> 'a::comm_monoid_add) \<Rightarrow> nat \<Rightarrow> dag_run \<Rightarrow> 'a" where
  "others f k s = sum_mset (image_mset (\<lambda>t. f (snd t)) (mset (remove_nth k (dr_threads s))))"

lemma tsum_split:
  "k < length (dr_threads s) \<Longrightarrow> tsum f s = f (snd (dr_threads s ! k)) + others f k s"
  using mset_remove_nth [of k "dr_threads s"] by (simp add: tsum_def others_def)

lemma tsum_set_thread:
  "k < length (dr_threads s) \<Longrightarrow> tsum f (set_thread k t s) = f t + others f k s"
  by (simp add: tsum_def others_def mset_set_thread)

lemma others_cong [simp]:
  "others f k (s\<lparr>dr_started := x\<rparr>) = others f k s" "others f k (s\<lparr>dr_finished := x\<rparr>) = others f k s"
  "others f k (s\<lparr>dr_counters := c\<rparr>) = others f k s" "others f k (s\<lparr>dr_notified := y\<rparr>) = others f k s"
  "others f k (s\<lparr>dr_wg := g\<rparr>) = others f k s"
  by (simp_all add: others_def)

lemma tsum_append [simp]:
  "tsum f (s\<lparr>dr_threads := dr_threads s @ [t]\<rparr>) = tsum f s + f (snd t)"
  by (simp add: tsum_def add.commute)

lemma tsum_remove [simp]: "tsum f (s\<lparr>dr_threads := remove_nth k (dr_threads s)\<rparr>) = others f k s"
  by (simp add: tsum_def others_def)

lemma tsum_cong [simp]:
  "tsum f (s\<lparr>dr_started := x\<rparr>) = tsum f s" "tsum f (s\<lparr>dr_finished := x\<rparr>) = tsum f s"
  "tsum f (s\<lparr>dr_counters := c\<rparr>) = tsum f s" "tsum f (s\<lparr>dr_notified := y\<rparr>) = tsum f s"
  "tsum f (s\<lparr>dr_wg := g\<rparr>) = tsum f s"
  by (simp_all add: tsum_def)

lemma tasks_set_thread:
  "k < length (dr_threads s) \<Longrightarrow>
   size (filter_mset fst (mset (dr_threads (set_thread k t s)))) =
   size (filter_mset fst (mset (dr_threads s)))"
  using mset_remove_nth [of k "dr_threads s"] by (simp add: mset_set_thread)

section \<open>Consequences of the invariant\<close>

lemma sum_outs_mset: "sum_list (map (outs_of d) fs) = sum_mset (image_mset (outs_of d) (mset fs))"
  by (simp flip: sum_mset_sum_list)

lemma outs_subset_edges:
  assumes "distinct fs" "set fs \<subseteq> {..<dag_size d}"
  shows "sum_list (map (outs_of d) fs) \<subseteq># edges d"
proof -
  have "mset fs \<subseteq># mset [0..<dag_size d]"
    using assms subset_imp_msubset_mset_set [of "set fs" "{0..<dag_size d}"]
    by (auto simp: mset_set_set atLeast0LessThan simp flip: mset_set_upto_eq_mset_upto)
  then show ?thesis
    by (auto simp: edges_def sum_outs_mset subset_mset.le_iff_add)
qed

text \<open>If one node is missing among those that ended, its edges have not been delivered.\<close>

lemma missing_parent:
  assumes "distinct fs" "set fs \<subseteq> {..<dag_size d}" "m < dag_size d" "m \<notin> set fs"
  shows "count (sum_list (map (outs_of d) fs)) n + count (outs_of d m) n \<le> indeg d n"
proof -
  have "sum_list (map (outs_of d) (m # fs)) \<subseteq># edges d"
    using assms by (intro outs_subset_edges) auto
  then show ?thesis
    by (auto simp: indeg_def subseteq_mset_def dest: spec [of _ n])
qed

lemma Invalid_large: "dag_ok d \<Longrightarrow> n < dag_size d \<Longrightarrow> n \<noteq> InvalidIndex"
  by (auto simp: dag_ok_def InvalidIndex_def)

lemma indeg_pos_bound: "dag_ok d \<Longrightarrow> 0 < indeg d n \<Longrightarrow> n < dag_size d"
  by (auto simp: dag_ok_def indeg_def)

lemma trig_bound:
  assumes "dag_ok d" "dag_inv d s" "n \<in># trig s"
  shows "n < dag_size d"
proof -
  from assms(3) have "triggered d s n"
    using dag_invD(3) [OF assms(2), of n] by (auto split: if_splits simp flip: count_greater_zero_iff)
  with assms(1) show ?thesis
    by (auto simp: triggered_def RootIndex_def dest: indeg_pos_bound) (simp add: dag_ok_def)
qed

lemma trig_distinct:
  assumes "dag_inv d s"
  shows "count (trig s) n \<le> 1"
  using dag_invD(3) [OF assms, of n] by auto

lemma finished_le_started: "dag_inv d s \<Longrightarrow> mset (dr_finished s) \<subseteq># mset (dr_started s)"
  by (simp add: dag_inv_def)

lemma started_le_trig: "mset (dr_started s) \<subseteq># trig s"
  by (simp add: trig_def)

lemma mset_le_distinct:
  assumes "mset xs \<subseteq># M" "\<And>n. count M n \<le> 1"
  shows "distinct xs"
  unfolding distinct_count_atmost_1
proof
  fix a
  have "count (mset xs) a \<le> 1"
    using mset_subset_eq_count [OF assms(1), of a] assms(2) [of a] by (rule order_trans)
  moreover have "0 < count (mset xs) a \<longleftrightarrow> a \<in> set xs" by simp
  ultimately show "count (mset xs) a = (if a \<in> set xs then 1 else 0)"
    by (cases "count (mset xs) a") auto
qed

lemma started_distinct: "dag_inv d s \<Longrightarrow> distinct (dr_started s)"
  by (rule mset_le_distinct [OF started_le_trig]) (rule trig_distinct)

lemma finished_distinct: "dag_inv d s \<Longrightarrow> distinct (dr_finished s)"
  by (rule mset_le_distinct [OF subset_mset.order_trans [OF finished_le_started started_le_trig]])
    (assumption, rule trig_distinct)

lemma started_bound: "dag_ok d \<Longrightarrow> dag_inv d s \<Longrightarrow> set (dr_started s) \<subseteq> {..<dag_size d}"
  using trig_bound [of d s] by (auto simp: trig_def)

lemma finished_bound: "dag_ok d \<Longrightarrow> dag_inv d s \<Longrightarrow> set (dr_finished s) \<subseteq> {..<dag_size d}"
  using started_bound [of d s] finished_le_started [of d s] set_mset_mono by fastforce

lemma size_le_bound:
  assumes "\<And>n. count M n \<le> 1" "\<And>n. n \<in># M \<Longrightarrow> n < (b :: nat)"
  shows "size M \<le> b"
proof -
  obtain xs where xs: "M = mset xs" by (metis ex_mset)
  then have "distinct xs" using mset_le_distinct [of xs M] assms(1) by simp
  moreover have "set xs \<subseteq> {..<b}" using assms(2) xs by auto
  ultimately have "length xs \<le> b"
    by (metis card_lessThan card_mono distinct_card finite_lessThan)
  with xs show ?thesis by simp
qed

text \<open>While a node is not yet triggered, the threads are fewer than the nodes.\<close>

lemma threads_less_size:
  assumes "dag_ok d" "dag_inv d s" "n < dag_size d" "\<not> triggered d s n"
  shows "length (dr_threads s) < dag_size d"
proof -
  have "count (trig s) n = 0" using dag_invD(3) [OF assms(2), of n] assms(4) by simp
  then have "size (add_mset n (trig s)) \<le> dag_size d"
    using trig_distinct [OF assms(2)] trig_bound [OF assms(1,2)] assms(3)
    by (intro size_le_bound) auto
  then show ?thesis using dag_invD(6) [OF assms(2)] by simp
qed

lemma notified_le_indeg:
  assumes "dag_ok d" "dag_inv d s"
  shows "count (dr_notified s) n + count (tsum th_left s) n \<le> indeg d n"
  using outs_subset_edges [OF finished_distinct finished_bound, OF assms(2) assms]
    dag_invD(2) [OF assms(2), symmetric] by (simp add: indeg_def mset_subset_eq_count flip: count_union)

section \<open>The invariant is kept\<close>

lemma counters_ok_cong:
  "dr_counters t = dr_counters s \<Longrightarrow> dr_notified t = dr_notified s \<Longrightarrow> counters_ok d t = counters_ok d s"
  by (simp add: counters_ok_def)

lemma triggered_cong: "dr_notified t = dr_notified s \<Longrightarrow> triggered d t n = triggered d s n"
  by (simp add: triggered_def)

text \<open>Steps that move no notification and keep the set of triggered nodes.\<close>

lemma dag_inv_move:
  assumes "dag_inv d s"
    and "dr_counters t = dr_counters s" "dr_notified t = dr_notified s" "trig t = trig s"
    and "mset (dr_started t) = mset (dr_finished t) + tsum th_working t"
    and "dr_notified t + tsum th_left t = sum_list (map (outs_of d) (dr_finished t))"
    and "wg_outstanding (dr_wg t) = size (filter_mset fst (mset (dr_threads t)))"
    and "length (dr_threads t) \<le> length (dr_threads s)"
  shows "dag_inv d t"
  using assms dag_invD(3-6) [OF assms(1)]
  by (simp add: dag_inv_def counters_ok_cong [OF assms(2,3)] triggered_cong [OF assms(3)])

lemma dag_inv_start: "dag_ok d \<Longrightarrow> dag_inv d (run_start d)"
  by (auto simp: dag_inv_def run_start_def tsum_def trig_def triggered_def counters_ok_def dag_ok_def
      initCounters_def wg_outstanding_def wg_new_def Let_def)

lemma enter_inv:
  assumes "dag_ok d" "dag_inv d s" "k < length (dr_threads s)" "snd (dr_threads s ! k) = TInvoke i"
  shows "\<exists>t. invoke_enter d k i s = Inr t \<and> dag_inv d t"
proof -
  note sp = tsum_split [OF assms(3)]
  have "i \<in># trig s" by (simp add: trig_def sp assms(4))
  then have i: "i < length (dag_nodes d)" using trig_bound [OF assms(1,2)] by (simp add: dag_size_def)
  show ?thesis
  proof (cases "dn_work (dag_nodes d ! i)")
    case None
    let ?t = "set_thread k (TNotify i (dn_outs (dag_nodes d ! i)) InvalidIndex)
       (s\<lparr>dr_started := dr_started s @ [i], dr_finished := dr_finished s @ [i]\<rparr>)"
    have "dag_inv d ?t"
      using assms(3,4) dag_invD(1,2,5) [OF assms(2)]
      by (intro dag_inv_move [OF assms(2)])
        (simp_all add: trig_def tsum_set_thread sp tasks_set_thread outs_of_def ac_simps)
    then show ?thesis using None i by (simp add: invoke_enter_def Let_def)
  next
    case (Some w)
    let ?t = "set_thread k (TWork i) (s\<lparr>dr_started := dr_started s @ [i]\<rparr>)"
    have "dag_inv d ?t"
      using assms(3,4) dag_invD(1,2,5) [OF assms(2)]
      by (intro dag_inv_move [OF assms(2)])
        (simp_all add: trig_def tsum_set_thread sp tasks_set_thread ac_simps)
    then show ?thesis using Some i by (simp add: invoke_enter_def Let_def)
  qed
qed

lemma work_done_inv:
  assumes "dag_inv d s" "k < length (dr_threads s)" "snd (dr_threads s ! k) = TWork i"
  shows "\<exists>t. invoke_work_done d k i s = Inr t \<and> dag_inv d t"
proof -
  let ?t = "set_thread k (TNotify i (dn_outs (dag_nodes d ! i)) InvalidIndex)
    (s\<lparr>dr_finished := dr_finished s @ [i]\<rparr>)"
  have "dag_inv d ?t"
    using assms(2,3) dag_invD(1,2,5) [OF assms(1)]
    by (intro dag_inv_move [OF assms(1)])
      (simp_all add: trig_def tsum_set_thread tsum_split [OF assms(2)] tasks_set_thread outs_of_def ac_simps)
  then show ?thesis by (simp add: invoke_work_done_def)
qed

lemma leave_inv:
  assumes "dag_inv d s" "k < length (dr_threads s)" "snd (dr_threads s ! k) = TNotify n [] v"
  shows "\<exists>t. invoke_leave k v s = Inr t \<and> dag_inv d t"
proof (cases "v = InvalidIndex")
  case False
  have "dag_inv d (set_thread k (TInvoke v) s)"
    using assms(2,3) dag_invD(1,2,5) [OF assms(1)] False
    by (intro dag_inv_move [OF assms(1)])
      (simp_all add: trig_def tsum_set_thread tsum_split [OF assms(2)] tasks_set_thread)
  with False show ?thesis by (simp add: invoke_leave_def)
next
  case True
  let ?s = "s\<lparr>dr_threads := remove_nth k (dr_threads s)\<rparr>"
  have move: "dag_inv d (?s\<lparr>dr_wg := g\<rparr>)"
    if "wg_outstanding g = size (filter_mset fst (mset (remove_nth k (dr_threads s))))" for g
    using assms(2,3) dag_invD(1,2) [OF assms(1)] True that
    by (intro dag_inv_move [OF assms(1)])
      (simp_all add: trig_def tsum_split [OF assms(2)] length_remove_nth)
  have out: "wg_outstanding (dr_wg s) =
      size (filter_mset fst (mset (remove_nth k (dr_threads s)))) + (if fst (dr_threads s ! k) then 1 else 0)"
    using dag_invD(5) [OF assms(1)] mset_remove_nth [OF assms(2)] by simp
  show ?thesis
  proof (cases "fst (dr_threads s ! k)")
    case False
    with out move [of "dr_wg s"] True show ?thesis by (simp add: invoke_leave_def Let_def)
  next
    case task: True
    with out have "0 < wg_outstanding (dr_wg s)" by simp
    then obtain g where "wg_done (dr_wg s) = Inr (g, wg_outstanding (dr_wg s) = 1)"
      "wg_outstanding g = wg_outstanding (dr_wg s) - 1" using wg.finish_spec by blast
    with out task True move [of g] show ?thesis by (simp add: invoke_leave_def Let_def)
  qed
qed

lemma unat_minus_1_eq: "0 < unat (x :: 32 word) \<Longrightarrow> unat (x - 1) = unat x - 1"
  by (metis unat_minus_one unat_0 less_numeral_extra(3))

lemma root_indeg: "dag_ok d \<Longrightarrow> indeg d RootIndex = 0"
  by (simp add: dag_ok_def)

lemma dag_okD:
  assumes "dag_ok d" "n < dag_size d"
  shows "1 < indeg d n \<Longrightarrow> dn_counterIndex (dag_nodes d ! n) < length (dag_initialCounters d)"
    and "1 < indeg d n \<Longrightarrow> dn_counterIndex (dag_nodes d ! n) \<noteq> InvalidIndex"
    and "\<not> 1 < indeg d n \<Longrightarrow> dn_counterIndex (dag_nodes d ! n) = InvalidIndex"
    and "m < dag_size d \<Longrightarrow> m \<noteq> n \<Longrightarrow> 1 < indeg d m \<Longrightarrow> 1 < indeg d n \<Longrightarrow>
      dn_counterIndex (dag_nodes d ! n) \<noteq> dn_counterIndex (dag_nodes d ! m)"
  using assms by (auto simp: dag_ok_def Let_def)

lemma dag_notify_spec:
  assumes ok: "dag_ok d" and inv: "dag_inv d s" and left: "idx \<in># tsum th_left s"
  shows "\<exists>cs. dag_notify d idx (dr_counters s) = Inr (cs, count (dr_notified s) idx + 1 = indeg d idx) \<and>
    counters_ok d (s\<lparr>dr_counters := cs, dr_notified := add_mset idx (dr_notified s)\<rparr>)"
proof -
  let ?ci = "\<lambda>n. dn_counterIndex (dag_nodes d ! n)"
  have lt: "count (dr_notified s) idx < indeg d idx"
    using notified_le_indeg [OF ok inv, of idx] left by (simp flip: count_greater_zero_iff)
  then have idx: "idx < dag_size d" by (intro indeg_pos_bound [OF ok]) simp
  note cs = dag_invD(4) [OF inv, unfolded counters_ok_def]
  show ?thesis
  proof (cases "1 < indeg d idx")
    case False
    with lt dag_okD(3) [OF ok idx] idx cs show ?thesis
      by (auto simp: dag_notify_def Let_def counters_ok_def dag_size_def)
  next
    case True
    let ?c = "dr_counters s ! ?ci idx"
    have c: "unat ?c = indeg d idx - count (dr_notified s) idx" using cs idx True by blast
    with lt have c1: "unat (?c - 1) = indeg d idx - Suc (count (dr_notified s) idx)"
      by (simp add: unat_minus_1_eq)
    then have "(?c - 1 = 0) = (Suc (count (dr_notified s) idx) = indeg d idx)"
      using lt by (metis Suc_leI diff_is_0_eq le_antisym unat_eq_0 order_refl)
    moreover have "counters_ok d (s\<lparr>dr_counters := (dr_counters s)[?ci idx := ?c - 1],
        dr_notified := add_mset idx (dr_notified s)\<rparr>)"
      unfolding counters_ok_def
    proof (intro conjI allI impI)
      fix n assume n: "n < dag_size d" "1 < indeg d n"
      then show "unat (dr_counters (s\<lparr>dr_counters := (dr_counters s)[?ci idx := ?c - 1],
          dr_notified := add_mset idx (dr_notified s)\<rparr>) ! ?ci n) = indeg d n -
          count (dr_notified (s\<lparr>dr_counters := (dr_counters s)[?ci idx := ?c - 1],
          dr_notified := add_mset idx (dr_notified s)\<rparr>)) n"
        using c1 cs dag_okD(1) [OF ok idx True] dag_okD(4) [OF ok idx n(1) _ n(2) True]
        by (cases "n = idx") simp_all
    qed (use cs in simp)
    ultimately show ?thesis
      using idx True dag_okD(1,2) [OF ok idx True] cs
      by (simp add: dag_notify_def Let_def dag_size_def)
  qed
qed

lemma notify_inv:
  assumes ok: "dag_ok d" and inv: "dag_inv d s" and k: "k < length (dr_threads s)"
    and th: "snd (dr_threads s ! k) = TNotify n (idx # rest) v"
  shows "\<exists>t. invoke_notify d k n idx rest v s = Inr t \<and> dag_inv d t"
proof -
  note sp = tsum_split [OF k] and ws = dag_invD(1,2,5) [OF inv]
  have left: "idx \<in># tsum th_left s" by (simp add: sp th)
  have lt: "count (dr_notified s) idx < indeg d idx"
    using notified_le_indeg [OF ok inv, of idx] left by (simp flip: count_greater_zero_iff)
  then have idx: "idx < dag_size d" "idx \<noteq> InvalidIndex" "idx \<noteq> RootIndex"
    using indeg_pos_bound [OF ok, of idx] Invalid_large [OF ok, of idx] root_indeg [OF ok] by auto
  obtain cs where n: "dag_notify d idx (dr_counters s) = Inr (cs, count (dr_notified s) idx + 1 = indeg d idx)"
    and c: "counters_ok d (s\<lparr>dr_counters := cs, dr_notified := add_mset idx (dr_notified s)\<rparr>)"
    using dag_notify_spec [OF ok inv left] by blast
  let ?s = "s\<lparr>dr_counters := cs, dr_notified := add_mset idx (dr_notified s)\<rparr>"
  have trig': "count (if Suc (count (dr_notified s) idx) = indeg d idx then add_mset idx (trig s) else trig s) m =
      (if triggered d ?s m then 1 else 0)" for m
    using dag_invD(3) [OF inv, of m] lt idx(3) by (auto simp: triggered_def)
  have build: "dag_inv d t"
    if "dr_counters t = cs" "dr_notified t = add_mset idx (dr_notified s)" "dr_started t = dr_started s"
      "dr_finished t = dr_finished s" "tsum th_working t = tsum th_working s"
      "add_mset idx (tsum th_left t) = tsum th_left s"
      "trig t = (if Suc (count (dr_notified s) idx) = indeg d idx then add_mset idx (trig s) else trig s)"
      "wg_outstanding (dr_wg t) = size (filter_mset fst (mset (dr_threads t)))"
      "length (dr_threads t) \<le> size (trig t)" for t
  proof -
    have "counters_ok d t" using counters_ok_cong [of t ?s d] that(1,2) c by simp
    moreover have "triggered d t m = triggered d ?s m" for m using that(2) by (simp add: triggered_def)
    ultimately show ?thesis
      using that ws trig' by (simp add: dag_inv_def flip: union_mset_add_mset_right)
  qed
  consider (no) "Suc (count (dr_notified s) idx) \<noteq> indeg d idx"
    | (first) "Suc (count (dr_notified s) idx) = indeg d idx" "v = InvalidIndex"
    | (more) "Suc (count (dr_notified s) idx) = indeg d idx" "v \<noteq> InvalidIndex" by blast
  then show ?thesis
  proof cases
    case no
    have "dag_inv d (set_thread k (TNotify n rest v) ?s)"
      using k th no ws(3) dag_invD(6) [OF inv]
      by (intro build) (simp_all add: trig_def tsum_set_thread sp tasks_set_thread)
    with n no show ?thesis by (simp add: invoke_notify_def Let_def)
  next
    case first
    have "dag_inv d (set_thread k (TNotify n rest idx) ?s)"
      using k th first ws(3) dag_invD(6) [OF inv] idx(2)
      by (intro build) (simp_all add: trig_def tsum_set_thread sp tasks_set_thread)
    with n first show ?thesis by (simp add: invoke_notify_def Let_def)
  next
    case more
    let ?s2 = "set_thread k (TNotify n rest idx) (?s\<lparr>dr_wg := wg_add 1 (dr_wg s)\<rparr>)"
    let ?t = "?s2\<lparr>dr_threads := dr_threads ?s2 @ [(True, TInvoke v)]\<rparr>"
    have tr: "trig ?t = add_mset idx (trig s)"
      using k th more idx(2) by (simp add: trig_def tsum_set_thread sp)
    have "length (dr_threads s) < dag_size d"
      using threads_less_size [OF ok inv idx(1)] lt idx(3) by (simp add: triggered_def)
    moreover have "size (filter_mset fst (mset (dr_threads s))) \<le> length (dr_threads s)"
      using size_filter_mset_lesseq [of fst "mset (dr_threads s)"] by simp
    ultimately have "Suc (size (filter_mset fst (mset (dr_threads s)))) < 2 ^ 32"
      using ok by (simp add: dag_ok_def)
    then have "wg_outstanding (wg_add 1 (dr_wg s)) = Suc (size (filter_mset fst (mset (dr_threads s))))"
      using wg.add_spec [of "dr_wg s"] ws(3) by simp
    then have "dag_inv d ?t"
      using k th more dag_invD(6) [OF inv] idx(2) tr
      by (intro build) (simp_all add: tsum_set_thread sp tasks_set_thread)
    with n more show ?thesis by (simp add: invoke_notify_def Let_def)
  qed
qed

lemma next_inv:
  assumes "dag_ok d" "dag_inv d s" "k < length (dr_threads s)"
  shows "\<exists>t. invoke_next d k s = Inr t \<and> dag_inv d t"
  using enter_inv [OF assms] work_done_inv [OF assms(2,3)] notify_inv [OF assms] leave_inv [OF assms(2,3)]
  by (simp add: invoke_next_def split: dag_thread.split list.split)

lemma dag_step_inv:
  assumes "dag_ok d" "dag_inv d s" "dag_step d s r"
  shows "\<exists>t. r = Inr t \<and> dag_inv d t"
  using assms(3) next_inv [OF assms(1,2)] by (auto elim: dag_step.cases)

text \<open>
  The run of a graph that is not well-formed has no promised invariant; the interpretation
  takes \<open>dag_ok\<close> into the invariant's initial states.
\<close>

definition dag_init_ok :: "'w dag \<Rightarrow> dag_run \<Rightarrow> bool" where
  "dag_init_ok d s \<longleftrightarrow> dag_ok d \<and> dag_init d s"

definition dag_sys_inv :: "'w dag \<Rightarrow> dag_run \<Rightarrow> bool" where
  "dag_sys_inv d s \<longleftrightarrow> dag_ok d \<and> dag_inv d s"

interpretation dag_system: invariant_system "dag_init_ok d" "dag_step d" "dag_sys_inv d" for d :: "'w dag"
proof (unfold_locales, goal_cases)
  case (1 s)
  then show ?case by (simp add: dag_init_ok_def dag_sys_inv_def dag_init_def dag_inv_start)
next
  case (2 s r)
  then show ?case using dag_step_inv [of d s r] by (auto simp: dag_sys_inv_def)
qed

lemma dag_reach_ok: "dag_ok d \<Longrightarrow> dag_reach d s \<Longrightarrow> reach (dag_init_ok d) (dag_step d) s"
  by (simp add: dag_init_ok_def [abs_def])

lemma dag_reach_inv: "dag_ok d \<Longrightarrow> dag_reach d s \<Longrightarrow> dag_inv d s"
  using dag_system.reach_inv [OF dag_reach_ok, of d s] by (simp add: dag_sys_inv_def)

section \<open>What a run has done\<close>

lemma started_notified:
  assumes "dag_inv d s" "n \<in> set (dr_started s)" "n \<noteq> RootIndex"
  shows "0 < indeg d n \<and> count (dr_notified s) n = indeg d n"
proof -
  have "n \<in># trig s" using assms(2) by (simp add: trig_def)
  then have "count (trig s) n \<noteq> 0" by simp
  then show ?thesis using dag_invD(3) [OF assms(1), of n] assms(3) by (simp add: triggered_def split: if_splits)
qed

lemma notified_le_finished:
  "dag_inv d s \<Longrightarrow> count (dr_notified s) n \<le> count (sum_list (map (outs_of d) (dr_finished s))) n"
  using dag_invD(2) [of d s] by (metis count_union le_add1)

lemma started_parent_finished:
  assumes "dag_ok d" "dag_inv d s" "n \<in> set (dr_started s)" "m < dag_size d" "n \<in># outs_of d m"
  shows "m \<in> set (dr_finished s)"
proof (rule ccontr)
  assume "m \<notin> set (dr_finished s)"
  then have m: "count (sum_list (map (outs_of d) (dr_finished s))) n + count (outs_of d m) n \<le> indeg d n"
    using missing_parent [OF finished_distinct finished_bound] assms by blast
  moreover have pos: "0 < count (outs_of d m) n" using assms(5) by simp
  ultimately have "0 < indeg d n" by linarith
  then have "n \<noteq> RootIndex" using root_indeg [OF assms(1)] by auto
  then have "count (dr_notified s) n = indeg d n" using started_notified [OF assms(2,3)] by simp
  with m pos notified_le_finished [OF assms(2), of n] show False by linarith
qed

text \<open>When no thread is left, all nodes of a connected graph have ended.\<close>

lemma all_finished:
  assumes "dag_ok d" "dag_connected d" "dag_inv d s" "dr_threads s = []" "n < dag_size d"
  shows "n \<in> set (dr_finished s)"
  using assms(5)
proof (induction n rule: less_induct)
  case (less n)
  have fin: "mset (dr_finished s) = trig s" "dr_notified s = sum_list (map (outs_of d) (dr_finished s))"
    using dag_invD(1,2) [OF assms(3)] assms(4) by (simp_all add: tsum_def trig_def)
  have "triggered d s n"
  proof (cases "n = RootIndex")
    case False
    have "mset (filter (\<lambda>m. n \<in># outs_of d m) [0..<dag_size d]) \<subseteq># mset (dr_finished s)"
    proof -
      have "set (filter (\<lambda>m. n \<in># outs_of d m) [0..<dag_size d]) \<subseteq> set (dr_finished s)"
        using less assms(2) by (auto simp: dag_connected_def)
      then show ?thesis
        by (metis distinct_filter distinct_upt finished_distinct [OF assms(3)] finite_set mset_set_set
            subset_imp_msubset_mset_set)
    qed
    then have le: "sum_list (map (outs_of d) (filter (\<lambda>m. n \<in># outs_of d m) [0..<dag_size d])) \<subseteq>#
        dr_notified s"
      unfolding fin(2) sum_outs_mset by (metis image_mset_union subset_mset.le_iff_add sum_mset.union)
    have "count (sum_list (map (outs_of d) (filter (\<lambda>m. n \<in># outs_of d m) xs))) n =
        count (sum_list (map (outs_of d) xs)) n" for xs
      by (induction xs) (auto simp: not_in_iff)
    then have "indeg d n \<le> count (dr_notified s) n"
      using mset_subset_eq_count [OF le, of n] by (simp only: indeg_def edges_def)
    moreover have "0 < indeg d n" using assms(2) less.prems False by (simp add: dag_connected_def)
    ultimately show ?thesis
      using notified_le_indeg [OF assms(1,3), of n] by (simp add: triggered_def)
  qed (simp add: triggered_def)
  then have "count (trig s) n = 1" using dag_invD(3) [OF assms(3), of n] by simp
  then show ?case using fin(1) by (metis count_mset_0_iff zero_neq_one)
qed

lemma returned_no_threads:
  assumes "dag_inv d s" "run_returned s"
  shows "dr_threads s = []"
proof -
  have "wg_outstanding (dr_wg s) = 0" using assms(2) wg.is_open_spec by (simp add: run_returned_def)
  then have "filter_mset fst (mset (dr_threads s)) = {#}" using dag_invD(5) [OF assms(1)] by simp
  moreover have "filter_mset fst (mset (dr_threads s)) = mset (dr_threads s)"
    using assms(2) by (simp add: run_returned_def filter_mset_eq_conv)
  ultimately show ?thesis by simp
qed

lemma run_complete:
  assumes "dag_ok d" "dag_connected d" "dag_inv d s" "run_returned s"
  shows "mset (dr_finished s) = mset [0..<dag_size d]" "mset (dr_started s) = mset (dr_finished s)" "dr_threads s = []"
proof -
  show th: "dr_threads s = []" by (rule returned_no_threads [OF assms(3,4)])
  have "set (dr_finished s) = {0..<dag_size d}"
    using all_finished [OF assms(1-3) th] finished_bound [OF assms(1,3)] by auto
  then show "mset (dr_finished s) = mset [0..<dag_size d]"
    using finished_distinct [OF assms(3)] mset_set_set [of "dr_finished s"] by simp
  show "mset (dr_started s) = mset (dr_finished s)" using dag_invD(1) [OF assms(3)] th by (simp add: tsum_def)
qed

lemma no_threads_returned: "dag_inv d s \<Longrightarrow> dr_threads s = [] \<Longrightarrow> run_returned s"
  using dag_invD(5) [of d s] wg.is_open_spec by (simp add: run_returned_def)

section \<open>Termination\<close>

fun th_weight :: "'w dag \<Rightarrow> dag_thread \<Rightarrow> nat" where
  "th_weight d (TInvoke i) = 0"
| "th_weight d (TWork i) = size (outs_of d i) + 2"
| "th_weight d (TNotify n os v) = length os + 1"

definition dag_measure :: "'w dag \<Rightarrow> dag_run \<Rightarrow> nat" where
  "dag_measure d s =
     (\<Sum>n\<in>{..<dag_size d} - set (dr_started s). size (outs_of d n) + 3) + tsum (th_weight d) s"

lemma next_decreases:
  assumes ok: "dag_ok d" and inv: "dag_inv d s" and k: "k < length (dr_threads s)"
    and nx: "invoke_next d k s = Inr t"
  shows "dag_measure d t < dag_measure d s"
proof (cases "snd (dr_threads s ! k)")
  case (TInvoke i)
  have "i \<in># tsum th_pending s" by (simp add: tsum_split [OF k] TInvoke)
  then have "i < dag_size d" "i \<notin> set (dr_started s)"
    using trig_bound [OF ok inv, of i] trig_distinct [OF inv, of i]
    by (auto simp: trig_def count_eq_zero_iff simp flip: count_greater_zero_iff set_mset_mset)
  then have "(\<Sum>n\<in>{..<dag_size d} - set (dr_started s). size (outs_of d n) + 3) =
      size (outs_of d i) + 3 + (\<Sum>n\<in>{..<dag_size d} - insert i (set (dr_started s)). size (outs_of d n) + 3)"
    by (subst sum.remove [of _ i]) (auto intro: sum.cong)
  moreover have "dr_started t = dr_started s @ [i]"
    "tsum (th_weight d) t \<le> size (outs_of d i) + 2 + others (th_weight d) k s"
    using nx TInvoke k
    by (auto simp: invoke_next_def invoke_enter_def Let_def tsum_set_thread outs_of_def split: option.splits)
  ultimately show ?thesis by (simp add: dag_measure_def tsum_split [OF k] TInvoke)
next
  case (TWork i)
  with nx k show ?thesis
    by (auto simp: invoke_next_def invoke_work_done_def dag_measure_def tsum_set_thread tsum_split [OF k] outs_of_def)
next
  case (TNotify n os v)
  then show ?thesis
    using nx k
    by (auto simp: invoke_next_def invoke_notify_def invoke_leave_def Let_def dag_measure_def
        tsum_set_thread tsum_split [OF k] split: list.splits if_splits)
qed

text \<open>The state after \<open>k\<close> steps.\<close>

inductive dag_steps :: "'w dag \<Rightarrow> nat \<Rightarrow> dag_run \<Rightarrow> bool" for d where
  steps_start: "dag_steps d 0 (run_start d)"
| steps_step: "dag_steps d k s \<Longrightarrow> dag_step d s (Inr t) \<Longrightarrow> dag_steps d (Suc k) t"

inductive_simps dag_step_iff: "dag_step d s r"

lemma dag_steps_reach: "dag_steps d k s \<Longrightarrow> dag_reach d s"
  by (induction rule: dag_steps.induct) (auto intro: reach.intros simp: dag_init_def)

lemma measure_start: "dag_measure d (run_start d) = 3 * dag_size d + size (edges d)"
proof -
  have "(\<Sum>n<dag_size d. size (outs_of d n) + 3) = (\<Sum>n<dag_size d. size (outs_of d n)) + 3 * dag_size d"
    by (simp add: sum.distrib)
  moreover have "size (edges d) = (\<Sum>n<dag_size d. size (outs_of d n))"
  proof -
    have "size (sum_list (map (outs_of d) [0..<b])) = (\<Sum>n<b. size (outs_of d n))" for b
      by (induction b) auto
    then show ?thesis by (simp add: edges_def)
  qed
  ultimately show ?thesis by (simp add: dag_measure_def run_start_def tsum_def)
qed

lemma step_decreases:
  assumes "dag_ok d" "dag_inv d s" "dag_step d s (Inr t)"
  shows "dag_measure d t < dag_measure d s"
proof -
  obtain k where "k < length (dr_threads s)" "invoke_next d k s = Inr t"
    using assms(3) by (auto simp: dag_step_iff)
  then show ?thesis using next_decreases [OF assms(1,2)] by blast
qed

lemma dag_steps_measure:
  "dag_steps d k s \<Longrightarrow> dag_ok d \<Longrightarrow> k + dag_measure d s \<le> dag_measure d (run_start d)"
proof (induction rule: dag_steps.induct)
  case (steps_step k s t)
  then have "dag_measure d t < dag_measure d s"
    using step_decreases dag_reach_inv dag_steps_reach by blast
  with steps_step show ?case by simp
qed simp

end
