(* ===== verification/Dag_Builder.thy ===== *)
theory Dag_Builder
  imports Dag_Proofs
begin

text \<open>
  The builder of task graphs (\<open>DAGBuilder\<close>, \<open>DAGNodeBuilder\<close> of \<open>dag.hpp\<close>) against its specification: a
  sequence of calls describes a list of works and a list of edges; the builder's state and the
  graph that \<open>build\<close> returns are functions of the two. The graph is then well-formed in the sense of
  \<open>dag_ok\<close>, so that the theorems on runs apply to every graph made with the builder.
\<close>

section \<open>What a sequence of calls describes\<close>

text \<open>The calls use handles of nodes that exist, dependencies lead to younger nodes, and every node
  has a parent; \<open>n\<close> is the number of nodes so far.\<close>

fun ops_ok :: "nat \<Rightarrow> 'w builder_op list \<Rightarrow> bool" where
  "ops_ok n [] = True"
| "ops_ok n (BNode w after # xs) = (after \<noteq> [] \<and> (\<forall>p \<in> set after. p < n) \<and> ops_ok (Suc n) xs)"
| "ops_ok n (BThen p w # xs) = (p < n \<and> ops_ok (Suc n) xs)"
| "ops_ok n (BDep p c # xs) = (p < c \<and> c < n \<and> ops_ok n xs)"

fun ops_edges :: "nat \<Rightarrow> 'w builder_op list \<Rightarrow> (nat \<times> nat) list" where
  "ops_edges n [] = []"
| "ops_edges n (BNode w after # xs) = map (\<lambda>p. (p, n)) after @ ops_edges (Suc n) xs"
| "ops_edges n (BThen p w # xs) = (p, n) # ops_edges (Suc n) xs"
| "ops_edges n (BDep p c # xs) = (p, c) # ops_edges n xs"

fun ops_works :: "'w builder_op list \<Rightarrow> 'w list" where
  "ops_works [] = []"
| "ops_works (BNode w after # xs) = w # ops_works xs"
| "ops_works (BThen p w # xs) = w # ops_works xs"
| "ops_works (BDep p c # xs) = ops_works xs"

definition outs_in :: "(nat \<times> nat) list \<Rightarrow> nat \<Rightarrow> nat list" where
  "outs_in es p = map snd (filter (\<lambda>e. fst e = p) es)"

definition ins_in :: "(nat \<times> nat) list \<Rightarrow> nat \<Rightarrow> nat" where
  "ins_in es c = count_list (map snd es) c"

text \<open>The builder after calls that describe the edges \<open>es\<close> and the works \<open>ws\<close>.\<close>

definition bmake :: "(nat \<times> nat) list \<Rightarrow> 'w option list \<Rightarrow> 'w dag_builder" where
  "bmake es ws =
     \<lparr>db_dag = \<lparr>dag_nodes = map (\<lambda>p. \<lparr>dn_work = ws ! p, dn_counterIndex = InvalidIndex, dn_outs = outs_in es p\<rparr>)
                              [0..<length ws],
                dag_initialCounters = []\<rparr>,
      db_numIns = map (\<lambda>c. of_nat (ins_in es c)) [0..<length ws]\<rparr>"

definition edges_below :: "nat \<Rightarrow> (nat \<times> nat) list \<Rightarrow> bool" where
  "edges_below n es \<longleftrightarrow> (\<forall>e \<in> set es. fst e < snd e \<and> snd e < n)"

section \<open>The builder's calls\<close>

lemma bmake_new: "builder_new = bmake [] [None]"
  by (simp add: builder_new_def bmake_def node_new_def outs_in_def ins_in_def)

lemma bmake_simps [simp]:
  "length (db_numIns (bmake es ws)) = length ws" "length (dag_nodes (db_dag (bmake es ws))) = length ws"
  by (simp_all add: bmake_def)

lemma outs_in_append [simp]: "outs_in (es @ fs) p = outs_in es p @ outs_in fs p"
  by (simp add: outs_in_def)

lemma ins_in_append [simp]: "ins_in (es @ fs) c = ins_in es c + ins_in fs c"
  by (simp add: ins_in_def)

lemma addDependency_bmake:
  "p < length ws \<Longrightarrow> c < length ws \<Longrightarrow> addDependency p c (bmake es ws) = Inr (bmake (es @ [(p, c)]) ws)"
  unfolding addDependency_def bmake_def Let_def
  by (simp, intro conjI nth_equalityI) (auto simp: nth_list_update outs_in_def ins_in_def)

lemma addDependencies_bmake:
  "\<forall>p \<in> set ps. p < length ws \<Longrightarrow> c < length ws \<Longrightarrow>
   addDependencies ps c (bmake es ws) = Inr (bmake (es @ map (\<lambda>p. (p, c)) ps) ws)"
  by (induction ps arbitrary: es) (simp_all add: addDependency_bmake)

lemma edges_below_new:
  assumes "edges_below n es"
  shows "outs_in es n = []" "ins_in es n = 0"
  using assms by (auto simp: edges_below_def outs_in_def ins_in_def filter_empty_conv count_list_0_iff)

lemma bmake_push:
  assumes "edges_below (length ws) es"
  shows "(bmake es ws)\<lparr>db_numIns := db_numIns (bmake es ws) @ [0],
      db_dag := (db_dag (bmake es ws))\<lparr>dag_nodes := dag_nodes (db_dag (bmake es ws)) @ [node_new (Some w)]\<rparr>\<rparr> =
    bmake es (ws @ [Some w])"
  using edges_below_new [OF assms] by (auto simp: bmake_def node_new_def nth_append)

lemma builder_node_bmake:
  assumes "edges_below (length ws) es" "\<forall>p \<in> set after. p < length ws"
  shows "builder_node w after (bmake es ws) =
    Inr (length ws, bmake (es @ map (\<lambda>p. (p, length ws)) after) (ws @ [Some w]))"
  using assms bmake_push [OF assms(1), of w]
  by (simp add: builder_node_def Let_def addDependencies_bmake less_SucI)

lemma builder_then_bmake:
  assumes "edges_below (length ws) es" "p < length ws"
  shows "builder_then p w (bmake es ws) = Inr (length ws, bmake (es @ [(p, length ws)]) (ws @ [Some w]))"
  using builder_node_bmake [OF assms(1), of "[]" w] assms(2)
  by (simp add: builder_then_def addDependency_bmake)

lemma edges_below_Suc: "edges_below n es \<Longrightarrow> edges_below (Suc n) es"
  by (auto simp: edges_below_def)

lemma builder_ops_bmake:
  assumes "ops_ok (length ws) ops" "edges_below (length ws) es"
  shows "builder_ops ops (bmake es ws) =
    Inr (bmake (es @ ops_edges (length ws) ops) (ws @ map Some (ops_works ops)))"
  using assms
proof (induction ops arbitrary: es ws)
  case Nil
  then show ?case by simp
next
  case (Cons x xs)
  show ?case
  proof (cases x)
    case (BNode w after)
    have "edges_below (Suc (length ws)) (es @ map (\<lambda>p. (p, length ws)) after)"
      using Cons.prems BNode edges_below_Suc [OF Cons.prems(2)] by (auto simp: edges_below_def)
    then show ?thesis
      using Cons.prems BNode Cons.IH [of "ws @ [Some w]" "es @ map (\<lambda>p. (p, length ws)) after"]
      by (simp add: builder_node_bmake)
  next
    case (BThen p w)
    have "edges_below (Suc (length ws)) (es @ [(p, length ws)])"
      using Cons.prems BThen edges_below_Suc [OF Cons.prems(2)] by (auto simp: edges_below_def)
    then show ?thesis
      using Cons.prems BThen Cons.IH [of "ws @ [Some w]" "es @ [(p, length ws)]"]
      by (simp add: builder_then_bmake)
  next
    case (BDep p c)
    have "edges_below (length ws) (es @ [(p, c)])"
      using Cons.prems BDep by (auto simp: edges_below_def)
    then show ?thesis
      using Cons.prems BDep Cons.IH [of ws "es @ [(p, c)]"] by (simp add: addDependency_bmake)
  qed
qed

lemma ops_edges_below:
  "ops_ok n ops \<Longrightarrow> edges_below (n + length (ops_works ops)) (ops_edges n ops)"
  by (induction n ops rule: ops_ok.induct) (fastforce simp: edges_below_def)+

lemma ops_edges_cover:
  "ops_ok n ops \<Longrightarrow> n \<le> c \<Longrightarrow> c < n + length (ops_works ops) \<Longrightarrow> c \<in> snd ` set (ops_edges n ops)"
proof (induction n ops rule: ops_ok.induct)
  case (2 n w after xs)
  then show ?case by (cases "c = n") (fastforce simp: image_Un neq_Nil_conv)+
next
  case (3 n p w xs)
  then show ?case by (cases "c = n") (auto simp: image_Un)
qed auto

section \<open>The graph that \<open>build\<close> returns\<close>

text \<open>The nodes below \<open>k\<close> with more than one incoming edge, and the graph in which just these
  have their counters.\<close>

definition joins :: "(nat \<times> nat) list \<Rightarrow> nat \<Rightarrow> nat list" where
  "joins es k = filter (\<lambda>m. 1 < ins_in es m) [0..<k]"

definition dmake :: "nat \<Rightarrow> (nat \<times> nat) list \<Rightarrow> 'w option list \<Rightarrow> 'w dag" where
  "dmake k es ws =
     \<lparr>dag_nodes = map (\<lambda>p. \<lparr>dn_work = ws ! p,
          dn_counterIndex = (if p < k \<and> 1 < ins_in es p then length (joins es p) else InvalidIndex),
          dn_outs = outs_in es p\<rparr>) [0..<length ws],
      dag_initialCounters = map (\<lambda>m. of_nat (ins_in es m)) (joins es k)\<rparr>"

lemma ins_in_le: "ins_in es c \<le> length es"
  by (metis count_le_length ins_in_def length_map)

lemma gt_1_of_nat:
  assumes "n < 2 ^ 32"
  shows "(1 :: 32 word) < of_nat n \<longleftrightarrow> 1 < n"
  using assms by (simp add: word_less_nat_alt unat_of_nat_less)

lemma joins_Suc: "joins es (Suc k) = joins es k @ (if 1 < ins_in es k then [k] else [])"
  by (simp add: joins_def)

lemma build_step_dmake:
  assumes "k < length ws" "length es < 2 ^ 32"
  shows "build_step (map (\<lambda>c. of_nat (ins_in es c)) [0..<length ws]) (dmake k es ws) k = dmake (Suc k) es ws"
proof (cases "1 < ins_in es k")
  case True
  have "(dag_nodes (dmake k es ws))[k := (dag_nodes (dmake k es ws) ! k)
      \<lparr>dn_counterIndex := length (joins es k)\<rparr>] = dag_nodes (dmake (Suc k) es ws)"
    using True assms(1) by (intro nth_equalityI) (auto simp: dmake_def nth_list_update less_Suc_eq)
  then show ?thesis
    using True assms gt_1_of_nat [of "ins_in es k"] ins_in_le [of es k]
    by (simp add: build_step_def) (simp add: dmake_def joins_Suc)
next
  case False
  then have "dmake (Suc k) es ws = dmake k es ws"
    by (auto simp: dmake_def joins_Suc less_Suc_eq)
  then show ?thesis
    using False assms gt_1_of_nat [of "ins_in es k"] ins_in_le [of es k] by (simp add: build_step_def)
qed

lemma foldl_build_step:
  "k \<le> length ws \<Longrightarrow> length es < 2 ^ 32 \<Longrightarrow>
   foldl (build_step (map (\<lambda>c. of_nat (ins_in es c)) [0..<length ws])) (dmake 0 es ws) [0..<k] = dmake k es ws"
  by (induction k) (simp_all add: build_step_dmake)

lemma build_bmake:
  assumes "length es < 2 ^ 32"
  shows "build (bmake es ws) = Inr (dmake (length ws) es ws)"
  using foldl_build_step [of "length ws" ws es] assms
  by (simp add: build_def) (simp add: bmake_def dmake_def joins_def)

section \<open>The graph is well-formed\<close>

lemma dmake_size [simp]: "dag_size (dmake k es ws) = length ws"
  by (simp add: dag_size_def dmake_def)

lemma outs_of_dmake: "p < length ws \<Longrightarrow> outs_of (dmake k es ws) p = mset (outs_in es p)"
  by (simp add: outs_of_def dmake_def)

lemma sum_outs_in:
  assumes "\<forall>e \<in> set es. fst e < n"
  shows "sum_list (map (\<lambda>p. mset (outs_in es p)) [0..<n]) = mset (map snd es)"
  using assms
proof (induction es)
  case Nil
  then show ?case by (induction n) (simp_all add: outs_in_def)
next
  case (Cons e es)
  have "sum_list (map (\<lambda>p. mset (outs_in (e # es) p)) [0..<k]) =
      sum_list (map (\<lambda>p. mset (outs_in es p)) [0..<k]) + (if fst e < k then {#snd e#} else {#})" for k
    by (induction k) (auto simp: outs_in_def)
  with Cons show ?case by simp
qed

lemma edges_dmake:
  assumes "edges_below (length ws) es"
  shows "edges (dmake k es ws) = mset (map snd es)"
proof -
  have "map (outs_of (dmake k es ws)) [0..<length ws] = map (\<lambda>p. mset (outs_in es p)) [0..<length ws]"
    by (simp add: outs_of_dmake)
  moreover have "\<forall>e \<in> set es. fst e < length ws" using assms by (auto simp: edges_below_def)
  ultimately show ?thesis
    unfolding edges_def dmake_size using sum_outs_in [of es "length ws"] by metis
qed

lemma indeg_dmake: "edges_below (length ws) es \<Longrightarrow> indeg (dmake k es ws) c = ins_in es c"
  by (simp add: indeg_def edges_dmake ins_in_def count_mset_list del: mset_map)

lemma joins_nth:
  assumes "m < k" "1 < ins_in es m"
  shows "length (joins es m) < length (joins es k)" "joins es k ! length (joins es m) = m"
proof -
  have "[0..<k] = [0..<m] @ m # [Suc m..<k]"
    using assms(1) by (metis le_add_diff_inverse less_imp_le_nat upt_add_eq_append upt_conv_Cons zero_le)
  then have "joins es k = joins es m @ m # filter (\<lambda>m. 1 < ins_in es m) [Suc m..<k]"
    using assms(2) by (simp add: joins_def)
  then show "length (joins es m) < length (joins es k)" "joins es k ! length (joins es m) = m" by simp_all
qed

lemma joins_le: "length (joins es k) \<le> k"
  unfolding joins_def by (metis length_filter_le length_upt minus_nat.diff_0)

lemma dmake_counters:
  assumes "n < length ws" "length es < 2 ^ 32"
  shows "if 1 < ins_in es n
    then dn_counterIndex (dag_nodes (dmake (length ws) es ws) ! n) < length (dag_initialCounters (dmake (length ws) es ws)) \<and>
      unat (dag_initialCounters (dmake (length ws) es ws) ! dn_counterIndex (dag_nodes (dmake (length ws) es ws) ! n)) = ins_in es n
    else dn_counterIndex (dag_nodes (dmake (length ws) es ws) ! n) = InvalidIndex"
  using joins_nth [of n "length ws" es] ins_in_le [of es n] assms by (auto simp: dmake_def unat_of_nat_less)

lemma dmake_ok:
  assumes below: "edges_below (length ws) es" and ws: "0 < length ws" "length ws < 2 ^ 32"
    and es: "length es < 2 ^ 32"
  shows "dag_ok (dmake (length ws) es ws)"
proof -
  let ?d = "dmake (length ws) es ws"
  let ?ci = "\<lambda>n. dn_counterIndex (dag_nodes ?d ! n)"
  have ci: "?ci n = (if 1 < ins_in es n then length (joins es n) else InvalidIndex)" if "n < length ws" for n
    using that by (simp add: dmake_def)
  have counter: "length (joins es n) < length (dag_initialCounters ?d)"
      "unat (dag_initialCounters ?d ! length (joins es n)) = ins_in es n"
      "length (joins es n) \<noteq> InvalidIndex" if "n < length ws" "1 < ins_in es n" for n
    using joins_nth [OF that] ins_in_le [of es n] es joins_le [of es n] that(1) ws(2)
    by (auto simp: dmake_def unat_of_nat_less InvalidIndex_def)
  have "length (joins es m) \<noteq> length (joins es n)"
    if "m \<noteq> n" "m < length ws" "n < length ws" "1 < ins_in es m" "1 < ins_in es n" for m n
    using that joins_nth(2) by metis
  moreover have "ins_in es 0 = 0"
    using below by (auto simp: ins_in_def edges_below_def count_list_0_iff)
  ultimately show ?thesis
    using ws below counter ci
    by (auto simp: dag_ok_def indeg_dmake edges_dmake RootIndex_def Let_def edges_below_def)
qed

lemma dmake_connected:
  assumes below: "edges_below (length ws) es"
    and cover: "\<forall>c. 0 < c \<and> c < length ws \<longrightarrow> c \<in> snd ` set es"
  shows "dag_connected (dmake k es ws)"
  using assms
  by (auto simp: dag_connected_def indeg_dmake outs_of_dmake outs_in_def ins_in_def RootIndex_def
      edges_below_def count_list_0_iff simp flip: neq0_conv)

end
