(* ===== verification/Dag_Properties.thy ===== *)
theory Dag_Properties
  imports Dag_Builder
begin

text \<open>
  The properties of task graphs (\<open>dag.hpp\<close>): of runs, on the invariant of \<open>Dag_Proofs\<close>, and of the
  builder, on the description of \<open>Dag_Builder\<close>. The witnesses use one complete run of a diamond.
\<close>

section \<open>An example run\<close>

text \<open>A diamond: two nodes below the root and one that depends on both. A schedule names the thread that
  makes each step.\<close>

fun run_schedule :: "'w dag \<Rightarrow> nat list \<Rightarrow> dag_run \<Rightarrow> dag_run option" where
  "run_schedule d [] s = Some s"
| "run_schedule d (k # ks) s =
     (if k < length (dr_threads s)
      then (case invoke_next d k s of Inl e \<Rightarrow> None | Inr t \<Rightarrow> run_schedule d ks t)
      else None)"

lemma run_schedule_steps:
  "run_schedule d ks s = Some t \<Longrightarrow> dag_steps d n s \<Longrightarrow> dag_steps d (n + length ks) t"
proof (induction ks arbitrary: s n)
  case (Cons k ks)
  then obtain u where "k < length (dr_threads s)" "invoke_next d k s = Inr u" "run_schedule d ks u = Some t"
    by (auto split: if_splits sum.splits)
  then show ?case
    using Cons.IH [of u "Suc n"] steps_step [OF Cons.prems(2), of u] ds_thread [of k s d] by simp
qed simp

definition diamond_ops :: "nat builder_op list" where
  "diamond_ops = [BThen 0 10, BThen 0 20, BNode 30 [1, 2]]"

definition diamond :: "nat dag" where
  "diamond = dmake 4 (ops_edges 1 diamond_ops) (None # map Some (ops_works diamond_ops))"

definition diamond_end :: dag_run where
  "diamond_end = \<lparr>dr_counters = [0], dr_wg = wg_new 0, dr_threads = [], dr_started = [0, 2, 1, 3],
     dr_finished = [0, 2, 1, 3], dr_notified = {#1, 2, 3, 3#}\<rparr>"

lemma diamond_eq: "diamond =
    \<lparr>dag_nodes = [\<lparr>dn_work = None, dn_counterIndex = InvalidIndex, dn_outs = [1, 2]\<rparr>,
       \<lparr>dn_work = Some 10, dn_counterIndex = InvalidIndex, dn_outs = [3]\<rparr>,
       \<lparr>dn_work = Some 20, dn_counterIndex = InvalidIndex, dn_outs = [3]\<rparr>,
       \<lparr>dn_work = Some 30, dn_counterIndex = 0, dn_outs = []\<rparr>],
     dag_initialCounters = [2]\<rparr>"
  by (simp add: diamond_def diamond_ops_def dmake_def outs_in_def ins_in_def joins_def upt_rec)

lemma diamond_wf: "dag_ok diamond" "dag_connected diamond"
proof -
  let ?ws = "None # map Some (ops_works diamond_ops)"
  have len: "length ?ws = 4" by (simp add: diamond_ops_def)
  have below: "edges_below (length ?ws) (ops_edges 1 diamond_ops)"
    by (simp add: diamond_ops_def edges_below_def)
  show "dag_ok diamond"
    unfolding diamond_def using dmake_ok [OF below] unfolding len by (simp add: diamond_ops_def)
  show "dag_connected diamond"
    unfolding diamond_def by (rule dmake_connected [OF below]) (auto simp: diamond_ops_def)
qed

lemma diamond_indices [simp]:
  "InvalidIndex \<noteq> 0" "InvalidIndex \<noteq> Suc 0" "InvalidIndex \<noteq> 2" "InvalidIndex \<noteq> 3"
  "0 \<noteq> InvalidIndex" "Suc 0 \<noteq> InvalidIndex" "2 \<noteq> InvalidIndex" "3 \<noteq> InvalidIndex"
  by (simp_all add: InvalidIndex_def)

lemma diamond_run:
  "run_schedule diamond [0, 0, 0, 0, 0, 0, 0, 0, 0, 0, 0, 0, 0, 0, 0] (run_start diamond) = Some diamond_end"
  by (simp add: diamond_eq run_start_def initCounters_def diamond_end_def invoke_next_def
      invoke_enter_def invoke_work_done_def invoke_notify_def invoke_leave_def dag_notify_def Let_def
      set_thread_def remove_nth_def wg_add_def wg_new_def wg_done_def RootIndex_def)

lemma diamond_steps: "dag_steps diamond 15 diamond_end"
  using run_schedule_steps [OF diamond_run steps_start] by (simp add: numeral_eq_Suc)

section \<open>Properties of runs\<close>

text \<open>No step of a run of a well-formed graph aborts: every node index and counter index that
  \<open>invoke\<close> and \<open>notify\<close> use is in range, and no task calls \<open>WaitGroup::done\<close> too often, whatever the
  interleaving of the tasks.\<close>

theorem dag_no_fault:
  assumes "dag_ok d" "dag_reach d s" "dag_step d s r"
  shows "ok r"
  using dag_system.reach_no_fault [OF dag_reach_ok [OF assms(1,2)] assms(3)] .

theorem dag_no_fault_witness:
  "ok (invoke_next diamond 0 (run_start diamond))"
  using dag_no_fault [OF diamond_wf(1) reach_init, of "run_start diamond" "invoke_next diamond 0 (run_start diamond)"]
    ds_thread [of 0 "run_start diamond" diamond] by (simp add: dag_init_def run_start_def)

text \<open>C26. In every state of a run each node was started at most once, and a node was started only
  if all the nodes it depends on had ended.\<close>

theorem dag_order:
  assumes "dag_ok d" "dag_reach d s"
  shows "distinct (dr_started s) \<and>
    (\<forall>n \<in> set (dr_started s). \<forall>m < dag_size d. n \<in># outs_of d m \<longrightarrow> m \<in> set (dr_finished s))"
  using started_distinct started_parent_finished [OF assms(1)] dag_reach_inv [OF assms] by blast

theorem dag_order_witness:
  "3 \<in> set (dr_started diamond_end) \<and> 3 \<in># outs_of diamond 2 \<and> 2 \<in> set (dr_finished diamond_end) \<and>
   distinct (dr_started diamond_end)"
proof -
  have "3 \<in> set (dr_started diamond_end)" "3 \<in># outs_of diamond 2" "2 < dag_size diamond"
    by (simp_all add: diamond_end_def outs_of_def diamond_eq dag_size_def)
  then show ?thesis using dag_order [OF diamond_wf(1) dag_steps_reach [OF diamond_steps]] by blast
qed

text \<open>C27. When \<open>run\<close> returns, every node of the graph has been run to its end exactly once, and no
  task of the run is left.\<close>

theorem dag_run_complete:
  assumes "dag_ok d" "dag_connected d" "dag_reach d s" "run_returned s"
  shows "mset (dr_finished s) = mset [0..<dag_size d] \<and> mset (dr_started s) = mset [0..<dag_size d] \<and>
    dr_threads s = []"
  using run_complete [OF assms(1,2) dag_reach_inv [OF assms(1,3)] assms(4)] by simp

theorem dag_run_complete_witness:
  "run_returned diamond_end \<and> mset (dr_finished diamond_end) = mset [0, 1, 2, 3]"
proof -
  have "run_returned diamond_end" by (simp add: run_returned_def diamond_end_def wg_open_def wg_new_def)
  moreover have "[0..<dag_size diamond] = [0, 1, 2, 3]" by (simp add: dag_size_def diamond_eq upt_rec)
  ultimately show ?thesis
    using dag_run_complete [OF diamond_wf dag_steps_reach [OF diamond_steps]] by simp
qed

text \<open>C28. A run ends: it takes at most three steps per node and one per edge, and as long as \<open>run\<close> has not
  returned some thread has a step that does not abort.\<close>

theorem dag_run_terminates:
  assumes "dag_ok d" "dag_steps d k s"
  shows "k \<le> 3 * dag_size d + size (edges d) \<and> (run_returned s \<or> (\<exists>t. dag_step d s (Inr t)))"
proof
  show "k \<le> 3 * dag_size d + size (edges d)"
    using dag_steps_measure [OF assms(2,1)] by (simp add: measure_start)
  note inv = dag_reach_inv [OF assms(1) dag_steps_reach [OF assms(2)]]
  show "run_returned s \<or> (\<exists>t. dag_step d s (Inr t))"
  proof (cases "dr_threads s")
    case Nil
    then show ?thesis using no_threads_returned [OF inv] by simp
  next
    case (Cons t ts)
    then have "0 < length (dr_threads s)" by simp
    then show ?thesis using next_inv [OF assms(1) inv] by (metis dag_step.intros)
  qed
qed

theorem dag_run_terminates_witness:
  "dag_steps diamond 15 diamond_end \<and> 15 \<le> 3 * dag_size diamond + size (edges diamond)"
  using dag_run_terminates [OF diamond_wf(1) diamond_steps] diamond_steps by blast

section \<open>Properties of the builder\<close>

text \<open>C29. A sequence of builder calls that uses existing handles, with dependencies on older nodes and
  a parent for every node, never aborts, and \<open>build\<close> returns the graph that the calls
  describe: the works in the order of the calls, below the empty root, and for every node the
  nodes that depend on it, in the order in which the dependencies were added. The nodes with more than one incoming dependency have counters, in the order of
  the nodes; each of them finds its own one, which starts at the number of its dependencies, and the other nodes have none.\<close>

theorem builder_describes:
  assumes "ops_ok 1 ops" "length (ops_edges 1 ops) < 2 ^ 32"
  shows "\<exists>b d. builder_ops ops builder_new = Inr b \<and> build b = Inr d \<and>
    map dn_work (dag_nodes d) = None # map Some (ops_works ops) \<and>
    (\<forall>p < dag_size d. dn_outs (dag_nodes d ! p) = outs_in (ops_edges 1 ops) p) \<and>
    dag_initialCounters d = map (\<lambda>c. of_nat (ins_in (ops_edges 1 ops) c)) (filter (\<lambda>c. 1 < ins_in (ops_edges 1 ops) c) [0..<dag_size d]) \<and>
    (\<forall>c < dag_size d. let i = dn_counterIndex (dag_nodes d ! c); n = ins_in (ops_edges 1 ops) c in
       if 1 < n then i < length (dag_initialCounters d) \<and> unat (dag_initialCounters d ! i) = n else i = InvalidIndex)"
proof -
  let ?ws = "None # map Some (ops_works ops)" and ?es = "ops_edges 1 ops"
  let ?d = "dmake (length ?ws) ?es ?ws"
  have "builder_ops ops builder_new = Inr (bmake ?es ?ws)"
    using builder_ops_bmake [of "[None]" ops "[]"] assms(1) by (simp add: bmake_new edges_below_def)
  moreover have "build (bmake ?es ?ws) = Inr (dmake (length ?ws) ?es ?ws)"
    using build_bmake assms(2) by blast
  moreover have "map dn_work (dag_nodes (dmake (length ?ws) ?es ?ws)) = ?ws"
    by (intro nth_equalityI) (auto simp: dmake_def simp del: upt_Suc)
  moreover have "dag_initialCounters ?d = map (\<lambda>c. of_nat (ins_in ?es c)) (filter (\<lambda>c. 1 < ins_in ?es c) [0..<dag_size ?d])"
    by (simp add: dmake_def joins_def dag_size_def del: upt_Suc)
  moreover have "dn_outs (dag_nodes ?d ! p) = outs_in ?es p" if "p < dag_size ?d" for p
    using that by (simp add: dmake_def dag_size_def del: upt_Suc)
  moreover have "let i = dn_counterIndex (dag_nodes ?d ! c); n = ins_in ?es c in
       if 1 < n then i < length (dag_initialCounters ?d) \<and> unat (dag_initialCounters ?d ! i) = n else i = InvalidIndex"
    if "c < dag_size ?d" for c
    unfolding Let_def by (rule dmake_counters [OF _ assms(2)]) (use that in simp)
  ultimately show ?thesis by (intro exI [of _ "bmake ?es ?ws"] exI [of _ ?d] conjI allI impI) blast+
qed

theorem builder_describes_witness:
  "\<exists>b d. builder_ops diamond_ops builder_new = Inr b \<and> build b = Inr d \<and>
     map dn_work (dag_nodes d) = [None, Some 10, Some 20, Some 30]"
  using builder_describes [of diamond_ops] by (fastforce simp: diamond_ops_def)

text \<open>The graph of such a sequence of calls satisfies what a run relies on: every node with several incoming
  edges has a counter of its own that holds their number, and every node is reached from the root.\<close>

theorem builder_graph_ok:
  assumes "ops_ok 1 ops" "length (ops_edges 1 ops) < 2 ^ 32" "length (ops_works ops) < 2 ^ 32 - 1"
    and "builder_ops ops builder_new = Inr b" "build b = Inr d"
  shows "dag_ok d \<and> dag_connected d"
proof -
  let ?ws = "None # map Some (ops_works ops)" and ?es = "ops_edges 1 ops"
  have "b = bmake ?es ?ws"
    using builder_ops_bmake [of "[None]" ops "[]"] assms(1,4) by (simp add: bmake_new edges_below_def)
  then have d: "d = dmake (length ?ws) ?es ?ws" using build_bmake [OF assms(2), of ?ws] assms(5) by simp
  have below: "edges_below (length ?ws) ?es" using ops_edges_below [OF assms(1)] by simp
  have cover: "\<forall>c. 0 < c \<and> c < length ?ws \<longrightarrow> c \<in> snd ` set ?es"
    using ops_edges_cover [OF assms(1)] by auto
  have "dag_ok d" unfolding d using below assms(2,3) by (intro dmake_ok) auto
  moreover have "dag_connected d" unfolding d by (rule dmake_connected [OF below cover])
  ultimately show ?thesis ..
qed

theorem builder_graph_ok_witness:
  "\<exists>b d. builder_ops diamond_ops builder_new = Inr b \<and> build b = Inr d \<and> dag_ok d \<and> dag_connected d"
proof -
  have ops: "ops_ok 1 diamond_ops" "length (ops_edges 1 diamond_ops) < 2 ^ 32"
    "length (ops_works diamond_ops) < 2 ^ 32 - 1"
    by (simp_all add: diamond_ops_def)
  obtain b where b: "builder_ops diamond_ops builder_new = Inr b"
    using builder_ops_bmake [of "[None]" diamond_ops "[]"] ops(1) by (simp add: bmake_new edges_below_def)
  moreover obtain d where "build b = Inr d"
    using b builder_ops_bmake [of "[None]" diamond_ops "[]"] ops(1) build_bmake [OF ops(2)]
    by (simp add: bmake_new edges_below_def) blast
  ultimately show ?thesis using builder_graph_ok [OF ops b] by blast
qed

end
