(* ===== verification/Memory_Model.thy ===== *)
theory Memory_Model
  imports Marl_Prelude
begin

unbundle bit_operations_syntax

text \<open>
  Memory management: \<open>memory.hpp\<close> and \<open>memory.cpp\<close>.

  Addresses and sizes are 64-bit words (\<open>uintptr_t\<close>, \<open>size_t\<close>) and all arithmetic on them wraps. The
  process memory \<open>heap\<close> has the live blocks of \<open>malloc\<close>, the mappings of \<open>mmap\<close>, the pages that
  \<open>mprotect\<close> made inaccessible, and the bytes. What the C library and the system answer (the address
  that \<open>malloc\<close> or \<open>mmap\<close> picks, whether \<open>mprotect\<close> and \<open>munmap\<close> succeed) is an argument of the
  operations, \<open>os_answer\<close>; \<open>malloc_ok\<close> and \<open>mmap_ok\<close> say which addresses they may pick. Reading or
  writing outside a live block and freeing an address that is not a block are faults.

  The class \<open>Allocator\<close> is a record of its two virtual functions over some state \<open>'h\<close>; the
  templates built on them (\<open>create\<close>, \<open>make_unique_n\<close>, \<open>StlAllocator\<close>, ...) take that record,
  and \<open>sizeof(T)\<close> and \<open>alignof(T)\<close>, as arguments. The locale \<open>allocator\<close> is the contract stated in the class: the
  returned allocation carries the request.
\<close>

type_synonym addr = "64 word"

section \<open>Requests and allocations\<close>

datatype usage = UUndefined | UStack | UCreate | UVector | UList | UStl | UCount

fun usage_index :: "usage \<Rightarrow> nat" where
  "usage_index UUndefined = 0" | "usage_index UStack = 1" | "usage_index UCreate = 2"
| "usage_index UVector = 3" | "usage_index UList = 4" | "usage_index UStl = 5" | "usage_index UCount = 6"

record request =
  rq_size :: "64 word"
  rq_alignment :: "64 word"
  rq_use_guards :: bool
  rq_usage :: usage

record allocation =
  al_ptr :: addr
  al_request :: request

definition request_default :: request where
  "request_default = \<lparr>rq_size = 0, rq_alignment = 0, rq_use_guards = False, rq_usage = UUndefined\<rparr>"

definition alignUp :: "64 word \<Rightarrow> 64 word \<Rightarrow> 64 word result" where
  "alignUp val alignment =
     (if alignment = 0 then Inl DivByZero
      else Inr (alignment * ((val + alignment - 1) div alignment)))"

section \<open>The process memory\<close>

record heap =
  hp_blocks :: "(addr \<times> 64 word) list"
  hp_maps :: "(addr \<times> 64 word) list"
  hp_guarded :: "addr list"
  hp_bytes :: "addr \<Rightarrow> 8 word"

record os_answer =
  os_malloc :: addr             \<comment> \<open>0: out of memory\<close>
  os_mmap :: "addr option"      \<comment> \<open>\<open>None\<close>: \<open>MAP_FAILED\<close>\<close>
  os_mprotect :: bool           \<comment> \<open>the call returns 0\<close>
  os_munmap :: bool             \<comment> \<open>the call returns 0\<close>

definition c_malloc :: "os_answer \<Rightarrow> 64 word \<Rightarrow> heap \<Rightarrow> addr \<times> heap" where
  "c_malloc os n h =
     (os_malloc os, if os_malloc os = 0 then h else h\<lparr>hp_blocks := (os_malloc os, n) # hp_blocks h\<rparr>)"

definition c_free :: "addr \<Rightarrow> heap \<Rightarrow> heap result" where
  "c_free p h =
     (if p = 0 then Inr h
      else if p \<in> fst ` set (hp_blocks h)
      then Inr (h\<lparr>hp_blocks := filter (\<lambda>b. fst b \<noteq> p) (hp_blocks h)\<rparr>)
      else Inl BadAccess)"

definition valid_range :: "heap \<Rightarrow> addr \<Rightarrow> nat \<Rightarrow> bool" where
  "valid_range h a n =
     list_ex (\<lambda>(b, s). unat b \<le> unat a \<and> unat a + n \<le> unat b + unat s) (hp_blocks h)"

text \<open>\<open>memcpy\<close> of a pointer to and from memory, least significant byte first.\<close>

definition ptr_byte :: "addr \<Rightarrow> nat \<Rightarrow> 8 word" where
  "ptr_byte v i = ucast (drop_bit (8 * i) v)"

definition store_ptr :: "addr \<Rightarrow> addr \<Rightarrow> heap \<Rightarrow> heap result" where
  "store_ptr a v h =
     (if valid_range h a 8
      then Inr (h\<lparr>hp_bytes := (\<lambda>x. if unat (x - a) < 8 then ptr_byte v (unat (x - a)) else hp_bytes h x)\<rparr>)
      else Inl BadAccess)"

fun ptr_of_bytes :: "8 word list \<Rightarrow> addr" where
  "ptr_of_bytes [] = 0"
| "ptr_of_bytes (b # bs) = ucast b OR push_bit 8 (ptr_of_bytes bs)"

definition load_ptr :: "addr \<Rightarrow> heap \<Rightarrow> addr result" where
  "load_ptr a h =
     (if valid_range h a 8 then Inr (ptr_of_bytes (map (\<lambda>i. hp_bytes h (a + of_nat i)) [0..<8]))
      else Inl BadAccess)"

section \<open>Pages\<close>

definition allocatePages :: "64 word \<Rightarrow> os_answer \<Rightarrow> 64 word \<Rightarrow> heap \<Rightarrow> (addr \<times> heap) result" where
  "allocatePages pageSize os n h =
     (case os_mmap os of
        None \<Rightarrow> Inl (AssertFailed ''Failed to allocate pages'')
      | Some m \<Rightarrow> Inr (m, h\<lparr>hp_maps := (m, n * pageSize) # hp_maps h\<rparr>))"

definition freePages :: "64 word \<Rightarrow> os_answer \<Rightarrow> addr \<Rightarrow> 64 word \<Rightarrow> heap \<Rightarrow> heap result" where
  "freePages pageSize os p n h =
     rbind (marl_assert (os_munmap os) ''Failed to free pages'') (\<lambda>_.
     Inr (h\<lparr>hp_maps := remove1 (p, n * pageSize) (hp_maps h),
            hp_guarded := filter (\<lambda>g. \<not> (unat p \<le> unat g \<and> unat g < unat p + unat (n * pageSize))) (hp_guarded h)\<rparr>))"

definition protectPage :: "os_answer \<Rightarrow> addr \<Rightarrow> heap \<Rightarrow> heap result" where
  "protectPage os a h =
     rbind (marl_assert (os_mprotect os) ''Failed to protect page'') (\<lambda>_.
     Inr (h\<lparr>hp_guarded := a # hp_guarded h\<rparr>))"

definition num_requested_pages :: "64 word \<Rightarrow> 64 word \<Rightarrow> 64 word" where
  "num_requested_pages pageSize nbytes = (nbytes + pageSize - 1) div pageSize"

definition num_total_pages :: "64 word \<Rightarrow> 64 word \<Rightarrow> bool \<Rightarrow> bool \<Rightarrow> 64 word" where
  "num_total_pages pageSize nbytes guard_low guard_high =
     num_requested_pages pageSize nbytes + (if guard_low then 1 else 0) + (if guard_high then 1 else 0)"

definition pagedMalloc ::
  "64 word \<Rightarrow> os_answer \<Rightarrow> 64 word \<Rightarrow> 64 word \<Rightarrow> bool \<Rightarrow> bool \<Rightarrow> heap \<Rightarrow> (addr \<times> heap) result" where
  "pagedMalloc pageSize os alignment nbytes guard_low guard_high h =
     rbind (marl_assert (alignment < pageSize) ''alignment must be less than the page size'') (\<lambda>_.
     rbind (allocatePages pageSize os (num_total_pages pageSize nbytes guard_low guard_high) h) (\<lambda>(mem0, h0).
     rbind (if guard_low then protectPage os mem0 h0 else Inr h0) (\<lambda>h1.
     let mem = (if guard_low then mem0 + pageSize else mem0) in
     rbind (if guard_high then protectPage os (mem + num_requested_pages pageSize nbytes * pageSize) h1
            else Inr h1) (\<lambda>h2.
     Inr (mem, h2)))))"

definition pagedFree ::
  "64 word \<Rightarrow> os_answer \<Rightarrow> addr \<Rightarrow> 64 word \<Rightarrow> 64 word \<Rightarrow> bool \<Rightarrow> bool \<Rightarrow> heap \<Rightarrow> heap result" where
  "pagedFree pageSize os p alignment nbytes guard_low guard_high h =
     rbind (marl_assert (alignment < pageSize) ''alignment must be less than the page size'') (\<lambda>_.
     let p' = (if guard_low then p - pageSize else p)
     in freePages pageSize os p' (num_total_pages pageSize nbytes guard_low guard_high) h)"

section \<open>Aligned blocks and the default allocator\<close>

definition alignedMalloc :: "os_answer \<Rightarrow> 64 word \<Rightarrow> 64 word \<Rightarrow> heap \<Rightarrow> (addr \<times> heap) result" where
  "alignedMalloc os alignment nbytes h =
     (let alloc_size = nbytes + alignment + 8;
          (allocation, h1) = c_malloc os alloc_size h
      in rbind (alignUp allocation alignment) (\<lambda>aligned.
         rbind (store_ptr (aligned + nbytes) allocation h1) (\<lambda>h2.
         Inr (aligned, h2))))"

definition alignedFree :: "addr \<Rightarrow> 64 word \<Rightarrow> heap \<Rightarrow> heap result" where
  "alignedFree p nbytes h = rbind (load_ptr (p + nbytes) h) (\<lambda>base. c_free base h)"

definition default_allocate ::
  "64 word \<Rightarrow> os_answer \<Rightarrow> request \<Rightarrow> heap \<Rightarrow> (allocation \<times> heap) result" where
  "default_allocate pageSize os r h =
     rbind (if rq_use_guards r then pagedMalloc pageSize os (rq_alignment r) (rq_size r) True True h
            else if 1 < rq_alignment r then alignedMalloc os (rq_alignment r) (rq_size r) h
            else Inr (c_malloc os (rq_size r) h)) (\<lambda>(p, h1).
     rbind (marl_assert (p \<noteq> 0) ''Allocation failed'') (\<lambda>_.
     if rq_alignment r = 0 then Inl DivByZero
     else rbind (marl_assert (p mod rq_alignment r = 0) ''Allocation gave incorrect alignment'') (\<lambda>_.
     Inr (\<lparr>al_ptr = p, al_request = r\<rparr>, h1))))"

definition default_free :: "64 word \<Rightarrow> os_answer \<Rightarrow> allocation \<Rightarrow> heap \<Rightarrow> heap result" where
  "default_free pageSize os a h =
     (let r = al_request a in
      if rq_use_guards r then pagedFree pageSize os (al_ptr a) (rq_alignment r) (rq_size r) True True h
      else if 1 < rq_alignment r then alignedFree (al_ptr a) (rq_size r) h
      else c_free (al_ptr a) h)"

section \<open>The allocator class and what is built on it\<close>

record 'h allocator_ops =
  ao_allocate :: "request \<Rightarrow> 'h \<Rightarrow> (allocation \<times> 'h) result"
  ao_free :: "allocation \<Rightarrow> 'h \<Rightarrow> 'h result"

definition default_ops :: "64 word \<Rightarrow> os_answer \<Rightarrow> heap allocator_ops" where
  "default_ops pageSize os =
     \<lparr>ao_allocate = default_allocate pageSize os, ao_free = default_free pageSize os\<rparr>"

text \<open>The object of type \<open>T\<close> has size \<open>sz\<close> and alignment \<open>al\<close>. The results list the addresses at which objects are
  constructed or destroyed.\<close>

definition create_request :: "64 word \<Rightarrow> 64 word \<Rightarrow> request" where
  "create_request nbytes al = request_default\<lparr>rq_size := nbytes, rq_alignment := al, rq_usage := UCreate\<rparr>"

definition create :: "'h allocator_ops \<Rightarrow> 64 word \<Rightarrow> 64 word \<Rightarrow> 'h \<Rightarrow> (addr \<times> addr list \<times> 'h) result" where
  "create A sz al h =
     rbind (ao_allocate A (create_request sz al) h) (\<lambda>(a, h1). Inr (al_ptr a, [al_ptr a], h1))"

definition destroy :: "'h allocator_ops \<Rightarrow> 64 word \<Rightarrow> 64 word \<Rightarrow> addr \<Rightarrow> 'h \<Rightarrow> (addr list \<times> 'h) result" where
  "destroy A sz al p h =
     rbind (ao_free A \<lparr>al_ptr = p, al_request = create_request sz al\<rparr> h) (\<lambda>h1. Inr ([p], h1))"

record unique_ptr =
  up_ptr :: addr
  up_count :: "64 word"

definition make_unique_n ::
  "'h allocator_ops \<Rightarrow> 64 word \<Rightarrow> 64 word \<Rightarrow> 64 word \<Rightarrow> 'h \<Rightarrow> (unique_ptr \<times> addr list \<times> 'h) result" where
  "make_unique_n A sz al n h =
     (if n = 0 then Inr (\<lparr>up_ptr = 0, up_count = 0\<rparr>, [], h)
      else rbind (ao_allocate A (create_request (sz * n) al) h) (\<lambda>(a, h1).
           Inr (\<lparr>up_ptr = al_ptr a, up_count = n\<rparr>,
                map (\<lambda>i. al_ptr a + of_nat i * sz) [0..<unat n], h1)))"

definition make_unique ::
  "'h allocator_ops \<Rightarrow> 64 word \<Rightarrow> 64 word \<Rightarrow> 'h \<Rightarrow> (unique_ptr \<times> addr list \<times> 'h) result" where
  "make_unique A sz al h = make_unique_n A sz al 1 h"

definition make_shared ::
  "'h allocator_ops \<Rightarrow> 64 word \<Rightarrow> 64 word \<Rightarrow> 'h \<Rightarrow> (unique_ptr \<times> addr list \<times> 'h) result" where
  "make_shared A sz al h =
     rbind (ao_allocate A (create_request sz al) h) (\<lambda>(a, h1).
     Inr (\<lparr>up_ptr = al_ptr a, up_count = 1\<rparr>, [al_ptr a], h1))"

text \<open>\<open>Deleter::operator()\<close>: it destroys the object its pointer points to and does not set the alignment of the
  allocation that it frees. \<open>unique_ptr\<close> calls it only for a pointer that is not null.\<close>

definition deleter_call :: "'h allocator_ops \<Rightarrow> 64 word \<Rightarrow> unique_ptr \<Rightarrow> 'h \<Rightarrow> (addr list \<times> 'h) result" where
  "deleter_call A sz u h =
     rbind (ao_free A \<lparr>al_ptr = up_ptr u,
         al_request = request_default\<lparr>rq_size := sz * up_count u, rq_usage := UCreate\<rparr>\<rparr> h) (\<lambda>h1.
     Inr ([up_ptr u], h1))"

definition unique_ptr_reset :: "'h allocator_ops \<Rightarrow> 64 word \<Rightarrow> unique_ptr \<Rightarrow> 'h \<Rightarrow> (addr list \<times> 'h) result" where
  "unique_ptr_reset A sz u h = (if up_ptr u = 0 then Inr ([], h) else deleter_call A sz u h)"

definition stl_request :: "64 word \<Rightarrow> 64 word \<Rightarrow> 64 word \<Rightarrow> request" where
  "stl_request sz al n = request_default\<lparr>rq_size := sz * n, rq_alignment := al, rq_usage := UStl\<rparr>"

definition stl_allocate :: "'h allocator_ops \<Rightarrow> 64 word \<Rightarrow> 64 word \<Rightarrow> 64 word \<Rightarrow> 'h \<Rightarrow> (addr \<times> 'h) result" where
  "stl_allocate A sz al n h =
     rbind (ao_allocate A (stl_request sz al n) h) (\<lambda>(a, h1). Inr (al_ptr a, h1))"

definition stl_deallocate :: "'h allocator_ops \<Rightarrow> 64 word \<Rightarrow> 64 word \<Rightarrow> addr \<Rightarrow> 64 word \<Rightarrow> 'h \<Rightarrow> 'h result" where
  "stl_deallocate A sz al p n h = ao_free A \<lparr>al_ptr = p, al_request = stl_request sz al n\<rparr> h"

definition stl_max_size :: "64 word \<Rightarrow> 64 word" where
  "stl_max_size sz = (- 1) div sz"

section \<open>The tracking allocator\<close>

record usage_stats =
  us_count :: "64 word"
  us_bytes :: "64 word"

record 'h tracked =
  tr_stats :: "usage_stats list"
  tr_inner :: 'h

definition tracked_new :: "'h \<Rightarrow> 'h tracked" where
  "tracked_new h = \<lparr>tr_stats = replicate 6 \<lparr>us_count = 0, us_bytes = 0\<rparr>, tr_inner = h\<rparr>"

definition numAllocations :: "usage_stats list \<Rightarrow> 64 word" where
  "numAllocations st = foldl (\<lambda>out s. out + us_count s) 0 st"

definition bytesAllocated :: "usage_stats list \<Rightarrow> 64 word" where
  "bytesAllocated st = foldl (\<lambda>out s. out + us_bytes s) 0 st"

definition tracked_allocate ::
  "'h allocator_ops \<Rightarrow> request \<Rightarrow> 'h tracked \<Rightarrow> (allocation \<times> 'h tracked) result" where
  "tracked_allocate A r t =
     (let i = usage_index (rq_usage r); st = tr_stats t in
      if i < length st
      then let t1 = t\<lparr>tr_stats := st[i := \<lparr>us_count = us_count (st ! i) + 1,
                                          us_bytes = us_bytes (st ! i) + rq_size r\<rparr>]\<rparr>
           in rbind (ao_allocate A r (tr_inner t1)) (\<lambda>(a, h). Inr (a, t1\<lparr>tr_inner := h\<rparr>))
      else Inl OutOfBounds)"

definition tracked_free :: "'h allocator_ops \<Rightarrow> allocation \<Rightarrow> 'h tracked \<Rightarrow> 'h tracked result" where
  "tracked_free A a t =
     (let i = usage_index (rq_usage (al_request a)); st = tr_stats t in
      if i < length st
      then rbind (marl_assert (0 < us_count (st ! i)) ''TrackedAllocator detected abnormal free()'') (\<lambda>_.
           rbind (marl_assert (rq_size (al_request a) \<le> us_bytes (st ! i))
                    ''TrackedAllocator detected abnormal free()'') (\<lambda>_.
           let t1 = t\<lparr>tr_stats := st[i := \<lparr>us_count = us_count (st ! i) - 1,
                                          us_bytes = us_bytes (st ! i) - rq_size (al_request a)\<rparr>]\<rparr>
           in rbind (ao_free A a (tr_inner t1)) (\<lambda>h. Inr (t1\<lparr>tr_inner := h\<rparr>))))
      else Inl OutOfBounds)"

definition tracked_ops :: "'h allocator_ops \<Rightarrow> 'h tracked allocator_ops" where
  "tracked_ops A = \<lparr>ao_allocate = tracked_allocate A, ao_free = tracked_free A\<rparr>"

section \<open>The contract of an allocator\<close>

locale allocator =
  fixes A :: "'h allocator_ops"
  assumes carries_request: "ao_allocate A r h = Inr (a, h') \<Longrightarrow> al_request a = r"
begin

text \<open>A client that frees what \<open>create\<close> returned with \<open>destroy\<close>, or what the STL interface returned with
  \<open>deallocate\<close>, hands the allocator the allocation it was given.\<close>

lemma destroy_frees_created:
  assumes "create A sz al h = Inr (p, cs, h1)"
  obtains a where "ao_allocate A (create_request sz al) h = Inr (a, h1)"
    and "cs = [p]" and "\<And>h2. destroy A sz al p h2 = rbind (ao_free A a h2) (\<lambda>h3. Inr (cs, h3))"
proof -
  obtain a where a: "ao_allocate A (create_request sz al) h = Inr (a, h1)" "p = al_ptr a" "cs = [p]"
    using assms by (auto simp: create_def)
  moreover have "\<lparr>al_ptr = p, al_request = create_request sz al\<rparr> = a"
    using carries_request [OF a(1)] a(2) by simp
  ultimately show ?thesis using that by (simp add: destroy_def)
qed

lemma deallocate_frees_allocated:
  assumes "stl_allocate A sz al n h = Inr (p, h1)"
  obtains a where "ao_allocate A (stl_request sz al n) h = Inr (a, h1)"
    and "\<And>h2. stl_deallocate A sz al p n h2 = ao_free A a h2"
proof -
  obtain a where a: "ao_allocate A (stl_request sz al n) h = Inr (a, h1)" "p = al_ptr a"
    using assms by (auto simp: stl_allocate_def)
  moreover have "\<lparr>al_ptr = p, al_request = stl_request sz al n\<rparr> = a"
    using carries_request [OF a(1)] a(2) by simp
  ultimately show ?thesis using that by (simp add: stl_deallocate_def)
qed

lemma tracked_carries_request: "tracked_allocate A r t = Inr (a, t') \<Longrightarrow> al_request a = r"
  by (auto simp: tracked_allocate_def Let_def split: if_splits dest: carries_request)

end

interpretation default_alloc: allocator "default_ops pageSize os"
  by unfold_locales (auto simp: default_ops_def default_allocate_def split: if_splits)

interpretation tracked_default: allocator "tracked_ops (default_ops pageSize os)"
  by unfold_locales (auto simp: tracked_ops_def dest: default_alloc.tracked_carries_request)

end
