(* ===== verification/Memory_Proofs.thy ===== *)
theory Memory_Proofs
  imports Memory_Model
begin

unbundle bit_operations_syntax

text \<open>
  Lemmas and properties of the allocators: alignment arithmetic without wrap-around, the
  pointer stored behind an aligned block, round trips of allocation and release, guard pages, the
  statistics of the tracking allocator, and the deleter of the smart pointers.
\<close>

section \<open>Alignment\<close>

lemma unat_add_less:
  "unat (x :: 64 word) + unat y < 2 ^ 64 \<Longrightarrow> unat (x + y) = unat x + unat y"
  by (simp add: unat_word_ariths)

lemma unat_mult_less:
  "unat (x :: 64 word) * unat y < 2 ^ 64 \<Longrightarrow> unat (x * y) = unat x * unat y"
  by (simp add: unat_word_ariths)

lemma round_up_bounds:
  fixes v a :: nat
  assumes "0 < a"
  shows "v \<le> a * ((v + a - 1) div a)" "a * ((v + a - 1) div a) < v + a"
proof -
  have "a * ((v + a - 1) div a) + (v + a - 1) mod a = v + a - 1" by simp
  moreover have "(v + a - 1) mod a < a" using assms by simp
  ultimately show "v \<le> a * ((v + a - 1) div a)" "a * ((v + a - 1) div a) < v + a"
    using assms by linarith+
qed

lemma unat_round_up:
  fixes v a :: "64 word"
  assumes "a \<noteq> 0" "unat v + unat a \<le> 2 ^ 64"
  shows "unat (a * ((v + a - 1) div a)) = unat a * ((unat v + unat a - 1) div unat a)"
proof -
  have a: "0 < unat a" using assms(1) by (simp add: unat_gt_0)
  have "unat (v + (a - 1)) = unat v + (unat a - 1)"
    using assms a by (subst unat_add_less) (auto simp: unat_minus_one)
  then have d: "unat ((v + a - 1) div a) = (unat v + unat a - 1) div unat a"
    using a by (simp add: unat_div add_diff_eq)
  then show ?thesis
    using round_up_bounds(2) [OF a, of "unat v"] assms(2) by (subst unat_mult_less) (simp_all add: d)
qed

lemma alignUp_spec:
  assumes "alignment \<noteq> 0" "unat val + unat alignment \<le> 2 ^ 64"
  obtains r where "alignUp val alignment = Inr r" "unat r mod unat alignment = 0"
    "unat val \<le> unat r" "unat r < unat val + unat alignment"
proof -
  have a: "0 < unat alignment" using assms(1) by (simp add: unat_gt_0)
  let ?r = "alignment * ((val + alignment - 1) div alignment)"
  have r: "unat ?r mod unat alignment = 0" unfolding unat_round_up [OF assms] by simp
  have le: "unat val \<le> unat ?r" "unat ?r < unat val + unat alignment"
    unfolding unat_round_up [OF assms] using round_up_bounds [OF a, of "unat val"] by blast+
  have "alignUp val alignment = Inr ?r" using assms(1) by (simp add: alignUp_def)
  from this r le show ?thesis by (rule that)
qed

section \<open>Pointers in memory\<close>

lemma ptr_bytes_take:
  "ptr_of_bytes (map (\<lambda>i. ptr_byte v (k + i)) [0..<n]) = take_bit (8 * n) (drop_bit (8 * k) v)"
proof (induction n arbitrary: k)
  case 0
  then show ?case by simp
next
  case (Suc n)
  have "map (\<lambda>i. ptr_byte v (k + i)) [0..<Suc n] =
      ptr_byte v k # map (\<lambda>i. ptr_byte v (Suc k + i)) [0..<n]"
    by (simp add: upt_conv_Cons del: upt_Suc flip: map_Suc_upt)
  then have "ptr_of_bytes (map (\<lambda>i. ptr_byte v (k + i)) [0..<Suc n]) =
      ucast (ptr_byte v k) OR push_bit 8 (take_bit (8 * n) (drop_bit (8 * Suc k) v))"
    using Suc.IH [of "Suc k"] by simp
  also have "\<dots> = take_bit (8 * Suc n) (drop_bit (8 * k) v)"
    by (rule bit_word_eqI) (auto simp: ptr_byte_def bit_simps)
  finally show ?case .
qed

lemma ptr_of_ptr_bytes: "ptr_of_bytes (map (ptr_byte v) [0..<8]) = v"
  using ptr_bytes_take [of v 0 8] by (simp add: take_bit_word_eq_self)

definition write_bytes :: "(addr \<times> 8 word) list \<Rightarrow> heap \<Rightarrow> heap" where
  "write_bytes ws h = h\<lparr>hp_bytes := fold (\<lambda>(a, v) m. m(a := v)) ws (hp_bytes h)\<rparr>"

lemma fold_upd_other: "x \<notin> fst ` set ws \<Longrightarrow> fold (\<lambda>(a, v) m. m(a := v)) ws m x = m x"
  by (induction ws arbitrary: m) auto

lemma write_bytes_simps [simp]:
  "hp_blocks (write_bytes ws h) = hp_blocks h" "hp_maps (write_bytes ws h) = hp_maps h"
  "hp_guarded (write_bytes ws h) = hp_guarded h"
  by (simp_all add: write_bytes_def)

lemma valid_range_blocks: "hp_blocks h = hp_blocks h' \<Longrightarrow> valid_range h a n = valid_range h' a n"
  by (simp add: valid_range_def)

lemma store_ptr_blocks: "store_ptr a v h = Inr h' \<Longrightarrow> hp_blocks h' = hp_blocks h"
  by (auto simp: store_ptr_def split: if_splits)

text \<open>What is stored is loaded, as long as the eight bytes are not overwritten.\<close>

lemma load_store_ptr:
  assumes "store_ptr a v h = Inr h1" "hp_blocks h2 = hp_blocks h1"
    and "\<And>i. i < 8 \<Longrightarrow> hp_bytes h2 (a + of_nat i) = hp_bytes h1 (a + of_nat i)"
  shows "load_ptr a h2 = Inr v"
proof -
  have valid: "valid_range h a 8" using assms(1) by (simp add: store_ptr_def split: if_splits)
  have "hp_bytes h1 (a + of_nat i) = ptr_byte v i" if "i < 8" for i
    using assms(1) valid that unat_of_nat_less [of i, where 'a = 64] by (auto simp: store_ptr_def)
  with assms(3) have "map (\<lambda>i. hp_bytes h2 (a + of_nat i)) [0..<8] = map (ptr_byte v) [0..<8]" by simp
  moreover have "valid_range h2 a 8"
    using valid assms(2) store_ptr_blocks [OF assms(1)] by (simp cong: valid_range_blocks)
  ultimately show ?thesis using ptr_of_ptr_bytes [of v] by (simp only: load_ptr_def if_True)
qed

section \<open>Aligned blocks\<close>

text \<open>The addresses \<open>malloc\<close> may return for \<open>n\<close> bytes: the block is new and meets no live block.\<close>

definition malloc_ok :: "heap \<Rightarrow> 64 word \<Rightarrow> addr \<Rightarrow> bool" where
  "malloc_ok h n p \<longleftrightarrow> p \<noteq> 0 \<and> unat p + unat n < 2 ^ 64 \<and>
     (\<forall>(b, s) \<in> set (hp_blocks h). b \<noteq> p \<and> (unat p + unat n \<le> unat b \<or> unat b + unat s \<le> unat p))"

lemma alignedMalloc_spec:
  assumes al: "1 < alignment" and room: "unat nbytes + unat alignment + 8 < 2 ^ 64"
    and m: "malloc_ok h (nbytes + alignment + 8) (os_malloc os)"
  obtains p h1 where "alignedMalloc os alignment nbytes h = Inr (p, h1)"
    "unat p mod unat alignment = 0" "unat (os_malloc os) \<le> unat p" "unat p < unat (os_malloc os) + unat alignment"
    "hp_blocks h1 = (os_malloc os, nbytes + alignment + 8) # hp_blocks h"
    "store_ptr (p + nbytes) (os_malloc os) (h\<lparr>hp_blocks := (os_malloc os, nbytes + alignment + 8) # hp_blocks h\<rparr>) = Inr h1"
    "alignUp (os_malloc os) alignment = Inr p"
proof -
  let ?b = "os_malloc os" and ?n = "nbytes + alignment + 8"
  let ?h = "h\<lparr>hp_blocks := (?b, ?n) # hp_blocks h\<rparr>"
  have n: "unat ?n = unat nbytes + unat alignment + 8"
    using room by (simp add: unat_word_ariths)
  then have b: "?b \<noteq> 0" "unat ?b + unat nbytes + unat alignment + 8 < 2 ^ 64"
    using m by (simp_all add: malloc_ok_def)
  have nz: "alignment \<noteq> 0" "unat ?b + unat alignment \<le> 2 ^ 64" using al b(2) by auto
  obtain p where p: "alignUp ?b alignment = Inr p" "unat p mod unat alignment = 0"
    "unat ?b \<le> unat p" "unat p < unat ?b + unat alignment"
    by (rule alignUp_spec [OF nz])
  have "unat (p + nbytes) = unat p + unat nbytes"
    using p(4) b(2) by (intro unat_add_less) linarith
  then have "valid_range ?h (p + nbytes) 8"
    using p(3,4) n by (simp add: valid_range_def)
  then obtain h1 where h1: "store_ptr (p + nbytes) ?b ?h = Inr h1"
    by (simp add: store_ptr_def)
  have "alignedMalloc os alignment nbytes h = Inr (p, h1)"
    using p(1) h1 b(1) by (simp add: alignedMalloc_def c_malloc_def)
  from this p(2-4) _ h1 p(1) show ?thesis
    by (rule that) (use store_ptr_blocks [OF h1] in simp)
qed

lemma mod_zero_unat: "p mod a = 0 \<longleftrightarrow> unat p mod unat a = 0" for p a :: "64 word"
  by (metis unat_mod unat_eq_0 unat_0)

lemma filter_fresh:
  assumes "malloc_ok h n p"
  shows "filter (\<lambda>b. fst b \<noteq> p) (hp_blocks h) = hp_blocks h"
  using assms by (auto simp: malloc_ok_def intro!: filter_True)

lemma of_nat_offset:
  assumes "unat p + unat (n :: 64 word) + 8 < 2 ^ 64" "i < 8"
  shows "unat (p + n + of_nat i) = unat p + unat n + i"
  using assms unat_of_nat_less [of i, where 'a = 64] by (simp add: unat_word_ariths)

lemma default_allocate_aligned:
  assumes "\<not> rq_use_guards r" "1 < rq_alignment r"
    and "alignedMalloc os (rq_alignment r) (rq_size r) h = Inr (p, h1)"
    and "unat p mod unat (rq_alignment r) = 0" "p \<noteq> 0"
  shows "default_allocate pageSize os r h = Inr (\<lparr>al_ptr = p, al_request = r\<rparr>, h1)"
  using assms by (auto simp: default_allocate_def mod_zero_unat)

text \<open>C30. An aligned allocation of the default allocator (a request without guards and with an alignment
  above 1) that \<open>malloc\<close> can serve returns a non-null address that is a multiple of the alignment, with all
  requested bytes inside the new block and before the hidden base pointer; after any writes to
  the requested bytes \<open>free\<close> returns exactly that block: the live blocks are the ones before.\<close>

theorem aligned_roundtrip:
  assumes "\<not> rq_use_guards r" "1 < rq_alignment r"
    and "unat (rq_size r) + unat (rq_alignment r) + 8 < 2 ^ 64"
    and "malloc_ok h (rq_size r + rq_alignment r + 8) (os_malloc os)"
  shows "\<exists>a h1. default_allocate pageSize os r h = Inr (a, h1) \<and> al_request a = r \<and>
    al_ptr a \<noteq> 0 \<and> unat (al_ptr a) mod unat (rq_alignment r) = 0 \<and>
    hp_blocks h1 = (os_malloc os, rq_size r + rq_alignment r + 8) # hp_blocks h \<and>
    unat (os_malloc os) \<le> unat (al_ptr a) \<and>
    unat (al_ptr a) + unat (rq_size r) + 8 \<le> unat (os_malloc os) + unat (rq_size r + rq_alignment r + 8) \<and>
    (\<forall>ws os'. (\<forall>w \<in> set ws. unat (al_ptr a) \<le> unat (fst w) \<and> unat (fst w) < unat (al_ptr a) + unat (rq_size r)) \<longrightarrow>
      (\<exists>h2. default_free pageSize os' a (write_bytes ws h1) = Inr h2 \<and> hp_blocks h2 = hp_blocks h))"
proof -
  let ?b = "os_malloc os" and ?n = "rq_size r + rq_alignment r + 8"
  obtain p h1 where p: "alignedMalloc os (rq_alignment r) (rq_size r) h = Inr (p, h1)"
    "unat p mod unat (rq_alignment r) = 0" "unat ?b \<le> unat p" "unat p < unat ?b + unat (rq_alignment r)"
    "hp_blocks h1 = (?b, ?n) # hp_blocks h"
    and st: "store_ptr (p + rq_size r) ?b (h\<lparr>hp_blocks := (?b, ?n) # hp_blocks h\<rparr>) = Inr h1"
    by (rule alignedMalloc_spec [OF assms(2-4)])
  have n: "unat ?n = unat (rq_size r) + unat (rq_alignment r) + 8"
    using assms(3) by (simp add: unat_word_ariths)
  have b: "?b \<noteq> 0" "unat ?b + unat ?n < 2 ^ 64" using assms(4) by (simp_all add: malloc_ok_def)
  have "p \<noteq> 0" using b(1) p(3) unat_gt_0 [of ?b] by auto
  note alloc = default_allocate_aligned [OF assms(1,2) p(1,2) this]
  have free: "\<exists>h2. default_free pageSize os' \<lparr>al_ptr = p, al_request = r\<rparr> (write_bytes ws h1) = Inr h2 \<and>
      hp_blocks h2 = hp_blocks h"
    if ws: "\<forall>w \<in> set ws. unat p \<le> unat (fst w) \<and> unat (fst w) < unat p + unat (rq_size r)" for ws os'
  proof -
    have "hp_bytes (write_bytes ws h1) (p + rq_size r + of_nat i) = hp_bytes h1 (p + rq_size r + of_nat i)"
      if "i < 8" for i
    proof -
      have "unat (p + rq_size r + of_nat i) = unat p + unat (rq_size r) + i"
        using that n b(2) p(4) by (intro of_nat_offset) linarith+
      then show ?thesis using ws by (auto simp: write_bytes_def intro!: fold_upd_other)
    qed
    then have "load_ptr (p + rq_size r) (write_bytes ws h1) = Inr ?b"
      by (intro load_store_ptr [OF st]) simp_all
    then show ?thesis
      using assms(1,2) b(1) p(5) filter_fresh [OF assms(4)]
      by (simp add: default_free_def alignedFree_def c_free_def Let_def)
  qed
  show ?thesis
    using alloc p(2-5) n free \<open>p \<noteq> 0\<close> by (intro exI [of _ "\<lparr>al_ptr = p, al_request = r\<rparr>"] exI [of _ h1]) simp
qed

definition empty_heap :: heap where
  "empty_heap = \<lparr>hp_blocks = [], hp_maps = [], hp_guarded = [], hp_bytes = (\<lambda>_. 0)\<rparr>"

definition os_example :: os_answer where
  "os_example = \<lparr>os_malloc = 4112, os_mmap = Some 8192, os_mprotect = True, os_munmap = True\<rparr>"

theorem aligned_roundtrip_witness:
  "\<exists>a h1. default_allocate 4096 os_example (create_request 24 32) empty_heap = Inr (a, h1) \<and>
     al_ptr a \<noteq> 0 \<and> unat (al_ptr a) mod 32 = 0 \<and>
     (\<exists>h2. default_free 4096 os_example a h1 = Inr h2 \<and> hp_blocks h2 = [])"
proof -
  have "malloc_ok empty_heap (24 + 32 + 8) (os_malloc os_example)"
    by (simp add: malloc_ok_def empty_heap_def os_example_def)
  then obtain a h1 where "default_allocate 4096 os_example (create_request 24 32) empty_heap = Inr (a, h1)"
    "al_ptr a \<noteq> 0" "unat (al_ptr a) mod 32 = 0"
    and fr: "\<forall>ws os'. (\<forall>w \<in> set ws. unat (al_ptr a) \<le> unat (fst w) \<and> unat (fst w) < unat (al_ptr a) + 24) \<longrightarrow>
      (\<exists>h2. default_free 4096 os' a (write_bytes ws h1) = Inr h2 \<and> hp_blocks h2 = hp_blocks empty_heap)"
    using aligned_roundtrip [of "create_request 24 32" empty_heap os_example 4096]
    by (auto simp: create_request_def request_default_def)
  moreover have "write_bytes [] h1 = h1" by (simp add: write_bytes_def)
  ultimately show ?thesis
    using fr [rule_format, of "[]" os_example] by (simp add: empty_heap_def)
qed

section \<open>Guard pages\<close>

lemma paged_sizes:
  assumes "pageSize \<noteq> 0" "unat nbytes + 3 * unat pageSize < 2 ^ 64"
  shows "unat nbytes \<le> unat (num_requested_pages pageSize nbytes * pageSize)"
    and "unat (num_total_pages pageSize nbytes True True * pageSize) =
      unat (num_requested_pages pageSize nbytes * pageSize) + 2 * unat pageSize"
proof -
  let ?u = "num_requested_pages pageSize nbytes * pageSize"
  have pos: "0 < unat pageSize" using assms(1) by (simp add: unat_gt_0)
  have "unat nbytes + unat pageSize \<le> 2 ^ 64" using assms(2) by simp
  then have u: "unat ?u = unat pageSize * ((unat nbytes + unat pageSize - 1) div unat pageSize)"
    using unat_round_up [OF assms(1)] by (simp add: num_requested_pages_def mult.commute)
  then show "unat nbytes \<le> unat ?u" using round_up_bounds(1) [OF pos] by simp
  have lt: "unat ?u < unat nbytes + unat pageSize" unfolding u by (rule round_up_bounds(2) [OF pos])
  have "num_total_pages pageSize nbytes True True * pageSize = ?u + (pageSize + pageSize)"
    by (simp add: num_total_pages_def algebra_simps)
  moreover have "unat (pageSize + pageSize) = unat pageSize + unat pageSize"
    using assms(2) by (intro unat_add_less) simp
  ultimately show "unat (num_total_pages pageSize nbytes True True * pageSize) = unat ?u + 2 * unat pageSize"
    using lt assms(2) unat_add_less [of ?u "pageSize + pageSize"] by simp
qed

text \<open>The mapping that a guarded allocation makes, and where the requested bytes are in it.\<close>

lemma guarded_allocate:
  assumes "rq_use_guards r" "rq_alignment r \<noteq> 0" "rq_alignment r < pageSize"
    and "unat pageSize mod unat (rq_alignment r) = 0"
    and "unat (rq_size r) + 3 * unat pageSize < 2 ^ 64"
    and "os_mmap os = Some m" "unat m mod unat pageSize = 0" "os_mprotect os"
    and "unat m + unat (num_total_pages pageSize (rq_size r) True True * pageSize) < 2 ^ 64"
  defines "u \<equiv> num_requested_pages pageSize (rq_size r) * pageSize"
    and "t \<equiv> num_total_pages pageSize (rq_size r) True True * pageSize"
  shows "default_allocate pageSize os r h = Inr (\<lparr>al_ptr = m + pageSize, al_request = r\<rparr>,
      h\<lparr>hp_maps := (m, t) # hp_maps h, hp_guarded := [m + pageSize + u, m] @ hp_guarded h\<rparr>)"
    "unat (m + pageSize) = unat m + unat pageSize"
    "unat (m + pageSize + u) = unat m + unat pageSize + unat u"
    "unat (rq_size r) \<le> unat u" "unat t = unat u + 2 * unat pageSize" "0 < unat pageSize"
proof -
  have pg: "pageSize \<noteq> 0" "0 < unat pageSize" using assms(3) by (auto simp: unat_gt_0)
  note s = paged_sizes [OF pg(1) assms(5), folded u_def t_def] and room = assms(9) [folded t_def]
  have p: "unat (m + pageSize) = unat m + unat pageSize"
    using s(2) room by (intro unat_add_less) linarith
  have q: "unat (m + pageSize + u) = unat m + unat pageSize + unat u"
    using s(2) room p by (subst unat_add_less) linarith+
  have "m + pageSize \<noteq> 0" using p pg(2) by auto
  moreover have "(m + pageSize) mod rq_alignment r = 0"
    unfolding mod_zero_unat p using assms(4,7) by (metis dvd_add dvd_eq_mod_eq_0 dvd_trans)
  ultimately show "default_allocate pageSize os r h = Inr (\<lparr>al_ptr = m + pageSize, al_request = r\<rparr>,
      h\<lparr>hp_maps := (m, t) # hp_maps h, hp_guarded := [m + pageSize + u, m] @ hp_guarded h\<rparr>)"
    using assms(1-3,6,8)
    by (simp add: default_allocate_def pagedMalloc_def allocatePages_def protectPage_def Let_def u_def t_def)
  show "unat (m + pageSize) = unat m + unat pageSize" "unat (m + pageSize + u) = unat m + unat pageSize + unat u"
    "unat (rq_size r) \<le> unat u" "unat t = unat u + 2 * unat pageSize" "0 < unat pageSize"
    by (fact p q s pg(2))+
qed

text \<open>A guarded allocation (as used for the stacks of fibers) that \<open>mmap\<close> can serve returns an address
  whose page below and whose page behind the requested bytes are inaccessible, with all requested bytes
  between them; \<open>free\<close> unmaps the whole mapping, the guard pages included.\<close>

theorem guarded_roundtrip:
  assumes "rq_use_guards r" "rq_alignment r \<noteq> 0" "rq_alignment r < pageSize"
    and "unat pageSize mod unat (rq_alignment r) = 0"
    and "unat (rq_size r) + 3 * unat pageSize < 2 ^ 64"
    and "os_mmap os = Some m" "unat m mod unat pageSize = 0" "os_mprotect os"
    and "unat m + unat (num_total_pages pageSize (rq_size r) True True * pageSize) < 2 ^ 64"
  shows "\<exists>h1. default_allocate pageSize os r h = Inr (\<lparr>al_ptr = m + pageSize, al_request = r\<rparr>, h1) \<and>
    hp_guarded h1 = [m + pageSize + num_requested_pages pageSize (rq_size r) * pageSize, m] @ hp_guarded h \<and>
    unat (m + pageSize) = unat m + unat pageSize \<and>
    unat (m + pageSize) + unat (rq_size r) \<le>
      unat (m + pageSize + num_requested_pages pageSize (rq_size r) * pageSize) \<and>
    (\<forall>os'. os_munmap os' \<longrightarrow> (\<exists>h2.
       default_free pageSize os' \<lparr>al_ptr = m + pageSize, al_request = r\<rparr> h1 = Inr h2 \<and>
       hp_maps h2 = hp_maps h \<and> set (hp_guarded h2) \<subseteq> set (hp_guarded h)))"
proof -
  let ?u = "num_requested_pages pageSize (rq_size r) * pageSize"
  let ?t = "num_total_pages pageSize (rq_size r) True True * pageSize"
  note g = guarded_allocate [OF assms]
  define h1 where "h1 = h\<lparr>hp_maps := (m, ?t) # hp_maps h, hp_guarded := [m + pageSize + ?u, m] @ hp_guarded h\<rparr>"
  have "set (hp_guarded (h1\<lparr>hp_guarded := filter (\<lambda>g. \<not> (unat m \<le> unat g \<and> unat g < unat m + unat ?t)) (hp_guarded h1)\<rparr>))
      \<subseteq> set (hp_guarded h)"
    using g(3,5,6) by (auto simp: h1_def)
  then show ?thesis
    using assms(1,3) g(1-5)
    by (auto simp: default_free_def pagedFree_def freePages_def Let_def h1_def)
qed

theorem guarded_roundtrip_witness:
  "\<exists>h1. default_allocate 4096 os_example
      \<lparr>rq_size = 10000, rq_alignment = 16, rq_use_guards = True, rq_usage = UStack\<rparr> empty_heap =
      Inr (\<lparr>al_ptr = 12288, al_request =
        \<lparr>rq_size = 10000, rq_alignment = 16, rq_use_guards = True, rq_usage = UStack\<rparr>\<rparr>, h1) \<and>
     hp_guarded h1 = [24576, 8192]"
  using guarded_roundtrip
    [of "\<lparr>rq_size = 10000, rq_alignment = 16, rq_use_guards = True, rq_usage = UStack\<rparr>" 4096 os_example 8192 empty_heap]
  by (auto simp: os_example_def num_total_pages_def num_requested_pages_def empty_heap_def)

section \<open>Statistics of the tracking allocator\<close>

definition live_of :: "usage \<Rightarrow> allocation list \<Rightarrow> allocation list" where
  "live_of u live = filter (\<lambda>a. rq_usage (al_request a) = u) live"

definition live_sizes :: "allocation list \<Rightarrow> 64 word list" where
  "live_sizes live = map (\<lambda>a. rq_size (al_request a)) live"

definition live_bytes :: "allocation list \<Rightarrow> nat" where
  "live_bytes live = sum_list (map unat (live_sizes live))"

definition usage_of :: "usage \<Rightarrow> allocation list \<Rightarrow> usage_stats" where
  "usage_of u live =
     \<lparr>us_count = of_nat (length (live_of u live)), us_bytes = sum_list (live_sizes (live_of u live))\<rparr>"

text \<open>The statistics are those of the live allocations.\<close>

definition track_inv :: "allocation list \<Rightarrow> usage_stats list \<Rightarrow> bool" where
  "track_inv live st \<longleftrightarrow>
     st = map (\<lambda>u. usage_of u live) [UUndefined, UStack, UCreate, UVector, UList, UStl] \<and>
     (\<forall>a \<in> set live. rq_usage (al_request a) \<noteq> UCount)"

lemma usage_index_less: "u \<noteq> UCount \<longleftrightarrow> usage_index u < 6"
  by (cases u) auto

lemma track_inv_nth:
  "track_inv live st \<Longrightarrow> u \<noteq> UCount \<Longrightarrow> st ! usage_index u = usage_of u live"
  by (cases u) (simp_all add: track_inv_def)

lemma track_inv_length: "track_inv live st \<Longrightarrow> length st = 6"
  by (simp add: track_inv_def)

text \<open>Only the entry of the one usage changes.\<close>

lemma track_inv_update:
  assumes "track_inv live st" "u \<noteq> UCount" "\<And>v. v \<noteq> u \<Longrightarrow> usage_of v live' = usage_of v live"
    and "x = usage_of u live'" "\<forall>a \<in> set live'. rq_usage (al_request a) \<noteq> UCount"
  shows "track_inv live' (st[usage_index u := x])"
  using assms by (cases u) (simp_all add: track_inv_def)

lemma unat_sum_list:
  fixes xs :: "64 word list"
  shows "sum_list (map unat xs) < 2 ^ 64 \<Longrightarrow> unat (sum_list xs) = sum_list (map unat xs)"
  by (induction xs) (simp_all add: unat_add_less)

lemma live_bytes_filter: "live_bytes (filter P live) \<le> live_bytes live"
  by (induction live) (auto simp: live_bytes_def live_sizes_def)

lemma mset_live_of: "mset live = add_mset a (mset live') \<Longrightarrow>
  mset (live_of u live) = (if rq_usage (al_request a) = u then add_mset a (mset (live_of u live')) else mset (live_of u live'))"
  by (simp add: live_of_def mset_filter)

lemma usage_of_cong: "mset (live_of u xs) = mset (live_of u ys) \<Longrightarrow> usage_of u xs = usage_of u ys"
  by (simp only: usage_of_def live_sizes_def sum_list_map_mset flip: size_mset)

lemma usage_of_add:
  assumes "mset live = add_mset a (mset live')"
  shows "usage_of u live = (if rq_usage (al_request a) = u
    then \<lparr>us_count = us_count (usage_of u live') + 1, us_bytes = us_bytes (usage_of u live') + rq_size (al_request a)\<rparr>
    else usage_of u live')"
proof (cases "rq_usage (al_request a) = u")
  case True
  then have "mset (live_of u live) = mset (a # live_of u live')" using mset_live_of [OF assms] by simp
  then have "usage_of u live = usage_of u (a # live_of u live')"
    using True by (intro usage_of_cong) (simp add: live_of_def)
  with True show ?thesis by (simp add: usage_of_def live_of_def live_sizes_def add.commute)
next
  case False
  then show ?thesis using mset_live_of [OF assms, of u] usage_of_cong [of u live live'] by simp
qed

lemma live_bytes_mset: "mset xs = mset ys \<Longrightarrow> live_bytes xs = live_bytes ys"
  by (simp only: live_bytes_def live_sizes_def map_map sum_list_map_mset)

text \<open>The two assertions of \<open>free\<close> hold for a live allocation.\<close>

lemma live_asserts:
  assumes "a \<in> set live" "live_bytes live < 2 ^ 64" "length live < 2 ^ 64"
  shows "0 < us_count (usage_of (rq_usage (al_request a)) live)"
    and "rq_size (al_request a) \<le> us_bytes (usage_of (rq_usage (al_request a)) live)"
proof -
  let ?l = "live_of (rq_usage (al_request a)) live"
  have a: "a \<in> set ?l" using assms(1) by (simp add: live_of_def)
  have "length ?l < 2 ^ 64"
    using assms(3) length_filter_le unfolding live_of_def by (rule le_less_trans [rotated])
  moreover have "0 < length ?l" using a by auto
  ultimately show "0 < us_count (usage_of (rq_usage (al_request a)) live)"
    using of_nat_gt_0_less [of "length ?l", where 'a = 64] by (simp add: usage_of_def)
  have lt: "sum_list (map unat (live_sizes ?l)) < 2 ^ 64"
    using assms(2) live_bytes_filter [of _ live] unfolding live_bytes_def live_of_def by (rule le_less_trans [rotated])
  have "unat (rq_size (al_request a)) \<le> sum_list (map unat (live_sizes ?l))"
    using a by (intro member_le_sum_list) (auto simp: live_sizes_def)
  then show "rq_size (al_request a) \<le> us_bytes (usage_of (rq_usage (al_request a)) live)"
    by (simp add: usage_of_def word_le_nat_alt unat_sum_list [OF lt])
qed

lemma tracked_allocate_inv:
  assumes "track_inv live (tr_stats t)" "tracked_allocate A r t = Inr (a, t')" "al_request a = r"
  shows "track_inv (live @ [a]) (tr_stats t')"
proof -
  have u: "rq_usage r \<noteq> UCount"
    using assms(1,2) by (auto simp: tracked_allocate_def Let_def usage_index_less track_inv_length split: if_splits)
  have add: "mset (live @ [a]) = add_mset a (mset live)" by simp
  have "tr_stats t' = (tr_stats t)[usage_index (rq_usage r) := usage_of (rq_usage r) (live @ [a])]"
    using assms track_inv_nth [OF assms(1) u] usage_of_add [OF add, of "rq_usage r"]
    by (auto simp: tracked_allocate_def Let_def split: if_splits)
  moreover have "\<forall>b \<in> set (live @ [a]). rq_usage (al_request b) \<noteq> UCount"
    using assms(1,3) u by (auto simp: track_inv_def)
  ultimately show ?thesis
    using assms(3) usage_of_add [OF add] by (simp add: track_inv_update [OF assms(1) u])
qed

lemma tracked_free_inv:
  assumes inv: "track_inv live (tr_stats t)" and i: "i < length live"
    and "live_bytes live < 2 ^ 64" "length live < 2 ^ 64"
  shows "\<exists>st. track_inv (remove_nth i live) st \<and>
    tracked_free A (live ! i) t = rbind (ao_free A (live ! i) (tr_inner t)) (\<lambda>h. Inr \<lparr>tr_stats = st, tr_inner = h\<rparr>)"
proof -
  let ?a = "live ! i" and ?u = "rq_usage (al_request (live ! i))"
  have a: "?a \<in> set live" using i by simp
  then have u: "?u \<noteq> UCount" using inv by (simp add: track_inv_def)
  note add = usage_of_add [OF mset_remove_nth [OF i]]
  let ?st = "(tr_stats t)[usage_index ?u := usage_of ?u (remove_nth i live)]"
  have "track_inv (remove_nth i live) ?st"
    using inv u add by (intro track_inv_update [OF inv u])
      (auto simp: track_inv_def remove_nth_def dest: in_set_takeD in_set_dropD)
  moreover have "tracked_free A ?a t =
      rbind (ao_free A ?a (tr_inner t)) (\<lambda>h. Inr \<lparr>tr_stats = ?st, tr_inner = h\<rparr>)"
    using live_asserts [OF a assms(3,4)] track_inv_nth [OF inv u] u add [of ?u] track_inv_length [OF inv]
    by (cases t; cases "usage_of ?u (remove_nth i live)") (simp add: tracked_free_def Let_def usage_index_less)
  ultimately show ?thesis by blast
qed

text \<open>A client of a tracking allocator over the default one: it allocates, and frees one of its live
  allocations; every call comes with the answers of the system.\<close>

datatype track_op =
    TrAlloc os_answer request
  | TrFree os_answer nat

fun track_run :: "64 word \<Rightarrow> track_op list \<Rightarrow> allocation list \<Rightarrow> heap tracked \<Rightarrow>
    (allocation list \<times> heap tracked) result" where
  "track_run pg [] live t = Inr (live, t)"
| "track_run pg (TrAlloc os r # xs) live t =
     rbind (tracked_allocate (default_ops pg os) r t) (\<lambda>(a, t'). track_run pg xs (live @ [a]) t')"
| "track_run pg (TrFree os i # xs) live t =
     rbind (tracked_free (default_ops pg os) (live ! i) t) (\<lambda>t'. track_run pg xs (remove_nth i live) t')"

text \<open>The client frees only what is live, and never holds \<open>2\<^sup>6\<^sup>4\<close> bytes: a bound on the live
  allocations along the run.\<close>

fun track_legal :: "64 word \<Rightarrow> track_op list \<Rightarrow> allocation list \<Rightarrow> heap tracked \<Rightarrow> bool" where
  "track_legal pg [] live t = True"
| "track_legal pg (TrAlloc os r # xs) live t =
     (case tracked_allocate (default_ops pg os) r t of
        Inl e \<Rightarrow> True
      | Inr (a, t') \<Rightarrow> track_legal pg xs (live @ [a]) t')"
| "track_legal pg (TrFree os i # xs) live t =
     (i < length live \<and> live_bytes live < 2 ^ 64 \<and> length live < 2 ^ 64 \<and>
      (case tracked_free (default_ops pg os) (live ! i) t of
         Inl e \<Rightarrow> True
       | Inr t' \<Rightarrow> track_legal pg xs (remove_nth i live) t'))"

lemma track_run_inv:
  assumes "track_legal pg ops live t" "track_run pg ops live t = Inr (live', t')" "track_inv live (tr_stats t)"
  shows "track_inv live' (tr_stats t')"
  using assms
proof (induction pg ops live t rule: track_run.induct)
  case (1 pg live t)
  then show ?case by simp
next
  case (2 pg os r xs live t)
  then obtain a u where "tracked_allocate (default_ops pg os) r t = Inr (a, u)" by auto
  with 2 default_alloc.tracked_carries_request [OF this] tracked_allocate_inv [OF 2(4) this] show ?case by simp
next
  case (3 pg os i xs live t)
  then obtain u where u: "tracked_free (default_ops pg os) (live ! i) t = Inr u" by auto
  then have "track_inv (remove_nth i live) (tr_stats u)"
    using 3(2,4) tracked_free_inv [of live t i "default_ops pg os"]
    by (cases "ao_free (default_ops pg os) (live ! i) (tr_inner t)") auto
  with 3 u show ?case by simp
qed

lemma tracked_new_eq: "tracked_new h =
    \<lparr>tr_stats = [\<lparr>us_count = 0, us_bytes = 0\<rparr>, \<lparr>us_count = 0, us_bytes = 0\<rparr>, \<lparr>us_count = 0, us_bytes = 0\<rparr>,
       \<lparr>us_count = 0, us_bytes = 0\<rparr>, \<lparr>us_count = 0, us_bytes = 0\<rparr>, \<lparr>us_count = 0, us_bytes = 0\<rparr>], tr_inner = h\<rparr>"
  by (simp add: tracked_new_def numeral_eq_Suc)

lemma foldl_stats:
  fixes f :: "usage_stats \<Rightarrow> 64 word"
  shows "foldl (\<lambda>out s. out + f s) x st = x + sum_list (map f st)"
  by (induction st arbitrary: x) (simp_all add: add.assoc)

lemma track_totals:
  assumes "track_inv live st"
  shows "numAllocations st = of_nat (length live)" "bytesAllocated st = sum_list (live_sizes live)"
proof -
  have us: "rq_usage (al_request a) \<in> {UUndefined, UStack, UCreate, UVector, UList, UStl}" if "a \<in> set live" for a
    using assms that usage.exhaust by (auto simp: track_inv_def)
  have "(\<Sum>u \<leftarrow> [UUndefined, UStack, UCreate, UVector, UList, UStl]. of_nat (length (live_of u live))) =
      (of_nat (length live) :: 64 word)"
    using us by (induction live) (auto simp: live_of_def)
  then show "numAllocations st = of_nat (length live)"
    using assms by (simp add: track_inv_def numAllocations_def foldl_stats usage_of_def)
  have "(\<Sum>u \<leftarrow> [UUndefined, UStack, UCreate, UVector, UList, UStl]. sum_list (live_sizes (live_of u live))) =
      sum_list (live_sizes live)"
    using us by (induction live) (auto simp: live_of_def live_sizes_def)
  then show "bytesAllocated st = sum_list (live_sizes live)"
    using assms by (simp add: track_inv_def bytesAllocated_def foldl_stats usage_of_def)
qed

text \<open>C31. The statistics of the tracking allocator are exact: after any sequence of allocations and of
  releases of live allocations the count and the bytes of every usage, and their totals, are those of
  the live allocations; and the next release of a live allocation does not trip an
  assertion of \<open>TrackedAllocator::free\<close>: it fails only if the wrapped allocator's \<open>free\<close> does.\<close>

theorem tracked_stats_exact:
  assumes "track_legal pg ops [] (tracked_new h)" "track_run pg ops [] (tracked_new h) = Inr (live, t)"
  shows "(\<forall>u. u \<noteq> UCount \<longrightarrow> tr_stats t ! usage_index u = usage_of u live) \<and>
    numAllocations (tr_stats t) = of_nat (length live) \<and>
    bytesAllocated (tr_stats t) = sum_list (live_sizes live) \<and>
    (\<forall>i os. i < length live \<longrightarrow> live_bytes live < 2 ^ 64 \<longrightarrow> length live < 2 ^ 64 \<longrightarrow>
       ok (tracked_free (default_ops pg os) (live ! i) t) = ok (default_free pg os (live ! i) (tr_inner t)))"
proof -
  have "track_inv [] (tr_stats (tracked_new h))"
    by (simp add: track_inv_def tracked_new_eq usage_of_def live_of_def live_sizes_def)
  then have inv: "track_inv live (tr_stats t)" using track_run_inv [OF assms] by simp
  have "ok (tracked_free (default_ops pg os) (live ! i) t) = ok (default_free pg os (live ! i) (tr_inner t))"
    if "i < length live" "live_bytes live < 2 ^ 64" "length live < 2 ^ 64" for i os
    using tracked_free_inv [OF inv that, of "default_ops pg os"]
    by (cases "default_free pg os (live ! i) (tr_inner t)") (auto simp: default_ops_def)
  then show ?thesis using track_inv_nth [OF inv] track_totals [OF inv] by blast
qed

theorem tracked_stats_exact_witness:
  "track_run 4096 [TrAlloc os_example (request_default\<lparr>rq_size := 40, rq_alignment := 1, rq_usage := UList\<rparr>)]
      [] (tracked_new empty_heap) =
    Inr ([\<lparr>al_ptr = 4112, al_request = request_default\<lparr>rq_size := 40, rq_alignment := 1, rq_usage := UList\<rparr>\<rparr>],
      \<lparr>tr_stats = [\<lparr>us_count = 0, us_bytes = 0\<rparr>, \<lparr>us_count = 0, us_bytes = 0\<rparr>, \<lparr>us_count = 0, us_bytes = 0\<rparr>,
         \<lparr>us_count = 0, us_bytes = 0\<rparr>, \<lparr>us_count = 1, us_bytes = 40\<rparr>, \<lparr>us_count = 0, us_bytes = 0\<rparr>],
       tr_inner = empty_heap\<lparr>hp_blocks := [(4112, 40)]\<rparr>\<rparr>) \<and>
   numAllocations [\<lparr>us_count = 0, us_bytes = 0\<rparr>, \<lparr>us_count = 0, us_bytes = 0\<rparr>, \<lparr>us_count = 0, us_bytes = 0\<rparr>,
         \<lparr>us_count = 0, us_bytes = 0\<rparr>, \<lparr>us_count = 1, us_bytes = 40\<rparr>, \<lparr>us_count = 0, us_bytes = 0\<rparr>] = 1"
proof -
  let ?ops = "[TrAlloc os_example (request_default\<lparr>rq_size := 40, rq_alignment := 1, rq_usage := UList\<rparr>)]"
  let ?st = "[\<lparr>us_count = 0, us_bytes = 0\<rparr>, \<lparr>us_count = 0, us_bytes = 0\<rparr>, \<lparr>us_count = 0, us_bytes = 0\<rparr>,
         \<lparr>us_count = 0, us_bytes = 0\<rparr>, \<lparr>us_count = 1, us_bytes = 40\<rparr>, \<lparr>us_count = 0, us_bytes = (0 :: 64 word)\<rparr>]"
  let ?live = "[\<lparr>al_ptr = 4112, al_request = request_default\<lparr>rq_size := 40, rq_alignment := 1, rq_usage := UList\<rparr>\<rparr>]"
  let ?t = "\<lparr>tr_stats = ?st, tr_inner = empty_heap\<lparr>hp_blocks := [(4112, 40)]\<rparr>\<rparr>"
  have run: "track_run 4096 ?ops [] (tracked_new empty_heap) = Inr (?live, ?t)"
    by (simp add: tracked_allocate_def default_ops_def default_allocate_def c_malloc_def os_example_def
        request_default_def tracked_new_eq empty_heap_def Let_def)
  have "track_legal 4096 ?ops [] (tracked_new empty_heap)" by (simp split: sum.split prod.split)
  from tracked_stats_exact [OF this run] run show ?thesis by simp
qed

section \<open>Smart pointers and the STL interface\<close>

lemma aligned_eq_base:
  fixes b p a :: nat
  assumes "p mod a = 0" "b \<le> p" "p < b + a"
  shows "p = b \<longleftrightarrow> b mod a = 0"
proof
  assume "b mod a = 0"
  then obtain k l where k: "p = a * k" "b = a * l" using assms(1) by (auto simp: mod_eq_0_iff_dvd dvd_def)
  have "0 < a" using assms(2,3) by linarith
  moreover have "a * l \<le> a * k" "a * k < a * (l + 1)" using assms k by simp_all
  ultimately have "l \<le> k \<and> k < l + 1" unfolding mult_le_cancel1 mult_less_cancel1 by blast
  then show "p = b" using k by simp
qed (use assms(1) in simp)

lemma inside_not_base:
  assumes "malloc_ok h n b" "unat b < unat p" "unat p < unat b + unat n"
  shows "p \<notin> fst ` set (hp_blocks h)"
  using assms by (fastforce simp: malloc_ok_def)

text \<open>C32. What a \<open>unique_ptr\<close> made by the default allocator for an array of \<open>n\<close> objects of a type with an alignment
  above 1 does when it is destroyed: \<open>Deleter\<close> hands the aligned address to \<open>::free\<close> instead of the
  base of the block, so that the release is valid exactly if \<open>malloc\<close> returned an address that was aligned
  already, and it destroys only the first of the \<open>n\<close> objects.\<close>

theorem deleter_frees_unaligned:
  assumes "1 < al" "n \<noteq> 0" "unat (sz * n) + unat al + 8 < 2 ^ 64"
    and "malloc_ok h (sz * n + al + 8) (os_malloc os)"
  shows "\<exists>u cs h1. make_unique_n (default_ops pg os) sz al n h = Inr (u, cs, h1) \<and> length cs = unat n \<and>
    (ok (unique_ptr_reset (default_ops pg os') sz u h1) \<longleftrightarrow> unat (os_malloc os) mod unat al = 0) \<and>
    (\<forall>ds h2. unique_ptr_reset (default_ops pg os') sz u h1 = Inr (ds, h2) \<longrightarrow> ds = [hd cs])"
proof -
  let ?b = "os_malloc os" and ?r = "create_request (sz * n) al"
  obtain p h1 where p: "alignedMalloc os al (sz * n) h = Inr (p, h1)" "unat p mod unat al = 0"
    "unat ?b \<le> unat p" "unat p < unat ?b + unat al" "hp_blocks h1 = (?b, sz * n + al + 8) # hp_blocks h"
    by (rule alignedMalloc_spec [OF assms(1,3,4)])
  have b: "?b \<noteq> 0" "0 < unat ?b" using assms(4) by (simp_all add: malloc_ok_def unat_gt_0)
  then have "p \<noteq> 0" using p(3) by auto
  then have "default_allocate pg os ?r h = Inr (\<lparr>al_ptr = p, al_request = ?r\<rparr>, h1)"
    using assms(1) p(1,2) by (intro default_allocate_aligned) (simp_all add: create_request_def request_default_def)
  then have mk: "make_unique_n (default_ops pg os) sz al n h =
      Inr (\<lparr>up_ptr = p, up_count = n\<rparr>, map (\<lambda>i. p + of_nat i * sz) [0..<unat n], h1)"
    using assms(2) by (simp add: make_unique_n_def default_ops_def)
  have "0 < unat n" using assms(2) by (simp add: unat_gt_0)
  then have hd: "hd (map (\<lambda>i. p + of_nat i * sz) [0..<unat n]) = p" by (simp add: hd_map)
  have n: "unat (sz * n + al + 8) = unat (sz * n) + unat al + 8"
    using assms(3) by (simp add: unat_word_ariths)
  have "unat ?b < unat p" if "p \<noteq> ?b" using that p(3) by (metis le_neq_implies_less word_unat_eq_iff)
  then have "p \<in> fst ` set (hp_blocks h1) \<longleftrightarrow> p = ?b"
    using p(4,5) n inside_not_base [OF assms(4), of p] by (cases "p = ?b") simp_all
  also have "\<dots> \<longleftrightarrow> unat ?b mod unat al = 0"
    using aligned_eq_base [OF p(2-4)] by (simp add: word_unat_eq_iff)
  finally have "ok (unique_ptr_reset (default_ops pg os') sz \<lparr>up_ptr = p, up_count = n\<rparr> h1) \<longleftrightarrow> unat ?b mod unat al = 0"
    using \<open>p \<noteq> 0\<close>
    by (simp add: unique_ptr_reset_def deleter_call_def default_ops_def default_free_def request_default_def c_free_def)
  moreover have "ds = [p]" if "unique_ptr_reset (default_ops pg os') sz \<lparr>up_ptr = p, up_count = n\<rparr> h1 = Inr (ds, h2)" for ds h2
    using that \<open>p \<noteq> 0\<close> by (auto simp: unique_ptr_reset_def deleter_call_def)
  ultimately show ?thesis using mk hd by auto
qed

theorem deleter_frees_unaligned_witness:
  "\<exists>u cs h1. make_unique_n (default_ops 4096 os_example) 64 64 2 empty_heap = Inr (u, cs, h1) \<and>
     length cs = 2 \<and> \<not> ok (unique_ptr_reset (default_ops 4096 os_example) 64 u h1)"
  using deleter_frees_unaligned [of 64 2 64 empty_heap os_example 4096 os_example]
  by (auto simp: malloc_ok_def empty_heap_def os_example_def)

text \<open>The STL interface never asks for too few bytes: up to \<open>max_size\<close> objects the size of the request is exact,
  and what \<open>allocate\<close> returned \<open>deallocate\<close> hands back as the allocation that the allocator made, so
  that with the default allocator the live blocks are those before.\<close>

theorem stl_roundtrip:
  assumes "1 < al" "sz \<noteq> 0" "n \<le> stl_max_size sz" "unat sz * unat n + unat al + 8 < 2 ^ 64"
    and "malloc_ok h (sz * n + al + 8) (os_malloc os)"
  shows "unat (rq_size (stl_request sz al n)) = unat sz * unat n \<and>
    (\<exists>p h1 h2. stl_allocate (default_ops pg os) sz al n h = Inr (p, h1) \<and>
      stl_deallocate (default_ops pg os') sz al p n h1 = Inr h2 \<and> hp_blocks h2 = hp_blocks h)"
proof -
  have "unat n \<le> (2 ^ 64 - 1) div unat sz"
    using assms(3) by (simp add: stl_max_size_def word_le_nat_alt unat_div unsigned_minus_1_eq_mask mask_eq_exp_minus_1)
  then have "unat n * unat sz \<le> 2 ^ 64 - 1"
    by (meson div_times_less_eq_dividend le_trans mult_le_mono1)
  then have exact: "unat (sz * n) = unat sz * unat n"
    by (intro unat_mult_less) (simp add: mult.commute)
  let ?b = "os_malloc os" and ?r = "stl_request sz al n"
  have r: "\<not> rq_use_guards ?r" "rq_alignment ?r = al" "rq_size ?r = sz * n"
    by (simp_all add: stl_request_def request_default_def)
  have room: "unat (sz * n) + unat al + 8 < 2 ^ 64" using assms(4) exact by simp
  obtain p h1 where p: "alignedMalloc os al (sz * n) h = Inr (p, h1)" "unat p mod unat al = 0"
    "unat ?b \<le> unat p" "hp_blocks h1 = (?b, sz * n + al + 8) # hp_blocks h"
    "store_ptr (p + sz * n) ?b (h\<lparr>hp_blocks := (?b, sz * n + al + 8) # hp_blocks h\<rparr>) = Inr h1"
    by (rule alignedMalloc_spec [OF assms(1) room assms(5)])
  have b: "?b \<noteq> 0" "0 < unat ?b" using assms(5) by (simp_all add: malloc_ok_def unat_gt_0)
  then have "p \<noteq> 0" using p(3) by auto
  then have "default_allocate pg os ?r h = Inr (\<lparr>al_ptr = p, al_request = ?r\<rparr>, h1)"
    using default_allocate_aligned [of ?r os h p h1 pg] assms(1) p(1,2) r by simp
  then have al: "stl_allocate (default_ops pg os) sz al n h = Inr (p, h1)"
    by (simp add: stl_allocate_def default_ops_def)
  have "load_ptr (p + sz * n) h1 = Inr ?b" by (rule load_store_ptr [OF p(5)]) simp_all
  then have "stl_deallocate (default_ops pg os') sz al p n h1 =
      Inr (h1\<lparr>hp_blocks := hp_blocks h\<rparr>)"
    using assms(1) r b(1) p(4) filter_fresh [OF assms(5)]
    by (simp add: stl_deallocate_def default_ops_def default_free_def alignedFree_def c_free_def)
  with al exact r(3) show ?thesis by auto
qed

theorem stl_roundtrip_witness:
  "unat (rq_size (stl_request 24 8 5)) = 120 \<and>
   (\<exists>p h1 h2. stl_allocate (default_ops 4096 os_example) 24 8 5 empty_heap = Inr (p, h1) \<and>
      stl_deallocate (default_ops 4096 os_example) 24 8 p 5 h1 = Inr h2 \<and> hp_blocks h2 = [])"
  using stl_roundtrip [of 8 24 5 empty_heap os_example 4096 os_example]
  by (simp add: malloc_ok_def empty_heap_def os_example_def stl_max_size_def)

end
