(* ===== verification/Vector_Model.thy ===== *)
theory Vector_Model
  imports Marl_Prelude
begin

text \<open>
  \<open>marl::containers::vector\<close> (\<open>containers.hpp\<close>): a vector with inline storage for its first elements that
  moves to storage from an allocator when it grows.

  A storage is a list of cells; a cell holds an object or nothing. Constructing writes a cell,
  destroying empties it; destroying or reading an empty cell, an access outside of the storage and any access
  through the null \<open>elements_\<close> are faults. A moved-from object still has to be destroyed and keeps its
  place in its cell. These are the rules of the language for the lifetime of objects, and they are applied to every element type: also to one whose
  destructor does nothing, or leaves the bytes of the object as they were, so that a program that breaks the rules may show no sign of it. The sizes are of type \<open>size_t\<close>; the two computations that can wrap,
  \<open>n * 2\<close> and \<open>sizeof(T) * capacity_\<close> in \<open>reserve\<close>, are written with \<open>mod 2 ^ 64\<close>. The storage that the allocator
  returns has as many cells as fit into the requested bytes; the allocators themselves are in
  \<open>Memory_Model\<close>. The inline capacity \<open>BASE_CAPACITY\<close> and \<open>sizeof(T)\<close> are arguments.

  The locale \<open>sequence\<close> is what the users of the vector (\<open>dag.hpp\<close>, \<open>thread.hpp\<close>, \<open>event.hpp\<close>) rely on and what
  lets their models use lists.
\<close>

section \<open>State\<close>

datatype elements = EBuffer | EHeap | ENull

record 'a vec =
  v_count :: nat
  v_capacity :: nat
  v_buffer :: "'a option list"
  v_elements :: elements
  v_alloc :: "'a option list option"   \<comment> \<open>\<open>allocation_\<close>: \<open>None\<close> while its pointer is null\<close>

definition vec_new :: "nat \<Rightarrow> 'a vec" where
  "vec_new base = \<lparr>v_count = 0, v_capacity = base, v_buffer = replicate base None,
     v_elements = EBuffer, v_alloc = None\<rparr>"

definition vec_cells :: "'a vec \<Rightarrow> 'a option list result" where
  "vec_cells v =
     (case v_elements v of
        EBuffer \<Rightarrow> Inr (v_buffer v)
      | EHeap \<Rightarrow> (case v_alloc v of Some cs \<Rightarrow> Inr cs | None \<Rightarrow> Inl BadAccess)
      | ENull \<Rightarrow> Inl BadAccess)"

definition vec_set_cells :: "'a option list \<Rightarrow> 'a vec \<Rightarrow> 'a vec" where
  "vec_set_cells cs v =
     (case v_elements v of
        EBuffer \<Rightarrow> v\<lparr>v_buffer := cs\<rparr>
      | EHeap \<Rightarrow> v\<lparr>v_alloc := Some cs\<rparr>
      | ENull \<Rightarrow> v)"

text \<open>\<open>new (&elements_[i]) T(x)\<close>, \<open>elements_[i].~T()\<close> and reading \<open>elements_[i]\<close>, on cells.\<close>

definition cell_put :: "nat \<Rightarrow> 'a \<Rightarrow> 'a option list \<Rightarrow> 'a option list result" where
  "cell_put i x cs = (if i < length cs then Inr (cs[i := Some x]) else Inl OutOfBounds)"

definition cell_destroy :: "nat \<Rightarrow> 'a option list \<Rightarrow> 'a option list result" where
  "cell_destroy i cs =
     (if i < length cs then (case cs ! i of Some x \<Rightarrow> Inr (cs[i := None]) | None \<Rightarrow> Inl BadAccess)
      else Inl OutOfBounds)"

definition cell_get :: "nat \<Rightarrow> 'a option list \<Rightarrow> 'a result" where
  "cell_get i cs =
     (if i < length cs then (case cs ! i of Some x \<Rightarrow> Inr x | None \<Rightarrow> Inl BadAccess)
      else Inl OutOfBounds)"

definition vec_put :: "nat \<Rightarrow> 'a \<Rightarrow> 'a vec \<Rightarrow> 'a vec result" where
  "vec_put i x v = rbind (vec_cells v) (\<lambda>cs. rbind (cell_put i x cs) (\<lambda>cs'. Inr (vec_set_cells cs' v)))"

definition vec_destroy :: "nat \<Rightarrow> 'a vec \<Rightarrow> 'a vec result" where
  "vec_destroy i v = rbind (vec_cells v) (\<lambda>cs. rbind (cell_destroy i cs) (\<lambda>cs'. Inr (vec_set_cells cs' v)))"

definition vec_get :: "nat \<Rightarrow> 'a vec \<Rightarrow> 'a result" where
  "vec_get i v = rbind (vec_cells v) (\<lambda>cs. cell_get i cs)"

section \<open>Operations\<close>

text \<open>The loops over the elements, from \<open>i\<close> on.\<close>

fun destroy_loop :: "nat list \<Rightarrow> 'a vec \<Rightarrow> 'a vec result" where
  "destroy_loop [] v = Inr v"
| "destroy_loop (i # is) v = rbind (vec_destroy i v) (destroy_loop is)"

definition vec_free :: "'a vec \<Rightarrow> 'a vec result" where
  "vec_free v =
     rbind (destroy_loop [0..<v_count v] v) (\<lambda>v1.
     case v_alloc v1 of
       None \<Rightarrow> Inr v1
     | Some cs \<Rightarrow> Inr (v1\<lparr>v_alloc := None, v_elements := ENull\<rparr>))"

fun move_loop :: "nat list \<Rightarrow> 'a vec \<Rightarrow> 'a option list \<Rightarrow> 'a option list result" where
  "move_loop [] v grown = Inr grown"
| "move_loop (i # is) v grown =
     rbind (vec_get i v) (\<lambda>x. rbind (cell_put i x grown) (move_loop is v))"

definition vec_reserve :: "nat \<Rightarrow> nat \<Rightarrow> 'a vec \<Rightarrow> 'a vec result" where
  "vec_reserve sz n v =
     (if v_capacity v < n
      then let v1 = v\<lparr>v_capacity := max ((n * 2) mod 2 ^ 64) 8\<rparr>;
               grown0 = replicate ((sz * v_capacity v1) mod 2 ^ 64 div sz) None
           in rbind (move_loop [0..<v_count v1] v1 grown0) (\<lambda>grown.
              rbind (vec_free v1) (\<lambda>v2.
              Inr (v2\<lparr>v_elements := EHeap, v_alloc := Some grown\<rparr>)))
      else Inr v)"

definition vec_push_back :: "nat \<Rightarrow> 'a \<Rightarrow> 'a vec \<Rightarrow> 'a vec result" where
  "vec_push_back sz x v =
     rbind (vec_reserve sz (v_count v + 1) v) (\<lambda>v1.
     rbind (vec_put (v_count v1) x v1) (\<lambda>v2.
     Inr (v2\<lparr>v_count := v_count v2 + 1\<rparr>)))"

definition vec_pop_back :: "'a vec \<Rightarrow> 'a vec result" where
  "vec_pop_back v =
     rbind (marl_assert (0 < v_count v) ''pop_back() called on empty vector'') (\<lambda>_.
     let v1 = v\<lparr>v_count := v_count v - 1\<rparr> in vec_destroy (v_count v1) v1)"

definition vec_front :: "'a vec \<Rightarrow> 'a result" where
  "vec_front v =
     rbind (marl_assert (0 < v_count v) ''front() called on empty vector'') (\<lambda>_. vec_get 0 v)"

definition vec_back :: "'a vec \<Rightarrow> 'a result" where
  "vec_back v =
     rbind (marl_assert (0 < v_count v) ''back() called on empty vector'') (\<lambda>_. vec_get (v_count v - 1) v)"

definition vec_index :: "nat \<Rightarrow> 'a vec \<Rightarrow> 'a result" where
  "vec_index i v =
     rbind (marl_assert (i < v_count v) ''index exceeds vector size'') (\<lambda>_. vec_get i v)"

text \<open>Assignment through the reference that \<open>operator[]\<close> returns.\<close>

definition vec_index_set :: "nat \<Rightarrow> 'a \<Rightarrow> 'a vec \<Rightarrow> 'a vec result" where
  "vec_index_set i x v =
     rbind (marl_assert (i < v_count v) ''index exceeds vector size'') (\<lambda>_. vec_put i x v)"

function resize_grow :: "nat \<Rightarrow> 'a \<Rightarrow> 'a vec \<Rightarrow> 'a vec result" where
  "resize_grow n dflt v =
     (if v_count v < n
      then rbind (vec_put (v_count v) dflt v) (\<lambda>v1. resize_grow n dflt (v1\<lparr>v_count := v_count v + 1\<rparr>))
      else Inr v)"
  by pat_completeness auto
termination by (relation "measure (\<lambda>(n, x, v). n - v_count v)") auto

function resize_shrink :: "nat \<Rightarrow> 'a vec \<Rightarrow> 'a vec result" where
  "resize_shrink n v =
     (if n < v_count v
      then rbind (vec_destroy (v_count v - 1) v) (\<lambda>v1. resize_shrink n (v1\<lparr>v_count := v_count v - 1\<rparr>))
      else Inr v)"
  by pat_completeness auto
termination by (relation "measure (\<lambda>(n, v). v_count v - n)") auto

definition vec_resize :: "nat \<Rightarrow> nat \<Rightarrow> 'a \<Rightarrow> 'a vec \<Rightarrow> 'a vec result" where
  "vec_resize sz n dflt v =
     rbind (vec_reserve sz n v) (\<lambda>v1. rbind (resize_grow n dflt v1) (resize_shrink n))"

fun copy_loop :: "nat list \<Rightarrow> 'a vec \<Rightarrow> 'a vec \<Rightarrow> 'a vec result" where
  "copy_loop [] other v = Inr v"
| "copy_loop (i # is) other v =
     rbind (vec_index i other) (\<lambda>x. rbind (vec_put i x v) (copy_loop is other))"

definition vec_assign :: "nat \<Rightarrow> 'a vec \<Rightarrow> 'a vec \<Rightarrow> 'a vec result" where
  "vec_assign sz other v =
     rbind (vec_free v) (\<lambda>v1.
     rbind (vec_reserve sz (v_count other) v1) (\<lambda>v2.
     let v3 = v2\<lparr>v_count := v_count other\<rparr> in copy_loop [0..<v_count v3] other v3))"

text \<open>The same operator applied to the vector itself: \<open>other\<close> is \<open>*this\<close>, read while it is written.\<close>

fun self_copy_loop :: "nat list \<Rightarrow> 'a vec \<Rightarrow> 'a vec result" where
  "self_copy_loop [] v = Inr v"
| "self_copy_loop (i # is) v =
     rbind (vec_index i v) (\<lambda>x. rbind (vec_put i x v) (self_copy_loop is))"

definition vec_self_assign :: "nat \<Rightarrow> 'a vec \<Rightarrow> 'a vec result" where
  "vec_self_assign sz v =
     rbind (vec_free v) (\<lambda>v1.
     rbind (vec_reserve sz (v_count v1) v1) (\<lambda>v2.
     let v3 = v2\<lparr>v_count := v_count v2\<rparr> in self_copy_loop [0..<v_count v3] v3))"

text \<open>Move assignment: the new state and the state of the source.\<close>

definition vec_move_assign :: "nat \<Rightarrow> 'a \<Rightarrow> 'a vec \<Rightarrow> 'a vec \<Rightarrow> ('a vec \<times> 'a vec) result" where
  "vec_move_assign sz dflt other v =
     rbind (vec_assign sz other v) (\<lambda>v1. rbind (vec_resize sz 0 dflt other) (\<lambda>other'. Inr (v1, other')))"

definition vec_copy :: "nat \<Rightarrow> nat \<Rightarrow> 'a vec \<Rightarrow> 'a vec result" where
  "vec_copy base sz other = vec_assign sz other (vec_new base)"

definition vec_move :: "nat \<Rightarrow> nat \<Rightarrow> 'a \<Rightarrow> 'a vec \<Rightarrow> ('a vec \<times> 'a vec) result" where
  "vec_move base sz dflt other = vec_move_assign sz dflt other (vec_new base)"

text \<open>The loop \<open>for (x : v)\<close> reads the cells from \<open>begin()\<close> to \<open>end()\<close>.\<close>

fun read_loop :: "nat list \<Rightarrow> 'a vec \<Rightarrow> 'a list result" where
  "read_loop [] v = Inr []"
| "read_loop (i # is) v = rbind (vec_get i v) (\<lambda>x. rbind (read_loop is v) (\<lambda>xs. Inr (x # xs)))"

definition vec_elements :: "'a vec \<Rightarrow> 'a list result" where
  "vec_elements v = read_loop [0..<v_count v] v"

section \<open>The contract of a sequence\<close>

locale sequence =
  fixes inv :: "'v \<Rightarrow> bool"
    and abs :: "'v \<Rightarrow> 'a list"
    and empty :: 'v
    and push :: "'a \<Rightarrow> 'v \<Rightarrow> 'v result"
    and pop :: "'v \<Rightarrow> 'v result"
    and index :: "nat \<Rightarrow> 'v \<Rightarrow> 'a result"
    and update :: "nat \<Rightarrow> 'a \<Rightarrow> 'v \<Rightarrow> 'v result"
    and bound :: nat
  assumes inv_empty: "inv empty" and abs_empty: "abs empty = []"
    and push_law: "inv v \<Longrightarrow> length (abs v) < bound \<Longrightarrow> \<exists>v'. push x v = Inr v' \<and> inv v' \<and> abs v' = abs v @ [x]"
    and pop_law: "inv v \<Longrightarrow> abs v \<noteq> [] \<Longrightarrow> \<exists>v'. pop v = Inr v' \<and> inv v' \<and> abs v' = butlast (abs v)"
    and index_law: "inv v \<Longrightarrow> i < length (abs v) \<Longrightarrow> index i v = Inr (abs v ! i)"
    and update_law: "inv v \<Longrightarrow> i < length (abs v) \<Longrightarrow>
      \<exists>v'. update i x v = Inr v' \<and> inv v' \<and> abs v' = (abs v)[i := x]"
begin

text \<open>The clients' use: a vector is filled by pushes, read by index, and shrunk by swapping the last element
  into a hole.\<close>

primrec push_all :: "'a list \<Rightarrow> 'v \<Rightarrow> 'v result" where
  "push_all [] v = Inr v"
| "push_all (x # xs) v = rbind (push x v) (push_all xs)"

lemma push_all_abs:
  "inv v \<Longrightarrow> length (abs v) + length xs \<le> bound \<Longrightarrow>
   \<exists>v'. push_all xs v = Inr v' \<and> inv v' \<and> abs v' = abs v @ xs"
proof (induction xs arbitrary: v)
  case Nil
  then show ?case by simp
next
  case (Cons x xs)
  then obtain u where "push x v = Inr u" "inv u" "abs u = abs v @ [x]"
    using push_law [of v x] by auto
  with Cons.IH [of u] Cons.prems(2) show ?case by simp
qed

lemma push_index:
  assumes "length xs \<le> bound"
  shows "\<exists>v. push_all xs empty = Inr v \<and> inv v \<and> (\<forall>i < length xs. index i v = Inr (xs ! i))"
  using push_all_abs [OF inv_empty, of xs] assms index_law by (auto simp: abs_empty)

definition swap_remove :: "nat \<Rightarrow> 'v \<Rightarrow> 'v result" where
  "swap_remove i v =
     rbind (index (length (abs v) - 1) v) (\<lambda>x. rbind (update i x v) pop)"

lemma swap_remove_abs:
  assumes "inv v" "i < length (abs v)"
  shows "\<exists>v'. swap_remove i v = Inr v' \<and> inv v' \<and>
    add_mset (abs v ! i) (mset (abs v')) = mset (abs v)"
proof -
  obtain u where u: "update i (abs v ! (length (abs v) - 1)) v = Inr u" "inv u"
    "abs u = (abs v)[i := last (abs v)]"
    using update_law [OF assms] assms(2) by (metis last_conv_nth length_0_conv not_less0)
  have ne: "abs u \<noteq> []" using u(3) assms(2) by auto
  then obtain w where w: "pop u = Inr w" "inv w" "abs w = butlast (abs u)"
    using pop_law [OF u(2)] by blast
  have "abs v \<noteq> []" using assms(2) by auto
  then have l: "last (abs u) = last (abs v)" using u(3) by (simp add: last_list_update)
  have "mset (abs w) + {#last (abs v)#} = mset (abs u)"
    using ne w(3) l by (metis append_butlast_last_id mset.simps(1,2) mset_append)
  moreover have "add_mset (abs v ! i) (mset (abs u)) = add_mset (last (abs v)) (mset (abs v))"
    using assms(2) u(3) by (simp add: mset_update)
  ultimately have "add_mset (last (abs v)) (add_mset (abs v ! i) (mset (abs w))) =
      add_mset (last (abs v)) (mset (abs v))" by (metis add_mset_add_single add_mset_commute)
  then have "add_mset (abs v ! i) (mset (abs w)) = mset (abs v)" by (simp only: add_mset_add_mset_same_iff)
  moreover have "swap_remove i v = Inr w"
    using u(1) w(1) index_law [OF assms(1), of "length (abs v) - 1"] assms(2) by (simp add: swap_remove_def)
  ultimately show ?thesis using w(2) by blast
qed

end

end
