(* ===== verification/Vector_Proofs.thy ===== *)
theory Vector_Proofs
  imports Vector_Model
begin

text \<open>
  The vector against lists: \<open>vec_rel v xs\<close> says that \<open>v\<close> is well-formed and holds \<open>xs\<close>. Every operation keeps
  it, and the vector is an interpretation of \<open>sequence\<close>. The assignment operators do so only for
  some targets; the last section proves for which.
\<close>

section \<open>Representation\<close>

definition cells_of :: "'a list \<Rightarrow> nat \<Rightarrow> 'a option list" where
  "cells_of xs k = map Some xs @ replicate k None"

definition vec_rel :: "'a vec \<Rightarrow> 'a list \<Rightarrow> bool" where
  "vec_rel v xs \<longleftrightarrow> v_count v = length xs \<and> length xs \<le> v_capacity v \<and>
     vec_cells v = Inr (cells_of xs (v_capacity v - length xs)) \<and>
     (v_alloc v = None \<longleftrightarrow> v_elements v = EBuffer)"

definition vec_wf :: "'a vec \<Rightarrow> bool" where
  "vec_wf v \<longleftrightarrow> (\<exists>xs. vec_rel v xs)"

definition vec_abs :: "'a vec \<Rightarrow> 'a list" where
  "vec_abs v = (case vec_cells v of Inl e \<Rightarrow> [] | Inr cs \<Rightarrow> map the (take (v_count v) cs))"

lemma length_cells_of [simp]: "length (cells_of xs k) = length xs + k"
  by (simp add: cells_of_def)

lemma vec_rel_abs: "vec_rel v xs \<Longrightarrow> vec_abs v = xs"
  by (simp add: vec_rel_def vec_abs_def cells_of_def comp_def)

lemma vec_wf_rel: "vec_wf v \<longleftrightarrow> vec_rel v (vec_abs v)"
  using vec_rel_abs by (auto simp: vec_wf_def)

lemma vec_relD:
  assumes "vec_rel v xs"
  shows "v_count v = length xs" "length xs \<le> v_capacity v"
    "vec_cells v = Inr (cells_of xs (v_capacity v - length xs))"
    "v_alloc v = None \<longleftrightarrow> v_elements v = EBuffer"
  using assms by (simp_all add: vec_rel_def)

lemma vec_new_rel: "vec_rel (vec_new base) []"
  by (simp add: vec_rel_def vec_new_def vec_cells_def cells_of_def)

section \<open>Cells\<close>

lemma vec_set_cells_simps [simp]:
  "v_count (vec_set_cells cs v) = v_count v" "v_capacity (vec_set_cells cs v) = v_capacity v"
  "v_elements (vec_set_cells cs v) = v_elements v"
  by (simp_all add: vec_set_cells_def split: elements.split)

lemma vec_cells_set:
  "vec_cells v = Inr cs \<Longrightarrow> vec_cells (vec_set_cells cs' v) = Inr cs'"
  by (auto simp: vec_cells_def vec_set_cells_def split: elements.splits option.splits)

lemma vec_alloc_set:
  "vec_cells v = Inr cs \<Longrightarrow> v_alloc (vec_set_cells cs' v) = None \<longleftrightarrow> v_alloc v = None"
  by (auto simp: vec_cells_def vec_set_cells_def split: elements.splits option.splits)

lemma vec_cells_count [simp]:
  "vec_cells (v\<lparr>v_count := n\<rparr>) = vec_cells v" "vec_cells (v\<lparr>v_capacity := n\<rparr>) = vec_cells v"
  by (simp_all add: vec_cells_def split: elements.split option.split)

lemma vec_set_set: "vec_set_cells cs (vec_set_cells cs' v) = vec_set_cells cs v"
  by (cases v; cases "v_elements v") (simp_all add: vec_set_cells_def)

lemma cells_of_put: "0 < k \<Longrightarrow> cell_put (length xs) x (cells_of xs k) = Inr (cells_of (xs @ [x]) (k - 1))"
  by (cases k) (simp_all add: cell_put_def cells_of_def list_update_append)

lemma cells_of_update: "i < length xs \<Longrightarrow> cell_put i x (cells_of xs k) = Inr (cells_of (xs[i := x]) k)"
  by (simp add: cell_put_def cells_of_def list_update_append map_update)

lemma cells_of_get: "i < length xs \<Longrightarrow> cell_get i (cells_of xs k) = Inr (xs ! i)"
  by (simp add: cell_get_def cells_of_def nth_append)

lemma cells_of_destroy_last:
  "cell_destroy (length xs) (cells_of (xs @ [x]) k) = Inr (cells_of xs (Suc k))"
  by (simp add: cell_destroy_def cells_of_def nth_append list_update_append)

lemma get_rel: "vec_rel v xs \<Longrightarrow> i < length xs \<Longrightarrow> vec_get i v = Inr (xs ! i)"
  by (simp add: vec_get_def vec_relD(3) cells_of_get)

lemma put_rel:
  assumes "vec_rel v xs" "i < length xs"
  shows "\<exists>v'. vec_put i x v = Inr v' \<and> vec_rel v' (xs[i := x])"
  using assms vec_cells_set [OF vec_relD(3) [OF assms(1)]] vec_alloc_set [OF vec_relD(3) [OF assms(1)]]
  by (simp add: vec_put_def vec_relD(3) [OF assms(1)] cells_of_update) (simp add: vec_rel_def)

text \<open>Constructing an element behind the last one.\<close>

lemma put_end_rel:
  assumes "vec_rel v xs" "length xs < v_capacity v"
  shows "\<exists>v'. vec_put (length xs) x v = Inr v' \<and> v_count v' = v_count v \<and> v_capacity v' = v_capacity v \<and>
    vec_rel (v'\<lparr>v_count := Suc (length xs)\<rparr>) (xs @ [x])"
  using assms vec_cells_set [OF vec_relD(3) [OF assms(1)]] vec_alloc_set [OF vec_relD(3) [OF assms(1)]]
  by (simp add: vec_put_def vec_relD(3) [OF assms(1)] cells_of_put) (simp add: vec_rel_def)

lemma destroy_end_rel:
  assumes "vec_rel v (xs @ [x])"
  shows "\<exists>v'. vec_destroy (length xs) v = Inr v' \<and> v_count v' = v_count v \<and> v_capacity v' = v_capacity v \<and>
    vec_rel (v'\<lparr>v_count := length xs\<rparr>) xs"
proof -
  note r = vec_relD [OF assms]
  have "cell_destroy (length xs) (cells_of (xs @ [x]) (v_capacity v - length (xs @ [x]))) =
      Inr (cells_of xs (v_capacity v - length xs))"
    using r(2) by (simp add: cells_of_destroy_last Suc_diff_Suc)
  then show ?thesis
    using r vec_cells_set [OF r(3)] vec_alloc_set [OF r(3)]
    by (simp add: vec_destroy_def) (simp add: vec_rel_def)
qed

section \<open>Loops\<close>

lemma destroy_loop_cells:
  assumes "vec_cells v = Inr (replicate i None @ cells_of ys k)"
  shows "destroy_loop [i..<i + length ys] v = Inr (vec_set_cells (replicate (i + length ys + k) None) v) \<or>
    (ys = [] \<and> destroy_loop [i..<i + length ys] v = Inr v)"
  using assms
proof (induction ys arbitrary: i v)
  case Nil
  then show ?case by simp
next
  case (Cons y ys)
  let ?cs = "replicate (Suc i) None @ cells_of ys k"
  have "(replicate i None @ cells_of (y # ys) k)[i := None] = ?cs"
    by (simp add: cells_of_def list_update_append replicate_append_same)
  then have d: "vec_destroy i v = Inr (vec_set_cells ?cs v)"
    using Cons.prems by (simp add: vec_destroy_def cell_destroy_def cells_of_def nth_append)
  have "vec_cells (vec_set_cells ?cs v) = Inr ?cs" by (rule vec_cells_set [OF Cons.prems])
  from Cons.IH [OF this] have "destroy_loop [Suc i..<Suc i + length ys] (vec_set_cells ?cs v) =
      Inr (vec_set_cells (replicate (i + length (y # ys) + k) None) v)"
    by (auto simp: vec_set_set cells_of_def replicate_add)
  moreover have "[i..<i + length (y # ys)] = i # [Suc i..<Suc i + length ys]" using upt_conv_Cons [of i "i + length (y # ys)"] by (simp del: upt_Suc)
  ultimately show ?case using d by simp
qed

lemma destroy_all:
  assumes "vec_rel v xs"
  shows "destroy_loop [0..<length xs] v = Inr (vec_set_cells (replicate (v_capacity v) None) v)"
proof (cases "xs = []")
  case True
  have "vec_set_cells (replicate (v_capacity v) None) v = v"
    using vec_relD(3) [OF assms] True
    by (cases v) (auto simp: vec_cells_def vec_set_cells_def cells_of_def split: elements.splits option.splits)
  with True show ?thesis by simp
next
  case False
  with destroy_loop_cells [of v 0 xs "v_capacity v - length xs"] vec_relD [OF assms] show ?thesis by simp
qed

text \<open>\<open>free\<close> on a well-formed vector.\<close>

lemma vec_free_rel:
  assumes "vec_rel v xs"
  shows "vec_free v = Inr (if v_alloc v = None
    then v\<lparr>v_buffer := replicate (v_capacity v) None\<rparr> else v\<lparr>v_alloc := None, v_elements := ENull\<rparr>)"
  using assms destroy_all [OF assms] vec_relD [OF assms]
  by (cases v) (auto simp: vec_free_def vec_set_cells_def vec_cells_def split: elements.splits option.splits)

lemma move_loop_cells:
  assumes "vec_rel v xs" "i \<le> length xs" "length xs \<le> m"
  shows "move_loop [i..<length xs] v (cells_of (take i xs) (m - i)) = Inr (cells_of xs (m - length xs))"
  using assms(2)
proof (induction "length xs - i" arbitrary: i)
  case 0
  then show ?case by simp
next
  case (Suc n)
  then have i: "i < length xs" by simp
  have "cell_put (length (take i xs)) (xs ! i) (cells_of (take i xs) (m - i)) =
      Inr (cells_of (take i xs @ [xs ! i]) (m - i - 1))"
    using i assms(3) by (intro cells_of_put) simp
  then have "cell_put i (xs ! i) (cells_of (take i xs) (m - i)) = Inr (cells_of (take (Suc i) xs) (m - Suc i))"
    using i by (simp add: take_Suc_conv_app_nth min_def)
  with Suc.hyps(1) [of "Suc i"] Suc.hyps(2) i show ?case
    by (simp add: upt_conv_Cons get_rel [OF assms(1)])
qed

section \<open>Growth\<close>

lemma move_loop_capacity: "move_loop is (v\<lparr>v_capacity := c\<rparr>) g = move_loop is v g"
  by (induction "is" arbitrary: g) (auto simp: rbind_def vec_get_def split: sum.split)

lemma vec_destroy_capacity:
  "vec_destroy i (v\<lparr>v_capacity := c\<rparr>) = rbind (vec_destroy i v) (\<lambda>u. Inr (u\<lparr>v_capacity := c\<rparr>))"
  by (auto simp: vec_destroy_def rbind_def vec_set_cells_def split: sum.split elements.split)

lemma destroy_loop_capacity:
  "destroy_loop is (v\<lparr>v_capacity := c\<rparr>) = rbind (destroy_loop is v) (\<lambda>u. Inr (u\<lparr>v_capacity := c\<rparr>))"
proof (induction "is" arbitrary: v)
  case (Cons i "is")
  then show ?case by (cases "vec_destroy i v") (simp_all add: vec_destroy_capacity)
qed simp

lemma reserve_rel:
  assumes rel: "vec_rel v xs" and room: "0 < sz" "sz * (2 * n + 8) < 2 ^ 64"
  shows "\<exists>v'. vec_reserve sz n v = Inr v' \<and> vec_rel v' xs \<and> n \<le> v_capacity v' \<and> v_capacity v \<le> v_capacity v'"
proof (cases "v_capacity v < n")
  case False
  then show ?thesis using rel by (simp add: vec_reserve_def)
next
  case True
  let ?cap = "max (n * 2) 8"
  have "2 * n + 8 \<le> sz * (2 * n + 8)" using room(1) by (cases sz) auto
  then have m: "n * 2 mod 2 ^ 64 = n * 2" using room(2) by (intro mod_less) linarith
  have "sz * ?cap \<le> sz * (2 * n + 8)" by (intro mult_le_mono2) simp
  then have "(sz * ?cap) mod 2 ^ 64 = sz * ?cap" using room(2) by (intro mod_less) linarith
  then have cells: "(sz * ?cap) mod 2 ^ 64 div sz = ?cap" using room(1) by (simp only: nonzero_mult_div_cancel_left)
  let ?v1 = "v\<lparr>v_capacity := ?cap\<rparr>"
  have len: "length xs \<le> ?cap" using vec_relD(2) [OF rel] True by simp
  have mv: "move_loop [0..<length xs] ?v1 (replicate ?cap None) = Inr (cells_of xs (?cap - length xs))"
    using move_loop_cells [OF rel _ len, of 0] by (simp add: cells_of_def move_loop_capacity)
  have "\<exists>v2. vec_free ?v1 = Inr v2 \<and> v_count v2 = v_count v \<and> v_capacity v2 = ?cap"
    using destroy_all [OF rel] vec_relD(1) [OF rel]
    by (simp add: vec_free_def destroy_loop_capacity split: option.split)
  then obtain v2 where v2: "vec_free ?v1 = Inr v2" "v_count v2 = v_count v" "v_capacity v2 = ?cap" by blast
  then show ?thesis
    using True m cells mv vec_relD(1) [OF rel] len
    by (auto simp: vec_reserve_def Let_def vec_rel_def vec_cells_def)
qed

section \<open>The operations on well-formed vectors\<close>

lemma push_rel:
  assumes "vec_rel v xs" "0 < sz" "sz * (2 * length xs + 10) < 2 ^ 64"
  shows "\<exists>v'. vec_push_back sz x v = Inr v' \<and> vec_rel v' (xs @ [x])"
proof -
  obtain v1 where v1: "vec_reserve sz (length xs + 1) v = Inr v1" "vec_rel v1 xs" "length xs + 1 \<le> v_capacity v1"
    using reserve_rel [OF assms(1,2), of "length xs + 1"] assms(3) by (auto simp: add.commute)
  then obtain v2 where "vec_put (length xs) x v1 = Inr v2" "v_count v2 = length xs"
    "vec_rel (v2\<lparr>v_count := Suc (length xs)\<rparr>) (xs @ [x])"
    using put_end_rel [OF v1(2), of x] vec_relD(1) [OF v1(2)] by auto
  with v1 show ?thesis using vec_relD(1) [OF assms(1)] vec_relD(1) [OF v1(2)] by (simp add: vec_push_back_def)
qed

lemma vec_destroy_count:
  "vec_destroy i (v\<lparr>v_count := n\<rparr>) = rbind (vec_destroy i v) (\<lambda>u. Inr (u\<lparr>v_count := n\<rparr>))"
  by (auto simp: vec_destroy_def rbind_def vec_set_cells_def split: sum.split elements.split)

lemma pop_rel:
  assumes "vec_rel v xs" "xs \<noteq> []"
  shows "\<exists>v'. vec_pop_back v = Inr v' \<and> vec_rel v' (butlast xs)"
proof -
  obtain ys y where xs: "xs = ys @ [y]" using assms(2) by (metis append_butlast_last_id)
  then show ?thesis
    using assms(1) destroy_end_rel [of v ys y] vec_relD(1) [OF assms(1)]
    by (auto simp: vec_pop_back_def Let_def vec_destroy_count)
qed

lemma pop_empty: "vec_rel v [] \<Longrightarrow> vec_pop_back v = Inl (AssertFailed ''pop_back() called on empty vector'')"
  by (simp add: vec_pop_back_def vec_relD(1))

lemma index_rel:
  "vec_rel v xs \<Longrightarrow> vec_index i v =
    (if i < length xs then Inr (xs ! i) else Inl (AssertFailed ''index exceeds vector size''))"
  by (simp add: vec_index_def vec_relD(1) get_rel)

lemma front_back_rel:
  assumes "vec_rel v xs" "xs \<noteq> []"
  shows "vec_front v = Inr (hd xs)" "vec_back v = Inr (last xs)"
  using assms by (simp_all add: vec_front_def vec_back_def vec_relD(1) get_rel hd_conv_nth last_conv_nth)

lemma index_set_rel:
  assumes "vec_rel v xs" "i < length xs"
  shows "\<exists>v'. vec_index_set i x v = Inr v' \<and> vec_rel v' (xs[i := x])"
  using put_rel [OF assms] assms by (simp add: vec_index_set_def vec_relD(1))

lemma read_loop_rel:
  assumes "vec_rel v xs" "i \<le> length xs"
  shows "read_loop [i..<length xs] v = Inr (drop i xs)"
  using assms(2)
proof (induction "length xs - i" arbitrary: i)
  case (Suc n)
  then show ?case
    by (simp add: upt_conv_Cons get_rel [OF assms(1)] Cons_nth_drop_Suc)
qed simp

lemma elements_rel: "vec_rel v xs \<Longrightarrow> vec_elements v = Inr xs"
  using read_loop_rel [of v xs 0] by (simp add: vec_elements_def vec_relD(1))

definition vec_bound :: "nat \<Rightarrow> nat" where
  "vec_bound sz = ((2 ^ 64 - 1) div sz - 9) div 2"

lemma vec_bound_room:
  assumes "n < vec_bound sz"
  shows "0 < sz" "sz * (2 * n + 10) < 2 ^ 64"
proof -
  show "0 < sz" using assms by (cases sz) (simp_all add: vec_bound_def)
  have "2 * n + 10 \<le> (2 ^ 64 - 1) div sz" using assms unfolding vec_bound_def by linarith
  then have "sz * (2 * n + 10) \<le> sz * ((2 ^ 64 - 1) div sz)" by (rule mult_le_mono2)
  also have "\<dots> \<le> 2 ^ 64 - 1" by (rule times_div_less_eq_dividend)
  finally show "sz * (2 * n + 10) < 2 ^ 64" by simp
qed

interpretation vector: sequence vec_wf vec_abs "vec_new base" "vec_push_back sz" vec_pop_back vec_index
  vec_index_set "vec_bound sz" for base sz
proof (unfold_locales, goal_cases)
  case 1
  show ?case using vec_new_rel by (auto simp: vec_wf_def)
next
  case 2
  show ?case by (rule vec_rel_abs [OF vec_new_rel])
next
  case (3 v x)
  then obtain v' where "vec_push_back sz x v = Inr v'" "vec_rel v' (vec_abs v @ [x])"
    using push_rel [of v "vec_abs v" sz x] vec_bound_room [of "length (vec_abs v)" sz] vec_wf_rel by blast
  then show ?case by (auto simp: vec_wf_def vec_rel_abs)
next
  case (4 v)
  then obtain v' where "vec_pop_back v = Inr v'" "vec_rel v' (butlast (vec_abs v))"
    using pop_rel [of v "vec_abs v"] vec_wf_rel by blast
  then show ?case by (auto simp: vec_wf_def vec_rel_abs)
next
  case (5 v i)
  then show ?case using index_rel [of v "vec_abs v" i] by (simp add: vec_wf_rel)
next
  case (6 v i x)
  then obtain v' where "vec_index_set i x v = Inr v'" "vec_rel v' ((vec_abs v)[i := x])"
    using index_set_rel [of v "vec_abs v" i x] vec_wf_rel by blast
  then show ?case by (auto simp: vec_wf_def vec_rel_abs)
qed

text \<open>A sequence of \<open>push_back\<close> calls.\<close>

fun vec_push_all :: "nat \<Rightarrow> 'a list \<Rightarrow> 'a vec \<Rightarrow> 'a vec result" where
  "vec_push_all sz [] v = Inr v"
| "vec_push_all sz (x # xs) v = rbind (vec_push_back sz x v) (vec_push_all sz xs)"

lemma vec_push_all_eq: "vec_push_all sz xs v = vector.push_all sz xs v"
  by (induction xs arbitrary: v) (auto simp: rbind_def split: sum.split)

lemma push_all_rel:
  fixes xs :: "'a list"
  assumes "length xs \<le> vec_bound sz"
  shows "\<exists>v. vec_push_all sz xs (vec_new base) = Inr v \<and> vec_rel v xs"
proof -
  have "vec_wf (vec_new base :: 'a vec)" "vec_abs (vec_new base :: 'a vec) = []"
    using vec_new_rel vec_rel_abs by (auto simp: vec_wf_def)
  then obtain v where "vec_push_all sz xs (vec_new base) = Inr v" "vec_wf v" "vec_abs v = xs"
    using vector.push_all_abs [of "vec_new base" xs sz] assms unfolding vec_push_all_eq by auto
  then show ?thesis by (auto simp: vec_wf_rel)
qed

section \<open>Assignment\<close>

lemma copy_loop_cells:
  assumes other: "vec_rel other ys" and "i \<le> length ys" "length ys \<le> m"
    and "vec_cells v = Inr (cells_of (take i ys) (m - i))"
  shows "\<exists>v'. copy_loop [i..<length ys] other v = Inr v' \<and> vec_cells v' = Inr (cells_of ys (m - length ys)) \<and>
    v_count v' = v_count v \<and> v_capacity v' = v_capacity v \<and> v_elements v' = v_elements v \<and>
    (v_alloc v' = None \<longleftrightarrow> v_alloc v = None)"
  using assms(2,4)
proof (induction "length ys - i" arbitrary: i v)
  case 0
  then show ?case by simp
next
  case (Suc n)
  then have i: "i < length ys" by simp
  let ?cs = "cells_of (take (Suc i) ys) (m - Suc i)"
  have "cell_put (length (take i ys)) (ys ! i) (cells_of (take i ys) (m - i)) =
      Inr (cells_of (take i ys @ [ys ! i]) (m - i - 1))"
    using i assms(3) by (intro cells_of_put) simp
  then have "vec_put i (ys ! i) v = Inr (vec_set_cells ?cs v)"
    using i Suc.prems(2) by (simp add: vec_put_def take_Suc_conv_app_nth min_def)
  moreover note Suc.hyps(1) [of "Suc i" "vec_set_cells ?cs v"] vec_cells_set [OF Suc.prems(2), of ?cs]
    vec_alloc_set [OF Suc.prems(2), of ?cs]
  ultimately show ?case
    using i Suc.hyps(2) by (simp add: upt_conv_Cons index_rel [OF other])
qed

lemma copy_loop_null:
  assumes "v_elements v = ENull" "vec_rel other ys" "ys \<noteq> []"
  shows "copy_loop [0..<length ys] other v = Inl BadAccess"
  using assms by (simp add: upt_conv_Cons index_rel vec_put_def vec_cells_def)

text \<open>After \<open>free\<close> there is nothing to read.\<close>

lemma get_after_free:
  assumes "vec_rel v xs" "xs \<noteq> []" "vec_free v = Inr v1"
  shows "vec_get 0 v1 = Inl BadAccess"
proof (cases "v_alloc v = None")
  case True
  then have "v_elements v = EBuffer" using vec_relD(4) [OF assms(1)] by simp
  moreover have "0 < v_capacity v" using vec_relD(2) [OF assms(1)] assms(2) by (cases xs) auto
  ultimately show ?thesis
    using assms(3) True by (auto simp: vec_free_rel [OF assms(1)] vec_get_def vec_cells_def cell_get_def)
next
  case False
  then show ?thesis using assms(3) by (auto simp: vec_free_rel [OF assms(1)] vec_get_def vec_cells_def)
qed

lemma vec_free_count:
  "vec_rel v xs \<Longrightarrow> vec_free v = Inr v1 \<Longrightarrow>
   v_count v1 = length xs \<and> v_capacity v1 = v_capacity v \<and> v_alloc v1 = None \<and>
   (v_elements v1 = EBuffer \<longleftrightarrow> v_alloc v = None) \<and> (v_elements v1 = ENull \<longleftrightarrow> v_alloc v \<noteq> None) \<and>
   (v_alloc v = None \<longrightarrow> v_buffer v1 = replicate (v_capacity v) None)"
  using vec_relD [of v xs] by (auto simp: vec_free_rel split: if_splits)

lemma assign_inline:
  assumes "vec_rel v xs" "vec_rel other ys" "length ys \<le> v_capacity v" "v_alloc v = None"
  shows "\<exists>v'. vec_assign sz other v = Inr v' \<and> vec_rel v' ys"
proof -
  obtain v1 where v1: "vec_free v = Inr v1" using vec_free_rel [OF assms(1)] by simp
  note c = vec_free_count [OF assms(1) v1]
  let ?v3 = "v1\<lparr>v_count := length ys\<rparr>"
  have "vec_cells ?v3 = Inr (cells_of (take 0 ys) (v_capacity v - 0))"
    using c assms(4) by (simp add: vec_cells_def cells_of_def)
  then obtain v' where "copy_loop [0..<length ys] other ?v3 = Inr v'"
      "vec_cells v' = Inr (cells_of ys (v_capacity v - length ys))" "v_count v' = length ys"
      "v_capacity v' = v_capacity v" "v_elements v' = EBuffer" "v_alloc v' = None"
    using copy_loop_cells [OF assms(2) _ assms(3), of 0 ?v3] c assms(4) by auto
  then show ?thesis
    using v1 c assms(3) vec_relD(1) [OF assms(2)]
    by (auto simp: vec_assign_def vec_reserve_def Let_def vec_rel_def)
qed

lemma assign_grow_empty:
  assumes "vec_rel v []" "vec_rel other ys" "v_capacity v < length ys" "0 < sz" "sz * (2 * length ys + 8) < 2 ^ 64"
  shows "\<exists>v'. vec_assign sz other v = Inr v' \<and> vec_rel v' ys"
proof -
  obtain v1 where v1: "vec_free v = Inr v1" using vec_free_rel [OF assms(1)] by simp
  note c = vec_free_count [OF assms(1) v1]
  let ?cap = "max (length ys * 2) 8"
  have "2 * length ys + 8 \<le> sz * (2 * length ys + 8)" using assms(4) by (cases sz) auto
  then have m: "length ys * 2 mod 2 ^ 64 = length ys * 2" using assms(5) by (intro mod_less) linarith
  have "sz * ?cap \<le> sz * (2 * length ys + 8)" by (intro mult_le_mono2) simp
  then have "(sz * ?cap) mod 2 ^ 64 = sz * ?cap" using assms(5) by (intro mod_less) linarith
  then have cells: "(sz * ?cap) mod 2 ^ 64 div sz = ?cap" using assms(4) by (simp only: nonzero_mult_div_cancel_left)
  have le_cap: "length ys \<le> ?cap" by simp
  let ?v2 = "v1\<lparr>v_capacity := ?cap, v_elements := EHeap, v_alloc := Some (replicate ?cap None)\<rparr>"
  have res: "vec_reserve sz (length ys) v1 = Inr ?v2"
    using c assms(3) m cells by (simp add: vec_reserve_def Let_def vec_free_def)
  let ?v3 = "?v2\<lparr>v_count := length ys\<rparr>"
  have "vec_cells ?v3 = Inr (cells_of (take 0 ys) (?cap - 0))" by (simp add: vec_cells_def cells_of_def)
  then obtain v' where "copy_loop [0..<length ys] other ?v3 = Inr v'"
      "vec_cells v' = Inr (cells_of ys (?cap - length ys))" "v_count v' = length ys"
      "v_capacity v' = ?cap" "v_elements v' = EHeap" "v_alloc v' \<noteq> None"
    using copy_loop_cells [OF assms(2) le0 le_cap, of ?v3] by auto
  then show ?thesis
    using v1 res vec_relD(1) [OF assms(2)] by (auto simp: vec_assign_def Let_def vec_rel_def)
qed

lemma assign_grow_nonempty:
  assumes "vec_rel v xs" "vec_rel other ys" "v_capacity v < length ys" "xs \<noteq> []"
  shows "vec_assign sz other v = Inl BadAccess"
proof -
  obtain v1 where v1: "vec_free v = Inr v1" using vec_free_rel [OF assms(1)] by simp
  have "0 < length xs" using assms(4) by simp
  then show ?thesis
    using v1 vec_free_count [OF assms(1) v1] assms(3) get_after_free [OF assms(1,4) v1] vec_relD(1) [OF assms(2)]
    by (simp add: vec_assign_def vec_reserve_def Let_def upt_conv_Cons vec_get_def)
qed

lemma assign_released:
  assumes "vec_rel v xs" "vec_rel other ys" "length ys \<le> v_capacity v" "v_alloc v \<noteq> None"
  shows "vec_assign sz other v = (if ys = [] then Inr (v\<lparr>v_count := 0, v_alloc := None, v_elements := ENull\<rparr>)
    else Inl BadAccess)"
proof -
  have v1: "vec_free v = Inr (v\<lparr>v_alloc := None, v_elements := ENull\<rparr>)"
    using vec_free_rel [OF assms(1)] assms(4) by auto
  show ?thesis
    using v1 assms(3) vec_relD(1) [OF assms(2)]
      copy_loop_null [OF _ assms(2), of "v\<lparr>v_alloc := None, v_elements := ENull, v_count := length ys\<rparr>"]
    by (cases v) (auto simp: vec_assign_def vec_reserve_def Let_def)
qed

lemma null_not_rel: "\<not> vec_rel (v\<lparr>v_count := n, v_alloc := None, v_elements := ENull\<rparr>) xs"
  by (simp add: vec_rel_def vec_cells_def)

lemma self_assign_rel:
  assumes "vec_rel v xs"
  shows "vec_self_assign sz v = (if xs \<noteq> [] then Inl BadAccess else if v_alloc v = None then Inr v
    else Inr (v\<lparr>v_count := 0, v_alloc := None, v_elements := ENull\<rparr>))"
proof -
  obtain v1 where v1: "vec_free v = Inr v1" using vec_free_rel [OF assms] by simp
  note c = vec_free_count [OF assms v1]
  have reserve: "vec_reserve sz (v_count v1) v1 = Inr v1"
    using c vec_relD [OF assms] by (simp add: vec_reserve_def)
  show ?thesis
  proof (cases "xs = []")
    case True
    then have "v_count v = 0" using vec_relD(1) [OF assms] by simp
    moreover from this have "v1 = (if v_alloc v = None then v else v\<lparr>v_alloc := None, v_elements := ENull\<rparr>)"
      using v1 by (auto simp: vec_free_def split: option.splits)
    ultimately show ?thesis using True v1 reserve by (cases v) (simp add: vec_self_assign_def)
  next
    case False
    then show ?thesis
      using v1 c reserve get_after_free [OF assms False v1] by (simp add: vec_self_assign_def upt_conv_Cons vec_index_def vec_get_def)
  qed
qed

section \<open>Properties\<close>

text \<open>C33. The vector is a list: whatever sequence of elements is pushed onto a new vector, no step fails, and
  afterwards indexing, iterating, \<open>front\<close>, \<open>back\<close>, \<open>pop_back\<close> and assignment to an element behave as on
  the list of the elements, across any number of moves from the inline storage to larger ones.
  An index outside fails the assertion.\<close>

theorem vector_is_list:
  assumes "length xs \<le> vec_bound sz" "xs \<noteq> []"
  shows "\<exists>v. vec_push_all sz xs (vec_new base) = Inr v \<and> vec_elements v = Inr xs \<and>
    (\<forall>i. vec_index i v = (if i < length xs then Inr (xs ! i) else Inl (AssertFailed ''index exceeds vector size''))) \<and>
    vec_front v = Inr (hd xs) \<and> vec_back v = Inr (last xs) \<and>
    (\<exists>w. vec_pop_back v = Inr w \<and> vec_elements w = Inr (butlast xs)) \<and>
    (\<forall>i < length xs. \<forall>x. \<exists>w. vec_index_set i x v = Inr w \<and> vec_elements w = Inr (xs[i := x]))"
proof -
  obtain v where v: "vec_push_all sz xs (vec_new base) = Inr v" and rel: "vec_rel v xs"
    using push_all_rel [OF assms(1)] by blast
  then show ?thesis
    using v elements_rel index_rel [OF rel] front_back_rel [OF rel assms(2)] pop_rel [OF rel assms(2)]
      index_set_rel [OF rel] by blast
qed

theorem vector_is_list_witness:
  "\<exists>v. vec_push_all 8 [10, 20, 30 :: nat] (vec_new 2) = Inr v \<and> vec_elements v = Inr [10, 20, 30] \<and>
     vec_back v = Inr 30"
  using vector_is_list [of "[10, 20, 30 :: nat]" 8 2] by (auto simp: vec_bound_def)

text \<open>C34. For which targets the assignment operator of the vector works: it copies the source exactly if the source fits
  into the target's capacity and the target still has its inline storage, or if the source does not fit and the
  target is empty. In the other cases \<open>free\<close> has left the element count, the capacity or a null
  \<open>elements_\<close> behind, and the assignment accesses destroyed objects or the null pointer, or leaves a
  vector that is not usable. In particular a source that does not fit, assigned to a vector with elements, has \<open>reserve\<close> move from objects that \<open>free\<close>
  has destroyed, whatever the types. Assigned to itself a vector survives only if it is empty and has its inline storage.

  The tests \<open>Copy\<close> and \<open>Move\<close> of \<open>test/containers_test.cpp\<close> (lines 178 and 196) make an assignment of the failing kind: a vector with room for two
  strings that holds one is assigned three. They expect it to succeed, and may see it succeed, because the destructor of a
  short string leaves its characters in place; by the rules of the language the behaviour is undefined. The witness is the case of these tests.\<close>

theorem vector_assign_iff:
  assumes "vec_rel v xs" "vec_rel other ys" "0 < sz" "sz * (2 * length ys + 8) < 2 ^ 64"
  shows "((\<exists>v'. vec_assign sz other v = Inr v' \<and> vec_rel v' ys) \<longleftrightarrow>
      (if length ys \<le> v_capacity v then v_alloc v = None else xs = [])) \<and>
    (v_capacity v < length ys \<and> xs \<noteq> [] \<longrightarrow> vec_assign sz other v = Inl BadAccess) \<and>
    ((\<exists>v'. vec_self_assign sz v = Inr v' \<and> vec_rel v' xs) \<longleftrightarrow> xs = [] \<and> v_alloc v = None)"
proof (intro conjI)
  show "(\<exists>v'. vec_assign sz other v = Inr v' \<and> vec_rel v' ys) \<longleftrightarrow>
      (if length ys \<le> v_capacity v then v_alloc v = None else xs = [])"
  proof (cases "length ys \<le> v_capacity v")
    case True
    then show ?thesis
      using assign_inline [OF assms(1,2) True, of sz] assign_released [OF assms(1,2) True, of sz] null_not_rel
      by (cases "v_alloc v = None") (auto split: if_splits)
  next
    case False
    then show ?thesis
      using assign_grow_empty [of v other ys sz] assign_grow_nonempty [OF assms(1,2), of sz] assms
      by (cases "xs = []") auto
  qed
  show "v_capacity v < length ys \<and> xs \<noteq> [] \<longrightarrow> vec_assign sz other v = Inl BadAccess"
    using assign_grow_nonempty [OF assms(1,2)] by blast
  show "(\<exists>v'. vec_self_assign sz v = Inr v' \<and> vec_rel v' xs) \<longleftrightarrow> xs = [] \<and> v_alloc v = None"
    using self_assign_rel [OF assms(1), of sz] null_not_rel assms(1) by (auto split: if_splits)
qed

theorem vector_assign_iff_witness:
  "\<exists>vec1 vec2. vec_push_all 32 [''A'', ''B'', ''C''] (vec_new 4) = Inr vec1 \<and>
     rbind (vec_resize 32 1 [] (vec_new 2)) (vec_index_set 0 ''Z'') = Inr vec2 \<and> vec_assign 32 vec1 vec2 = Inl BadAccess"
proof -
  obtain vec1 where v1: "vec_push_all 32 [''A'', ''B'', ''C''] (vec_new 4) = Inr vec1" "vec_rel vec1 [''A'', ''B'', ''C'']"
    using push_all_rel [of "[''A'', ''B'', ''C'']" 32 4] by (auto simp: vec_bound_def)
  let ?vec2 = "\<lparr>v_count = 1, v_capacity = 2, v_buffer = [Some ''Z'', None], v_elements = EBuffer, v_alloc = None\<rparr>"
  have "rbind (vec_resize 32 1 [] (vec_new 2)) (vec_index_set 0 ''Z'') = Inr ?vec2"
    by (simp add: vec_resize_def vec_reserve_def vec_new_def vec_put_def vec_cells_def cell_put_def vec_set_cells_def
        vec_index_set_def numeral_2_eq_2)
  moreover have "vec_rel ?vec2 [''Z'']" by (simp add: vec_rel_def vec_cells_def cells_of_def)
  ultimately show ?thesis using vector_assign_iff [OF _ v1(2), of ?vec2 "[''Z'']" 32] v1(1) by auto
qed

end
