(* ===== verification/List_Model.thy ===== *)
theory List_Model
  imports Marl_Prelude
begin

text \<open>
  \<open>marl::containers::list\<close> (\<open>containers.hpp\<close>): a doubly linked list whose entries come from chunks that the
  list keeps until it is destroyed; erased entries go to a free list.

  The entries live in a store from addresses to entries; a pointer is an optional address and every access
  through a null pointer or to an address without entry is a fault. The allocator is asked for whole
  chunks and gives addresses that were not used before (\<open>ml_fresh\<close>); the chain of allocations records the
  address and the number of entries of every chunk. The payload of an entry is present while it holds a
  constructed object.

  The locale \<open>handle_list\<close> is what users of the list (\<open>condition_variable.hpp\<close>) rely on.
\<close>

section \<open>State\<close>

record 'a entry =
  en_data :: "'a option"
  en_next :: "nat option"
  en_prev :: "nat option"

type_synonym 'a store = "nat \<Rightarrow> 'a entry option"

record 'a mlist =
  ml_store :: "'a store"
  ml_size :: nat
  ml_capacity :: nat
  ml_allocations :: "(nat \<times> nat) list"
  ml_free :: "nat option"
  ml_head :: "nat option"
  ml_fresh :: nat

definition mlist_new :: "'a mlist" where
  "mlist_new = \<lparr>ml_store = (\<lambda>_. None), ml_size = 0, ml_capacity = 0, ml_allocations = [],
     ml_free = None, ml_head = None, ml_fresh = 0\<rparr>"

definition entry_get :: "'a store \<Rightarrow> nat \<Rightarrow> 'a entry result" where
  "entry_get st p = (case st p of None \<Rightarrow> Inl BadAccess | Some e \<Rightarrow> Inr e)"

definition entry_upd :: "nat \<Rightarrow> ('a entry \<Rightarrow> 'a entry) \<Rightarrow> 'a store \<Rightarrow> 'a store result" where
  "entry_upd p f st = (case st p of None \<Rightarrow> Inl BadAccess | Some e \<Rightarrow> Inr (st(p \<mapsto> f e)))"

section \<open>Operations\<close>

text \<open>\<open>unlink\<close> and \<open>link\<close> take the list's pointer by reference and return its new value.\<close>

definition unlink :: "nat \<Rightarrow> nat option \<Rightarrow> 'a store \<Rightarrow> (nat option \<times> 'a store) result" where
  "unlink entry list st =
     rbind (entry_get st entry) (\<lambda>en.
     let list1 = (if list = Some entry then en_next en else list) in
     rbind (case en_prev en of
              None \<Rightarrow> Inr st
            | Some p \<Rightarrow> entry_upd p (\<lambda>x. x\<lparr>en_next := en_next en\<rparr>) st) (\<lambda>st1.
     rbind (entry_get st1 entry) (\<lambda>en1.
     rbind (case en_next en1 of
              None \<Rightarrow> Inr st1
            | Some n \<Rightarrow> entry_upd n (\<lambda>x. x\<lparr>en_prev := en_prev en1\<rparr>) st1) (\<lambda>st2.
     rbind (entry_upd entry (\<lambda>x. x\<lparr>en_prev := None, en_next := None\<rparr>) st2) (\<lambda>st3.
     Inr (list1, st3))))))"

definition link :: "nat \<Rightarrow> nat option \<Rightarrow> 'a store \<Rightarrow> (nat option \<times> 'a store) result" where
  "link entry list st =
     rbind (entry_get st entry) (\<lambda>en.
     rbind (marl_assert (en_next en = None) ''link() called on entry already linked'') (\<lambda>_.
     rbind (marl_assert (en_prev en = None) ''link() called on entry already linked'') (\<lambda>_.
     case list of
       None \<Rightarrow> Inr (Some entry, st)
     | Some l \<Rightarrow>
         rbind (entry_upd entry (\<lambda>x. x\<lparr>en_next := Some l\<rparr>) st) (\<lambda>st1.
         rbind (entry_upd l (\<lambda>x. x\<lparr>en_prev := Some entry\<rparr>) st1) (\<lambda>st2.
         Inr (Some entry, st2))))))"

text \<open>The loop of \<open>grow\<close> over the entries of the new chunk.\<close>

fun grow_loop :: "nat list \<Rightarrow> nat option \<Rightarrow> 'a store \<Rightarrow> (nat option \<times> 'a store) result" where
  "grow_loop [] free st = Inr (free, st)"
| "grow_loop (e # es) free st =
     (let st1 = st(e \<mapsto> \<lparr>en_data = None, en_next = free, en_prev = None\<rparr>) in
      rbind (case free of
               None \<Rightarrow> Inr st1
             | Some f \<Rightarrow> entry_upd f (\<lambda>x. x\<lparr>en_prev := Some e\<rparr>) st1) (\<lambda>st2.
      grow_loop es (Some e) st2))"

definition grow :: "nat \<Rightarrow> 'a mlist \<Rightarrow> 'a mlist result" where
  "grow n m =
     rbind (grow_loop [ml_fresh m..<ml_fresh m + n] (ml_free m) (ml_store m)) (\<lambda>(free, st).
     Inr (m\<lparr>ml_store := st, ml_free := free, ml_allocations := (ml_fresh m, n) # ml_allocations m,
            ml_capacity := ml_capacity m + n, ml_fresh := ml_fresh m + n\<rparr>))"

definition emplace_front :: "'a \<Rightarrow> 'a mlist \<Rightarrow> (nat \<times> 'a mlist) result" where
  "emplace_front x m =
     rbind (if ml_free m = None then grow (max (ml_capacity m) 8) m else Inr m) (\<lambda>m1.
     case ml_free m1 of
       None \<Rightarrow> Inl BadAccess
     | Some entry \<Rightarrow>
         rbind (unlink entry (ml_free m1) (ml_store m1)) (\<lambda>(free, st1).
         rbind (link entry (ml_head m1) st1) (\<lambda>(head, st2).
         rbind (entry_upd entry (\<lambda>e. e\<lparr>en_data := Some x\<rparr>) st2) (\<lambda>st3.
         Inr (entry, m1\<lparr>ml_store := st3, ml_free := free, ml_head := head, ml_size := ml_size m1 + 1\<rparr>)))))"

definition mlist_erase :: "nat \<Rightarrow> 'a mlist \<Rightarrow> 'a mlist result" where
  "mlist_erase entry m =
     rbind (unlink entry (ml_head m) (ml_store m)) (\<lambda>(head, st1).
     rbind (link entry (ml_free m) st1) (\<lambda>(free, st2).
     rbind (entry_get st2 entry) (\<lambda>e.
     if en_data e = None then Inl BadAccess
     else rbind (entry_upd entry (\<lambda>e. e\<lparr>en_data := None\<rparr>) st2) (\<lambda>st3.
     Inr (m\<lparr>ml_store := st3, ml_head := head, ml_free := free, ml_size := ml_size m - 1\<rparr>)))))"

text \<open>Iteration from \<open>begin()\<close>: the entries with their payloads. The fuel is the number of entries the list can
  have; \<open>None\<close> means that it was not enough.\<close>

fun iterate :: "nat \<Rightarrow> nat option \<Rightarrow> 'a store \<Rightarrow> (nat \<times> 'a) list result option" where
  "iterate n None st = Some (Inr [])"
| "iterate 0 (Some p) st = None"
| "iterate (Suc n) (Some p) st =
     (case st p of
        None \<Rightarrow> Some (Inl BadAccess)
      | Some e \<Rightarrow>
          (case en_data e of
             None \<Rightarrow> Some (Inl BadAccess)
           | Some x \<Rightarrow>
               (case iterate n (en_next e) st of
                  None \<Rightarrow> None
                | Some r \<Rightarrow> Some (rbind r (\<lambda>xs. Inr ((p, x) # xs))))))"

definition mlist_iterate :: "'a mlist \<Rightarrow> (nat \<times> 'a) list result option" where
  "mlist_iterate m = iterate (ml_capacity m) (ml_head m) (ml_store m)"

text \<open>The destructor: the objects it destroys and the chunks it hands back. The chain of chunks is a list here, so that the loop over it reads \<open>next\<close> before it
  frees a chunk is not visible.\<close>

definition mlist_destruct :: "'a mlist \<Rightarrow> ((nat \<times> 'a) list \<times> (nat \<times> nat) list) result option" where
  "mlist_destruct m =
     (case mlist_iterate m of None \<Rightarrow> None | Some r \<Rightarrow> Some (rbind r (\<lambda>xs. Inr (xs, ml_allocations m))))"

section \<open>The contract of a list with stable handles\<close>

locale handle_list =
  fixes inv :: "'m \<Rightarrow> bool"
    and abs :: "'m \<Rightarrow> (nat \<times> 'a) list"
    and empty :: 'm
    and emplace :: "'a \<Rightarrow> 'm \<Rightarrow> (nat \<times> 'm) result"
    and erase :: "nat \<Rightarrow> 'm \<Rightarrow> 'm result"
  assumes inv_empty: "inv empty" and abs_empty: "abs empty = []"
    and distinct_handles: "inv m \<Longrightarrow> distinct (map fst (abs m))"
    and emplace_law: "inv m \<Longrightarrow> \<exists>h m'. emplace x m = Inr (h, m') \<and> inv m' \<and> abs m' = (h, x) # abs m"
    and erase_law: "inv m \<Longrightarrow> h \<in> fst ` set (abs m) \<Longrightarrow>
      \<exists>m'. erase h m = Inr m' \<and> inv m' \<and> abs m' = filter (\<lambda>e. fst e \<noteq> h) (abs m)"
begin

text \<open>The clients' use: an element is put in, other elements come and go, and it is taken out by its handle.\<close>

lemma emplace_fresh:
  assumes "inv m" "emplace x m = Inr (h, m')"
  shows "h \<notin> fst ` set (abs m)" "inv m'" "abs m' = (h, x) # abs m"
proof -
  obtain h2 m2 where e: "emplace x m = Inr (h2, m2)" "inv m2" "abs m2 = (h2, x) # abs m"
    using emplace_law [OF assms(1)] by blast
  then have "h2 = h" "m2 = m'" using assms(2) by auto
  with e distinct_handles [OF e(2)] show "h \<notin> fst ` set (abs m)" "inv m'" "abs m' = (h, x) # abs m" by auto
qed

lemma erase_emplaced:
  assumes "inv m" "emplace x m = Inr (h, m')"
  shows "\<exists>m2. erase h m' = Inr m2 \<and> inv m2 \<and> abs m2 = abs m"
proof -
  note f = emplace_fresh [OF assms]
  obtain m2 where "erase h m' = Inr m2" "inv m2" "abs m2 = filter (\<lambda>e. fst e \<noteq> h) (abs m')"
    using erase_law [OF f(2), of h] f(3) by auto
  moreover have "filter (\<lambda>e. fst e \<noteq> h) (abs m) = abs m" using f(1) by (auto intro!: filter_True)
  ultimately show ?thesis using f(3) by simp
qed

lemma erase_keeps_handle:
  assumes "inv m" "(h, x) \<in> set (abs m)" "g \<in> fst ` set (abs m)" "g \<noteq> h"
  shows "\<exists>m2. erase g m = Inr m2 \<and> inv m2 \<and> (h, x) \<in> set (abs m2)"
  using erase_law [OF assms(1,3)] assms(2,4) by auto

end

end
