(* ===== verification/List_Proofs.thy ===== *)
theory List_Proofs
  imports List_Model
begin

text \<open>
  The linked list against lists of (handle, value) pairs. \<open>dseg\<close> describes a doubly linked segment,
  \<open>mlist_rel\<close> the whole container: one segment of live entries and one of free entries that together are all
  entries of the chunks. \<open>unlink\<close> and \<open>link\<close> are specified on segments; the operations then
  follow, and the list is an interpretation of \<open>handle_list\<close>.
\<close>

section \<open>Doubly linked segments\<close>

fun dseg :: "'a store \<Rightarrow> nat option \<Rightarrow> nat option \<Rightarrow> nat list \<Rightarrow> nat option \<Rightarrow> nat option \<Rightarrow> bool" where
  "dseg st pr h [] lst nx = (h = nx \<and> lst = pr)"
| "dseg st pr h (x # xs) lst nx =
     (h = Some x \<and> (\<exists>e. st x = Some e \<and> en_prev e = pr \<and> dseg st (Some x) (en_next e) xs lst nx))"

definition links :: "'a store \<Rightarrow> nat \<Rightarrow> (nat option \<times> nat option) option" where
  "links st x = map_option (\<lambda>e. (en_next e, en_prev e)) (st x)"

definition datas :: "'a store \<Rightarrow> nat \<Rightarrow> 'a option option" where
  "datas st x = map_option en_data (st x)"

definition dll :: "'a store \<Rightarrow> nat option \<Rightarrow> nat list \<Rightarrow> bool" where
  "dll st h xs \<longleftrightarrow> (\<exists>lst. dseg st None h xs lst None)"

lemma dseg_cong:
  "(\<And>x. x \<in> set xs \<Longrightarrow> links st' x = links st x) \<Longrightarrow> dseg st' pr h xs lst nx = dseg st pr h xs lst nx"
proof (induction xs arbitrary: pr h)
  case (Cons y ys)
  then have "links st' y = links st y" by simp
  with Cons.IH Cons.prems show ?case
    by (cases "st y"; cases "st' y") (auto simp: links_def)
qed simp

lemma dll_cong: "(\<And>x. x \<in> set xs \<Longrightarrow> links st' x = links st x) \<Longrightarrow> dll st' h xs = dll st h xs"
  by (simp add: dll_def dseg_cong [of xs st' st])

lemma dseg_append:
  "dseg st pr h (xs @ ys) lst nx \<longleftrightarrow> (\<exists>q m. dseg st pr h xs q m \<and> dseg st q m ys lst nx)"
  by (induction xs arbitrary: pr h) auto

lemma dseg_upd_other: "p \<notin> set xs \<Longrightarrow> dseg (st(p := e)) pr h xs lst nx = dseg st pr h xs lst nx"
  by (rule dseg_cong) (auto simp: links_def)

lemma dseg_first:
  "dseg st pr h (n # ys) lst nx \<Longrightarrow> n \<notin> set ys \<Longrightarrow> st n = Some e \<Longrightarrow>
   dseg (st(n \<mapsto> e\<lparr>en_prev := pr'\<rparr>)) pr' h (n # ys) lst nx"
  by (auto simp: dseg_upd_other)

lemma dseg_last:
  assumes "dseg st pr h (xs @ [p]) q nx" "p \<notin> set xs" "st p = Some e"
  shows "dseg (st(p \<mapsto> e\<lparr>en_next := nx'\<rparr>)) pr h (xs @ [p]) (Some p) nx'"
proof -
  obtain r where "dseg st pr h xs r (Some p)" "en_prev e = r"
    using assms(1,3) by (auto simp: dseg_append)
  moreover from this(1) have "dseg (st(p \<mapsto> e\<lparr>en_next := nx'\<rparr>)) pr h xs r (Some p)"
    using assms(2) by (subst dseg_cong) (auto simp: links_def)
  ultimately show ?thesis by (auto simp: dseg_append)
qed

lemma dseg_dom: "dseg st pr h xs lst nx \<Longrightarrow> x \<in> set xs \<Longrightarrow> \<exists>e. st x = Some e"
  by (induction xs arbitrary: pr h) auto

lemma dseg_last_ptr: "dseg st pr h (xs @ [p]) q nx \<Longrightarrow> q = Some p"
  by (auto simp: dseg_append)

lemma dseg_hd: "dseg st pr h xs q nx \<Longrightarrow> xs \<noteq> [] \<Longrightarrow> h = Some (hd xs)"
  by (cases xs) auto

section \<open>Unlinking and linking\<close>

text \<open>What both leave alone: entries outside of the segment, and all payloads.\<close>

definition frame :: "nat set \<Rightarrow> 'a store \<Rightarrow> 'a store \<Rightarrow> bool" where
  "frame A st st' \<longleftrightarrow> (\<forall>x. x \<notin> A \<longrightarrow> st' x = st x) \<and> (\<forall>x. datas st' x = datas st x)"

lemma frame_links: "frame A st st' \<Longrightarrow> x \<notin> A \<Longrightarrow> links st' x = links st x"
  by (simp add: frame_def links_def)

lemma dll_frame: "dll st h xs \<Longrightarrow> frame A st st' \<Longrightarrow> set xs \<inter> A = {} \<Longrightarrow> dll st' h xs"
  using dll_cong [of xs st' st h] frame_links [of A st st'] by blast

lemma frame_datas: "frame A st st' \<Longrightarrow> datas st' x = datas st x"
  by (simp add: frame_def)

lemma frame_refl: "frame A st st"
  by (simp add: frame_def)

lemma frame_upd:
  assumes "frame A st st1" "p \<in> A" "st1 p = Some e" "en_data e' = en_data e"
  shows "frame A st (st1(p \<mapsto> e'))"
  using assms by (auto simp: frame_def datas_def) (metis option.simps(9))

text \<open>The two neighbours are joined.\<close>

definition set_next :: "nat option \<Rightarrow> nat option \<Rightarrow> 'a store \<Rightarrow> 'a store result" where
  "set_next q m st = (case q of None \<Rightarrow> Inr st | Some p \<Rightarrow> entry_upd p (\<lambda>x. x\<lparr>en_next := m\<rparr>) st)"

definition set_prev :: "nat option \<Rightarrow> nat option \<Rightarrow> 'a store \<Rightarrow> 'a store result" where
  "set_prev m q st = (case m of None \<Rightarrow> Inr st | Some n \<Rightarrow> entry_upd n (\<lambda>x. x\<lparr>en_prev := q\<rparr>) st)"

lemma set_next_spec:
  assumes "dseg st None h as q m" "distinct as"
  shows "\<exists>st1. set_next q m' st = Inr st1 \<and> dseg st1 None (if as = [] then m' else h) as q m' \<and>
    frame (set as) st st1"
proof (cases as rule: rev_cases)
  case Nil
  then show ?thesis using assms by (simp add: set_next_def frame_refl)
next
  case (snoc bs p)
  obtain e where e: "st p = Some e" using dseg_dom [OF assms(1)] snoc by fastforce
  have "dseg (st(p \<mapsto> e\<lparr>en_next := m'\<rparr>)) None h (bs @ [p]) (Some p) m'"
    using assms snoc e by (intro dseg_last) auto
  moreover have "q = Some p" using dseg_last_ptr assms(1) snoc by blast
  moreover have "frame (set as) st (st(p \<mapsto> e\<lparr>en_next := m'\<rparr>))"
    using snoc e by (intro frame_upd [OF frame_refl]) auto
  ultimately show ?thesis using e snoc by (simp add: set_next_def entry_upd_def)
qed

lemma set_prev_spec:
  assumes "dseg st pr m bs lst None" "distinct bs"
  shows "\<exists>st1. set_prev m q st = Inr st1 \<and> (\<exists>lst'. dseg st1 q m bs lst' None) \<and> frame (set bs) st st1"
proof (cases bs)
  case Nil
  then show ?thesis using assms by (simp add: set_prev_def frame_refl)
next
  case (Cons n ys)
  obtain e where e: "st n = Some e" "m = Some n" using assms(1) Cons by auto
  have "dseg (st(n \<mapsto> e\<lparr>en_prev := q\<rparr>)) q m (n # ys) lst None"
    using assms Cons e by (intro dseg_first) auto
  moreover have "frame (set bs) st (st(n \<mapsto> e\<lparr>en_prev := q\<rparr>))"
    using Cons e by (intro frame_upd [OF frame_refl]) auto
  ultimately show ?thesis using e Cons by (auto simp: set_prev_def entry_upd_def)
qed

lemma frame_mono: "frame A st st1 \<Longrightarrow> A \<subseteq> B \<Longrightarrow> frame B st st1"
  by (auto simp: frame_def)

lemma frame_trans: "frame A st st1 \<Longrightarrow> frame A st1 st2 \<Longrightarrow> frame A st st2"
  by (simp add: frame_def)

lemma unlink_spec:
  assumes d: "dll st l (as @ e # bs)" and dist: "distinct (as @ e # bs)"
  shows "\<exists>l' st'. unlink e l st = Inr (l', st') \<and> dll st' l' (as @ bs) \<and> links st' e = Some (None, None) \<and>
    frame (set (as @ e # bs)) st st'"
proof -
  let ?A = "set (as @ e # bs)"
  obtain q lst en where as: "dseg st None l as q (Some e)" and en: "st e = Some en" "en_prev en = q"
    and bs: "dseg st (Some e) (en_next en) bs lst None"
    using d by (auto simp: dll_def dseg_append)
  let ?m = "en_next en"
  let ?l = "if l = Some e then ?m else l"
  have l: "?l = (if as = [] then ?m else l)"
    using as dist dseg_hd [OF as] by (cases as) auto
  obtain st1 where st1: "set_next q ?m st = Inr st1" "dseg st1 None ?l as q ?m" "frame (set as) st st1"
    using set_next_spec [OF as, of ?m] dist l by auto
  have e1: "st1 e = Some en" using st1(3) en(1) dist by (simp add: frame_def)
  have "dseg st1 (Some e) ?m bs lst None"
    using bs frame_links [OF st1(3)] dist by (subst dseg_cong) auto
  then obtain st2 lst' where st2: "set_prev ?m q st1 = Inr st2" "dseg st2 q ?m bs lst' None"
    "frame (set bs) st1 st2"
    using set_prev_spec [of st1 "Some e" ?m bs lst q] dist by auto
  have e2: "st2 e = Some en" using st2(3) e1 dist by (simp add: frame_def)
  let ?st3 = "st2(e \<mapsto> en\<lparr>en_prev := None, en_next := None\<rparr>)"
  have "dseg st2 None ?l as q ?m"
    using st1(2) frame_links [OF st2(3)] dist by (subst dseg_cong) auto
  with st2(2) have "dseg st2 None ?l (as @ bs) lst' None" unfolding dseg_append by blast
  then have "dll ?st3 ?l (as @ bs)" using dist by (auto simp: dll_def dseg_upd_other)
  moreover have "links ?st3 e = Some (None, None)" by (simp add: links_def)
  moreover have "frame ?A st ?st3"
  proof (rule frame_upd)
    show "frame ?A st st2"
      by (rule frame_trans [OF frame_mono [OF st1(3)] frame_mono [OF st2(3)]]) auto
    show "st2 e = Some en" by (rule e2)
  qed simp_all
  moreover have "unlink e l st = Inr (?l, ?st3)"
    using en st1(1) st2(1) e1 e2
    by (simp add: unlink_def entry_get_def Let_def set_next_def [symmetric] set_prev_def [symmetric]
        entry_upd_def [of e])
  ultimately show ?thesis by blast
qed

lemma link_spec:
  assumes e: "links st e = Some (None, None)" and d: "dll st l xs" and dist: "distinct (e # xs)"
  shows "\<exists>st'. link e l st = Inr (Some e, st') \<and> dll st' (Some e) (e # xs) \<and> frame (set (e # xs)) st st'"
proof -
  obtain en where en: "st e = Some en" "en_next en = None" "en_prev en = None"
    using e by (auto simp: links_def)
  obtain lst where xs: "dseg st None l xs lst None" using d by (auto simp: dll_def)
  show ?thesis
  proof (cases xs)
    case Nil
    then show ?thesis
      using en xs by (auto simp: link_def entry_get_def dll_def frame_refl)
  next
    case (Cons n ys)
    then obtain f where f: "l = Some n" "st n = Some f" using xs by auto
    let ?st1 = "st(e \<mapsto> en\<lparr>en_next := Some n\<rparr>)"
    let ?st2 = "?st1(n \<mapsto> f\<lparr>en_prev := Some e\<rparr>)"
    have ne: "n \<noteq> e" using dist Cons by auto
    have "dseg ?st1 None l xs lst None" using xs dist by (subst dseg_upd_other) auto
    then have "dseg ?st2 (Some e) l xs lst None"
      using Cons f ne dist dseg_first [of ?st1 None l n ys lst None f "Some e"] by auto
    then have "dseg ?st2 None (Some e) (e # xs) lst None" using en ne f by auto
    moreover have "frame (set (e # xs)) st ?st2"
      using en f ne Cons by (intro frame_upd [OF frame_upd [OF frame_refl]]) auto
    ultimately show ?thesis
      using en f ne Cons by (auto simp: link_def entry_get_def entry_upd_def dll_def)
  qed
qed

section \<open>The container\<close>

definition mlist_rel :: "'a mlist \<Rightarrow> (nat \<times> 'a) list \<Rightarrow> nat list \<Rightarrow> bool" where
  "mlist_rel m ps fs \<longleftrightarrow>
     dll (ml_store m) (ml_head m) (map fst ps) \<and> dll (ml_store m) (ml_free m) fs \<and>
     distinct (map fst ps @ fs) \<and>
     (\<forall>(h, x) \<in> set ps. datas (ml_store m) h = Some (Some x)) \<and>
     (\<forall>f \<in> set fs. datas (ml_store m) f = Some None) \<and>
     (\<forall>x \<in> set (map fst ps @ fs). x < ml_fresh m) \<and> (\<forall>x \<ge> ml_fresh m. ml_store m x = None) \<and>
     ml_size m = length ps \<and> ml_capacity m = length ps + length fs \<and>
     ml_capacity m = sum_list (map snd (ml_allocations m))"

definition mlist_inv :: "'a mlist \<Rightarrow> bool" where
  "mlist_inv m \<longleftrightarrow> (\<exists>ps fs. mlist_rel m ps fs)"

definition mlist_abs :: "'a mlist \<Rightarrow> (nat \<times> 'a) list" where
  "mlist_abs m = (case mlist_iterate m of Some (Inr xs) \<Rightarrow> xs | _ \<Rightarrow> [])"

lemma iterate_dseg:
  "dseg st pr h (map fst ps) lst None \<Longrightarrow> (\<forall>(h, x) \<in> set ps. datas st h = Some (Some x)) \<Longrightarrow>
   length ps \<le> n \<Longrightarrow> iterate n h st = Some (Inr ps)"
proof (induction ps arbitrary: pr h n)
  case Nil
  then show ?case by (cases n) simp_all
next
  case (Cons a ps)
  obtain k where n: "n = Suc k" "length ps \<le> k" using Cons.prems(3) by (cases n) auto
  obtain p x where a: "a = (p, x)" by (cases a)
  obtain e where e: "h = Some p" "st p = Some e" "dseg st (Some p) (en_next e) (map fst ps) lst None" "en_data e = Some x"
    using Cons.prems(1,2) a by (auto simp: datas_def)
  then show ?case using Cons.IH [OF e(3) _ n(2)] Cons.prems(2) n(1) a by simp
qed

lemma mlist_relD:
  assumes "mlist_rel m ps fs"
  shows "dll (ml_store m) (ml_head m) (map fst ps)" "dll (ml_store m) (ml_free m) fs" "distinct (map fst ps @ fs)"
    "\<forall>(h, x) \<in> set ps. datas (ml_store m) h = Some (Some x)" "\<forall>f \<in> set fs. datas (ml_store m) f = Some None"
    "\<forall>x \<in> set (map fst ps @ fs). x < ml_fresh m" "ml_size m = length ps"
    "ml_capacity m = length ps + length fs" "ml_capacity m = sum_list (map snd (ml_allocations m))"
    "\<forall>x \<ge> ml_fresh m. ml_store m x = None"
  using assms by (simp_all add: mlist_rel_def)

lemma iterate_rel: "mlist_rel m ps fs \<Longrightarrow> mlist_iterate m = Some (Inr ps)"
  using iterate_dseg [of "ml_store m" None "ml_head m" ps _ "ml_capacity m"] mlist_relD(1,4,8) [of m ps fs]
  by (auto simp: mlist_iterate_def dll_def)

lemma abs_rel: "mlist_rel m ps fs \<Longrightarrow> mlist_abs m = ps"
  by (simp add: mlist_abs_def iterate_rel)

lemma new_rel: "mlist_rel mlist_new [] []"
  by (simp add: mlist_rel_def mlist_new_def dll_def)

lemma grow_loop_spec:
  assumes "dll st free fs" "distinct (es @ fs)" "\<And>x. x \<in> set es \<Longrightarrow> st x = None"
  shows "\<exists>free' st'. grow_loop es free st = Inr (free', st') \<and> dll st' free' (rev es @ fs) \<and>
    (\<forall>x. x \<notin> set es \<union> set fs \<longrightarrow> st' x = st x) \<and> (\<forall>x \<in> set es. datas st' x = Some None) \<and>
    (\<forall>x. x \<notin> set es \<longrightarrow> datas st' x = datas st x)"
  using assms
proof (induction es arbitrary: free st fs)
  case Nil
  then show ?case by simp
next
  case (Cons e es)
  let ?n = "\<lparr>en_data = None, en_next = free, en_prev = None\<rparr>"
  let ?st1 = "st(e \<mapsto> ?n)"
  obtain lst where fs: "dseg st None free fs lst None" using Cons.prems(1) by (auto simp: dll_def)
  then have "dseg ?st1 None free fs lst None" using Cons.prems(2) by (subst dseg_upd_other) auto
  then obtain st2 lst' where st2: "set_prev free (Some e) ?st1 = Inr st2" "dseg st2 (Some e) free fs lst' None"
    "frame (set fs) ?st1 st2"
    using set_prev_spec [of ?st1 None free fs lst "Some e"] Cons.prems(2) by auto
  have e2: "st2 e = Some ?n" using st2(3) Cons.prems(2) by (simp add: frame_def)
  have "dll st2 (Some e) (e # fs)" using e2 st2(2) by (auto simp: dll_def)
  moreover have "distinct (es @ e # fs)" using Cons.prems(2) by auto
  moreover have "st2 x = None" if "x \<in> set es" for x
    using that Cons.prems(2,3) st2(3) by (auto simp: frame_def)
  ultimately obtain free' st' where g: "grow_loop es (Some e) st2 = Inr (free', st')"
    "dll st' free' (rev es @ e # fs)" "\<forall>x. x \<notin> set es \<union> set (e # fs) \<longrightarrow> st' x = st2 x"
    "\<forall>x \<in> set es. datas st' x = Some None" "\<forall>x. x \<notin> set es \<longrightarrow> datas st' x = datas st2 x"
    using Cons.IH [of st2 "Some e" "e # fs"] by auto
  have "datas st2 x = datas st x" if "x \<noteq> e" for x
    using that st2(3) by (simp add: frame_def datas_def)
  moreover have "datas st2 e = Some None" using e2 by (simp add: datas_def)
  moreover have "st2 x = st x" if "x \<notin> set (e # es) \<union> set fs" for x
    using that st2(3) by (auto simp: frame_def)
  ultimately show ?case
    using g st2(1) Cons.prems(2) by (auto simp: Let_def set_prev_def [symmetric])
qed

section \<open>The operations\<close>

lemma grow_rel:
  assumes "mlist_rel m ps fs"
  shows "\<exists>m'. grow n m = Inr m' \<and> mlist_rel m' ps (rev [ml_fresh m..<ml_fresh m + n] @ fs) \<and>
    ml_head m' = ml_head m"
proof -
  note r = mlist_relD [OF assms]
  let ?es = "[ml_fresh m..<ml_fresh m + n]"
  have lt: "x < ml_fresh m" if "x \<in> set fs \<or> x \<in> fst ` set ps" for x using r(6) that by auto
  have disj: "set ?es \<inter> (set fs \<union> fst ` set ps) = {}" using lt by fastforce
  then have dist: "distinct (?es @ fs)" using r(3) by auto
  then obtain free' st' where g: "grow_loop ?es (ml_free m) (ml_store m) = Inr (free', st')"
    "dll st' free' (rev ?es @ fs)" "\<forall>x. x \<notin> set ?es \<union> set fs \<longrightarrow> st' x = ml_store m x"
    "\<forall>x \<in> set ?es. datas st' x = Some None" "\<forall>x. x \<notin> set ?es \<longrightarrow> datas st' x = datas (ml_store m) x"
    using grow_loop_spec [OF r(2) dist] r(10) by auto
  have same: "st' x = ml_store m x" if "x \<in> set (map fst ps)" for x
    using that g(3) r(3,6) by (metis (no_types, lifting) Un_iff atLeastLessThan_iff disjoint_iff distinct_append
        linorder_not_le set_append set_upt)
  have "dll st' (ml_head m) (map fst ps)"
    using r(1) dll_cong [of "map fst ps" st' "ml_store m"] same by (simp add: links_def)
  moreover have "\<forall>(h, x) \<in> set ps. datas st' h = Some (Some x)"
    using r(4) same by (force simp: datas_def)
  moreover have "\<forall>f \<in> set (rev ?es @ fs). datas st' f = Some None" using g(4,5) r(5) by auto
  moreover have "distinct (map fst ps @ rev ?es @ fs)" using r(3) disj by auto
  moreover have "st' x = None" if "ml_fresh m + n \<le> x" for x
  proof -
    have "x \<notin> set ?es \<union> set fs" using that lt [of x] by auto
    then show ?thesis using that g(3) r(10) by simp
  qed
  moreover have "\<forall>x \<in> set (map fst ps @ rev ?es @ fs). x < ml_fresh m + n"
    by (auto intro: trans_less_add1 lt)
  ultimately have "mlist_rel (m\<lparr>ml_store := st', ml_free := free',
      ml_allocations := (ml_fresh m, n) # ml_allocations m,
      ml_capacity := ml_capacity m + n, ml_fresh := ml_fresh m + n\<rparr>) ps (rev ?es @ fs)"
    using g(2) r(6,7,8,9) unfolding mlist_rel_def by auto
  then show ?thesis using g(1) by (auto simp: grow_def)
qed

text \<open>Moving an entry from the free list to the front of the live list, and back.\<close>

lemma take_free_rel:
  assumes "mlist_rel m ps (f # fs)"
  shows "\<exists>st1 st2 free. unlink f (Some f) (ml_store m) = Inr (free, st1) \<and>
    link f (ml_head m) st1 = Inr (Some f, st2) \<and>
    (\<exists>e. st2 f = Some e \<and>
      mlist_rel (m\<lparr>ml_store := st2(f \<mapsto> e\<lparr>en_data := Some x\<rparr>), ml_free := free, ml_head := Some f,
        ml_size := ml_size m + 1\<rparr>) ((f, x) # ps) fs)"
proof -
  note r = mlist_relD [OF assms]
  have "ml_free m = Some f" using r(2) by (auto simp: dll_def)
  then obtain free st1 where u: "unlink f (Some f) (ml_store m) = Inr (free, st1)" "dll st1 free fs"
    "links st1 f = Some (None, None)" "frame (set (f # fs)) (ml_store m) st1"
    using unlink_spec [of "ml_store m" "Some f" "[]" f fs] r(2,3) by auto
  have dist: "distinct (f # map fst ps)" using r(3) by auto
  have "dll st1 (ml_head m) (map fst ps)"
    using r(3) by (intro dll_frame [OF r(1) u(4)]) auto
  then obtain st2 where l: "link f (ml_head m) st1 = Inr (Some f, st2)" "dll st2 (Some f) (f # map fst ps)"
    "frame (set (f # map fst ps)) st1 st2"
    using link_spec [OF u(3) _ dist] by blast
  have dat: "datas st2 y = datas (ml_store m) y" for y using frame_datas u(4) l(3) by metis
  then have "datas st2 f = Some None" using r(5) by simp
  then obtain e where e: "st2 f = Some e" by (auto simp: datas_def)
  let ?st3 = "st2(f \<mapsto> e\<lparr>en_data := Some x\<rparr>)"
  have lk: "links ?st3 y = links st2 y" for y using e by (simp add: links_def)
  have free: "dll ?st3 free fs"
  proof -
    have "links ?st3 y = links st1 y" if "y \<in> set fs" for y
    proof -
      have "y \<notin> set (f # map fst ps)" using that r(3) by (simp add: disjoint_iff) blast
      then show ?thesis using lk frame_links [OF l(3)] by simp
    qed
    then show ?thesis using u(2) dll_cong [of fs ?st3 st1] by simp
  qed
  have head: "dll ?st3 (Some f) (f # map fst ps)" using l(2) dll_cong [of "f # map fst ps" ?st3 st2] lk by simp
  have d3: "datas ?st3 y = (if y = f then Some (Some x) else datas (ml_store m) y)" for y
    using dat by (simp add: datas_def)
  have "?st3 y = None" if "ml_fresh m \<le> y" for y
    using dat [of y] r(10) that e r(6) by (auto simp: datas_def)
  moreover have "\<forall>(h, z) \<in> set ((f, x) # ps). datas ?st3 h = Some (Some z)" using d3 r(3,4) by force
  moreover have "\<forall>g \<in> set fs. datas ?st3 g = Some None" using d3 r(3,5) by auto
  ultimately have "mlist_rel (m\<lparr>ml_store := ?st3, ml_free := free, ml_head := Some f,
      ml_size := ml_size m + 1\<rparr>) ((f, x) # ps) fs"
    using free head r(3,6,7,8,9) unfolding mlist_rel_def by auto
  then show ?thesis using u(1) l(1) e by blast
qed

lemma emplace_rel:
  assumes "mlist_rel m ps fs"
  shows "\<exists>h m' fs'. emplace_front x m = Inr (h, m') \<and> mlist_rel m' ((h, x) # ps) fs'"
proof -
  obtain m1 f fs1 where m1: "(if ml_free m = None then grow (max (ml_capacity m) 8) m else Inr m) = Inr m1"
    "mlist_rel m1 ps (f # fs1)"
  proof (cases fs)
    case Nil
    let ?n = "max (ml_capacity m) 8"
    have "ml_free m = None" using mlist_relD(2) [OF assms] Nil by (auto simp: dll_def)
    moreover have "rev [ml_fresh m..<ml_fresh m + ?n] \<noteq> []" by auto
    ultimately show ?thesis using grow_rel [OF assms, of ?n] that Nil by (metis append_Nil2 neq_Nil_conv)
  next
    case (Cons f fs1)
    then have "ml_free m = Some f" using mlist_relD(2) [OF assms] by (auto simp: dll_def)
    with Cons assms that show ?thesis by simp
  qed
  have f: "ml_free m1 = Some f" using mlist_relD(2) [OF m1(2)] by (auto simp: dll_def)
  show ?thesis
    using take_free_rel [OF m1(2), of x] m1(1) f by (auto simp: emplace_front_def entry_upd_def)
qed

lemma erase_rel:
  assumes "mlist_rel m (as @ (h, x) # bs) fs"
  shows "\<exists>m'. mlist_erase h m = Inr m' \<and> mlist_rel m' (as @ bs) (h # fs)"
proof -
  note r = mlist_relD [OF assms]
  let ?A = "map fst as" and ?B = "map fst bs"
  have dist: "distinct (?A @ h # ?B)" using r(3) by auto
  obtain head st1 where u: "unlink h (ml_head m) (ml_store m) = Inr (head, st1)" "dll st1 head (?A @ ?B)"
    "links st1 h = Some (None, None)" "frame (set (?A @ h # ?B)) (ml_store m) st1"
    using unlink_spec [OF _ dist, of "ml_store m" "ml_head m"] r(1) by auto
  have "set fs \<inter> set (?A @ h # ?B) = {}" using r(3) by (simp add: disjoint_iff) blast
  then have fs: "dll st1 (ml_free m) fs" "distinct (h # fs)"
    using r(3) by (simp_all add: dll_frame [OF r(2) u(4)])
  obtain st2 where l: "link h (ml_free m) st1 = Inr (Some h, st2)" "dll st2 (Some h) (h # fs)"
    "frame (set (h # fs)) st1 st2"
    using link_spec [OF u(3) fs] by blast
  have dat: "datas st2 y = datas (ml_store m) y" for y using frame_datas u(4) l(3) by metis
  then have "datas st2 h = Some (Some x)" using r(4) by simp
  then obtain e where e: "st2 h = Some e" "en_data e = Some x" by (auto simp: datas_def)
  let ?st3 = "st2(h \<mapsto> e\<lparr>en_data := None\<rparr>)"
  have lk: "links ?st3 y = links st2 y" for y using e by (simp add: links_def)
  have live: "dll ?st3 head (?A @ ?B)"
  proof -
    have "links ?st3 y = links st1 y" if "y \<in> set (?A @ ?B)" for y
    proof -
      have "y \<notin> set (h # fs)" using that r(3) by (simp add: disjoint_iff) blast
      then show ?thesis using lk frame_links [OF l(3)] by simp
    qed
    then show ?thesis using u(2) dll_cong [of "?A @ ?B" ?st3 st1] by simp
  qed
  have free: "dll ?st3 (Some h) (h # fs)" using l(2) dll_cong [of "h # fs" ?st3 st2] lk by simp
  have d3: "datas ?st3 y = (if y = h then Some None else datas (ml_store m) y)" for y
    using dat by (simp add: datas_def)
  have "?st3 y = None" if "ml_fresh m \<le> y" for y
    using dat [of y] r(10) that e r(6) by (auto simp: datas_def)
  moreover have "\<forall>(g, z) \<in> set (as @ bs). datas ?st3 g = Some (Some z)"
  proof (rule ballI, clarify)
    fix g z assume gz: "(g, z) \<in> set (as @ bs)"
    then have "g \<in> set (?A @ ?B)" by force
    then have "g \<noteq> h" using dist by auto
    moreover have "datas (ml_store m) g = Some (Some z)" using r(4) gz by auto
    ultimately show "datas ?st3 g = Some (Some z)" using d3 by simp
  qed
  moreover have "\<forall>g \<in> set (h # fs). datas ?st3 g = Some None" using d3 r(5) by auto
  moreover have "distinct (map fst (as @ bs) @ h # fs)" using r(3) by auto
  ultimately have "mlist_rel (m\<lparr>ml_store := ?st3, ml_head := head, ml_free := Some h,
      ml_size := ml_size m - 1\<rparr>) (as @ bs) (h # fs)"
    using live free r(6,7,8,9) unfolding mlist_rel_def by auto
  then show ?thesis
    using u(1) l(1) e by (auto simp: mlist_erase_def entry_get_def entry_upd_def)
qed

lemma erase_rel_handle:
  assumes "mlist_rel m ps fs" "h \<in> fst ` set ps"
  shows "\<exists>m'. mlist_erase h m = Inr m' \<and> mlist_rel m' (filter (\<lambda>e. fst e \<noteq> h) ps) (h # fs)"
proof -
  obtain x where "(h, x) \<in> set ps" using assms(2) by auto
  then obtain as bs where ps: "ps = as @ (h, x) # bs" by (metis in_set_conv_decomp)
  have "h \<notin> fst ` set as" "h \<notin> fst ` set bs" using mlist_relD(3) [OF assms(1)] ps by auto
  then have "filter (\<lambda>e. fst e \<noteq> h) as = as" "filter (\<lambda>e. fst e \<noteq> h) bs = bs" by (auto intro!: filter_True)
  then have "filter (\<lambda>e. fst e \<noteq> h) ps = as @ bs" using ps by simp
  then show ?thesis using erase_rel [of m as h x bs fs] assms(1) ps by simp
qed

interpretation mlist: handle_list mlist_inv mlist_abs mlist_new emplace_front mlist_erase
proof (unfold_locales, goal_cases)
  case 1
  show ?case using new_rel by (auto simp: mlist_inv_def)
next
  case 2
  show ?case by (rule abs_rel [OF new_rel])
next
  case (3 m)
  then show ?case using mlist_relD(3) abs_rel by (fastforce simp: mlist_inv_def)
next
  case (4 m x)
  then obtain ps fs where r: "mlist_rel m ps fs" by (auto simp: mlist_inv_def)
  then obtain h m' fs' where "emplace_front x m = Inr (h, m')" "mlist_rel m' ((h, x) # ps) fs'"
    using emplace_rel [OF r, of x] by blast
  with r show ?case by (auto simp: mlist_inv_def abs_rel)
next
  case (5 m h)
  then obtain ps fs where r: "mlist_rel m ps fs" by (auto simp: mlist_inv_def)
  then obtain m' where "mlist_erase h m = Inr m'" "mlist_rel m' (filter (\<lambda>e. fst e \<noteq> h) ps) (h # fs)"
    using erase_rel_handle [OF r, of h] 5(2) abs_rel [OF r] by auto
  with r show ?case by (auto simp: mlist_inv_def abs_rel)
qed

section \<open>Properties\<close>

text \<open>The uses of a list: \<open>emplace_front\<close>, and \<open>erase\<close> of an iterator to a live element.\<close>

inductive list_step :: "'a mlist \<Rightarrow> 'a mlist result \<Rightarrow> bool" where
  ls_emplace: "list_step m (rbind (emplace_front x m) (\<lambda>r. Inr (snd r)))"
| ls_erase: "h \<in> fst ` set (mlist_abs m) \<Longrightarrow> list_step m (mlist_erase h m)"

abbreviation list_reach :: "'a mlist \<Rightarrow> bool" where
  "list_reach \<equiv> reach (\<lambda>m. m = mlist_new) list_step"

interpretation list_system: invariant_system "\<lambda>m. m = mlist_new" list_step mlist_inv
proof (unfold_locales, goal_cases)
  case (1 s)
  then show ?case using mlist.inv_empty by simp
next
  case (2 s r)
  from 2(2,1) show ?case
  proof cases
    case (ls_emplace x)
    then show ?thesis using mlist.emplace_law [OF 2(1), of x] by auto
  next
    case (ls_erase h)
    then show ?thesis using mlist.erase_law [OF 2(1), of h] by auto
  qed
qed

lemma list_reach_rel:
  assumes "list_reach m"
  obtains fs where "mlist_rel m (mlist_abs m) fs"
  using list_system.reach_inv [OF assms] abs_rel that by (auto simp: mlist_inv_def)

text \<open>C35. The linked list is a list with stable handles. After any sequence of insertions and erasures of live
  elements, over any number of chunks: iterating from \<open>begin()\<close> ends and gives the elements with \<open>size()\<close> entries;
  \<open>emplace_front\<close> succeeds, gives a handle not in use and puts the element in front; \<open>erase\<close> of any live
  handle, wherever it is, succeeds and removes just that element; no assertion of \<open>link\<close> fails. The destructor
  destroys each live object once, and the chunks it returns have room for all entries.\<close>

theorem list_refines:
  assumes "list_reach m"
  shows "mlist_iterate m = Some (Inr (mlist_abs m)) \<and> ml_size m = length (mlist_abs m) \<and>
    (\<forall>x. \<exists>h m'. emplace_front x m = Inr (h, m') \<and> h \<notin> fst ` set (mlist_abs m) \<and>
       mlist_iterate m' = Some (Inr ((h, x) # mlist_abs m))) \<and>
    (\<forall>h \<in> fst ` set (mlist_abs m). \<exists>m'. mlist_erase h m = Inr m' \<and>
       mlist_iterate m' = Some (Inr (filter (\<lambda>e. fst e \<noteq> h) (mlist_abs m)))) \<and>
    mlist_destruct m = Some (Inr (mlist_abs m, ml_allocations m)) \<and>
    ml_size m \<le> sum_list (map snd (ml_allocations m))"
proof -
  obtain fs where r: "mlist_rel m (mlist_abs m) fs" by (rule list_reach_rel [OF assms])
  have "\<exists>h m'. emplace_front x m = Inr (h, m') \<and> h \<notin> fst ` set (mlist_abs m) \<and>
      mlist_iterate m' = Some (Inr ((h, x) # mlist_abs m))" for x
  proof -
    obtain h m' fs' where e: "emplace_front x m = Inr (h, m')" "mlist_rel m' ((h, x) # mlist_abs m) fs'"
      using emplace_rel [OF r] by blast
    then show ?thesis
      using iterate_rel [OF e(2)] mlist.emplace_fresh(1) [OF _ e(1)] r by (auto simp: mlist_inv_def)
  qed
  moreover have "\<exists>m'. mlist_erase h m = Inr m' \<and>
      mlist_iterate m' = Some (Inr (filter (\<lambda>e. fst e \<noteq> h) (mlist_abs m)))"
    if "h \<in> fst ` set (mlist_abs m)" for h
    using erase_rel_handle [OF r that] iterate_rel by blast
  ultimately show ?thesis
    using iterate_rel [OF r] mlist_relD(7-9) [OF r] by (simp add: mlist_destruct_def)
qed

theorem list_refines_witness:
  "\<exists>h m. emplace_front (7 :: nat) mlist_new = Inr (h, m) \<and> mlist_iterate m = Some (Inr [(h, 7)]) \<and>
     (\<exists>m'. mlist_erase h m = Inr m' \<and> mlist_iterate m' = Some (Inr []))"
proof -
  have new: "list_reach (mlist_new :: nat mlist)" by (rule reach_init) simp
  have abs: "mlist_abs (mlist_new :: nat mlist) = []" by (rule mlist.abs_empty)
  obtain h m where e: "emplace_front (7 :: nat) mlist_new = Inr (h, m)" "mlist_iterate m = Some (Inr [(h, 7)])"
    using list_refines [OF new, unfolded abs] by blast
  then have "list_reach m"
    using reach_step [OF new, of m] ls_emplace [of "mlist_new" "7 :: nat"] by simp
  moreover have "mlist_abs m = [(h, 7)]" using e(2) by (simp add: mlist_abs_def)
  ultimately show ?thesis using list_refines [of m] e by auto
qed

end
