(* ===== verification/Thread_Model.thy ===== *)
theory Thread_Model
  imports Vector_Proofs
begin

text \<open>
  Threads and their affinity (\<open>thread.hpp\<close>, \<open>thread.cpp\<close>).

  A core is a 16-bit index. An affinity is the list of the cores in its vector: its operations use
  the vector as the sequence that \<open>Vector_Proofs\<close> shows it to be, except that \<open>remove\<close> resizes it by one,
  which is \<open>butlast\<close>. What the system answers (the processors on which the calling thread may run, the number of
  processors) is an argument. A \<open>Thread\<close> owns the implementation object of one running thread or none.
\<close>

section \<open>Cores\<close>

datatype core = Core (core_index: "16 word")

instantiation core :: linorder
begin

definition less_eq_core :: "core \<Rightarrow> core \<Rightarrow> bool" where
  "less_eq_core a b \<longleftrightarrow> core_index a \<le> core_index b"

definition less_core :: "core \<Rightarrow> core \<Rightarrow> bool" where
  "less_core a b \<longleftrightarrow> core_index a < core_index b"

instance
  by standard (auto simp: less_eq_core_def less_core_def core.expand)

end

section \<open>Affinity\<close>

type_synonym affinity = "core list"

text \<open>\<open>all\<close>: \<open>cpus\<close> are the processors in the set that \<open>pthread_getaffinity_np\<close> fills in, or \<open>None\<close> if it fails.\<close>

definition affinity_all :: "nat list option \<Rightarrow> affinity" where
  "affinity_all cpus =
     (case cpus of None \<Rightarrow> [] | Some cs \<Rightarrow> map (\<lambda>i. Core (of_nat i)) [0..<length (remdups cs)])"

definition affinity_of_list :: "core list \<Rightarrow> affinity" where
  "affinity_of_list core_list = foldl (\<lambda>cores c. cores @ [c]) [] core_list"

definition affinity_copy :: "affinity \<Rightarrow> affinity" where
  "affinity_copy other = other"

definition affinity_count :: "affinity \<Rightarrow> nat" where
  "affinity_count a = length a"

definition affinity_get :: "nat \<Rightarrow> affinity \<Rightarrow> core result" where
  "affinity_get i a =
     rbind (marl_assert (i < length a) ''index exceeds vector size'') (\<lambda>_. Inr (a ! i))"

text \<open>\<open>add\<close>: the set of the cores is filled once, before the loop.\<close>

fun add_loop :: "core set \<Rightarrow> core list \<Rightarrow> affinity \<Rightarrow> affinity" where
  "add_loop st [] cores = cores"
| "add_loop st (c # cs) cores = add_loop st cs (if c \<in> st then cores else cores @ [c])"

definition affinity_add :: "affinity \<Rightarrow> affinity \<Rightarrow> affinity" where
  "affinity_add other cores = sort (add_loop (set cores) other cores)"

text \<open>\<open>remove\<close>: the last core takes the place of a removed one, and the index goes on.\<close>

function remove_loop :: "core set \<Rightarrow> nat \<Rightarrow> affinity \<Rightarrow> affinity" where
  "remove_loop st i cores =
     (if i < length cores
      then if cores ! i \<in> st
           then remove_loop st (i + 1) (butlast (cores[i := last cores]))
           else remove_loop st (i + 1) cores
      else cores)"
  by pat_completeness auto
termination by (relation "measure (\<lambda>(st, i, cores). length cores - i)") auto

declare remove_loop.simps [simp del]

definition affinity_remove :: "affinity \<Rightarrow> affinity \<Rightarrow> affinity" where
  "affinity_remove other cores = sort (remove_loop (set other) 0 cores)"

text \<open>The two policies: what \<open>get(thread_id)\<close> returns.\<close>

datatype policy = AnyOf affinity | OneOf affinity

fun policy_get :: "policy \<Rightarrow> 32 word \<Rightarrow> affinity result" where
  "policy_get (AnyOf a) thread_id = Inr (affinity_copy a)"
| "policy_get (OneOf a) thread_id =
     (if affinity_count a = 0 then Inr (affinity_copy a)
      else rbind (affinity_get (unat thread_id mod affinity_count a) a) (\<lambda>c. Inr (affinity_of_list [c])))"

section \<open>Threads\<close>

text \<open>The implementation object of a thread: its affinity, whether it runs, and the processors it was put on.\<close>

record thread_impl =
  ti_affinity :: affinity
  ti_joinable :: bool
  ti_mask :: "core set option"

text \<open>A handle: \<open>None\<close> for a null \<open>impl\<close>.\<close>

type_synonym thread_handle = "thread_impl option"

definition setAffinity :: "thread_impl \<Rightarrow> thread_impl" where
  "setAffinity t = (if affinity_count (ti_affinity t) = 0 then t
     else t\<lparr>ti_mask := Some (set (ti_affinity t))\<rparr>)"

definition thread_new :: "affinity \<Rightarrow> thread_handle" where
  "thread_new a = Some (setAffinity \<lparr>ti_affinity = a, ti_joinable = True, ti_mask = None\<rparr>)"

definition thread_default :: thread_handle where
  "thread_default = None"

text \<open>The new handle and the one moved from.\<close>

definition thread_move :: "thread_handle \<Rightarrow> thread_handle \<times> thread_handle" where
  "thread_move other = (other, None)"

text \<open>\<open>delete impl\<close> destroys a \<open>std::thread\<close>, which ends the process if the thread is joinable.\<close>

definition impl_delete :: "thread_impl \<Rightarrow> unit result" where
  "impl_delete t = (if ti_joinable t then Inl (Fatal ''std::terminate'') else Inr ())"

definition thread_assign :: "thread_handle \<Rightarrow> thread_handle \<Rightarrow> (thread_handle \<times> thread_handle) result" where
  "thread_assign lhs rhs =
     rbind (case lhs of None \<Rightarrow> Inr () | Some t \<Rightarrow> impl_delete t) (\<lambda>_. Inr (rhs, None))"

definition thread_join :: "thread_handle \<Rightarrow> thread_handle result" where
  "thread_join h =
     (case h of
        None \<Rightarrow> Inl BadAccess
      | Some t \<Rightarrow> rbind (impl_delete (t\<lparr>ti_joinable := False\<rparr>)) (\<lambda>_. Inr None))"

definition thread_destruct :: "thread_handle \<Rightarrow> unit result" where
  "thread_destruct h = marl_assert (h = None) ''Thread::join() was not called before destruction''"

section \<open>Lemmas\<close>

lemma add_loop_eq: "add_loop st cs cores = cores @ filter (\<lambda>c. c \<notin> st) cs"
  by (induction cs arbitrary: cores) auto

lemma butlast_swap:
  assumes "i < length xs"
  shows "add_mset (xs ! i) (mset (butlast (xs[i := last xs]))) = mset xs"
proof -
  have ne: "xs \<noteq> []" using assms by auto
  then have "last (xs[i := last xs]) = last xs" by (simp add: last_list_update)
  then have "butlast (xs[i := last xs]) @ [last xs] = xs[i := last xs]"
    using append_butlast_last_id [of "xs[i := last xs]"] ne by simp
  then have "add_mset (last xs) (mset (butlast (xs[i := last xs]))) = mset (xs[i := last xs])"
    by (metis add_mset_add_single mset.simps(1,2) mset_append)
  then have "add_mset (last xs) (add_mset (xs ! i) (mset (butlast (xs[i := last xs])))) = add_mset (last xs) (mset xs)"
    using assms by (simp add: mset_update add_mset_commute)
  then show ?thesis by (simp only: add_mset_add_mset_same_iff)
qed

lemma remove_loop_mset:
  "mset (remove_loop st i cores) \<subseteq># mset cores \<and>
   filter_mset (\<lambda>c. c \<notin> st) (mset (remove_loop st i cores)) = filter_mset (\<lambda>c. c \<notin> st) (mset cores)"
proof (induction st i cores rule: remove_loop.induct)
  case (1 st i cores)
  show ?case
  proof (cases "i < length cores \<and> cores ! i \<in> st")
    case True
    let ?c = "butlast (cores[i := last cores])"
    have "remove_loop st i cores = remove_loop st (i + 1) ?c"
      using True by (subst remove_loop.simps) simp
    moreover have eq: "add_mset (cores ! i) (mset ?c) = mset cores" using butlast_swap True by blast
    then have "mset ?c \<subseteq># mset cores" by (metis add_mset_add_single mset_subset_eq_add_left)
    moreover have "filter_mset (\<lambda>c. c \<notin> st) (mset ?c) = filter_mset (\<lambda>c. c \<notin> st) (mset cores)"
      using True by (simp flip: eq)
    ultimately show ?thesis using 1(1) True by (auto intro: subset_mset.order_trans)
  next
    case False
    then show ?thesis using 1(2) by (subst (1 2) remove_loop.simps) auto
  qed
qed

section \<open>Properties\<close>

text \<open>\<open>Affinity::add\<close> gives the sorted union: the cores of both, those that were there with their multiplicity and
  those of the other affinity that were not.\<close>

theorem affinity_add_union:
  "sorted (affinity_add other cores) \<and> set (affinity_add other cores) = set cores \<union> set other \<and>
   mset (affinity_add other cores) = mset cores + filter_mset (\<lambda>c. c \<notin> set cores) (mset other)"
  by (auto simp: affinity_add_def add_loop_eq)

text \<open>What \<open>Affinity::remove\<close> guarantees: the result is sorted, adds no core, and keeps every core that is not
  in the other affinity. It need not remove the others: the core that takes the place of a removed one is not looked
  at again, so that from two cores both to be removed the second stays.\<close>

theorem affinity_remove_keeps:
  "sorted (affinity_remove other cores) \<and> mset (affinity_remove other cores) \<subseteq># mset cores \<and>
   filter_mset (\<lambda>c. c \<notin> set other) (mset (affinity_remove other cores)) =
     filter_mset (\<lambda>c. c \<notin> set other) (mset cores) \<and>
   affinity_remove [c, d] [c, d] = [d]"
proof -
  have "remove_loop {c, d} 0 [c, d] = [d]"
    by (simp add: remove_loop.simps)
  then show ?thesis using remove_loop_mset [of "set other" 0 cores] by (simp add: affinity_remove_def)
qed

text \<open>The policies: \<open>anyOf\<close> gives every thread all cores, \<open>oneOf\<close> gives thread \<open>i\<close> one core, the one at \<open>i\<close> modulo the
  number of cores, so that it never fails and any run of consecutive threads as long as the affinity gets each
  position once.\<close>

theorem policy_get_spec:
  "policy_get (AnyOf a) i = Inr a \<and>
   policy_get (OneOf a) i = Inr (if a = [] then [] else [a ! (unat i mod length a)]) \<and>
   (a = [] \<or> mset (map (\<lambda>j. a ! ((k + j) mod length a)) [0..<length a]) = mset a)"
proof -
  have "mset (map (\<lambda>j. a ! ((k + j) mod length a)) [0..<length a]) = mset a" if "a \<noteq> []"
  proof -
    have "map (\<lambda>j. a ! ((k + j) mod length a)) [0..<length a] = rotate k a"
      using that by (intro nth_equalityI) (simp_all add: nth_rotate)
    moreover have "mset (rotate k a) = mset a"
      unfolding rotate_drop_take by (metis append_take_drop_id mset_append union_commute)
    ultimately show ?thesis by simp
  qed
  then show ?thesis
    by (auto simp: affinity_copy_def affinity_get_def affinity_count_def affinity_of_list_def)
qed

end
