(* ===== verification/Scheduler_Model.thy ===== *)
theory Scheduler_Model
  imports Worker_Model Thread_Model
begin

unbundle bit_operations_syntax

text \<open>
  \<open>marl::Scheduler\<close> itself (\<open>scheduler.hpp\<close>, \<open>scheduler.cpp\<close> 42--240): its configuration, the choice of the worker that
  gets a task, work stealing between workers, and binding of threads.

  The array \<open>worker_threads_\<close> has 256 places; \<open>None\<close> is a null pointer. The atomic indices are 32-bit
  words and wrap. \<open>Worker::current\<close> and \<open>Scheduler::bound\<close> are thread-local: \<open>sch_current\<close> gives the worker of
  every thread bound to this scheduler, a worker thread or the single-threaded worker of a bound
  thread. Whether \<open>tryLock\<close> of a worker succeeds depends on the other threads; \<open>enqueue\<close> takes the
  answers in order and has no result (\<open>None\<close>) as long as none was positive.
\<close>

section \<open>Configuration\<close>

record config =
  cfg_count :: int
  cfg_initializer :: bool
  cfg_affinity_policy :: "policy option"
  cfg_fiber_stack_size :: "64 word"

definition config_default :: config where
  "config_default = \<lparr>cfg_count = 0, cfg_initializer = False, cfg_affinity_policy = None,
     cfg_fiber_stack_size = 1024 * 1024\<rparr>"

definition setFiberStackSize :: "64 word \<Rightarrow> config \<Rightarrow> config" where
  "setFiberStackSize n c = c\<lparr>cfg_fiber_stack_size := n\<rparr>"

definition setWorkerThreadCount :: "int \<Rightarrow> config \<Rightarrow> config" where
  "setWorkerThreadCount n c = c\<lparr>cfg_count := n\<rparr>"

definition setWorkerThreadInitializer :: "bool \<Rightarrow> config \<Rightarrow> config" where
  "setWorkerThreadInitializer i c = c\<lparr>cfg_initializer := i\<rparr>"

definition setWorkerThreadAffinityPolicy :: "policy option \<Rightarrow> config \<Rightarrow> config" where
  "setWorkerThreadAffinityPolicy p c = c\<lparr>cfg_affinity_policy := p\<rparr>"

definition allCores :: "int \<Rightarrow> config" where
  "allCores numLogicalCPUs = setWorkerThreadCount numLogicalCPUs config_default"

definition setConfigDefaults :: "nat list option \<Rightarrow> config \<Rightarrow> config" where
  "setConfigDefaults cpus c =
     (if 0 < cfg_count c \<and> cfg_affinity_policy c = None
      then c\<lparr>cfg_affinity_policy := Some (AnyOf (affinity_all cpus))\<rparr>
      else c)"

section \<open>State\<close>

definition MaxWorkerThreads :: nat where
  "MaxWorkerThreads = 256"

datatype wref = WThread nat | WSingle nat

record 'u scheduler =
  sch_cfg :: config
  sch_spinning :: "int list"
  sch_next_spinning :: "32 word"
  sch_next_enqueue :: "32 word"
  sch_workers :: "'u worker option list"
  sch_by_tid :: "nat \<Rightarrow> 'u worker option"
  sch_current :: "nat \<Rightarrow> wref option"

fun create_workers :: "nat list \<Rightarrow> 'u worker option list \<Rightarrow> 'u worker option list result" where
  "create_workers [] ws = Inr ws"
| "create_workers (i # is) ws =
     (if i < length ws then create_workers is (ws[i := Some (worker_start MultiThreaded (of_nat i))])
      else Inl OutOfBounds)"

definition scheduler_new :: "nat list option \<Rightarrow> config \<Rightarrow> 'u scheduler result" where
  "scheduler_new cpus c =
     (let cfg = setConfigDefaults cpus c in
      rbind (create_workers [0..<nat (cfg_count cfg)] (replicate MaxWorkerThreads None)) (\<lambda>ws.
      Inr \<lparr>sch_cfg = cfg, sch_spinning = replicate 8 (- 1), sch_next_spinning = 0x8000000,
           sch_next_enqueue = 0, sch_workers = ws, sch_by_tid = (\<lambda>_. None), sch_current = (\<lambda>_. None)\<rparr>))"

text \<open>The worker behind a reference, and its update.\<close>

definition worker_at :: "wref \<Rightarrow> 'u scheduler \<Rightarrow> 'u worker result" where
  "worker_at r s =
     (case r of
        WThread i \<Rightarrow>
          if i < length (sch_workers s)
          then (case sch_workers s ! i of Some w \<Rightarrow> Inr w | None \<Rightarrow> Inl BadAccess)
          else Inl OutOfBounds
      | WSingle tid \<Rightarrow> (case sch_by_tid s tid of Some w \<Rightarrow> Inr w | None \<Rightarrow> Inl BadAccess))"

definition set_worker :: "wref \<Rightarrow> 'u worker \<Rightarrow> 'u scheduler \<Rightarrow> 'u scheduler" where
  "set_worker r w s =
     (case r of
        WThread i \<Rightarrow> s\<lparr>sch_workers := (sch_workers s)[i := Some w]\<rparr>
      | WSingle tid \<Rightarrow> s\<lparr>sch_by_tid := (sch_by_tid s)(tid \<mapsto> w)\<rparr>)"

section \<open>Enqueueing tasks\<close>

definition give_task :: "'u body task \<Rightarrow> wref \<Rightarrow> 'u scheduler \<Rightarrow> 'u scheduler result" where
  "give_task task r s = rbind (worker_at r s) (\<lambda>w. Inr (set_worker r (fst (enqueueAndUnlock task w)) s))"

text \<open>One round of the loop: the index of the chosen worker.\<close>

definition choose_worker :: "'u scheduler \<Rightarrow> int \<times> 'u scheduler" where
  "choose_worker s =
     (let nxt = sch_next_spinning s - 1;
          i = unat nxt mod 8;
          idx = sch_spinning s ! i;
          s1 = s\<lparr>sch_next_spinning := nxt, sch_spinning := (sch_spinning s)[i := - 1]\<rparr>
      in if idx < 0
         then (int (unat (sch_next_enqueue s1)) mod cfg_count (sch_cfg s1),
               s1\<lparr>sch_next_enqueue := sch_next_enqueue s1 + 1\<rparr>)
         else (idx, s1))"

fun enqueue_loop :: "bool list \<Rightarrow> 'u body task \<Rightarrow> 'u scheduler \<Rightarrow> 'u scheduler result option" where
  "enqueue_loop [] task s = None"
| "enqueue_loop (locked # ls) task s =
     (let (idx, s1) = choose_worker s in
      case worker_at (WThread (nat idx)) s1 of
        Inl e \<Rightarrow> Some (Inl e)
      | Inr w \<Rightarrow>
          if locked then Some (give_task task (WThread (nat idx)) s1) else enqueue_loop ls task s1)"

definition scheduler_enqueue ::
  "nat \<Rightarrow> bool list \<Rightarrow> 'u body task \<Rightarrow> 'u scheduler \<Rightarrow> 'u scheduler result option" where
  "scheduler_enqueue tid locks task s =
     (if task_is task SameThread
      then Some (case sch_current s tid of None \<Rightarrow> Inl BadAccess | Some r \<Rightarrow> give_task task r s)
      else if 0 < cfg_count (sch_cfg s) then enqueue_loop locks task s
      else Some (case sch_current s tid of
                   None \<Rightarrow> Inl (Fatal ''singleThreadedWorker not found'')
                 | Some r \<Rightarrow> give_task task r s))"

definition schedule :: "nat \<Rightarrow> bool list \<Rightarrow> 'u body task \<Rightarrow> 'u scheduler \<Rightarrow> 'u scheduler result option" where
  "schedule tid locks task s =
     (if sch_current s tid = None then Some (Inl (AssertFailed ''marl::schedule requires a marl::Scheduler to be bound''))
      else scheduler_enqueue tid locks task s)"

definition onBeginSpinning :: "int \<Rightarrow> 'u scheduler \<Rightarrow> 'u scheduler" where
  "onBeginSpinning worker_id s =
     (let idx = unat (sch_next_spinning s) mod 8
      in s\<lparr>sch_next_spinning := sch_next_spinning s + 1,
           sch_spinning := (sch_spinning s)[idx := worker_id]\<rparr>)"

text \<open>\<open>stealWork\<close>: a worker is identified by its index; \<open>locked\<close> is whether \<open>try_lock\<close> of the victim succeeds.\<close>

definition stealWork ::
  "nat \<Rightarrow> 64 word \<Rightarrow> bool \<Rightarrow> 'u scheduler \<Rightarrow> ('u scheduler \<times> 'u body task option) result" where
  "stealWork thief from locked s =
     (if 0 < cfg_count (sch_cfg s)
      then let i = unat from mod nat (cfg_count (sch_cfg s)) in
           rbind (worker_at (WThread i) s) (\<lambda>w.
           if i \<noteq> thief
           then let (w', t) = steal locked w in Inr (set_worker (WThread i) w' s, t)
           else Inr (s, None))
      else Inr (s, None))"

text \<open>\<open>FaskRnd\<close>, the generator that picks the victims in \<open>spinForWork\<close>.\<close>

definition fask_rnd :: "64 word \<Rightarrow> 64 word" where
  "fask_rnd x =
     (let x1 = x XOR push_bit 13 x;
          x2 = x1 XOR drop_bit 7 x1
      in x2 XOR push_bit 17 x2)"

section \<open>Binding threads\<close>

definition sched_bind :: "nat \<Rightarrow> 'u scheduler \<Rightarrow> 'u scheduler result" where
  "sched_bind tid s =
     rbind (marl_assert (sch_current s tid = None) ''Scheduler already bound'') (\<lambda>_.
     Inr (s\<lparr>sch_by_tid := (sch_by_tid s)(tid := (case sch_by_tid s tid of
                             None \<Rightarrow> Some (worker_start SingleThreaded (- 1)) | Some w \<Rightarrow> Some w)),
            sch_current := (sch_current s)(tid \<mapsto> WSingle tid)\<rparr>))"

text \<open>The thread of worker \<open>i\<close> binds itself when it starts and clears \<open>Worker::current\<close> when \<open>run\<close> has returned.\<close>

definition worker_thread_begin :: "nat \<Rightarrow> nat \<Rightarrow> 'u scheduler \<Rightarrow> 'u scheduler" where
  "worker_thread_begin tid i s = s\<lparr>sch_current := (sch_current s)(tid \<mapsto> WThread i)\<rparr>"

definition worker_thread_end :: "nat \<Rightarrow> 'u scheduler \<Rightarrow> 'u scheduler" where
  "worker_thread_end tid s = s\<lparr>sch_current := (sch_current s)(tid := None)\<rparr>"

text \<open>
  \<open>unbind\<close> up to the point where \<open>worker->stop()\<close> enters \<open>runUntilShutdown\<close>: the worker to be unbound and the state. The
  loop is the one of \<open>Worker_Model\<close>, and \<open>sched_unbind_finish\<close> is what follows when it has returned; its second component is
  whether the destructor is notified. \<open>tids\<close> are the threads that may be bound. On a worker thread \<open>stop\<close> would join the thread
  that calls it.
\<close>

definition sched_unbind_stop :: "nat \<Rightarrow> 'u scheduler \<Rightarrow> (wref \<times> 'u scheduler) result" where
  "sched_unbind_stop tid s =
     (case sch_current s tid of
        None \<Rightarrow> Inl (AssertFailed ''No scheduler bound'')
      | Some (WThread i) \<Rightarrow> Inl (Fatal ''a thread joins itself'')
      | Some (WSingle t) \<Rightarrow>
          rbind (worker_at (WSingle t) s) (\<lambda>w. Inr (WSingle t, set_worker (WSingle t) (stop_single w) s)))"

definition sched_unbind_finish :: "nat list \<Rightarrow> nat \<Rightarrow> wref \<Rightarrow> 'u scheduler \<Rightarrow> ('u scheduler \<times> bool) result" where
  "sched_unbind_finish tids tid worker s =
     rbind (marl_assert (sch_by_tid s tid \<noteq> None) ''singleThreadedWorker not found'') (\<lambda>_.
     rbind (marl_assert (worker = WSingle tid) ''worker is not bound?'') (\<lambda>_.
     let s1 = s\<lparr>sch_by_tid := (sch_by_tid s)(tid := None), sch_current := (sch_current s)(tid := None)\<rparr>
     in Inr (s1, list_all (\<lambda>t. sch_by_tid s1 t = None) tids)))"

text \<open>\<open>unbind\<close> as a whole; \<open>w\<close> is the worker as \<open>runUntilShutdown\<close> has left it.\<close>

definition sched_unbind :: "nat list \<Rightarrow> nat \<Rightarrow> 'u worker \<Rightarrow> 'u scheduler \<Rightarrow> ('u scheduler \<times> bool) result" where
  "sched_unbind tids tid w s =
     rbind (sched_unbind_stop tid s) (\<lambda>(worker, s1). sched_unbind_finish tids tid worker (set_worker worker w s1))"

text \<open>The condition for which the destructor waits before it stops the worker threads, in the order from the last to
  the first, and destroys them in the same order.\<close>

definition destruct_ready :: "nat list \<Rightarrow> 'u scheduler \<Rightarrow> bool" where
  "destruct_ready tids s = list_all (\<lambda>t. sch_by_tid s t = None) tids"

definition destruct_order :: "'u scheduler \<Rightarrow> nat list" where
  "destruct_order s = rev [0..<nat (cfg_count (sch_cfg s))]"

end
