(* ===== verification/Scheduler_Proofs.thy ===== *)
theory Scheduler_Proofs
  imports Scheduler_Model
begin

unbundle bit_operations_syntax

text \<open>
  Properties of the scheduler: when its constructor stays inside the array of workers, that a task goes to exactly
  one existing worker, spinning workers first and otherwise in turn, that stealing loses no task, that the random
  generator does not get stuck, and the pairing of \<open>bind\<close> and \<open>unbind\<close>.
\<close>

section \<open>Invariant\<close>

definition wcount :: "'u scheduler \<Rightarrow> nat" where
  "wcount s = nat (cfg_count (sch_cfg s))"

lemma wcount_simps [simp]:
  "wcount (s\<lparr>sch_spinning := a\<rparr>) = wcount s" "wcount (s\<lparr>sch_next_spinning := b\<rparr>) = wcount s"
  "wcount (s\<lparr>sch_next_enqueue := b\<rparr>) = wcount s" "wcount (s\<lparr>sch_workers := ws\<rparr>) = wcount s"
  "wcount (s\<lparr>sch_by_tid := m\<rparr>) = wcount s" "wcount (s\<lparr>sch_current := n\<rparr>) = wcount s"
  by (simp_all add: wcount_def)

definition sched_ok :: "'u scheduler \<Rightarrow> bool" where
  "sched_ok s \<longleftrightarrow> 0 < wcount s \<and> wcount s \<le> MaxWorkerThreads \<and>
     length (sch_spinning s) = 8 \<and> (\<forall>x \<in> set (sch_spinning s). x < int (wcount s)) \<and>
     length (sch_workers s) = MaxWorkerThreads \<and> (\<forall>i < wcount s. sch_workers s ! i \<noteq> None)"

lemma sched_okD:
  assumes "sched_ok s"
  shows "0 < wcount s" "wcount s \<le> length (sch_workers s)" "length (sch_spinning s) = 8"
    "\<And>x. x \<in> set (sch_spinning s) \<Longrightarrow> x < int (wcount s)" "\<And>i. i < wcount s \<Longrightarrow> \<exists>w. sch_workers s ! i = Some w"
    "cfg_count (sch_cfg s) = int (wcount s)" "0 < cfg_count (sch_cfg s)"
  using assms by (auto simp: sched_ok_def wcount_def)

lemma worker_at_ok: "sched_ok s \<Longrightarrow> i < wcount s \<Longrightarrow> \<exists>w. worker_at (WThread i) s = Inr w \<and> sch_workers s ! i = Some w"
  using sched_okD(2,5) [of s] by (fastforce simp: worker_at_def)

lemma sched_ok_set_worker: "sched_ok s \<Longrightarrow> i < wcount s \<Longrightarrow> sched_ok (set_worker (WThread i) w s)"
  by (auto simp: sched_ok_def set_worker_def nth_list_update)

lemma mod8_less: "n mod 8 < (8 :: nat)"
  by simp

lemma choose_worker_ok:
  assumes "sched_ok s"
  obtains idx s1 where "choose_worker s = (int idx, s1)" "idx < wcount s" "sched_ok s1"
    "sch_workers s1 = sch_workers s" "sch_cfg s1 = sch_cfg s"
proof -
  note ok = sched_okD [OF assms]
  let ?i = "unat (sch_next_spinning s - 1) mod 8"
  let ?x = "sch_spinning s ! ?i"
  let ?s1 = "s\<lparr>sch_next_spinning := sch_next_spinning s - 1, sch_spinning := (sch_spinning s)[?i := - 1]\<rparr>"
  have x: "?x < int (wcount s)" using ok(3,4) mod8_less by simp
  have s1: "sched_ok ?s1"
    using assms set_update_subset_insert [of "sch_spinning s" ?i "- 1"] ok(1)
    by (auto simp: sched_ok_def)
  show ?thesis
  proof (cases "?x < 0")
    case True
    let ?n = "unat (sch_next_enqueue s) mod wcount s"
    let ?s2 = "?s1\<lparr>sch_next_enqueue := sch_next_enqueue s + 1\<rparr>"
    have "choose_worker s = (int ?n, ?s2)"
      using True ok(6) by (simp add: choose_worker_def Let_def zmod_int)
    moreover have "sched_ok ?s2" using s1 by (simp add: sched_ok_def)
    moreover have "?n < wcount s" using ok(1) by simp
    ultimately show ?thesis using that by simp
  next
    case False
    then have "choose_worker s = (int (nat ?x), ?s1)" by (simp add: choose_worker_def Let_def)
    moreover have "nat ?x < wcount s" using False x by simp
    ultimately show ?thesis by (rule that [OF _ _ s1]) simp_all
  qed
qed

lemma give_task_ok:
  assumes "sched_ok s" "i < wcount s"
  obtains w s' where "sch_workers s ! i = Some w" "give_task t (WThread i) s = Inr s'" "sched_ok s'"
    "sch_workers s' = (sch_workers s)[i := Some (fst (enqueueAndUnlock t w))]" "sch_cfg s' = sch_cfg s"
proof -
  obtain w where w: "worker_at (WThread i) s = Inr w" "sch_workers s ! i = Some w"
    using worker_at_ok [OF assms] by blast
  let ?s' = "s\<lparr>sch_workers := (sch_workers s)[i := Some (fst (enqueueAndUnlock t w))]\<rparr>"
  have "sched_ok ?s'"
    using assms by (auto simp: sched_ok_def nth_list_update)
  moreover have "give_task t (WThread i) s = Inr ?s'" using w(1) by (simp add: give_task_def set_worker_def)
  ultimately show ?thesis using that w(2) by simp
qed

text \<open>The worker at which the loop of \<open>enqueue\<close> ends.\<close>

fun enqueue_target :: "bool list \<Rightarrow> 'u scheduler \<Rightarrow> nat option" where
  "enqueue_target [] s = None"
| "enqueue_target (locked # ls) s =
     (let (idx, s1) = choose_worker s in if locked then Some (nat idx) else enqueue_target ls s1)"

lemma enqueue_target_some: "True \<in> set locks \<Longrightarrow> \<exists>j. enqueue_target locks s = Some j"
  by (induction locks arbitrary: s) (auto simp: Let_def split: prod.splits)

lemma enqueue_loop_target:
  assumes "sched_ok s" "enqueue_target locks s = Some i"
  shows "\<exists>w s'. enqueue_loop locks t s = Some (Inr s') \<and> i < wcount s \<and> sch_workers s ! i = Some w \<and>
    sch_workers s' = (sch_workers s)[i := Some (fst (enqueueAndUnlock t w))] \<and> sched_ok s' \<and> sch_cfg s' = sch_cfg s"
  using assms
proof (induction locks arbitrary: s)
  case Nil
  then show ?case by simp
next
  case (Cons l ls)
  obtain idx s1 where c: "choose_worker s = (int idx, s1)" "idx < wcount s" "sched_ok s1"
    "sch_workers s1 = sch_workers s" "sch_cfg s1 = sch_cfg s"
    by (rule choose_worker_ok [OF Cons.prems(1)])
  have cnt: "wcount s1 = wcount s" using c(5) by (simp add: wcount_def)
  obtain w where w: "worker_at (WThread idx) s1 = Inr w" using worker_at_ok [OF c(3)] c(2) cnt by metis
  show ?case
  proof (cases l)
    case True
    obtain v s' where g: "sch_workers s1 ! idx = Some v" "give_task t (WThread idx) s1 = Inr s'" "sched_ok s'"
      "sch_workers s' = (sch_workers s1)[idx := Some (fst (enqueueAndUnlock t v))]" "sch_cfg s' = sch_cfg s1"
      using c(2,3) cnt by (metis give_task_ok)
    have "enqueue_loop (l # ls) t s = Some (Inr s')" using True c(1) w g(2) by simp
    moreover have "i = idx" using True c(1) Cons.prems(2) by simp
    ultimately show ?thesis using g c(2,4,5) by auto
  next
    case False
    then have "enqueue_loop (l # ls) t s = enqueue_loop ls t s1" "enqueue_target ls s1 = Some i"
      using c(1) w Cons.prems(2) by simp_all
    then show ?thesis using Cons.IH [OF c(3)] c(4,5) cnt by auto
  qed
qed

lemma enqueue_loop_ok:
  assumes "sched_ok s" "True \<in> set locks"
  shows "\<exists>i w s'. enqueue_loop locks t s = Some (Inr s') \<and> i < wcount s \<and> sch_workers s ! i = Some w \<and>
    sch_workers s' = (sch_workers s)[i := Some (fst (enqueueAndUnlock t w))] \<and> sched_ok s'"
  using enqueue_loop_target [OF assms(1)] enqueue_target_some [OF assms(2), of s] by blast

section \<open>Construction\<close>

lemma create_workers_ok:
  "\<forall>i \<in> set is. i < length ws \<Longrightarrow> \<exists>ws'. create_workers is ws = Inr ws' \<and> length ws' = length ws \<and>
     (\<forall>i < length ws. (i \<in> set is \<longrightarrow> ws' ! i = Some (worker_start MultiThreaded (of_nat i))) \<and> (i \<notin> set is \<longrightarrow> ws' ! i = ws ! i))"
proof (induction "is" arbitrary: ws)
  case (Cons i "is")
  then obtain ws' where "create_workers is (ws[i := Some (worker_start MultiThreaded (of_nat i))]) = Inr ws'"
    "length ws' = length ws"
    "\<forall>j < length ws. (j \<in> set is \<longrightarrow> ws' ! j = Some (worker_start MultiThreaded (of_nat j))) \<and>
       (j \<notin> set is \<longrightarrow> ws' ! j = ws[i := Some (worker_start MultiThreaded (of_nat i))] ! j)"
    using Cons.IH [of "ws[i := Some (worker_start MultiThreaded (of_nat i))]"] by auto
  with Cons.prems show ?case by (auto simp: nth_list_update)
qed simp

lemma create_workers_out:
  "i \<in> set is \<Longrightarrow> length ws \<le> i \<Longrightarrow> create_workers is ws = Inl OutOfBounds"
  by (induction "is" arbitrary: ws) auto

text \<open>C38. The constructor with \<open>n\<close> worker threads stays inside of \<open>worker_threads_\<close> exactly if \<open>n\<close> is at most
  \<open>MaxWorkerThreads\<close>; it does not check. Then, for \<open>n\<close> above 0, the scheduler satisfies what \<open>enqueue\<close> and
  \<open>stealWork\<close> rely on.\<close>

theorem scheduler_new_iff:
  "(\<exists>s. scheduler_new cpus c = Inr (s :: 'u scheduler)) = (cfg_count c \<le> 256) \<and>
   (\<forall>s :: 'u scheduler. scheduler_new cpus c = Inr s \<longrightarrow> 0 < cfg_count c \<longrightarrow> sched_ok s)"
proof -
  have cnt: "cfg_count (setConfigDefaults cpus c) = cfg_count c" by (simp add: setConfigDefaults_def)
  show ?thesis
  proof (cases "cfg_count c \<le> 256")
    case True
    let ?n = "nat (cfg_count c)"
    have "\<forall>i \<in> set [0..<?n]. i < length (replicate 256 None :: 'u worker option list)" using True by auto
    then obtain ws :: "'u worker option list" where ws: "create_workers [0..<?n] (replicate 256 None) = Inr ws"
      "length ws = 256" "\<forall>i < 256. i \<in> set [0..<?n] \<longrightarrow> ws ! i = Some (worker_start MultiThreaded (of_nat i))"
      using create_workers_ok [of "[0..<?n]" "replicate 256 None"] by auto
    then show ?thesis
      using True cnt by (auto simp: scheduler_new_def Let_def MaxWorkerThreads_def sched_ok_def wcount_def)
  next
    case False
    then have "create_workers [0..<nat (cfg_count c)] (replicate 256 None :: 'u worker option list) = Inl OutOfBounds"
      by (intro create_workers_out [of 256]) auto
    then show ?thesis using False cnt by (simp add: scheduler_new_def Let_def MaxWorkerThreads_def)
  qed
qed

lemma scheduler_new_workers:
  assumes "scheduler_new cpus c = Inr (s :: 'u scheduler)"
  shows "cfg_count (sch_cfg s) = cfg_count c" "cfg_count c \<le> 256" "length (sch_workers s) = 256"
    "\<And>i. i < 256 \<Longrightarrow> sch_workers s ! i = (if i < nat (cfg_count c) then Some (worker_start MultiThreaded (of_nat i)) else None)"
    "sch_spinning s = replicate 8 (- 1)"
proof -
  have cnt: "cfg_count (setConfigDefaults cpus c) = cfg_count c" by (simp add: setConfigDefaults_def)
  let ?n = "nat (cfg_count c)" and ?none = "replicate 256 None :: 'u worker option list"
  show n: "cfg_count c \<le> 256"
  proof (rule ccontr)
    assume "\<not> cfg_count c \<le> 256"
    then have "create_workers [0..<?n] ?none = Inl OutOfBounds" by (intro create_workers_out [of 256]) auto
    then show False using assms cnt by (simp add: scheduler_new_def Let_def MaxWorkerThreads_def)
  qed
  then have "\<forall>i \<in> set [0..<?n]. i < length ?none" by auto
  then obtain ws where ws: "create_workers [0..<?n] ?none = Inr ws" "length ws = 256"
    "\<forall>i < 256. (i \<in> set [0..<?n] \<longrightarrow> ws ! i = Some (worker_start MultiThreaded (of_nat i))) \<and> (i \<notin> set [0..<?n] \<longrightarrow> ws ! i = ?none ! i)"
    using create_workers_ok [of "[0..<?n]" ?none] by auto
  then have s: "sch_workers s = ws" "sch_cfg s = setConfigDefaults cpus c" "sch_spinning s = replicate 8 (- 1)"
    using assms cnt by (auto simp: scheduler_new_def Let_def MaxWorkerThreads_def)
  then show "cfg_count (sch_cfg s) = cfg_count c" "length (sch_workers s) = 256" "sch_spinning s = replicate 8 (- 1)"
    using cnt ws(2) by simp_all
  show "sch_workers s ! i = (if i < ?n then Some (worker_start MultiThreaded (of_nat i)) else None)" if "i < 256" for i
    using s(1) ws(3) that by simp
qed

definition sched_example :: "nat scheduler" where
  "sched_example = (case scheduler_new None (setWorkerThreadCount 2 config_default) of Inr s \<Rightarrow> s)"

lemma sched_example_eq: "scheduler_new None (setWorkerThreadCount 2 config_default) = Inr sched_example"
  by (simp add: sched_example_def scheduler_new_def setConfigDefaults_def setWorkerThreadCount_def
      config_default_def MaxWorkerThreads_def upt_rec Let_def)

theorem scheduler_new_iff_witness: "sched_ok sched_example"
proof -
  have "0 < cfg_count (setWorkerThreadCount 2 config_default)"
    by (simp add: setWorkerThreadCount_def config_default_def)
  then show ?thesis
    using scheduler_new_iff [of None "setWorkerThreadCount 2 config_default", where 'u = nat] sched_example_eq by blast
qed

section \<open>Where tasks go\<close>

text \<open>As soon as one \<open>tryLock\<close> succeeds \<open>enqueue\<close> returns, and then it has appended the task to the
  queue of exactly one worker, an existing one, and left all others alone; the scheduler stays well-formed.\<close>

theorem enqueue_one_worker:
  assumes "sched_ok s" "True \<in> set locks" "\<not> task_is t SameThread"
  shows "\<exists>i w s'. scheduler_enqueue tid locks t s = Some (Inr s') \<and> i < wcount s \<and> sch_workers s ! i = Some w \<and>
    sch_workers s' = (sch_workers s)[i := Some (w\<lparr>work_tasks := work_tasks w @ [t], work_num := work_num w + 1\<rparr>)] \<and>
    sched_ok s'"
  using enqueue_loop_ok [OF assms(1,2), of t] assms(3) sched_okD(7) [OF assms(1)]
  by (simp add: scheduler_enqueue_def enqueueAndUnlock_def)

lemma sched_example_ok: "sched_ok sched_example"
proof -
  have "sch_cfg sched_example = setConfigDefaults None (setWorkerThreadCount 2 config_default)"
    "sch_spinning sched_example = replicate 8 (- 1)"
    "sch_workers sched_example = (replicate 256 None)[0 := Some (worker_start MultiThreaded 0), 1 := Some (worker_start MultiThreaded 1)]"
    by (simp_all add: sched_example_def scheduler_new_def setConfigDefaults_def setWorkerThreadCount_def
        config_default_def MaxWorkerThreads_def upt_rec Let_def)
  then show ?thesis
    by (auto simp: sched_ok_def wcount_def setConfigDefaults_def setWorkerThreadCount_def config_default_def
        MaxWorkerThreads_def nth_list_update less_2_cases_iff)
qed

definition task_example :: "nat body task" where
  "task_example = task_new (User 5) FlagNone"

lemma task_example_free: "\<not> task_is task_example SameThread"
  by (simp add: task_example_def task_is_def task_new_def)

theorem enqueue_one_worker_witness:
  "\<exists>i s'. scheduler_enqueue 0 [False, True] task_example sched_example = Some (Inr s') \<and> i < (2 :: nat) \<and> sched_ok s'"
proof -
  have "wcount sched_example = 2"
    by (simp add: wcount_def sched_example_def scheduler_new_def setConfigDefaults_def setWorkerThreadCount_def
        config_default_def MaxWorkerThreads_def upt_rec Let_def)
  then show ?thesis
    using enqueue_one_worker [OF sched_example_ok, of "[False, True]" task_example 0] task_example_free by auto
qed

text \<open>The choices of consecutive rounds.\<close>

fun choose_many :: "nat \<Rightarrow> 'u scheduler \<Rightarrow> int list \<times> 'u scheduler" where
  "choose_many 0 s = ([], s)"
| "choose_many (Suc k) s =
     (let (i, s1) = choose_worker s; (is, s2) = choose_many k s1 in (i # is, s2))"

lemma choose_idle:
  assumes "sched_ok s" "sch_spinning s = replicate 8 (- 1)"
  shows "choose_worker s = (int (unat (sch_next_enqueue s) mod wcount s),
    s\<lparr>sch_next_spinning := sch_next_spinning s - 1, sch_next_enqueue := sch_next_enqueue s + 1\<rparr>)"
proof -
  have "(replicate 8 (- 1 :: int))[i := - 1] = replicate 8 (- 1)" for i
    by (metis list_update_beyond list_update_id linorder_not_le length_replicate nth_replicate)
  then show ?thesis
    using assms(2) sched_okD(6) [OF assms(1)]
    by (cases s) (simp add: choose_worker_def Let_def zmod_int)
qed

text \<open>Spinning workers come first: right after worker \<open>w\<close> has announced that it spins, \<open>enqueue\<close> chooses it. When
  no worker spins the workers are chosen in turn, so that \<open>k\<close> consecutive choices are the residues of
  consecutive numbers (as long as the 32-bit counter does not wrap).\<close>

theorem choose_order:
  assumes "sched_ok s" "0 \<le> w" "w < int (wcount s)"
  shows "fst (choose_worker (onBeginSpinning w s)) = w \<and>
    (sch_spinning s = replicate 8 (- 1) \<longrightarrow> unat (sch_next_enqueue s) + k < 2 ^ 32 \<longrightarrow>
     fst (choose_many k s) = map (\<lambda>j. int ((unat (sch_next_enqueue s) + j) mod wcount s)) [0..<k])"
proof
  show "fst (choose_worker (onBeginSpinning w s)) = w"
    using sched_okD(3) [OF assms(1)] assms(2)
    by (simp add: choose_worker_def onBeginSpinning_def Let_def)
  show "sch_spinning s = replicate 8 (- 1) \<longrightarrow> unat (sch_next_enqueue s) + k < 2 ^ 32 \<longrightarrow>
     fst (choose_many k s) = map (\<lambda>j. int ((unat (sch_next_enqueue s) + j) mod wcount s)) [0..<k]"
    using assms(1)
  proof (induction k arbitrary: s)
    case (Suc k)
    show ?case
    proof (intro impI)
      assume idle: "sch_spinning s = replicate 8 (- 1)" and room: "unat (sch_next_enqueue s) + Suc k < 2 ^ 32"
      let ?s1 = "s\<lparr>sch_next_spinning := sch_next_spinning s - 1, sch_next_enqueue := sch_next_enqueue s + 1\<rparr>"
      have n: "unat (sch_next_enqueue s + 1) = unat (sch_next_enqueue s) + 1"
        using room by (simp add: unat_word_ariths)
      have "sched_ok ?s1" using Suc.prems by (simp add: sched_ok_def)
      then have "fst (choose_many k ?s1) = map (\<lambda>j. int ((unat (sch_next_enqueue s) + 1 + j) mod wcount s)) [0..<k]"
        using Suc.IH [of ?s1] idle room n by simp
      then show "fst (choose_many (Suc k) s) = map (\<lambda>j. int ((unat (sch_next_enqueue s) + j) mod wcount s)) [0..<Suc k]"
        using choose_idle [OF Suc.prems idle]
        by (simp add: upt_conv_Cons split_def Let_def del: upt_Suc flip: map_Suc_upt)
    qed
  qed simp
qed

theorem choose_order_witness:
  "fst (choose_worker (onBeginSpinning 1 sched_example)) = 1 \<and> fst (choose_many 3 sched_example) = [0, 1, 0]"
proof -
  have s: "wcount sched_example = 2" "sch_spinning sched_example = replicate 8 (- 1)" "sch_next_enqueue sched_example = 0"
    by (simp_all add: wcount_def sched_example_def scheduler_new_def setConfigDefaults_def setWorkerThreadCount_def
        config_default_def MaxWorkerThreads_def upt_rec Let_def)
  then show ?thesis using choose_order [OF sched_example_ok, of 1 3] by (simp add: upt_rec)
qed

section \<open>Stealing\<close>

text \<open>All tasks queued at the worker threads.\<close>

definition queued_tasks :: "'u scheduler \<Rightarrow> 'u body task multiset" where
  "queued_tasks s =
     sum_list (map (\<lambda>w. case w of None \<Rightarrow> {#} | Some w \<Rightarrow> mset (work_tasks w)) (sch_workers s))"

lemma sum_list_update_mset:
  fixes f :: "'a \<Rightarrow> 'b multiset"
  assumes "i < length xs"
  shows "sum_list (map f (xs[i := x])) + f (xs ! i) = sum_list (map f xs) + f x"
proof -
  have "xs = take i xs @ xs ! i # drop (Suc i) xs" by (rule id_take_nth_drop [OF assms])
  then have "sum_list (map f xs) = sum_list (map f (take i xs)) + (f (xs ! i) + sum_list (map f (drop (Suc i) xs)))"
    by (metis list.simps(9) map_append sum_list.Cons sum_list_append)
  then show ?thesis using assms by (simp add: upd_conv_take_nth_drop ac_simps)
qed

lemma queued_set_worker:
  assumes "i < length (sch_workers s)" "sch_workers s ! i = Some w"
  shows "queued_tasks (set_worker (WThread i) w' s) + mset (work_tasks w) = queued_tasks s + mset (work_tasks w')"
  using sum_list_update_mset [OF assms(1), of "\<lambda>w. case w of None \<Rightarrow> {#} | Some w \<Rightarrow> mset (work_tasks w)" "Some w'"] assms(2)
  by (simp add: queued_tasks_def set_worker_def)

text \<open>Stealing neither loses nor duplicates a task: \<open>stealWork\<close> does not fail, the stolen task leaves the queues
  exactly once and is not bound to its thread, the thief's own worker is left alone, and when the thief adds the task
  to its queue all queued tasks are those before.\<close>

theorem steal_conserves:
  assumes "sched_ok s" "thief < wcount s"
  shows "\<exists>s' out. stealWork thief from locked s = Inr (s', out) \<and> sched_ok s' \<and>
    sch_workers s' ! thief = sch_workers s ! thief \<and>
    (case out of
       None \<Rightarrow> queued_tasks s' = queued_tasks s
     | Some t \<Rightarrow> \<not> task_is t SameThread \<and> queued_tasks s = add_mset t (queued_tasks s') \<and>
         (\<forall>v. sch_workers s' ! thief = Some v \<longrightarrow>
            queued_tasks (set_worker (WThread thief) (spinForWork_stolen site t v) s') = queued_tasks s))"
proof -
  let ?i = "unat from mod wcount s"
  have i: "?i < wcount s" using sched_okD(1) [OF assms(1)] by simp
  then obtain w where w: "worker_at (WThread ?i) s = Inr w" "sch_workers s ! ?i = Some w"
    using worker_at_ok [OF assms(1)] by blast
  have len: "?i < length (sch_workers s)" "thief < length (sch_workers s)"
    using less_le_trans [OF i] less_le_trans [OF assms(2)] sched_okD(2) [OF assms(1)] by blast+
  have st: "stealWork thief from locked s = (if ?i \<noteq> thief
      then Inr (set_worker (WThread ?i) (fst (steal locked w)) s, snd (steal locked w)) else Inr (s, None))"
    using sched_okD(6,7) [OF assms(1)] w(1) by (simp add: stealWork_def Let_def split_def)
  show ?thesis
  proof (cases "?i = thief")
    case True
    then show ?thesis using st assms(1) by simp
  next
    case False
    let ?w' = "fst (steal locked w)" and ?out = "snd (steal locked w)"
    let ?s' = "set_worker (WThread ?i) ?w' s"
    have ok: "sched_ok ?s'" by (rule sched_ok_set_worker [OF assms(1) i])
    have same: "sch_workers ?s' ! thief = sch_workers s ! thief" using False by (simp add: set_worker_def)
    have steal: "?out = None \<and> work_tasks ?w' = work_tasks w \<or>
        (\<exists>t. ?out = Some t \<and> \<not> task_is t SameThread \<and> work_tasks w = t # work_tasks ?w')"
      by (auto simp: steal_def split: list.splits)
    have q: "queued_tasks ?s' + mset (work_tasks w) = queued_tasks s + mset (work_tasks ?w')"
      by (rule queued_set_worker [OF len(1) w(2)])
    have add: "queued_tasks (set_worker (WThread thief) (spinForWork_stolen site t v) ?s') = add_mset t (queued_tasks ?s')"
      if "sch_workers ?s' ! thief = Some v" for t v
    proof -
      have "thief < length (sch_workers ?s')" using len(2) by (simp add: set_worker_def)
      from queued_set_worker [OF this that, of "spinForWork_stolen site t v"] show ?thesis
        by (simp add: spinForWork_stolen_def)
    qed
    have out: "case ?out of
       None \<Rightarrow> queued_tasks ?s' = queued_tasks s
     | Some t \<Rightarrow> \<not> task_is t SameThread \<and> queued_tasks s = add_mset t (queued_tasks ?s') \<and>
         (\<forall>v. sch_workers ?s' ! thief = Some v \<longrightarrow>
            queued_tasks (set_worker (WThread thief) (spinForWork_stolen site t v) ?s') = queued_tasks s)"
    proof (cases ?out)
      case None
      then show ?thesis using steal q by simp
    next
      case (Some t)
      then have t: "\<not> task_is t SameThread" "work_tasks w = t # work_tasks ?w'" using steal by simp_all
      then have "queued_tasks s = add_mset t (queued_tasks ?s')" using q by simp
      then show ?thesis using Some t(1) add by simp
    qed
    then show ?thesis using st False ok same by simp
  qed
qed

theorem steal_conserves_witness:
  "\<exists>s' out. stealWork 1 4 True (set_worker (WThread 0) (fst (enqueueAndUnlock task_example (worker_start MultiThreaded 0)))
      sched_example) = Inr (s', out) \<and> sched_ok s'"
proof -
  let ?s = "set_worker (WThread 0) (fst (enqueueAndUnlock task_example (worker_start MultiThreaded 0))) sched_example"
  have "sched_ok ?s" using sched_example_ok by (auto simp: sched_ok_def set_worker_def nth_list_update)
  moreover have "wcount ?s = 2"
    by (simp add: wcount_def sched_example_def scheduler_new_def setConfigDefaults_def setWorkerThreadCount_def
        config_default_def MaxWorkerThreads_def upt_rec Let_def set_worker_def)
  ultimately show ?thesis using steal_conserves [of ?s 1 4 True SLoop] by fastforce
qed

section \<open>The random generator\<close>

lemma xor_push_zero:
  fixes x :: "64 word"
  assumes "0 < k" "x XOR push_bit k x = 0"
  shows "x = 0"
proof (rule bit_word_eqI)
  have e: "bit x n = bit (push_bit k x) n" if "n < 64" for n
    using arg_cong [OF assms(2), of "\<lambda>y. bit y n"] by (simp add: bit_xor_iff)
  fix n assume "n < LENGTH(64)"
  then show "bit x n = bit (0 :: 64 word) n"
  proof (induction n rule: less_induct)
    case (less n)
    then show ?case using e [of n] assms(1) by (cases "k \<le> n") (auto simp: bit_push_bit_iff)
  qed
qed

lemma xor_drop_zero:
  fixes x :: "64 word"
  assumes "0 < k" "x XOR drop_bit k x = 0"
  shows "x = 0"
proof (rule bit_word_eqI)
  have e: "bit x n = bit x (n + k)" for n
    using arg_cong [OF assms(2), of "\<lambda>y. bit y n"] by (simp add: bit_xor_iff bit_drop_bit_eq add.commute)
  fix n assume "n < LENGTH(64)"
  then show "bit x n = bit (0 :: 64 word) n"
  proof (induction "64 - n" arbitrary: n rule: less_induct)
    case less
    then show ?case
      using e [of n] assms(1) by (cases "n + k < 64") (auto dest: bit_imp_le_length)
  qed
qed

text \<open>The generator of the stealing loop never gets stuck: from a nonzero state every next state is nonzero, so that
  it goes on producing numbers (zero would be a fixed point).\<close>

theorem rnd_nonzero:
  assumes "x \<noteq> 0"
  shows "(fask_rnd ^^ n) x \<noteq> 0 \<and> fask_rnd 0 = 0"
proof -
  have step: "fask_rnd y \<noteq> 0" if "y \<noteq> 0" for y
    using that xor_push_zero [of 13 y] xor_drop_zero [of 7 "y XOR push_bit 13 y"]
      xor_push_zero [of 17 "(y XOR push_bit 13 y) XOR drop_bit 7 (y XOR push_bit 13 y)"]
    by (auto simp: fask_rnd_def Let_def)
  have "(fask_rnd ^^ n) x \<noteq> 0" by (induction n) (simp_all add: assms step)
  then show ?thesis by (simp add: fask_rnd_def)
qed

theorem rnd_nonzero_witness: "fask_rnd 1 \<noteq> 0"
  using rnd_nonzero [of 1 1] by simp

section \<open>Binding\<close>

text \<open>C39. A thread is bound at most once: \<open>bind\<close> of a bound thread and \<open>unbind\<close> of a thread that is not bound fail an
  assertion; after \<open>bind\<close> the thread has its own single-threaded worker; \<open>unbind\<close> tells that worker to shut down, and when its loop has
  ended, in whatever state the worker is then, takes the scheduler back to the state before, notifying the destructor when it was
  the last thread.\<close>

theorem bind_unbind:
  assumes "sch_current s tid = None" "sch_by_tid s tid = None"
  shows "\<exists>s1 s2. sched_bind tid s = Inr s1 \<and> sch_by_tid s1 tid = Some (worker_start SingleThreaded (- 1)) \<and>
    sched_bind tid s1 = Inl (AssertFailed ''Scheduler already bound'') \<and>
    sched_unbind_stop tid s = Inl (AssertFailed ''No scheduler bound'') \<and>
    sched_unbind_stop tid s1 = Inr (WSingle tid, s2) \<and>
    sch_by_tid s2 tid = Some (stop_single (worker_start SingleThreaded (- 1))) \<and>
    (\<forall>w. sched_unbind_finish tids tid (WSingle tid) (set_worker (WSingle tid) w s2) = Inr (s, destruct_ready tids s))"
proof -
  let ?s1 = "s\<lparr>sch_by_tid := (sch_by_tid s)(tid \<mapsto> worker_start SingleThreaded (- 1)),
    sch_current := (sch_current s)(tid \<mapsto> WSingle tid)\<rparr>"
  let ?s2 = "set_worker (WSingle tid) (stop_single (worker_start SingleThreaded (- 1))) ?s1"
  have "sched_bind tid s = Inr ?s1" using assms by (simp add: sched_bind_def)
  moreover have "sched_unbind_finish tids tid (WSingle tid) (set_worker (WSingle tid) w ?s2) = Inr (s, destruct_ready tids s)" for w
    using assms by (cases s) (simp add: sched_unbind_finish_def set_worker_def destruct_ready_def Let_def fun_upd_idem)
  moreover have "sched_unbind_stop tid ?s1 = Inr (WSingle tid, ?s2)"
    by (simp add: sched_unbind_stop_def worker_at_def)
  moreover have "sch_by_tid ?s2 tid = Some (stop_single (worker_start SingleThreaded (- 1)))"
    by (simp add: set_worker_def)
  moreover have "sched_bind tid ?s1 = Inl (AssertFailed ''Scheduler already bound'')"
    "sch_by_tid ?s1 tid = Some (worker_start SingleThreaded (- 1))"
    "sched_unbind_stop tid s = Inl (AssertFailed ''No scheduler bound'')"
    using assms by (simp_all add: sched_bind_def sched_unbind_stop_def)
  ultimately show ?thesis by blast
qed

theorem bind_unbind_witness:
  "\<exists>s1 s2. sched_bind 7 sched_example = Inr s1 \<and> sched_unbind_stop 7 s1 = Inr (WSingle 7, s2) \<and>
     sched_unbind_finish [7] 7 (WSingle 7) (set_worker (WSingle 7) (worker_start SingleThreaded (- 1)) s2) = Inr (sched_example, True)"
proof -
  have "sch_current sched_example 7 = None" "sch_by_tid sched_example 7 = None"
    by (simp_all add: sched_example_def scheduler_new_def setConfigDefaults_def setWorkerThreadCount_def
        config_default_def MaxWorkerThreads_def upt_rec Let_def)
  then show ?thesis using bind_unbind [of sched_example 7 "[7]"] by (auto simp: destruct_ready_def)
qed

end
