(* ===== verification/Condition_Variable.thy ===== *)
theory Condition_Variable
  imports Worker_Properties List_Proofs
begin

text \<open>
  \<open>marl::ConditionVariable\<close> (\<open>condition_variable.hpp\<close>) on top of the workers and of the linked list.

  A fiber is a pair of the number of its worker and its number there; the workers are a function from their
  numbers. The list \<open>waiting_\<close> is the list of \<open>List_Model\<close>, with the handles that \<open>emplace_front\<close> returns. The two atomic counters are
  integers; they count calls of \<open>wait\<close> in progress, so that they cannot come near the bound of an \<open>int\<close>.

  \<open>wait\<close> and \<open>wait_until\<close> have the same body up to the result. \<open>cv_wait_next\<close> runs it from one access to shared state to the
  next; in between any number of other calls may run. What the body gets from outside is the argument
  \<open>b\<close>: the value of the predicate on entry, and what \<open>Fiber::wait\<close> or the wait of the standard library returned
  (\<open>True\<close> for the versions without a deadline). What \<open>Fiber::wait\<close> does is \<open>Worker_Model.wait_pred\<close>.
\<close>

section \<open>State and operations\<close>

record condvar =
  cv_waiting :: "(nat \<times> nat) mlist"
  cv_num_waiting :: int
  cv_num_waiting_on_condition :: int

definition condvar_new :: condvar where
  "condvar_new = \<lparr>cv_waiting = mlist_new, cv_num_waiting = 0, cv_num_waiting_on_condition = 0\<rparr>"

text \<open>The calls on a condition variable that wake: also the calls on the \<open>std::condition_variable\<close> inside.\<close>

datatype cv_call = NotifyOne | NotifyAll

type_synonym 'u workers = "nat \<Rightarrow> 'u worker"

definition fiber_notify :: "nat \<times> nat \<Rightarrow> 'u workers \<Rightarrow> 'u workers result" where
  "fiber_notify fiber ws =
     rbind (enqueue_fiber (snd fiber) (ws (fst fiber))) (\<lambda>r. Inr (ws(fst fiber := fst r)))"

text \<open>\<open>*waiting_.begin()\<close>.\<close>

definition front_fiber :: "(nat \<times> nat) mlist \<Rightarrow> (nat \<times> nat) result" where
  "front_fiber m =
     (case ml_head m of
        None \<Rightarrow> Inl BadAccess
      | Some p \<Rightarrow> rbind (entry_get (ml_store m) p) (\<lambda>e.
          case en_data e of None \<Rightarrow> Inl BadAccess | Some f \<Rightarrow> Inr f))"

text \<open>The second component is the call on \<open>condition_\<close>, if there is one.\<close>

definition notify_one :: "condvar \<Rightarrow> 'u workers \<Rightarrow> ('u workers \<times> cv_call option) result" where
  "notify_one cv ws =
     (if cv_num_waiting cv = 0 then Inr (ws, None)
      else if 0 < ml_size (cv_waiting cv)
      then rbind (front_fiber (cv_waiting cv)) (\<lambda>f. rbind (fiber_notify f ws) (\<lambda>ws'. Inr (ws', None)))
      else Inr (ws, if 0 < cv_num_waiting_on_condition cv then Some NotifyOne else None))"

fun notify_loop :: "(nat \<times> nat \<times> nat) list \<Rightarrow> 'u workers \<Rightarrow> 'u workers result" where
  "notify_loop [] ws = Inr ws"
| "notify_loop (e # es) ws = rbind (fiber_notify (snd e) ws) (\<lambda>ws'. notify_loop es ws')"

text \<open>\<open>None\<close> would be an iteration over \<open>waiting_\<close> that does not end.\<close>

definition notify_all :: "condvar \<Rightarrow> 'u workers \<Rightarrow> ('u workers \<times> cv_call option) result option" where
  "notify_all cv ws =
     (if cv_num_waiting cv = 0 then Some (Inr (ws, None))
      else case mlist_iterate (cv_waiting cv) of
             None \<Rightarrow> None
           | Some r \<Rightarrow> Some (rbind r (\<lambda>es. rbind (notify_loop es ws) (\<lambda>ws'.
               Inr (ws', if 0 < cv_num_waiting_on_condition cv then Some NotifyAll else None)))))"

datatype cv_point =
    CEnter            \<comment> \<open>at \<open>if (pred())\<close>\<close>
  | CCounted          \<comment> \<open>behind \<open>++num_waiting_\<close>\<close>
  | CListed nat       \<comment> \<open>in \<open>fiber->wait\<close>, with the iterator into \<open>waiting_\<close>\<close>
  | COnCondition      \<comment> \<open>in the wait of \<open>condition_\<close>\<close>
  | CLeaving bool     \<comment> \<open>before \<open>--num_waiting_\<close>, with the result\<close>
  | CReturned bool

fun cv_wait_next ::
  "(nat \<times> nat) option \<Rightarrow> bool \<Rightarrow> cv_point \<Rightarrow> condvar \<Rightarrow> (cv_point \<times> condvar) result" where
  "cv_wait_next current b CEnter cv =
     Inr (if b then (CReturned True, cv) else (CCounted, cv\<lparr>cv_num_waiting := cv_num_waiting cv + 1\<rparr>))"
| "cv_wait_next current b CCounted cv =
     (case current of
        Some fiber \<Rightarrow> rbind (emplace_front fiber (cv_waiting cv)) (\<lambda>(it, l).
          Inr (CListed it, cv\<lparr>cv_waiting := l\<rparr>))
      | None \<Rightarrow>
          Inr (COnCondition, cv\<lparr>cv_num_waiting_on_condition := cv_num_waiting_on_condition cv + 1\<rparr>))"
| "cv_wait_next current b (CListed it) cv =
     rbind (mlist_erase it (cv_waiting cv)) (\<lambda>l. Inr (CLeaving b, cv\<lparr>cv_waiting := l\<rparr>))"
| "cv_wait_next current b COnCondition cv =
     Inr (CLeaving b, cv\<lparr>cv_num_waiting_on_condition := cv_num_waiting_on_condition cv - 1\<rparr>)"
| "cv_wait_next current b (CLeaving res) cv =
     Inr (CReturned res, cv\<lparr>cv_num_waiting := cv_num_waiting cv - 1\<rparr>)"
| "cv_wait_next current b (CReturned res) cv = Inr (CReturned res, cv)"

section \<open>All calls together\<close>

text \<open>The calls of \<open>wait\<close> are numbered; call \<open>t\<close> is made by the fiber \<open>who t\<close>, or by a thread without one.\<close>

record cv_system =
  cs_cv :: condvar
  cs_point :: "nat \<Rightarrow> cv_point"

inductive cv_step :: "(nat \<Rightarrow> (nat \<times> nat) option) \<Rightarrow> cv_system \<Rightarrow> cv_system result \<Rightarrow> bool" for who where
  "cv_step who s (rbind (cv_wait_next (who t) b (cs_point s t) (cs_cv s)) (\<lambda>(p, cv).
     Inr (s\<lparr>cs_cv := cv, cs_point := (cs_point s)(t := p)\<rparr>)))"

definition cv_init :: "cv_system \<Rightarrow> bool" where
  "cv_init s \<longleftrightarrow> s = \<lparr>cs_cv = condvar_new, cs_point = (\<lambda>_. CEnter)\<rparr>"

abbreviation cv_reach :: "(nat \<Rightarrow> (nat \<times> nat) option) \<Rightarrow> cv_system \<Rightarrow> bool" where
  "cv_reach who \<equiv> reach cv_init (cv_step who)"

fun in_wait :: "cv_point \<Rightarrow> bool" where
  "in_wait CEnter = False"
| "in_wait (CReturned r) = False"
| "in_wait _ = True"

text \<open>The calls that are counted, and those blocked on the standard condition variable.\<close>

definition waiters :: "cv_system \<Rightarrow> nat set" where
  "waiters s = {t. in_wait (cs_point s t)}"

definition on_condition :: "cv_system \<Rightarrow> nat set" where
  "on_condition s = {t. cs_point s t = COnCondition}"

definition listed_ok :: "(nat \<Rightarrow> (nat \<times> nat) option) \<Rightarrow> cv_system \<Rightarrow> bool" where
  "listed_ok who s \<longleftrightarrow>
     (\<forall>h f. (h, f) \<in> set (mlist_abs (cv_waiting (cs_cv s))) \<longleftrightarrow>
        (\<exists>t. cs_point s t = CListed h \<and> who t = Some f)) \<and>
     (\<forall>t h. cs_point s t = CListed h \<longrightarrow> who t \<noteq> None) \<and>
     (\<forall>t t' h. cs_point s t = CListed h \<and> cs_point s t' = CListed h \<longrightarrow> t = t')"

definition cv_inv :: "(nat \<Rightarrow> (nat \<times> nat) option) \<Rightarrow> cv_system \<Rightarrow> bool" where
  "cv_inv who s \<longleftrightarrow> mlist_inv (cv_waiting (cs_cv s)) \<and> listed_ok who s \<and>
     finite (waiters s) \<and> cv_num_waiting (cs_cv s) = int (card (waiters s)) \<and>
     cv_num_waiting_on_condition (cs_cv s) = int (card (on_condition s))"

lemma on_condition_waiters: "on_condition s \<subseteq> waiters s"
  by (auto simp: on_condition_def waiters_def)

lemma waiters_upd:
  "waiters (s\<lparr>cs_cv := cv, cs_point := (cs_point s)(t := p)\<rparr>) =
     (if in_wait p then insert t (waiters s) else waiters s - {t})"
  by (auto simp: waiters_def)

lemma on_condition_upd:
  "on_condition (s\<lparr>cs_cv := cv, cs_point := (cs_point s)(t := p)\<rparr>) =
     (if p = COnCondition then insert t (on_condition s) else on_condition s - {t})"
  by (auto simp: on_condition_def)

lemma int_card_insert: "finite A \<Longrightarrow> t \<notin> A \<Longrightarrow> int (card (insert t A)) = int (card A) + 1"
  by simp

lemma int_card_remove: "finite A \<Longrightarrow> t \<in> A \<Longrightarrow> int (card (A - {t})) = int (card A) - 1"
  by (cases "card A") (auto simp: card_Diff_singleton)

text \<open>The definition as a rule: its parts are proved one by one.\<close>

lemma listed_okI:
  assumes "\<And>h f. (h, f) \<in> set (mlist_abs (cv_waiting (cs_cv s))) \<Longrightarrow> \<exists>t. cs_point s t = CListed h \<and> who t = Some f"
    and "\<And>t h. cs_point s t = CListed h \<Longrightarrow>
      \<exists>f. who t = Some f \<and> (h, f) \<in> set (mlist_abs (cv_waiting (cs_cv s)))"
    and "\<And>t t' h. cs_point s t = CListed h \<Longrightarrow> cs_point s t' = CListed h \<Longrightarrow> t = t'"
  shows "listed_ok who s"
proof -
  have "(h, f) \<in> set (mlist_abs (cv_waiting (cs_cv s)))" if "cs_point s t = CListed h" "who t = Some f" for t h f
    using assms(2) [OF that(1)] that(2) by auto
  moreover have "who t \<noteq> None" if "cs_point s t = CListed h" for t h using assms(2) [OF that] by auto
  ultimately show ?thesis unfolding listed_ok_def using assms(1,3) by (intro conjI allI iffI impI) blast+
qed

lemma listed_ok_in:
  assumes "listed_ok who s" "(h, f) \<in> set (mlist_abs (cv_waiting (cs_cv s)))"
  obtains t where "cs_point s t = CListed h" "who t = Some f"
  using assms unfolding listed_ok_def by blast

lemma listed_ok_inj: "listed_ok who s \<Longrightarrow> cs_point s t = CListed h \<Longrightarrow> cs_point s t' = CListed h \<Longrightarrow> t = t'"
  unfolding listed_ok_def by blast

lemma listed_okD:
  assumes "listed_ok who s" "cs_point s t = CListed h"
  obtains f where "who t = Some f" "(h, f) \<in> set (mlist_abs (cv_waiting (cs_cv s)))"
  using assms unfolding listed_ok_def by (metis not_None_eq)

lemma listed_ok_other:
  assumes "listed_ok who s" "\<And>h. cs_point s t \<noteq> CListed h" "\<And>h. p \<noteq> CListed h" "cv_waiting cv = cv_waiting (cs_cv s)"
  shows "listed_ok who (s\<lparr>cs_cv := cv, cs_point := (cs_point s)(t := p)\<rparr>)"
proof -
  have "((cs_point s)(t := p)) u = CListed h \<longleftrightarrow> cs_point s u = CListed h" for u h
    using assms(2,3) by auto
  then show ?thesis using assms(1,4) by (simp add: listed_ok_def del: fun_upd_apply)
qed

lemma listed_ok_emplace:
  assumes "listed_ok who s" "mlist_inv (cv_waiting (cs_cv s))" "who t = Some f" "\<And>h. cs_point s t \<noteq> CListed h"
    and e: "emplace_front f (cv_waiting (cs_cv s)) = Inr (it, l)" and cv: "cv_waiting cv = l"
  shows "listed_ok who (s\<lparr>cs_cv := cv, cs_point := (cs_point s)(t := CListed it)\<rparr>)" (is "listed_ok who ?s")
proof -
  note fr = mlist.emplace_fresh [OF assms(2) e]
  have new: "cs_point s u \<noteq> CListed it" for u
  proof
    assume "cs_point s u = CListed it"
    then obtain g where "(it, g) \<in> set (mlist_abs (cv_waiting (cs_cv s)))" by (rule listed_okD [OF assms(1)])
    then show False using fr(1) by force
  qed
  have pt: "cs_point ?s u = CListed h \<longleftrightarrow> u = t \<and> h = it \<or> cs_point s u = CListed h" for u h
    using assms(4) by auto
  have ab: "(h, g) \<in> set (mlist_abs (cv_waiting (cs_cv ?s))) \<longleftrightarrow>
      (h, g) = (it, f) \<or> (h, g) \<in> set (mlist_abs (cv_waiting (cs_cv s)))" for h g
    using fr(3) cv by simp
  show ?thesis
  proof (rule listed_okI, goal_cases)
    case (1 h g)
    then show ?case unfolding ab pt using assms(3) listed_ok_in [OF assms(1)] by blast
  next
    case (2 u h)
    then show ?case unfolding ab pt using assms(3) listed_okD [OF assms(1)] by blast
  next
    case (3 u u' h)
    then show ?case unfolding pt using new listed_ok_inj [OF assms(1)] by blast
  qed
qed

lemma listed_ok_erase:
  assumes "listed_ok who s" "mlist_inv (cv_waiting (cs_cv s))" "cs_point s t = CListed it"
  shows "\<exists>l. mlist_erase it (cv_waiting (cs_cv s)) = Inr l \<and> mlist_inv l \<and>
    listed_ok who (s\<lparr>cs_cv := (cs_cv s)\<lparr>cv_waiting := l\<rparr>, cs_point := (cs_point s)(t := CLeaving b)\<rparr>)"
proof -
  obtain f where f: "(it, f) \<in> set (mlist_abs (cv_waiting (cs_cv s)))" by (rule listed_okD [OF assms(1,3)])
  then have "it \<in> fst ` set (mlist_abs (cv_waiting (cs_cv s)))" by force
  from mlist.erase_law [OF assms(2) this] obtain l where l: "mlist_erase it (cv_waiting (cs_cv s)) = Inr l"
    "mlist_inv l" "mlist_abs l = filter (\<lambda>e. fst e \<noteq> it) (mlist_abs (cv_waiting (cs_cv s)))" by blast
  let ?s = "s\<lparr>cs_cv := (cs_cv s)\<lparr>cv_waiting := l\<rparr>, cs_point := (cs_point s)(t := CLeaving b)\<rparr>"
  have pt: "cs_point ?s u = CListed h \<longleftrightarrow> cs_point s u = CListed h \<and> h \<noteq> it" for u h
  proof (cases "u = t")
    case False
    then have "cs_point s u \<noteq> CListed it" using listed_ok_inj [OF assms(1) assms(3)] by metis
    then show ?thesis using False by auto
  qed (use assms(3) in simp)
  have ab: "(h, g) \<in> set (mlist_abs (cv_waiting (cs_cv ?s))) \<longleftrightarrow>
      (h, g) \<in> set (mlist_abs (cv_waiting (cs_cv s))) \<and> h \<noteq> it" for h g
    using l(3) by auto
  have "listed_ok who ?s"
  proof (rule listed_okI, goal_cases)
    case (1 h g)
    then have hg: "(h, g) \<in> set (mlist_abs (cv_waiting (cs_cv s)))" "h \<noteq> it" unfolding ab by blast+
    obtain u where "cs_point s u = CListed h" "who u = Some g" by (rule listed_ok_in [OF assms(1) hg(1)])
    then show ?case unfolding pt using hg(2) by blast
  next
    case (2 u h)
    then have u: "cs_point s u = CListed h" "h \<noteq> it" unfolding pt by blast+
    obtain g where "who u = Some g" "(h, g) \<in> set (mlist_abs (cv_waiting (cs_cv s)))"
      by (rule listed_okD [OF assms(1) u(1)])
    then show ?case unfolding ab using u(2) by blast
  next
    case (3 u u' h)
    then show ?case unfolding pt using listed_ok_inj [OF assms(1), of u h u'] by blast
  qed
  with l(1,2) show ?thesis by blast
qed

lemma cv_inv_upd:
  assumes "cv_inv who s" "mlist_inv (cv_waiting cv)"
    and "listed_ok who (s\<lparr>cs_cv := cv, cs_point := (cs_point s)(t := p)\<rparr>)"
    and "cv_num_waiting cv = cv_num_waiting (cs_cv s) +
      (if in_wait p \<and> \<not> in_wait (cs_point s t) then 1 else if \<not> in_wait p \<and> in_wait (cs_point s t) then - 1 else 0)"
    and "cv_num_waiting_on_condition cv = cv_num_waiting_on_condition (cs_cv s) +
      (if p = COnCondition \<and> cs_point s t \<noteq> COnCondition then 1
       else if p \<noteq> COnCondition \<and> cs_point s t = COnCondition then - 1 else 0)"
  shows "cv_inv who (s\<lparr>cs_cv := cv, cs_point := (cs_point s)(t := p)\<rparr>)"
proof -
  have fin: "finite (waiters s)" "finite (on_condition s)"
    using assms(1) finite_subset [OF on_condition_waiters] by (auto simp: cv_inv_def)
  have mem: "t \<in> waiters s \<longleftrightarrow> in_wait (cs_point s t)" "t \<in> on_condition s \<longleftrightarrow> cs_point s t = COnCondition"
    by (simp_all add: waiters_def on_condition_def)
  have "cv_num_waiting cv = int (card (waiters (s\<lparr>cs_cv := cv, cs_point := (cs_point s)(t := p)\<rparr>)))"
    using assms(1,4) int_card_insert [OF fin(1), of t] int_card_remove [OF fin(1), of t] mem(1)
    by (cases "t \<in> waiters s") (simp_all add: cv_inv_def waiters_upd insert_absorb)
  moreover have "cv_num_waiting_on_condition cv =
      int (card (on_condition (s\<lparr>cs_cv := cv, cs_point := (cs_point s)(t := p)\<rparr>)))"
    using assms(1,5) int_card_insert [OF fin(2), of t] int_card_remove [OF fin(2), of t] mem(2)
    by (cases "t \<in> on_condition s") (simp_all add: cv_inv_def on_condition_upd insert_absorb)
  ultimately show ?thesis using assms(2,3) fin(1) by (simp add: cv_inv_def waiters_upd)
qed

lemma cv_step_inv:
  assumes "cv_inv who s"
  shows "\<exists>p cv. cv_wait_next (who t) b (cs_point s t) (cs_cv s) = Inr (p, cv) \<and>
    cv_inv who (s\<lparr>cs_cv := cv, cs_point := (cs_point s)(t := p)\<rparr>)"
proof -
  have inv: "mlist_inv (cv_waiting (cs_cv s))" "listed_ok who s" using assms by (simp_all add: cv_inv_def)
  note upd = cv_inv_upd [OF assms, where t = t] and other = listed_ok_other [OF inv(2), where t = t]
  show ?thesis
  proof (cases "cs_point s t")
    case CEnter
    then show ?thesis
      using inv upd [of "cs_cv s" "CReturned True"] other [of "CReturned True" "cs_cv s"]
      by (cases b) (simp_all add: upd other)
  next
    case CCounted
    show ?thesis
    proof (cases "who t")
      case None
      then show ?thesis using inv CCounted by (simp add: upd other)
    next
      case (Some f)
      obtain it l where e: "emplace_front f (cv_waiting (cs_cv s)) = Inr (it, l)" "mlist_inv l"
        using mlist.emplace_law [OF inv(1)] by blast
      have "listed_ok who (s\<lparr>cs_cv := (cs_cv s)\<lparr>cv_waiting := l\<rparr>, cs_point := (cs_point s)(t := CListed it)\<rparr>)"
        using listed_ok_emplace [OF inv(2,1) Some _ e(1)] CCounted by simp
      then show ?thesis using CCounted Some e by (simp add: upd)
    qed
  next
    case (CListed it)
    obtain l where "mlist_erase it (cv_waiting (cs_cv s)) = Inr l" "mlist_inv l"
      "listed_ok who (s\<lparr>cs_cv := (cs_cv s)\<lparr>cv_waiting := l\<rparr>, cs_point := (cs_point s)(t := CLeaving b)\<rparr>)"
      using listed_ok_erase [OF inv(2,1) CListed] by blast
    then show ?thesis using CListed by (simp add: upd)
  next
    case COnCondition
    then show ?thesis using inv by (simp add: upd other)
  next
    case (CLeaving r)
    then show ?thesis using inv by (simp add: upd other)
  next
    case (CReturned r)
    then have "(cs_point s)(t := CReturned r) = cs_point s" by auto
    then show ?thesis using assms CReturned by simp
  qed
qed

interpretation cv_system: invariant_system cv_init "cv_step who" "cv_inv who"
proof (unfold_locales, goal_cases)
  case (1 s)
  have "mlist_abs (mlist_new :: (nat \<times> nat) mlist) = []" "mlist_inv (mlist_new :: (nat \<times> nat) mlist)"
    by (rule mlist.abs_empty, rule mlist.inv_empty)
  with 1 show ?case
    by (auto simp: cv_init_def cv_inv_def listed_ok_def condvar_new_def waiters_def on_condition_def)
next
  case (2 s r)
  from 2(2) show ?case
  proof cases
    case (1 t b)
    then show ?thesis using cv_step_inv [OF 2(1), of t b] by auto
  qed
qed

section \<open>What a notification does to the workers\<close>

text \<open>A fiber that may be notified, with room for \<open>n\<close> more entries in the queues of its worker.\<close>

definition notifiable :: "nat \<Rightarrow> 'u workers \<Rightarrow> nat \<times> nat \<Rightarrow> bool" where
  "notifiable n ws fb \<longleftrightarrow>
     worker_reach (ws (fst fb)) \<and> mutex_free (wpc (ws (fst fb))) \<and> snd fb \<le> worker_fibers (ws (fst fb)) \<and>
     fiber_state (ws (fst fb)) (snd fb) \<noteq> Idle \<and> queued_total (ws (fst fb)) + n < 2 ^ 63"

text \<open>Every fiber of \<open>S\<close> that is not running has been queued, and no other fiber changed its state.\<close>

definition woken :: "(nat \<times> nat) set \<Rightarrow> 'u workers \<Rightarrow> 'u workers \<Rightarrow> bool" where
  "woken S ws ws' \<longleftrightarrow>
     (\<forall>i f. fiber_state (ws' i) f =
        (if (i, f) \<in> S \<and> fiber_state (ws i) f \<noteq> Running then Queued else fiber_state (ws i) f))"

lemma woken_empty [simp]: "woken {} ws ws"
  by (simp add: woken_def)

lemma woken_trans: "woken S ws ws1 \<Longrightarrow> woken T ws1 ws2 \<Longrightarrow> woken (S \<union> T) ws ws2"
  by (auto simp: woken_def)

lemma wf_erase_length: "wf_erase f q = Inr q' \<Longrightarrow> length (wf_fibers q') \<le> length (wf_fibers q)"
  by (auto simp: wf_erase_def Let_def length_delete_le split: option.splits)

lemma enqueue_fiber_state:
  assumes "enqueue_fiber f w = Inr (w', b)"
  shows "fiber_state w' = (fiber_state w)(f := if fiber_state w f = Running then Running else Queued)"
    "queued_total w' \<le> queued_total w + 1"
  using assms wf_erase_length [of f "work_waiting w"]
  by (auto simp: enqueue_fiber_def Let_def setFiberState_def queued_total_def split: fstate.splits)

lemma fiber_notify_spec:
  assumes "notifiable (Suc n) ws fb"
  shows "\<exists>ws'. fiber_notify fb ws = Inr ws' \<and> woken {fb} ws ws' \<and>
    (\<forall>fb2. notifiable (Suc n) ws fb2 \<longrightarrow> notifiable n ws' fb2)"
proof -
  obtain i f where fb: "fb = (i, f)" by (cases fb)
  let ?w = "ws i"
  have w: "worker_reach ?w" "mutex_free (wpc ?w)" "f \<le> worker_fibers ?w" "fiber_state ?w f \<noteq> Idle" "queue_room ?w"
    using assms by (auto simp: notifiable_def fb queue_room_def queued_total_def)
  have "ginv (pc_role (wpc ?w)) ?w" using reach_live [OF w(1,2)] by (simp add: live_inv_def)
  from enqueue_fiber_ginv [OF this w(5,3,4)] obtain w' b where e: "enqueue_fiber f ?w = Inr (w', b)"
    "same_control ?w w'" by blast
  have "wstep ?w (Inr w')" using ws_enqueue_fiber [OF w(2,3,4,5)] e(1) by simp
  then have r: "worker_reach w'" by (rule reach_step [OF w(1)])
  note st = enqueue_fiber_state [OF e(1)]
  have "fiber_notify fb ws = Inr (ws(i := w'))" using e(1) by (simp add: fiber_notify_def fb)
  moreover have "woken {fb} ws (ws(i := w'))" by (simp add: woken_def fb st(1))
  moreover have "notifiable n (ws(i := w')) fb2" if "notifiable (Suc n) ws fb2" for fb2
    using that r e(2) st by (auto simp: notifiable_def same_control_def)
  ultimately show ?thesis by blast
qed

lemma notify_loop_spec:
  assumes "\<forall>e \<in> set es. notifiable (Suc (length es)) ws (snd e)"
  shows "\<exists>ws'. notify_loop es ws = Inr ws' \<and> woken (snd ` set es) ws ws' \<and>
    (\<forall>fb. notifiable (Suc (length es)) ws fb \<longrightarrow> notifiable 1 ws' fb)"
  using assms
proof (induction es arbitrary: ws)
  case Nil
  then show ?case by simp
next
  case (Cons e es)
  obtain ws1 where ws1: "fiber_notify (snd e) ws = Inr ws1" "woken {snd e} ws ws1"
    "\<forall>fb. notifiable (Suc (Suc (length es))) ws fb \<longrightarrow> notifiable (Suc (length es)) ws1 fb"
    using fiber_notify_spec [of "Suc (length es)" ws "snd e"] Cons.prems by auto
  moreover obtain ws2 where "notify_loop es ws1 = Inr ws2" "woken (snd ` set es) ws1 ws2"
    "\<forall>fb. notifiable (Suc (length es)) ws1 fb \<longrightarrow> notifiable 1 ws2 fb"
  proof -
    have "\<forall>e \<in> set es. notifiable (Suc (length es)) ws1 (snd e)" using Cons.prems ws1(3) by (simp del: split_paired_All)
    from Cons.IH [OF this] show ?thesis using that by blast
  qed
  ultimately show ?case using woken_trans [OF ws1(2)] by fastforce
qed

text \<open>The queue of the worker of a notified fiber.\<close>

lemma queued_in_worker:
  "notifiable n ws (i, f) \<Longrightarrow> fiber_state (ws i) f = Queued \<Longrightarrow> f \<in> set (work_fibers (ws i))"
  using reach_live [of "ws i"] by (auto simp: notifiable_def live_inv_def ginv_def located_def)

lemma front_fiber_abs:
  assumes "mlist_inv m" "mlist_abs m = (h, f) # rest"
  shows "front_fiber m = Inr f"
proof -
  obtain ps fs where "mlist_rel m ps fs" using assms(1) by (auto simp: mlist_inv_def)
  moreover from this have "ps = (h, f) # rest" using abs_rel assms(2) by metis
  ultimately have r: "mlist_rel m ((h, f) # rest) fs" by simp
  have "ml_head m = Some h" "\<exists>e. ml_store m h = Some e" "datas (ml_store m) h = Some (Some f)"
    using mlist_relD(1,4) [OF r] by (auto simp: dll_def)
  then show ?thesis by (auto simp: front_fiber_def entry_get_def datas_def)
qed

lemma inv_list_facts:
  assumes "mlist_inv m"
  shows "mlist_iterate m = Some (Inr (mlist_abs m))" "ml_size m = length (mlist_abs m)"
proof -
  obtain ps fs where r: "mlist_rel m ps fs" using assms by (auto simp: mlist_inv_def)
  then show "mlist_iterate m = Some (Inr (mlist_abs m))" "ml_size m = length (mlist_abs m)"
    using iterate_rel [OF r] abs_rel [OF r] mlist_relD(7) [OF r] by simp_all
qed

section \<open>Properties\<close>

text \<open>The fiber \<open>f\<close> is inside \<open>fiber->wait\<close> of some call.\<close>

definition waiting_fiber :: "(nat \<Rightarrow> (nat \<times> nat) option) \<Rightarrow> cv_system \<Rightarrow> nat \<times> nat \<Rightarrow> bool" where
  "waiting_fiber who s f \<longleftrightarrow> (\<exists>t h. cs_point s t = CListed h \<and> who t = Some f)"

lemma waiting_fiber_abs:
  "listed_ok who s \<Longrightarrow> waiting_fiber who s f \<longleftrightarrow> f \<in> snd ` set (mlist_abs (cv_waiting (cs_cv s)))"
  unfolding listed_ok_def waiting_fiber_def by force

lemma waiting_fiber_waiters: "waiting_fiber who s f \<Longrightarrow> waiters s \<noteq> {}"
  unfolding waiting_fiber_def waiters_def by (metis empty_iff in_wait.simps(4) mem_Collect_eq)

lemma cv_inv_facts:
  assumes "cv_inv who s"
  shows "mlist_inv (cv_waiting (cs_cv s))" "listed_ok who s" "finite (waiters s)"
    "cv_num_waiting (cs_cv s) = int (card (waiters s))"
    "cv_num_waiting_on_condition (cs_cv s) = int (card (on_condition s))"
    "cv_num_waiting (cs_cv s) = 0 \<longleftrightarrow> waiters s = {}"
    "0 < cv_num_waiting_on_condition (cs_cv s) \<longleftrightarrow> (\<exists>t. cs_point s t = COnCondition)"
proof -
  note inv = assms [unfolded cv_inv_def]
  show "mlist_inv (cv_waiting (cs_cv s))" "listed_ok who s" "finite (waiters s)"
    "cv_num_waiting (cs_cv s) = int (card (waiters s))"
    "cv_num_waiting_on_condition (cs_cv s) = int (card (on_condition s))"
    using inv by simp_all
  show "cv_num_waiting (cs_cv s) = 0 \<longleftrightarrow> waiters s = {}" using inv by simp
  have "finite (on_condition s)" using inv finite_subset [OF on_condition_waiters] by blast
  then show "0 < cv_num_waiting_on_condition (cs_cv s) \<longleftrightarrow> (\<exists>t. cs_point s t = COnCondition)"
    using inv by (auto simp: card_gt_0_iff on_condition_def)
qed

lemmas cv_reach_facts = cv_inv_facts [OF cv_system.reach_inv]

text \<open>The bookkeeping of a condition variable is exact in every interleaving of calls of \<open>wait\<close> and \<open>wait_until\<close>: no
  call fails, \<open>num_waiting_\<close> is the number of calls in progress, so it is 0 only when nobody waits, \<open>num_waiting_on_condition\<close> is that of
  the threads inside the wait of the standard library, and \<open>waiting_\<close> holds exactly the fibers inside \<open>fiber->wait\<close>.\<close>

theorem condvar_bookkeeping:
  assumes "cv_reach who s"
  shows "(\<forall>t b. \<exists>p cv. cv_wait_next (who t) b (cs_point s t) (cs_cv s) = Inr (p, cv)) \<and>
    cv_num_waiting (cs_cv s) = int (card {t. in_wait (cs_point s t)}) \<and>
    (cv_num_waiting (cs_cv s) = 0 \<longleftrightarrow> (\<forall>t. \<not> in_wait (cs_point s t))) \<and>
    cv_num_waiting_on_condition (cs_cv s) = int (card {t. cs_point s t = COnCondition}) \<and>
    mlist_iterate (cv_waiting (cs_cv s)) = Some (Inr (mlist_abs (cv_waiting (cs_cv s)))) \<and>
    (\<forall>f. f \<in> snd ` set (mlist_abs (cv_waiting (cs_cv s))) \<longleftrightarrow> waiting_fiber who s f)"
proof -
  note f = cv_reach_facts [OF assms]
  have "\<exists>p cv. cv_wait_next (who t) b (cs_point s t) (cs_cv s) = Inr (p, cv)" for t b
    using cv_step_inv [OF cv_system.reach_inv [OF assms], of t b] by blast
  moreover have "cv_num_waiting (cs_cv s) = 0 \<longleftrightarrow> (\<forall>t. \<not> in_wait (cs_point s t))"
    unfolding f(6) by (auto simp: waiters_def)
  ultimately show ?thesis
    using f(4,5) inv_list_facts(1) [OF f(1)] waiting_fiber_abs [OF f(2)] by (simp add: waiters_def on_condition_def)
qed

text \<open>\<open>notify_all\<close> reaches everybody. Its iteration ends and no assertion of a worker fails; every fiber inside \<open>fiber->wait\<close>
  that is not running is afterwards in the queue of its worker, which is in a state the worker theorems speak of; no other fiber
  changes its state; and the standard condition variable is notified exactly if a thread waits on it.\<close>

theorem notify_all_wakes:
  assumes "cv_reach who s"
    and "\<forall>f. waiting_fiber who s f \<longrightarrow> notifiable (ml_size (cv_waiting (cs_cv s)) + 1) ws f"
  shows "\<exists>ws'. notify_all (cs_cv s) ws =
      Some (Inr (ws', if \<exists>t. cs_point s t = COnCondition then Some NotifyAll else None)) \<and>
    (\<forall>i f. waiting_fiber who s (i, f) \<longrightarrow> worker_reach (ws' i) \<and>
       (if fiber_state (ws i) f = Running then fiber_state (ws' i) f = Running
        else fiber_state (ws' i) f = Queued \<and> f \<in> set (work_fibers (ws' i)))) \<and>
    (\<forall>i f. \<not> waiting_fiber who s (i, f) \<longrightarrow> fiber_state (ws' i) f = fiber_state (ws i) f)"
proof (cases "waiters s = {}")
  case True
  then have "\<not> waiting_fiber who s f" "cs_point s t \<noteq> COnCondition" for f t
    using waiting_fiber_waiters [of who s f] on_condition_waiters [of s] by (auto simp: on_condition_def)
  then show ?thesis using True cv_reach_facts(6) [OF assms(1)] by (simp add: notify_all_def)
next
  case False
  note f = cv_reach_facts [OF assms(1)] and w = waiting_fiber_abs [OF cv_reach_facts(2) [OF assms(1)]]
  let ?es = "mlist_abs (cv_waiting (cs_cv s))"
  have n: "\<forall>e \<in> set ?es. notifiable (Suc (length ?es)) ws (snd e)"
    using assms(2) inv_list_facts(2) [OF f(1)] by (simp add: w del: split_paired_All)
  obtain ws' where ws': "notify_loop ?es ws = Inr ws'" "woken (snd ` set ?es) ws ws'"
    "\<forall>fb. notifiable (Suc (length ?es)) ws fb \<longrightarrow> notifiable 1 ws' fb"
    using notify_loop_spec [OF n] by blast
  have "notify_all (cs_cv s) ws =
      Some (Inr (ws', if \<exists>t. cs_point s t = COnCondition then Some NotifyAll else None))"
    using ws'(1) inv_list_facts(1) [OF f(1)] f(6,7) False by (simp add: notify_all_def)
  moreover have "worker_reach (ws' i) \<and>
       (if fiber_state (ws i) g = Running then fiber_state (ws' i) g = Running
        else fiber_state (ws' i) g = Queued \<and> g \<in> set (work_fibers (ws' i)))"
    if "waiting_fiber who s (i, g)" for i g
  proof -
    have nt: "notifiable 1 ws' (i, g)"
      using that ws'(3) assms(2) inv_list_facts(2) [OF f(1)] by simp
    moreover have "fiber_state (ws' i) g = (if fiber_state (ws i) g = Running then Running else Queued)"
      using ws'(2) that w by (simp add: woken_def)
    ultimately show ?thesis using queued_in_worker [OF nt] by (simp add: notifiable_def)
  qed
  moreover have "fiber_state (ws' i) g = fiber_state (ws i) g" if "\<not> waiting_fiber who s (i, g)" for i g
    using that ws'(2) w by (simp add: woken_def)
  ultimately show ?thesis by blast
qed

text \<open>\<open>notify_one\<close> notifies the fiber that began to wait last, if a fiber waits, and only else a thread. The fiber stays in
  \<open>waiting_\<close> until it has run again: until then a second \<open>notify_one\<close> has no effect, even when other
  fibers or threads wait.\<close>

theorem notify_one_front:
  assumes "cv_reach who s"
    and "\<forall>f. waiting_fiber who s f \<longrightarrow> notifiable 1 ws f"
  shows "\<exists>ws' c. notify_one (cs_cv s) ws = Inr (ws', c) \<and>
    (case mlist_abs (cv_waiting (cs_cv s)) of
       [] \<Rightarrow> ws' = ws \<and> c = (if \<exists>t. cs_point s t = COnCondition then Some NotifyOne else None)
     | (h, f) # rest \<Rightarrow> c = None \<and> woken {f} ws ws' \<and> notify_one (cs_cv s) ws' = Inr (ws', None))"
proof -
  note f = cv_reach_facts [OF assms(1)] and w = waiting_fiber_abs [OF cv_reach_facts(2) [OF assms(1)]]
  show ?thesis
  proof (cases "mlist_abs (cv_waiting (cs_cv s))")
    case Nil
    have "cs_point s t \<noteq> COnCondition" if "waiters s = {}" for t
      using that on_condition_waiters [of s] by (auto simp: on_condition_def)
    then show ?thesis using Nil f(6,7) inv_list_facts(2) [OF f(1)] by (auto simp: notify_one_def)
  next
    case (Cons e rest)
    obtain h g where e: "e = (h, g)" by (cases e)
    have wg: "waiting_fiber who s g" using w Cons e by simp
    then have "waiters s \<noteq> {}" by (rule waiting_fiber_waiters)
    then have run: "notify_one (cs_cv s) v = rbind (fiber_notify g v) (\<lambda>ws'. Inr (ws', None))" for v :: "'a workers"
      using f(6) front_fiber_abs [OF f(1), of h g rest] Cons e inv_list_facts(2) [OF f(1)] by (simp add: notify_one_def)
    have "notifiable (Suc 0) ws g" using assms(2) wg by (simp del: split_paired_All)
    then obtain ws' where ws': "fiber_notify g ws = Inr ws'" "woken {g} ws ws'"
      using fiber_notify_spec by blast
    have "fiber_state (ws' (fst g)) (snd g) = Running \<or> fiber_state (ws' (fst g)) (snd g) = Queued"
      using ws'(2) by (cases g) (simp add: woken_def)
    then have "fiber_notify g ws' = Inr ws'"
      by (auto simp: fiber_notify_def enqueue_fiber_def Let_def)
    then show ?thesis using run ws' Cons e by simp
  qed
qed

section \<open>Example: one fiber waits\<close>

definition one_fiber :: "nat \<Rightarrow> (nat \<times> nat) option" where
  "one_fiber t = Some (0, 0)"

definition demo_workers :: "nat workers" where
  "demo_workers i = demo_waiting"

lemma demo_cv:
  obtains s h where "cv_reach one_fiber s" "cs_point s = (\<lambda>_. CEnter)(0 := CListed h)"
    "mlist_abs (cv_waiting (cs_cv s)) = [(h, 0, 0)]" "ml_size (cv_waiting (cs_cv s)) = 1"
proof -
  let ?s0 = "\<lparr>cs_cv = condvar_new, cs_point = (\<lambda>_. CEnter)\<rparr>"
  let ?s1 = "?s0\<lparr>cs_cv := condvar_new\<lparr>cv_num_waiting := 1\<rparr>, cs_point := (\<lambda>_. CEnter)(0 := CCounted)\<rparr>"
  have r0: "cv_reach one_fiber ?s0" by (rule reach_init) (simp add: cv_init_def)
  have "cv_step one_fiber ?s0 (Inr ?s1)"
    using cv_step.intros [of one_fiber ?s0 0 False] by (simp add: condvar_new_def)
  with r0 have r1: "cv_reach one_fiber ?s1" by (rule reach_step)
  have new: "mlist_inv (mlist_new :: (nat \<times> nat) mlist)" "mlist_abs (mlist_new :: (nat \<times> nat) mlist) = []"
    by (rule mlist.inv_empty, rule mlist.abs_empty)
  obtain h l where e: "emplace_front (0, 0) mlist_new = Inr (h, l)" "mlist_inv l" "mlist_abs l = [(h, 0 :: nat, 0 :: nat)]"
    using mlist.emplace_law [OF new(1), of "(0, 0)"] new(2) by auto
  let ?s2 = "?s1\<lparr>cs_cv := (cs_cv ?s1)\<lparr>cv_waiting := l\<rparr>, cs_point := (\<lambda>_. CEnter)(0 := CListed h)\<rparr>"
  have "cv_step one_fiber ?s1 (Inr ?s2)"
    using cv_step.intros [of one_fiber ?s1 0 False] e(1) by (simp add: condvar_new_def one_fiber_def)
  with r1 have "cv_reach one_fiber ?s2" by (rule reach_step)
  moreover have "ml_size l = 1" using inv_list_facts(2) [OF e(2)] e(3) by simp
  ultimately show thesis using that [of ?s2 h] e(3) by simp
qed

lemma demo_notifiable: "n < 1000 \<Longrightarrow> notifiable n demo_workers (0, 0)"
  using demo_waiting_reach by (simp add: notifiable_def demo_workers_def demo_defs queued_total_def)

lemma demo_waiting_fiber:
  "cs_point s = (\<lambda>_. CEnter)(0 := CListed h) \<Longrightarrow> waiting_fiber one_fiber s f \<longleftrightarrow> f = (0, 0)"
  by (auto simp: waiting_fiber_def one_fiber_def split: if_splits intro: exI [where x = 0])

theorem condvar_bookkeeping_witness:
  "\<exists>s. cv_reach one_fiber s \<and> cv_num_waiting (cs_cv s) = 1 \<and>
     (0, 0) \<in> snd ` set (mlist_abs (cv_waiting (cs_cv s)))"
proof -
  obtain s h where s: "cv_reach one_fiber s" "cs_point s = (\<lambda>_. CEnter)(0 := CListed h)" by (rule demo_cv)
  have "{t. in_wait (cs_point s t)} = {0}" using s(2) by auto
  then show ?thesis using condvar_bookkeeping [OF s(1)] demo_waiting_fiber [OF s(2)] s(1) by auto
qed

theorem notify_all_wakes_witness:
  "\<exists>s ws'. cv_reach one_fiber s \<and> notify_all (cs_cv s) demo_workers = Some (Inr (ws', None)) \<and>
     fiber_state (demo_workers 0) 0 = Yielded \<and> 0 \<in> set (work_fibers (ws' 0))"
proof -
  obtain s h where s: "cv_reach one_fiber s" "cs_point s = (\<lambda>_. CEnter)(0 := CListed h)"
    "mlist_abs (cv_waiting (cs_cv s)) = [(h, 0, 0)]" "ml_size (cv_waiting (cs_cv s)) = 1" by (rule demo_cv)
  have "\<forall>f. waiting_fiber one_fiber s f \<longrightarrow> notifiable (ml_size (cv_waiting (cs_cv s)) + 1) demo_workers f"
    unfolding demo_waiting_fiber [OF s(2)] using demo_notifiable [of "Suc (Suc 0)"] s(4) by simp
  moreover have "\<not> (\<exists>t. cs_point s t = COnCondition)" using s(2) by auto
  moreover have "fiber_state (demo_workers 0) 0 = Yielded" by (simp add: demo_workers_def demo_defs)
  moreover have "waiting_fiber one_fiber s (0, 0)" using demo_waiting_fiber [OF s(2)] by simp
  ultimately show ?thesis using notify_all_wakes [OF s(1), of demo_workers] s(1) by fastforce
qed

theorem notify_one_front_witness:
  "\<exists>s ws'. cv_reach one_fiber s \<and> notify_one (cs_cv s) demo_workers = Inr (ws', None) \<and>
     fiber_state (ws' 0) 0 = Queued \<and> notify_one (cs_cv s) ws' = Inr (ws', None)"
proof -
  obtain s h where s: "cv_reach one_fiber s" "cs_point s = (\<lambda>_. CEnter)(0 := CListed h)"
    "mlist_abs (cv_waiting (cs_cv s)) = [(h, 0, 0)]" by (rule demo_cv)
  have "\<forall>f. waiting_fiber one_fiber s f \<longrightarrow> notifiable 1 demo_workers f"
    unfolding demo_waiting_fiber [OF s(2)] using demo_notifiable [of 1] by simp
  from notify_one_front [OF s(1) this] obtain ws' where
    ws': "notify_one (cs_cv s) demo_workers = Inr (ws', None)" "woken {(0, 0)} demo_workers ws'"
    "notify_one (cs_cv s) ws' = Inr (ws', None)" using s(3) by auto
  have "fiber_state (ws' 0) 0 = Queued" using ws'(2) by (simp add: woken_def demo_workers_def demo_defs)
  with s(1) ws' show ?thesis by blast
qed

end
