(* ===== verification/Event_Model.thy ===== *)
theory Event_Model
  imports Condition_Variable
begin

text \<open>
  \<open>marl::Event\<close> (\<open>event.hpp\<close>).

  The shared states of all events are the entries of a list, numbered in the order of creation; a handle is a
  number, and copies of an \<open>Event\<close> are the same number. \<open>signal\<close> holds the mutex of an event
  while it signals the events that depend on it: \<open>held\<close> are the events whose mutex the call chain holds, and
  taking one of them again is a fault (a self-deadlock on a \<open>std::mutex\<close>). The events made by \<open>any\<close> depend on older ones only,
  so that this does not happen.

  The calls an event makes on its condition variable are kept in the order in which they are made (\<open>ev_notified\<close>);
  what such a call does to the waiting fibers and threads is \<open>notify_one\<close> and \<open>notify_all\<close> of \<open>Condition_Variable\<close>.

  The functions that wait are cut at the wait: \<open>ev_ready\<close> is the condition that ends it, \<open>ev_wait_return\<close> what
  happens then, with the result of the wait for the versions with a deadline.
\<close>

datatype emode = Auto | Manual

record event =
  ev_mode :: emode
  ev_signalled :: bool
  ev_deps :: "nat list"
  ev_notified :: "cv_call list"

definition event_new :: "emode \<Rightarrow> bool \<Rightarrow> event" where
  "event_new m initial_state = \<lparr>ev_mode = m, ev_signalled = initial_state, ev_deps = [],
     ev_notified = []\<rparr>"

definition set_signalled :: "bool \<Rightarrow> nat \<Rightarrow> event list \<Rightarrow> event list" where
  "set_signalled b i es = es[i := (es ! i)\<lparr>ev_signalled := b\<rparr>]"

section \<open>Signalling\<close>

text \<open>The body of \<open>signal\<close> between the test and the loop.\<close>

definition signal_call :: "emode \<Rightarrow> cv_call" where
  "signal_call m = (if m = Auto then NotifyOne else NotifyAll)"

definition ev_raise :: "nat \<Rightarrow> event list \<Rightarrow> event list" where
  "ev_raise i es =
     es[i := (es ! i)\<lparr>ev_signalled := True,
                      ev_notified := ev_notified (es ! i) @ [signal_call (ev_mode (es ! i))]\<rparr>]"

function ev_signal :: "nat \<Rightarrow> nat set \<Rightarrow> nat \<Rightarrow> event list \<Rightarrow> event list result"
  and ev_signal_deps :: "nat \<Rightarrow> nat set \<Rightarrow> nat list \<Rightarrow> event list \<Rightarrow> event list result" where
  "ev_signal n held i es =
     (if i \<in> held then Inl (Fatal ''mutex is already held'')
      else if \<not> i < n then Inl BadAccess
      else if ev_signalled (es ! i) then Inr es
      else ev_signal_deps n (insert i held) (ev_deps (es ! i)) (ev_raise i es))"
| "ev_signal_deps n held [] es = Inr es"
| "ev_signal_deps n held (d # ds) es =
     rbind (ev_signal n held d es) (\<lambda>es'. ev_signal_deps n held ds es')"
  by pat_completeness auto
termination
proof (relation "measures [\<lambda>x. (case x of Inl (n, held, i, es) \<Rightarrow> card ({..<n} - held)
      | Inr (n, held, ds, es) \<Rightarrow> card ({..<n} - held)),
    \<lambda>x. (case x of Inl (n, held, i, es) \<Rightarrow> 0 | Inr (n, held, ds, es) \<Rightarrow> length ds)]", goal_cases)
  case (2 n held i es)
  then have "{..<n} - insert i held \<subset> {..<n} - held" by auto
  then have "card ({..<n} - insert i held) < card ({..<n} - held)" by (intro psubset_card_mono) auto
  then show ?case by simp
qed auto

declare ev_signal.simps [simp del]

text \<open>\<open>Event::signal()\<close>.\<close>

definition event_signal :: "nat \<Rightarrow> event list \<Rightarrow> event list result" where
  "event_signal i es = ev_signal (length es) {} i es"

definition event_clear :: "nat \<Rightarrow> event list \<Rightarrow> event list" where
  "event_clear i es = set_signalled False i es"

definition event_test :: "nat \<Rightarrow> event list \<Rightarrow> bool \<times> event list" where
  "event_test i es =
     (if \<not> ev_signalled (es ! i) then (False, es)
      else if ev_mode (es ! i) = Auto then (True, set_signalled False i es)
      else (True, es))"

definition event_isSignalled :: "nat \<Rightarrow> event list \<Rightarrow> bool" where
  "event_isSignalled i es = ev_signalled (es ! i)"

definition ev_ready :: "nat \<Rightarrow> event list \<Rightarrow> bool" where
  "ev_ready i es = ev_signalled (es ! i)"

text \<open>\<open>wait\<close>, \<open>wait_for\<close> and \<open>wait_until\<close> after the condition variable returned \<open>res\<close>; \<open>wait\<close> always gets \<open>True\<close>.\<close>

definition ev_wait_return :: "bool \<Rightarrow> nat \<Rightarrow> event list \<Rightarrow> bool \<times> event list" where
  "ev_wait_return res i es =
     (if \<not> res then (False, es)
      else if ev_mode (es ! i) = Auto then (True, set_signalled False i es)
      else (True, es))"

text \<open>\<open>Event::any\<close> over a list of events: the number of the new event and the state.\<close>

fun any_loop :: "nat \<Rightarrow> nat list \<Rightarrow> event list \<Rightarrow> event list result" where
  "any_loop a [] es = Inr es"
| "any_loop a (s # ss) es =
     (if \<not> s < length es then Inl BadAccess
      else rbind (if ev_signalled (es ! s) then ev_signal (length es) {s} a es else Inr es) (\<lambda>es1.
           any_loop a ss (es1[s := (es1 ! s)\<lparr>ev_deps := ev_deps (es1 ! s) @ [a]\<rparr>])))"

definition event_any :: "emode \<Rightarrow> nat list \<Rightarrow> event list \<Rightarrow> (nat \<times> event list) result" where
  "event_any m ss es =
     rbind (any_loop (length es) ss (es @ [event_new m False])) (\<lambda>es'. Inr (length es, es'))"

section \<open>Chains of signals\<close>

definition events_wf :: "event list \<Rightarrow> bool" where
  "events_wf es \<longleftrightarrow> (\<forall>i < length es. \<forall>d \<in> set (ev_deps (es ! i)). i < d \<and> d < length es)"

lemma events_wfD:
  "events_wf es \<Longrightarrow> i < length es \<Longrightarrow> d \<in> set (ev_deps (es ! i)) \<Longrightarrow> i < d \<and> d < length es"
  unfolding events_wf_def by blast

lemma events_wfI:
  "(\<And>i d. i < length es \<Longrightarrow> d \<in> set (ev_deps (es ! i)) \<Longrightarrow> i < d \<and> d < length es) \<Longrightarrow> events_wf es"
  unfolding events_wf_def by blast

definition sig :: "event list \<Rightarrow> nat \<Rightarrow> bool" where
  "sig es i \<longleftrightarrow> i < length es \<and> ev_signalled (es ! i)"

definition dep_rel :: "event list \<Rightarrow> (nat \<times> nat) set" where
  "dep_rel es = {(a, b). a < length es \<and> b \<in> set (ev_deps (es ! a))}"

definition same_deps :: "event list \<Rightarrow> event list \<Rightarrow> bool" where
  "same_deps es es' \<longleftrightarrow> length es' = length es \<and>
     (\<forall>i < length es. ev_deps (es' ! i) = ev_deps (es ! i) \<and> ev_mode (es' ! i) = ev_mode (es ! i))"

text \<open>
  What signalling the events of \<open>S\<close> does: they are signalled, no signal is taken back, an event that became signalled has
  passed the signal on to all its dependents and made one call on its condition variable, and it was reached from \<open>S\<close>.
\<close>

definition notified_once :: "event list \<Rightarrow> event list \<Rightarrow> bool" where
  "notified_once es es' \<longleftrightarrow> (\<forall>j < length es. ev_notified (es' ! j) = ev_notified (es ! j) @
     (if \<not> sig es j \<and> sig es' j then [signal_call (ev_mode (es ! j))] else []))"

definition signal_post :: "nat set \<Rightarrow> event list \<Rightarrow> event list \<Rightarrow> bool" where
  "signal_post S es es' \<longleftrightarrow> same_deps es es' \<and> notified_once es es' \<and> (\<forall>j. sig es j \<longrightarrow> sig es' j) \<and> (\<forall>s \<in> S. sig es' s) \<and>
     (\<forall>j. \<not> sig es j \<and> sig es' j \<longrightarrow> (\<forall>d. (j, d) \<in> dep_rel es \<longrightarrow> sig es' d) \<and> (\<exists>s \<in> S. (s, j) \<in> (dep_rel es)\<^sup>*))"

lemma same_deps_rel: "same_deps es es' \<Longrightarrow> dep_rel es' = dep_rel es"
  by (auto simp: same_deps_def dep_rel_def)

lemma same_deps_wf: "same_deps es es' \<Longrightarrow> events_wf es \<Longrightarrow> events_wf es'"
  unfolding same_deps_def events_wf_def by metis

lemma same_deps_trans: "same_deps es es1 \<Longrightarrow> same_deps es1 es2 \<Longrightarrow> same_deps es es2"
  unfolding same_deps_def by metis

lemma notified_once_trans:
  assumes "notified_once es es1" "notified_once es1 es2" "same_deps es es1"
    and "\<forall>j. sig es j \<longrightarrow> sig es1 j" "\<forall>j. sig es1 j \<longrightarrow> sig es2 j"
  shows "notified_once es es2"
  unfolding notified_once_def
proof (intro allI impI)
  fix j assume j: "j < length es"
  then have "j < length es1" "ev_mode (es1 ! j) = ev_mode (es ! j)" using assms(3) by (simp_all add: same_deps_def)
  then have "ev_notified (es2 ! j) = ev_notified (es1 ! j) @
      (if \<not> sig es1 j \<and> sig es2 j then [signal_call (ev_mode (es ! j))] else [])"
    using assms(2) unfolding notified_once_def by metis
  moreover have "ev_notified (es1 ! j) = ev_notified (es ! j) @
      (if \<not> sig es j \<and> sig es1 j then [signal_call (ev_mode (es ! j))] else [])"
    using assms(1) j unfolding notified_once_def by blast
  moreover have "sig es j \<Longrightarrow> sig es1 j" "sig es1 j \<Longrightarrow> sig es2 j" using assms(4,5) by blast+
  ultimately show "ev_notified (es2 ! j) = ev_notified (es ! j) @
      (if \<not> sig es j \<and> sig es2 j then [signal_call (ev_mode (es ! j))] else [])" by auto
qed

lemma notified_once_refl: "notified_once es es"
  by (simp add: notified_once_def)

lemma signal_post_seq:
  assumes "signal_post S es es1" "signal_post T es1 es2"
  shows "signal_post (S \<union> T) es es2"
proof -
  have "same_deps es es2" using assms same_deps_trans by (auto simp: signal_post_def)
  moreover have "dep_rel es1 = dep_rel es" using assms(1) same_deps_rel by (auto simp: signal_post_def)
  moreover have "notified_once es es2"
    using notified_once_trans [of es es1 es2] assms by (simp add: signal_post_def)
  ultimately show ?thesis
    using assms unfolding signal_post_def by (smt (verit) UnCI UnE)
qed

lemma set_signalled_sig:
  "i < length es \<Longrightarrow> sig (set_signalled b i es) j \<longleftrightarrow> (if j = i then b else sig es j)"
  by (auto simp: sig_def set_signalled_def nth_list_update)

lemma set_signalled_deps: "i < length es \<Longrightarrow> same_deps es (set_signalled b i es)"
  by (simp add: same_deps_def set_signalled_def nth_list_update)

lemma ev_raise_sig: "i < length es \<Longrightarrow> sig (ev_raise i es) j \<longleftrightarrow> j = i \<or> sig es j"
  by (auto simp: sig_def ev_raise_def nth_list_update)

lemma ev_raise_deps: "i < length es \<Longrightarrow> same_deps es (ev_raise i es)"
  by (simp add: same_deps_def ev_raise_def nth_list_update)

lemma ev_raise_notified: "i < length es \<Longrightarrow> \<not> ev_signalled (es ! i) \<Longrightarrow> notified_once es (ev_raise i es)"
  unfolding notified_once_def by (simp add: ev_raise_sig) (simp add: sig_def ev_raise_def nth_list_update)

lemma signal_chain:
  "length es = n \<Longrightarrow> events_wf es \<Longrightarrow> i < n \<Longrightarrow> (\<forall>h \<in> held. h < i) \<Longrightarrow>
     \<exists>es'. ev_signal n held i es = Inr es' \<and> signal_post {i} es es'"
  "length es = n \<Longrightarrow> events_wf es \<Longrightarrow> (\<forall>d \<in> set ds. d < n \<and> (\<forall>h \<in> held. h < d)) \<Longrightarrow>
     \<exists>es'. ev_signal_deps n held ds es = Inr es' \<and> signal_post (set ds) es es'"
proof (induction n held i es and n held ds es rule: ev_signal_ev_signal_deps.induct)
  case (1 n held i es)
  have ni: "i \<notin> held" using 1(5) by auto
  show ?case
  proof (cases "ev_signalled (es ! i)")
    case True
    then have "ev_signal n held i es = Inr es" using ni 1(4) by (simp add: ev_signal.simps)
    moreover have "signal_post {i} es es"
      using True 1(2,4) by (auto simp: signal_post_def same_deps_def sig_def notified_once_refl)
    ultimately show ?thesis by blast
  next
    case False
    let ?es1 = "ev_raise i es"
    have sd: "same_deps es ?es1" using 1(2,4) by (simp add: ev_raise_deps)
    have len: "length ?es1 = n" using 1(2) by (simp add: ev_raise_def)
    have wf: "events_wf ?es1" by (rule same_deps_wf [OF sd 1(3)])
    have ds: "\<forall>d \<in> set (ev_deps (es ! i)). d < n \<and> (\<forall>h \<in> insert i held. h < d)"
    proof
      fix d assume "d \<in> set (ev_deps (es ! i))"
      then have "i < d" "d < n" using events_wfD [OF 1(3)] 1(2,4) by blast+
      then show "d < n \<and> (\<forall>h \<in> insert i held. h < d)" using 1(5) by fastforce
    qed
    obtain es' where es': "ev_signal_deps n (insert i held) (ev_deps (es ! i)) ?es1 = Inr es'"
      "signal_post (set (ev_deps (es ! i))) ?es1 es'"
      using 1(1) [OF ni _ False len wf ds] 1(4) by blast
    have rel: "dep_rel ?es1 = dep_rel es" by (rule same_deps_rel [OF sd])
    have first: "sig ?es1 j \<longleftrightarrow> j = i \<or> sig es j" for j
      using 1(2,4) by (simp add: ev_raise_sig)
    have deps_i: "(i, d) \<in> dep_rel es \<longleftrightarrow> d \<in> set (ev_deps (es ! i))" for d
      using 1(2,4) by (simp add: dep_rel_def)
    have "signal_post {i} es es'"
    proof -
      have "same_deps es es'" using es'(2) sd same_deps_trans by (auto simp: signal_post_def)
      moreover have "notified_once es es'"
      proof (rule notified_once_trans [OF _ _ sd])
        show "notified_once es ?es1" using ev_raise_notified False 1(2,4) by blast
        show "notified_once ?es1 es'" "\<forall>j. sig ?es1 j \<longrightarrow> sig es' j" using es'(2) by (simp_all add: signal_post_def)
        show "\<forall>j. sig es j \<longrightarrow> sig ?es1 j" using first by blast
      qed
      moreover have "(s, j) \<in> (dep_rel es)\<^sup>* \<Longrightarrow> s \<in> set (ev_deps (es ! i)) \<Longrightarrow> (i, j) \<in> (dep_rel es)\<^sup>*" for s j
        using deps_i by (meson converse_rtrancl_into_rtrancl)
      ultimately show ?thesis
        using es'(2) first rel deps_i unfolding signal_post_def by (metis (no_types, lifting) rtrancl.rtrancl_refl singletonD singletonI)
    qed
    moreover have "ev_signal n held i es = Inr es'" using ni 1(4) False es'(1) by (simp add: ev_signal.simps)
    ultimately show ?thesis by blast
  qed
next
  case (2 n held es)
  then show ?case by (auto simp: signal_post_def same_deps_def notified_once_refl)
next
  case (3 n held d ds es)
  obtain es1 where es1: "ev_signal n held d es = Inr es1" "signal_post {d} es es1"
    using 3(1) 3(3-5) by auto
  then have "length es1 = n" "events_wf es1"
    using 3(3,4) same_deps_wf by (auto simp: signal_post_def same_deps_def)
  then obtain es2 where es2: "ev_signal_deps n held ds es1 = Inr es2" "signal_post (set ds) es1 es2"
    using 3(2) [OF es1(1)] 3(5) by auto
  then show ?case using es1 signal_post_seq [OF es1(2) es2(2)] by auto
qed

section \<open>Properties\<close>

text \<open>\<open>signal\<close> on events linked by \<open>any\<close> ends without taking a mutex twice, whatever the links: the event is signalled, no
  signal is taken back, every event that became signalled has passed it on to all events that depend on it, and only events that
  depend on the signalled one, directly or through others, changed. Every event that became signalled has called its condition variable once,
  \<open>notify_one\<close> in automatic and \<open>notify_all\<close> in manual mode, and no other event has.\<close>

theorem event_signal_spreads:
  assumes "events_wf es" "i < length es"
  shows "\<exists>es'. event_signal i es = Inr es' \<and> sig es' i \<and> (\<forall>j. sig es j \<longrightarrow> sig es' j) \<and>
    (\<forall>j. \<not> sig es j \<and> sig es' j \<longrightarrow>
       (\<forall>d \<in> set (ev_deps (es ! j)). sig es' d) \<and> (i, j) \<in> (dep_rel es)\<^sup>*) \<and> events_wf es' \<and>
    (\<forall>j < length es. ev_notified (es' ! j) = ev_notified (es ! j) @
       (if \<not> sig es j \<and> sig es' j
        then [case ev_mode (es ! j) of Auto \<Rightarrow> NotifyOne | Manual \<Rightarrow> NotifyAll] else []))"
proof -
  obtain es' where es': "ev_signal (length es) {} i es = Inr es'" "signal_post {i} es es'"
    using signal_chain(1) [OF refl assms, of "{}"] by auto
  have "j < length es" if "sig es' j" for j using that es'(2) by (auto simp: sig_def signal_post_def same_deps_def)
  then have "(\<forall>d \<in> set (ev_deps (es ! j)). sig es' d) \<and> (i, j) \<in> (dep_rel es)\<^sup>*" if "\<not> sig es j" "sig es' j" for j
    using es'(2) that by (auto simp: signal_post_def dep_rel_def)
  moreover have "events_wf es'" using es'(2) same_deps_wf assms(1) by (auto simp: signal_post_def)
  moreover have "signal_call m = (case m of Auto \<Rightarrow> NotifyOne | Manual \<Rightarrow> NotifyAll)" for m
    by (cases m) (simp_all add: signal_call_def)
  then have "\<forall>j < length es. ev_notified (es' ! j) = ev_notified (es ! j) @
       (if \<not> sig es j \<and> sig es' j then [case ev_mode (es ! j) of Auto \<Rightarrow> NotifyOne | Manual \<Rightarrow> NotifyAll] else [])"
    using es'(2) by (simp add: signal_post_def notified_once_def)
  ultimately show ?thesis using es' by (auto simp: event_signal_def signal_post_def)
qed

definition events_example :: "event list" where
  "events_example = [\<lparr>ev_mode = Auto, ev_signalled = False, ev_deps = [1], ev_notified = []\<rparr>,
     \<lparr>ev_mode = Manual, ev_signalled = False, ev_deps = [], ev_notified = []\<rparr>]"

theorem event_signal_spreads_witness:
  "\<exists>es'. event_signal 0 events_example = Inr es' \<and> sig es' 0 \<and> sig es' 1"
proof -
  have "events_wf events_example"
    by (auto simp: events_wf_def events_example_def nth_Cons split: nat.splits)
  moreover have "0 < length events_example" "\<not> sig events_example 0" "ev_deps (events_example ! 0) = [1]"
    by (simp_all add: events_example_def sig_def)
  ultimately show ?thesis using event_signal_spreads [of events_example 0] by fastforce
qed

text \<open>The calls on one event: \<open>signal\<close>, \<open>clear\<close>, and \<open>test\<close> or a wait that ends.\<close>

datatype ev_call = CSignal | CClear | CTake

fun ev_calls :: "nat \<Rightarrow> ev_call list \<Rightarrow> event list \<Rightarrow> bool list result" where
  "ev_calls i [] es = Inr []"
| "ev_calls i (CSignal # cs) es = rbind (event_signal i es) (\<lambda>es'. ev_calls i cs es')"
| "ev_calls i (CClear # cs) es = ev_calls i cs (event_clear i es)"
| "ev_calls i (CTake # cs) es =
     (let (r, es') = event_test i es in rbind (ev_calls i cs es') (\<lambda>rs. Inr (r # rs)))"

text \<open>An event in automatic mode wakes one waiter per signal: in any sequence of calls the number of tests and waits that succeed is at
  most the number of calls of \<open>signal\<close>, plus one if the event was signalled at the start.\<close>

theorem auto_event_wakes_once:
  assumes "ev_mode (es ! i) = Auto" "i < length es" "events_wf es" "ev_calls i cs es = Inr rs"
  shows "count_list rs True \<le> count_list cs CSignal + (if sig es i then 1 else 0)"
  using assms
proof (induction i cs es arbitrary: rs rule: ev_calls.induct)
  case (1 i es)
  then show ?case by simp
next
  case (2 i cs es)
  obtain es' where es': "ev_signal (length es) {} i es = Inr es'" "signal_post {i} es es'"
    using signal_chain(1) [OF refl 2(4,3), of "{}"] by auto
  then have s: "event_signal i es = Inr es'" "sig es' i" "same_deps es es'"
    by (auto simp: event_signal_def signal_post_def)
  then have "ev_mode (es' ! i) = Auto" "i < length es'" "events_wf es'" "ev_calls i cs es' = Inr rs"
    using 2(2-5) same_deps_wf by (auto simp: same_deps_def)
  from 2(1) [OF s(1) this] show ?case using s(2) by simp
next
  case (3 i cs es)
  have sd: "same_deps es (event_clear i es)" using 3(3) by (simp add: event_clear_def set_signalled_deps)
  then have "ev_mode (event_clear i es ! i) = Auto" "i < length (event_clear i es)" "events_wf (event_clear i es)"
    using 3(2-4) same_deps_wf by (auto simp: same_deps_def)
  from 3(1) [OF this] 3(3,5) show ?case by (simp add: event_clear_def set_signalled_sig)
next
  case (4 i cs es)
  show ?case
  proof (cases "ev_signalled (es ! i)")
    case True
    let ?es' = "set_signalled False i es"
    have t: "event_test i es = (True, ?es')" using True 4(2) by (simp add: event_test_def)
    obtain rs' where rs: "rs = True # rs'" "ev_calls i cs ?es' = Inr rs'" using 4(5) t by auto
    have sd: "same_deps es ?es'" using 4(3) by (simp add: set_signalled_deps)
    then have "ev_mode (?es' ! i) = Auto" "i < length ?es'" "events_wf ?es'"
      using 4(2-4) same_deps_wf by (auto simp: same_deps_def)
    note ih = 4(1) [OF t [symmetric] refl this rs(2)]
    have "\<not> sig ?es' i" "sig es i" using True 4(3) by (simp add: set_signalled_sig, simp add: sig_def)
    with ih show ?thesis using rs(1) by simp
  next
    case False
    then have t: "event_test i es = (False, es)" by (simp add: event_test_def)
    obtain rs' where rs: "rs = False # rs'" "ev_calls i cs es = Inr rs'" using 4(5) t by auto
    from 4(1) [OF t [symmetric] refl 4(2-4) rs(2)] show ?thesis using rs(1) by simp
  qed
qed

theorem auto_event_wakes_once_witness:
  "ev_calls 0 [CTake, CSignal, CSignal, CTake, CTake] [event_new Auto False] = Inr [False, True, False] \<and>
   count_list [False, True, False] True \<le> count_list [CTake, CSignal, CSignal, CTake, CTake] CSignal + 0"
proof -
  have run: "ev_calls 0 [CTake, CSignal, CSignal, CTake, CTake] [event_new Auto False] = Inr [False, True, False]"
    by (simp add: event_test_def event_signal_def ev_signal.simps event_new_def set_signalled_def ev_raise_def)
  have "events_wf [event_new Auto False]" by (simp add: events_wf_def event_new_def)
  then show ?thesis
    using auto_event_wakes_once [OF _ _ _ run] run by (simp add: event_new_def sig_def)
qed

section \<open>Combined events\<close>

lemma signal_leaf:
  assumes "a < length es" "ev_deps (es ! a) = []" "s \<noteq> a"
  shows "ev_signal (length es) {s} a es = Inr (if ev_signalled (es ! a) then es else ev_raise a es)"
  using assms by (simp add: ev_signal.simps)

definition any_step :: "nat \<Rightarrow> nat \<Rightarrow> event list \<Rightarrow> event list" where
  "any_step a s es =
     (let es1 = (if ev_signalled (es ! s) \<and> \<not> ev_signalled (es ! a) then ev_raise a es else es)
      in es1[s := (es1 ! s)\<lparr>ev_deps := ev_deps (es1 ! s) @ [a]\<rparr>])"

lemma any_step_simps:
  assumes "s < a" "a < length es"
  shows "length (any_step a s es) = length es"
    "ev_deps (any_step a s es ! j) = (if j = s then ev_deps (es ! s) @ [a] else ev_deps (es ! j))"
    "sig (any_step a s es) j \<longleftrightarrow> sig es j \<or> j = a \<and> sig es s"
  using assms by (auto simp: any_step_def Let_def ev_raise_def nth_list_update sig_def)

lemma any_step_wf:
  assumes "events_wf es" "s < a" "a < length es"
  shows "events_wf (any_step a s es)"
proof (rule events_wfI)
  fix i d assume i: "i < length (any_step a s es)" and d: "d \<in> set (ev_deps (any_step a s es ! i))"
  note st = any_step_simps [OF assms(2,3)]
  have "d \<in> set (ev_deps (es ! i)) \<or> i = s \<and> d = a" using d by (auto simp: st(2) split: if_splits)
  then show "i < d \<and> d < length (any_step a s es)"
    using events_wfD [OF assms(1), of i d] i assms(2,3) unfolding st(1) by blast
qed

lemma any_loop_ok:
  assumes "\<forall>s \<in> set ss. s < a" "a < length es" "events_wf es" "ev_deps (es ! a) = []"
  shows "\<exists>es'. any_loop a ss es = Inr es' \<and> events_wf es' \<and> length es' = length es \<and>
    (sig es' a \<longleftrightarrow> sig es a \<or> (\<exists>s \<in> set ss. sig es s)) \<and> (\<forall>j. j \<noteq> a \<longrightarrow> sig es' j = sig es j) \<and>
    (\<forall>j. set (ev_deps (es' ! j)) = set (ev_deps (es ! j)) \<union> (if j \<in> set ss then {a} else {}))"
  using assms
proof (induction ss arbitrary: es)
  case Nil
  then show ?case by simp
next
  case (Cons s ss)
  have s: "s < a" "s \<noteq> a" "s < length es" using Cons.prems(1,2) by auto
  note st = any_step_simps [OF s(1) Cons.prems(2)]
  have run: "any_loop a (s # ss) es = any_loop a ss (any_step a s es)"
    using s signal_leaf [OF Cons.prems(2,4) s(2)] by (simp add: any_step_def Let_def)
  have "a < length (any_step a s es)" "ev_deps (any_step a s es ! a) = []"
    using Cons.prems(2,4) s(2) by (simp_all add: st(1,2))
  then obtain es' where es': "any_loop a ss (any_step a s es) = Inr es'" "events_wf es'"
    "length es' = length (any_step a s es)"
    "sig es' a \<longleftrightarrow> sig (any_step a s es) a \<or> (\<exists>s' \<in> set ss. sig (any_step a s es) s')"
    "\<forall>j. j \<noteq> a \<longrightarrow> sig es' j = sig (any_step a s es) j"
    "\<forall>j. set (ev_deps (es' ! j)) = set (ev_deps (any_step a s es ! j)) \<union> (if j \<in> set ss then {a} else {})"
    using Cons.IH [of "any_step a s es"] Cons.prems(1) any_step_wf [OF Cons.prems(3) s(1) Cons.prems(2)] by auto
  have "sig es' a \<longleftrightarrow> sig es a \<or> (\<exists>s' \<in> set (s # ss). sig es s')"
    using es'(4) Cons.prems(1) by (auto simp: st(3))
  moreover have "set (ev_deps (es' ! j)) = set (ev_deps (es ! j)) \<union> (if j \<in> set (s # ss) then {a} else {})" for j
    using es'(6) by (auto simp: st(2))
  ultimately show ?case using run es'(1,2,3,5) by (auto simp: st(1,3))
qed

text \<open>\<open>Event::any\<close>: the new event is signalled at once exactly if one of the given events is, and it becomes signalled when one of the
  given events that was not signalled is signalled later.\<close>

theorem event_any_spec:
  assumes "events_wf es" "\<forall>s \<in> set ss. s < length es"
  shows "\<exists>es'. event_any m ss es = Inr (length es, es') \<and> events_wf es' \<and>
    (sig es' (length es) \<longleftrightarrow> (\<exists>s \<in> set ss. sig es s)) \<and>
    (\<forall>s \<in> set ss. \<forall>es2. \<not> sig es' s \<longrightarrow> event_signal s es' = Inr es2 \<longrightarrow> sig es2 (length es))"
proof -
  let ?a = "length es" and ?es0 = "es @ [event_new m False]"
  have "events_wf ?es0"
  proof (rule events_wfI)
    fix i d assume "i < length ?es0" "d \<in> set (ev_deps (?es0 ! i))"
    then have "i < length es" "d \<in> set (ev_deps (es ! i))"
      by (auto simp: nth_append event_new_def less_Suc_eq split: if_splits)
    then have "i < d" "d < length es" using events_wfD [OF assms(1)] by blast+
    then show "i < d \<and> d < length ?es0" by simp
  qed
  moreover have "ev_deps (?es0 ! ?a) = []" "?a < length ?es0" by (simp_all add: event_new_def)
  ultimately obtain es' where es': "any_loop ?a ss ?es0 = Inr es'" "events_wf es'" "length es' = length ?es0"
    "sig es' ?a \<longleftrightarrow> sig ?es0 ?a \<or> (\<exists>s \<in> set ss. sig ?es0 s)"
    "\<forall>j. set (ev_deps (es' ! j)) = set (ev_deps (?es0 ! j)) \<union> (if j \<in> set ss then {?a} else {})"
    using any_loop_ok [OF assms(2), of ?es0] by blast
  have old: "sig ?es0 j = sig es j" for j by (auto simp: sig_def nth_append event_new_def less_Suc_eq)
  have "sig es' ?a \<longleftrightarrow> (\<exists>s \<in> set ss. sig es s)" using es'(4) old by (auto simp: sig_def [of es "length es"])
  moreover have "sig es2 ?a" if s: "s \<in> set ss" "\<not> sig es' s" and e: "event_signal s es' = Inr es2" for s es2
  proof -
    have len: "s < length es'" using assms(2) s(1) es'(3) by auto
    have "signal_post {s} es' es2"
      using signal_chain(1) [OF refl es'(2) len, of "{}"] e by (auto simp: event_signal_def)
    moreover have "(s, ?a) \<in> dep_rel es'" using es'(5) s(1) len by (simp add: dep_rel_def)
    ultimately show ?thesis using s(2) by (auto simp: signal_post_def)
  qed
  ultimately show ?thesis using es'(1,2) by (auto simp: event_any_def)
qed

theorem event_any_spec_witness:
  "\<exists>es'. event_any Manual [0, 1] events_example = Inr (2, es') \<and> \<not> sig es' 2"
proof -
  have "events_wf events_example" by (auto simp: events_wf_def events_example_def nth_Cons split: nat.splits)
  moreover have "\<forall>s \<in> set [0, 1]. s < length events_example" "length events_example = 2"
    "\<not> sig events_example 0" "\<not> sig events_example 1"
    by (simp_all add: events_example_def sig_def)
  ultimately show ?thesis using event_any_spec [of events_example "[0, 1]" Manual] by auto
qed

end
