(* ===== verification/Mutex_Model.thy ===== *)
theory Mutex_Model
  imports Marl_Prelude
begin

text \<open>
  \<open>marl::mutex\<close> and \<open>marl::lock\<close> (\<open>mutex.hpp\<close>), thin wrappers around \<open>std::mutex\<close> and \<open>std::unique_lock\<close>.

  A mutex is the agent that owns it, if one does. An operation that has to block is \<open>None\<close>; an operation that
  the standard forbids is the fault \<open>Undefined\<close> (locking a mutex twice, unlocking a mutex of somebody else), and one that throws is
  \<open>SystemError\<close>. A \<open>marl::lock\<close> is the flag \<open>owns_lock\<close> of its \<open>unique_lock\<close>, together with the mutex it refers to.

  The waits of \<open>std::condition_variable\<close> with a predicate are the loops that the standard gives for them. They
  run from one access of the mutex to the next; a thread that is blocked is woken by a notification, by a
  timeout or for no reason.
\<close>

section \<open>The mutex\<close>

type_synonym 'a std_mutex = "'a option"

definition mutex_lock :: "'a \<Rightarrow> 'a std_mutex \<Rightarrow> 'a std_mutex result option" where
  "mutex_lock a m =
     (case m of None \<Rightarrow> Some (Inr (Some a)) | Some b \<Rightarrow> if b = a then Some (Inl Undefined) else None)"

definition mutex_unlock :: "'a \<Rightarrow> 'a std_mutex \<Rightarrow> 'a std_mutex result" where
  "mutex_unlock a m = (if m = Some a then Inr None else Inl Undefined)"

definition mutex_try_lock :: "'a \<Rightarrow> 'a std_mutex \<Rightarrow> (bool \<times> 'a std_mutex) result" where
  "mutex_try_lock a m =
     (case m of None \<Rightarrow> Inr (True, Some a) | Some b \<Rightarrow> if b = a then Inl Undefined else Inr (False, m))"

text \<open>Continue with the value of an operation that may block.\<close>

definition block_bind :: "'a result option \<Rightarrow> ('a \<Rightarrow> 'b result) \<Rightarrow> 'b result option" where
  "block_bind r f = map_option (\<lambda>x. rbind x f) r"

section \<open>The lock\<close>

type_synonym 'a held_lock = "bool \<times> 'a std_mutex"

definition lock_new :: "'a \<Rightarrow> 'a std_mutex \<Rightarrow> 'a held_lock result option" where
  "lock_new a m = block_bind (mutex_lock a m) (\<lambda>m'. Inr (True, m'))"

definition lock_destruct :: "'a \<Rightarrow> 'a held_lock \<Rightarrow> 'a std_mutex result" where
  "lock_destruct a l = (if fst l then mutex_unlock a (snd l) else Inr (snd l))"

definition owns_lock :: "'a held_lock \<Rightarrow> bool" where
  "owns_lock l = fst l"

definition lock_no_tsa :: "'a \<Rightarrow> 'a held_lock \<Rightarrow> 'a held_lock result option" where
  "lock_no_tsa a l =
     (if fst l then Some (Inl (SystemError ''resource_deadlock_would_occur''))
      else block_bind (mutex_lock a (snd l)) (\<lambda>m'. Inr (True, m')))"

definition unlock_no_tsa :: "'a \<Rightarrow> 'a held_lock \<Rightarrow> 'a held_lock result" where
  "unlock_no_tsa a l =
     (if \<not> fst l then Inl (SystemError ''operation_not_permitted'')
      else rbind (mutex_unlock a (snd l)) (\<lambda>m'. Inr (False, m')))"

section \<open>Waiting with a predicate\<close>

datatype wait_loop =
    LTest            \<comment> \<open>at \<open>while (!pred())\<close>, the lock is held\<close>
  | LBlocked         \<comment> \<open>blocked, the lock is released\<close>
  | LWoken bool      \<comment> \<open>has to take the lock again; whether it was the timeout\<close>
  | LReturned bool

text \<open>
  \<open>lock::wait\<close> and \<open>lock::wait_until\<close>: \<open>pv\<close> is the value of the predicate in this moment. The version without a deadline has no
  timeouts.
\<close>

fun lock_wait_next :: "'a \<Rightarrow> bool \<Rightarrow> wait_loop \<Rightarrow> 'a held_lock \<Rightarrow> (wait_loop \<times> 'a held_lock) result option" where
  "lock_wait_next a pv LTest l =
     (if pv then Some (Inr (LReturned True, l))
      else Some (rbind (unlock_no_tsa a l) (\<lambda>l'. Inr (LBlocked, l'))))"
| "lock_wait_next a pv LBlocked l = None"
| "lock_wait_next a pv (LWoken timeout) l =
     block_bind (lock_no_tsa a l) (\<lambda>l'. Inr (if timeout then LReturned pv else LTest, l'))"
| "lock_wait_next a pv (LReturned b) l = None"

text \<open>
  \<open>mutex::wait_locked\<close> and \<open>mutex::wait_until_locked\<close>: a lock that adopts the mutex, the wait, and \<open>release\<close>, which drops
  the lock without unlocking.
\<close>

definition wait_locked_begin :: "'a std_mutex \<Rightarrow> wait_loop \<times> 'a held_lock" where
  "wait_locked_begin m = (LTest, True, m)"

definition wait_locked_end :: "'a held_lock \<Rightarrow> 'a std_mutex" where
  "wait_locked_end l = snd l"

section \<open>Threads that use one mutex\<close>

datatype mx_point =
    MOutside
  | MHeld bool              \<comment> \<open>has locked it; the flag is the result of the last wait\<close>
  | MWaits wait_loop bool   \<comment> \<open>inside \<open>wait_locked\<close>, with \<open>owns_lock\<close> of its lock\<close>

record 'a mx_system =
  mx_mutex :: "'a std_mutex"
  mx_at :: "'a \<Rightarrow> mx_point"

definition mx_move :: "'a \<Rightarrow> mx_point \<Rightarrow> 'a std_mutex \<Rightarrow> 'a mx_system \<Rightarrow> 'a mx_system" where
  "mx_move a p m s = s\<lparr>mx_mutex := m, mx_at := (mx_at s)(a := p)\<rparr>"

inductive mx_step :: "'a mx_system \<Rightarrow> 'a mx_system result \<Rightarrow> bool" where
  mx_lock: "mx_at s a = MOutside \<Longrightarrow> mutex_lock a (mx_mutex s) = Some r \<Longrightarrow>
    mx_step s (rbind r (\<lambda>m. Inr (mx_move a (MHeld True) m s)))"
| mx_try_lock: "mx_at s a = MOutside \<Longrightarrow>
    mx_step s (rbind (mutex_try_lock a (mx_mutex s)) (\<lambda>(b, m). Inr (mx_move a (if b then MHeld True else MOutside) m s)))"
| mx_unlock: "mx_at s a = MHeld b \<Longrightarrow>
    mx_step s (rbind (mutex_unlock a (mx_mutex s)) (\<lambda>m. Inr (mx_move a MOutside m s)))"
| mx_wait_begin: "mx_at s a = MHeld b \<Longrightarrow> wait_locked_begin (mx_mutex s) = (p, w, m) \<Longrightarrow>
    mx_step s (Inr (mx_move a (MWaits p w) m s))"
| mx_wait: "mx_at s a = MWaits p w \<Longrightarrow> lock_wait_next a pv p (w, mx_mutex s) = Some r \<Longrightarrow>
    mx_step s (rbind r (\<lambda>(p', w', m). Inr (mx_move a (MWaits p' w') m s)))"
| mx_wake: "mx_at s a = MWaits LBlocked w \<Longrightarrow>
    mx_step s (Inr (mx_move a (MWaits (LWoken timeout) w) (mx_mutex s) s))"
| mx_wait_end: "mx_at s a = MWaits (LReturned b) w \<Longrightarrow>
    mx_step s (Inr (mx_move a (MHeld b) (wait_locked_end (w, mx_mutex s)) s))"

definition mx_init :: "'a mx_system \<Rightarrow> bool" where
  "mx_init s \<longleftrightarrow> s = \<lparr>mx_mutex = None, mx_at = (\<lambda>_. MOutside)\<rparr>"

text \<open>The places where the code relies on the mutex.\<close>

fun in_section :: "mx_point \<Rightarrow> bool" where
  "in_section MOutside = False"
| "in_section (MHeld b) = True"
| "in_section (MWaits LTest w) = True"
| "in_section (MWaits (LReturned b) w) = True"
| "in_section (MWaits LBlocked w) = False"
| "in_section (MWaits (LWoken t) w) = False"

fun lock_flag_ok :: "mx_point \<Rightarrow> bool" where
  "lock_flag_ok (MWaits p w) = (w = in_section (MWaits p w))"
| "lock_flag_ok p = True"

definition mx_inv :: "'a mx_system \<Rightarrow> bool" where
  "mx_inv s \<longleftrightarrow> (\<forall>a. mx_mutex s = Some a \<longleftrightarrow> in_section (mx_at s a)) \<and> (\<forall>a. lock_flag_ok (mx_at s a))"

lemma mx_inv_move:
  assumes "mx_inv s" "lock_flag_ok p"
    and "m = (if in_section p then Some a else if in_section (mx_at s a) then None else mx_mutex s)"
    and "in_section p \<Longrightarrow> in_section (mx_at s a) \<or> mx_mutex s = None"
  shows "mx_inv (mx_move a p m s)"
proof -
  have "mx_mutex s = Some a \<longleftrightarrow> in_section (mx_at s a)" for a using assms(1) by (simp add: mx_inv_def)
  then have "m = Some b \<longleftrightarrow> in_section (((mx_at s)(a := p)) b)" for b
    using assms(3,4) by (auto split: if_splits) (metis option.inject option.distinct(1))+
  then show ?thesis using assms(1,2) by (simp add: mx_inv_def mx_move_def)
qed

interpretation mx_system: invariant_system mx_init mx_step mx_inv
proof (unfold_locales, goal_cases)
  case (1 s)
  then show ?case by (simp add: mx_init_def mx_inv_def)
next
  case (2 s r)
  have own: "mx_mutex s = Some a \<longleftrightarrow> in_section (mx_at s a)" and flag: "lock_flag_ok (mx_at s a)" for a
    using 2(1) by (simp_all add: mx_inv_def)
  from 2(2) show ?case
  proof cases
    case (mx_lock a r')
    then show ?thesis using own [of a] mx_inv_move [OF 2(1), of "MHeld True" "Some a" a]
      by (auto simp: mutex_lock_def split: option.splits if_splits)
  next
    case (mx_try_lock a)
    then show ?thesis using own [of a] mx_inv_move [OF 2(1), of "MHeld True" "Some a" a]
        mx_inv_move [OF 2(1), of MOutside "mx_mutex s" a]
      by (auto simp: mutex_try_lock_def split: option.splits)
  next
    case (mx_unlock a b)
    then show ?thesis using own [of a] mx_inv_move [OF 2(1), of MOutside None a] by (simp add: mutex_unlock_def)
  next
    case (mx_wait_begin a b p w m)
    then show ?thesis using own [of a] mx_inv_move [OF 2(1), of "MWaits LTest True" "Some a" a]
      by (simp add: wait_locked_begin_def)
  next
    case (mx_wait a p w pv r')
    note h = own [of a] flag [of a] mx_inv_move [OF 2(1), of "MWaits LTest True" "Some a" a]
      mx_inv_move [OF 2(1), of "MWaits LBlocked False" None a]
      mx_inv_move [OF 2(1), of "MWaits (LReturned pv) True" "Some a" a]
    from mx_wait show ?thesis
      by (cases p) (use h in \<open>auto simp: unlock_no_tsa_def lock_no_tsa_def mutex_lock_def mutex_unlock_def block_bind_def
          split: option.splits if_splits\<close>)
  next
    case (mx_wake a w timeout)
    then show ?thesis using own [of a] flag [of a] mx_inv_move [OF 2(1), of "MWaits (LWoken timeout) w" "mx_mutex s" a] by simp
  next
    case (mx_wait_end a b w)
    then show ?thesis using own [of a] mx_inv_move [OF 2(1), of "MHeld b" "mx_mutex s" a] by (simp add: wait_locked_end_def)
  qed
qed

section \<open>Properties\<close>

text \<open>The mutex protects: however threads mix \<open>lock\<close>, \<open>try_lock\<close>, \<open>unlock\<close> and the two waits on a locked mutex, no call is
  undefined and none throws; at most one thread is at a place that relies on the mutex, and that is its owner. A wait
  comes back with the mutex locked, and its result is the value that the predicate has in that moment.\<close>

theorem mutex_protects:
  assumes "reach mx_init mx_step s"
  shows "(\<forall>r. mx_step s r \<longrightarrow> ok r) \<and>
    (\<forall>a. in_section (mx_at s a) \<longleftrightarrow> mx_mutex s = Some a) \<and>
    (\<forall>a b. in_section (mx_at s a) \<and> in_section (mx_at s b) \<longrightarrow> a = b) \<and>
    (\<forall>a p w pv b w' m. mx_at s a = MWaits p w \<and>
       lock_wait_next a pv p (w, mx_mutex s) = Some (Inr (LReturned b, w', m)) \<longrightarrow> b = pv \<and> m = Some a)"
proof -
  have inv: "mx_mutex s = Some a \<longleftrightarrow> in_section (mx_at s a)" for a
    using mx_system.reach_inv [OF assms] by (simp add: mx_inv_def)
  have one: "a = b" if "in_section (mx_at s a)" "in_section (mx_at s b)" for a b
    using that inv [of a] inv [of b] by simp
  have wait: "b = pv \<and> m = Some a"
    if "mx_at s a = MWaits p w" "lock_wait_next a pv p (w, mx_mutex s) = Some (Inr (LReturned b, w', m))"
    for a p w pv b w' m
    using that inv [of a]
    by (cases p) (auto simp: lock_no_tsa_def block_bind_def mutex_lock_def split: if_splits option.splits)
  show ?thesis
  proof (intro conjI allI impI)
    show "ok r" if "mx_step s r" for r by (rule mx_system.reach_no_fault [OF assms that])
    show "in_section (mx_at s a) \<longleftrightarrow> mx_mutex s = Some a" for a by (simp add: inv)
  qed (use one wait in \<open>blast+\<close>)
qed

text \<open>One thread waits and is woken without reason, while another one has the mutex.\<close>

theorem mutex_protects_witness:
  "\<exists>s. reach mx_init mx_step s \<and> mx_at s 0 = MWaits (LWoken False) False \<and> mx_mutex s = Some (1 :: nat) \<and>
     (\<forall>a. in_section (mx_at s a) \<longleftrightarrow> a = 1)"
proof -
  let ?s0 = "\<lparr>mx_mutex = None, mx_at = (\<lambda>_. MOutside)\<rparr> :: nat mx_system"
  let ?s1 = "mx_move 0 (MHeld True) (Some 0) ?s0"
  let ?s2 = "mx_move 0 (MWaits LTest True) (Some 0) ?s1"
  let ?s3 = "mx_move 0 (MWaits LBlocked False) None ?s2"
  let ?s4 = "mx_move 1 (MHeld True) (Some 1) ?s3"
  let ?s5 = "mx_move 0 (MWaits (LWoken False) False) (Some 1) ?s4"
  have r0: "reach mx_init mx_step ?s0" by (rule reach_init) (simp add: mx_init_def)
  have "mx_step ?s0 (Inr ?s1)" using mx_lock [of ?s0 0] by (simp add: mutex_lock_def)
  with r0 have r1: "reach mx_init mx_step ?s1" by (rule reach_step)
  have "mx_step ?s1 (Inr ?s2)" using mx_wait_begin [of ?s1 0] by (simp add: mx_move_def wait_locked_begin_def)
  with r1 have r2: "reach mx_init mx_step ?s2" by (rule reach_step)
  have "mx_step ?s2 (Inr ?s3)"
    using mx_wait [of ?s2 0 LTest True False] by (simp add: mx_move_def unlock_no_tsa_def mutex_unlock_def)
  with r2 have r3: "reach mx_init mx_step ?s3" by (rule reach_step)
  have "mx_step ?s3 (Inr ?s4)" using mx_lock [of ?s3 1] by (simp add: mx_move_def mutex_lock_def)
  with r3 have r4: "reach mx_init mx_step ?s4" by (rule reach_step)
  have "mx_step ?s4 (Inr ?s5)" using mx_wake [of ?s4 0 False False] by (simp add: mx_move_def)
  with r4 have r: "reach mx_init mx_step ?s5" by (rule reach_step)
  have at: "mx_at ?s5 0 = MWaits (LWoken False) False" "mx_mutex ?s5 = Some 1" by (simp_all add: mx_move_def)
  have "in_section (mx_at ?s5 a) \<longleftrightarrow> mx_mutex ?s5 = Some a" for a
    using mutex_protects [OF r, THEN conjunct2, THEN conjunct1] by blast
  then have "\<forall>a. in_section (mx_at ?s5 a) \<longleftrightarrow> a = 1" unfolding at(2) by auto
  with r at show ?thesis by blast
qed

end
