(* ===== verification/Monitor_Model.thy ===== *)
theory Monitor_Model
  imports Condition_Variable Mutex_Model
begin

text \<open>
  A \<open>marl::ConditionVariable\<close> together with the mutex of the data it stands for: the way \<open>WaitGroup\<close> and \<open>Event\<close> use it. Calls that
  wait lock the mutex, run \<open>ConditionVariable::wait\<close> and unlock it; calls that notify lock the mutex, run \<open>notify_all\<close> and unlock it.

  Both are cut at every access to shared state, so that calls may interleave between any two of them. In the
  wait of a fiber this is the loop of \<open>Worker::wait\<close> (\<open>scheduler.cpp\<close>): with \<open>work_.mutex\<close> of its worker locked it releases the lock of the data and
  suspends itself, and the mutex of the worker is released only by the switch to another fiber. \<open>Fiber::notify\<close> needs that mutex. It has an effect
  on a suspended fiber only (\<open>enqueue_fiber\<close> of \<open>Worker_Model\<close>), which it makes runnable. A thread without a worker is in the loop of \<open>lock::wait\<close>
  (\<open>lock_wait_next\<close> of \<open>Mutex_Model\<close>).

  \<open>who t\<close> is the fiber that makes call \<open>t\<close>, a pair of the number of its worker and its number there. The value of the predicate is the
  argument \<open>pv\<close>.
\<close>

section \<open>State\<close>

datatype agent = Waiter nat | Notifier nat

datatype wait_point =
    WIdle        \<comment> \<open>not called yet\<close>
  | WLock        \<comment> \<open>at \<open>marl::lock lock(mutex)\<close>\<close>
  | WCall        \<comment> \<open>inside \<open>cv.wait\<close> with the lock, at the place \<open>cs_point\<close> says\<close>
  | WWork        \<comment> \<open>holds \<open>work_.mutex\<close> of its worker too, at \<open>wait_lock.unlock_no_tsa()\<close>\<close>
  | WReleased    \<comment> \<open>in \<open>suspend\<close>: \<open>work_.mutex\<close> is still held\<close>
  | WBlocked     \<comment> \<open>suspended, or blocked in the wait of the standard library\<close>
  | WWoken       \<comment> \<open>runs again and has to lock\<close>
  | WRet

datatype notify_point =
    NIdle
  | NLock                          \<comment> \<open>at \<open>marl::lock lock(mutex)\<close>\<close>
  | NLocked                        \<comment> \<open>at \<open>cv.notify_all()\<close>\<close>
  | NFibers "(nat \<times> nat) list"      \<comment> \<open>in its loop, with the fibers that are left\<close>
  | NThreads                       \<comment> \<open>at \<open>if (num_waiting_on_condition > 0)\<close>\<close>
  | NUnlock                        \<comment> \<open>at the end of the block of the lock\<close>
  | NRet

record monitor =
  mo_cv :: cv_system
  mo_mutex :: "agent std_mutex"
  mo_owns :: "nat \<Rightarrow> bool"           \<comment> \<open>\<open>owns_lock\<close> of the lock of a waiting call\<close>
  mo_work :: "nat \<Rightarrow> nat std_mutex"  \<comment> \<open>\<open>work_.mutex\<close> of each worker, owned by a waiting call\<close>
  mo_wait :: "nat \<Rightarrow> wait_point"
  mo_notify :: "nat \<Rightarrow> notify_point"

type_synonym callers = "nat \<Rightarrow> (nat \<times> nat) option"

definition monitor_new :: monitor where
  "monitor_new = \<lparr>mo_cv = \<lparr>cs_cv = condvar_new, cs_point = (\<lambda>_. CEnter)\<rparr>, mo_mutex = None, mo_owns = (\<lambda>_. False),
     mo_work = (\<lambda>_. None), mo_wait = (\<lambda>_. WIdle), mo_notify = (\<lambda>_. NIdle)\<rparr>"

section \<open>Waiting\<close>

definition wait_at :: "nat \<Rightarrow> wait_point \<Rightarrow> monitor \<Rightarrow> monitor" where
  "wait_at t p s = s\<lparr>mo_wait := (mo_wait s)(t := p)\<rparr>"

definition put_lock :: "nat \<Rightarrow> agent held_lock \<Rightarrow> monitor \<Rightarrow> monitor" where
  "put_lock t l s = s\<lparr>mo_owns := (mo_owns s)(t := fst l), mo_mutex := snd l\<rparr>"

abbreviation the_lock :: "nat \<Rightarrow> monitor \<Rightarrow> agent held_lock" where
  "the_lock t s \<equiv> (mo_owns s t, mo_mutex s)"

text \<open>One step of \<open>ConditionVariable::wait\<close> on its own state.\<close>

definition cv_advance :: "callers \<Rightarrow> bool \<Rightarrow> nat \<Rightarrow> monitor \<Rightarrow> monitor result" where
  "cv_advance who b t s =
     rbind (cv_wait_next (who t) b (cs_point (mo_cv s) t) (cs_cv (mo_cv s))) (\<lambda>(p, cv).
     Inr (s\<lparr>mo_cv := (mo_cv s)\<lparr>cs_cv := cv, cs_point := (cs_point (mo_cv s))(t := p)\<rparr>\<rparr>))"

text \<open>The two ways to block: the body of the loop of \<open>Worker::wait\<close> up to the mutex of the worker, and the wait of the standard library.\<close>

definition fiber_sleep :: "callers \<Rightarrow> nat \<Rightarrow> monitor \<Rightarrow> monitor result option" where
  "fiber_sleep who t s =
     (case who t of
        None \<Rightarrow> Some (Inl BadAccess)
      | Some f \<Rightarrow> block_bind (mutex_lock t (mo_work s (fst f))) (\<lambda>m.
          Inr (wait_at t WWork (s\<lparr>mo_work := (mo_work s)(fst f := m)\<rparr>))))"

definition thread_sleep :: "nat \<Rightarrow> monitor \<Rightarrow> monitor result" where
  "thread_sleep t s =
     rbind (unlock_no_tsa (Waiter t) (the_lock t s)) (\<lambda>l. Inr (wait_at t WBlocked (put_lock t l s)))"

text \<open>Inside \<open>cv.wait\<close>, with the lock.\<close>

definition call_next :: "callers \<Rightarrow> bool \<Rightarrow> nat \<Rightarrow> monitor \<Rightarrow> monitor result option" where
  "call_next who pv t s =
     (case cs_point (mo_cv s) t of
        CReturned _ \<Rightarrow> Some (rbind (lock_destruct (Waiter t) (the_lock t s)) (\<lambda>m.
          Inr (wait_at t WRet (put_lock t (False, m) s))))
      | CListed _ \<Rightarrow> if pv then Some (cv_advance who True t s) else fiber_sleep who t s
      | COnCondition \<Rightarrow> Some (if pv then cv_advance who True t s else thread_sleep t s)
      | _ \<Rightarrow> Some (cv_advance who pv t s))"

definition switch_away :: "callers \<Rightarrow> nat \<Rightarrow> monitor \<Rightarrow> monitor result" where
  "switch_away who t s =
     (case who t of
        None \<Rightarrow> Inl BadAccess
      | Some f \<Rightarrow> rbind (mutex_unlock t (mo_work s (fst f))) (\<lambda>m.
          Inr (wait_at t WBlocked (s\<lparr>mo_work := (mo_work s)(fst f := m)\<rparr>))))"

definition wait_next :: "callers \<Rightarrow> bool \<Rightarrow> nat \<Rightarrow> monitor \<Rightarrow> monitor result option" where
  "wait_next who pv t s =
     (case mo_wait s t of
        WIdle \<Rightarrow> Some (Inr (wait_at t WLock s))
      | WLock \<Rightarrow> block_bind (lock_new (Waiter t) (mo_mutex s)) (\<lambda>l. Inr (wait_at t WCall (put_lock t l s)))
      | WCall \<Rightarrow> call_next who pv t s
      | WWork \<Rightarrow> Some (rbind (unlock_no_tsa (Waiter t) (the_lock t s)) (\<lambda>l. Inr (wait_at t WReleased (put_lock t l s))))
      | WReleased \<Rightarrow> Some (switch_away who t s)
      | WBlocked \<Rightarrow> None
      | WWoken \<Rightarrow> block_bind (lock_no_tsa (Waiter t) (the_lock t s)) (\<lambda>l. Inr (wait_at t WCall (put_lock t l s)))
      | WRet \<Rightarrow> None)"

section \<open>Notifying\<close>

definition notify_at :: "nat \<Rightarrow> notify_point \<Rightarrow> monitor \<Rightarrow> monitor" where
  "notify_at d p s = s\<lparr>mo_notify := (mo_notify s)(d := p)\<rparr>"

text \<open>The blocked calls for which \<open>sel\<close> holds run again.\<close>

definition wake :: "(nat \<Rightarrow> bool) \<Rightarrow> monitor \<Rightarrow> monitor" where
  "wake sel s = s\<lparr>mo_wait := (\<lambda>t. if mo_wait s t = WBlocked \<and> sel t then WWoken else mo_wait s t)\<rparr>"

fun is_listed :: "cv_point \<Rightarrow> bool" where
  "is_listed (CListed _) = True"
| "is_listed _ = False"

definition fiber_calls :: "callers \<Rightarrow> nat \<times> nat \<Rightarrow> monitor \<Rightarrow> nat \<Rightarrow> bool" where
  "fiber_calls who f s t \<longleftrightarrow> who t = Some f \<and> is_listed (cs_point (mo_cv s) t)"

definition thread_calls :: "monitor \<Rightarrow> nat \<Rightarrow> bool" where
  "thread_calls s t \<longleftrightarrow> cs_point (mo_cv s) t = COnCondition"

text \<open>From the lock on: \<open>notify_all\<close> and the end of the block.\<close>

definition notify_next :: "callers \<Rightarrow> nat \<Rightarrow> monitor \<Rightarrow> monitor result option" where
  "notify_next who d s =
     (case mo_notify s d of
        NLock \<Rightarrow> block_bind (lock_new (Notifier d) (mo_mutex s)) (\<lambda>l. Inr (notify_at d NLocked (s\<lparr>mo_mutex := snd l\<rparr>)))
      | NLocked \<Rightarrow>
          if cv_num_waiting (cs_cv (mo_cv s)) = 0 then Some (Inr (notify_at d NUnlock s))
          else block_bind (mlist_iterate (cv_waiting (cs_cv (mo_cv s)))) (\<lambda>es. Inr (notify_at d (NFibers (map snd es)) s))
      | NFibers [] \<Rightarrow> Some (Inr (notify_at d NThreads s))
      | NFibers (f # fs) \<Rightarrow>
          if mo_work s (fst f) \<noteq> None then None
          else Some (Inr (notify_at d (NFibers fs) (wake (fiber_calls who f s) s)))
      | NThreads \<Rightarrow> Some (Inr (notify_at d NUnlock
          (if 0 < cv_num_waiting_on_condition (cs_cv (mo_cv s)) then wake (thread_calls s) s else s)))
      | NUnlock \<Rightarrow> Some (rbind (lock_destruct (Notifier d) (True, mo_mutex s)) (\<lambda>m.
          Inr (notify_at d NRet (s\<lparr>mo_mutex := m\<rparr>))))
      | _ \<Rightarrow> None)"

section \<open>The invariant\<close>

fun holds_lock :: "wait_point \<Rightarrow> bool" where
  "holds_lock WCall = True"
| "holds_lock WWork = True"
| "holds_lock _ = False"

fun holds_work :: "wait_point \<Rightarrow> bool" where
  "holds_work WWork = True"
| "holds_work WReleased = True"
| "holds_work _ = False"

fun notifying :: "notify_point \<Rightarrow> bool" where
  "notifying NIdle = False"
| "notifying NLock = False"
| "notifying NRet = False"
| "notifying _ = True"

fun point_ok :: "wait_point \<Rightarrow> cv_point \<Rightarrow> bool" where
  "point_ok WIdle p = (p = CEnter)"
| "point_ok WLock p = (p = CEnter)"
| "point_ok WCall p = True"
| "point_ok WWork p = is_listed p"
| "point_ok WReleased p = is_listed p"
| "point_ok WBlocked p = (is_listed p \<or> p = COnCondition)"
| "point_ok WWoken p = (is_listed p \<or> p = COnCondition)"
| "point_ok WRet p = (\<exists>b. p = CReturned b)"

definition locks_ok :: "callers \<Rightarrow> monitor \<Rightarrow> bool" where
  "locks_ok who s \<longleftrightarrow>
     (\<forall>t. mo_mutex s = Some (Waiter t) \<longleftrightarrow> holds_lock (mo_wait s t)) \<and>
     (\<forall>t. mo_owns s t \<longleftrightarrow> holds_lock (mo_wait s t)) \<and>
     (\<forall>d. mo_mutex s = Some (Notifier d) \<longleftrightarrow> notifying (mo_notify s d)) \<and>
     (\<forall>w t. mo_work s w = Some t \<longleftrightarrow> holds_work (mo_wait s t) \<and> (\<exists>f. who t = Some (w, f)))"

definition mon_inv :: "callers \<Rightarrow> monitor \<Rightarrow> bool" where
  "mon_inv who s \<longleftrightarrow> cv_inv who (mo_cv s) \<and> locks_ok who s \<and>
     (\<forall>t. point_ok (mo_wait s t) (cs_point (mo_cv s) t))"

end
