(* ===== verification/Monitor_Proofs.thy ===== *)
theory Monitor_Proofs
  imports Monitor_Model
begin

text \<open>
  The invariant of \<open>Monitor_Model\<close> and its consequences. Every step of a call is described by a move between places (\<open>wmove\<close>, \<open>nmove\<close>), with no
  fault possible (\<open>wait_next_trans\<close>, \<open>notify_next_trans\<close>). A call falls asleep only if the predicate was false when it had the mutex, and a
  notification in progress keeps every sleeping call on its list until it has woken it (\<open>wait_trans_drowsy\<close>, \<open>notify_trans_drowsy\<close>);
  this is where the order of the two mutexes in \<open>Worker::wait\<close> matters. \<open>wait_ready\<close> and \<open>notify_ready\<close> say which calls can go on.
\<close>

lemma locks_okD:
  assumes "locks_ok who s"
  shows "mo_mutex s = Some (Waiter t) \<longleftrightarrow> holds_lock (mo_wait s t)"
    "mo_owns s t \<longleftrightarrow> holds_lock (mo_wait s t)"
    "mo_mutex s = Some (Notifier d) \<longleftrightarrow> notifying (mo_notify s d)"
    "mo_work s w = Some t \<longleftrightarrow> holds_work (mo_wait s t) \<and> (\<exists>f. who t = Some (w, f))"
  using assms unfolding locks_ok_def by blast+

lemma mon_invD:
  assumes "mon_inv who s"
  shows "cv_inv who (mo_cv s)" "locks_ok who s" "point_ok (mo_wait s t) (cs_point (mo_cv s) t)"
  using assms unfolding mon_inv_def by blast+

lemmas mon_locks = locks_okD [OF mon_invD(2)]

lemma monitor_new_inv: "mon_inv who monitor_new"
proof -
  have "cv_inv who \<lparr>cs_cv = condvar_new, cs_point = (\<lambda>_. CEnter)\<rparr>" by (rule cv_system.inv_init) (simp add: cv_init_def)
  then show ?thesis by (simp add: mon_inv_def locks_ok_def monitor_new_def)
qed

lemma finite_update: "finite {t. f t \<noteq> (v :: 'b)} \<Longrightarrow> finite {t. (f(x := y)) t \<noteq> v}"
  by (rule finite_subset [of _ "insert x {t. f t \<noteq> v}"]) auto

text \<open>What a step of call \<open>t\<close> to the place \<open>p\<close> does to the two kinds of mutex.\<close>

definition moved_mutex :: "nat \<Rightarrow> wait_point \<Rightarrow> monitor \<Rightarrow> agent std_mutex" where
  "moved_mutex t p s =
     (if holds_lock p then Some (Waiter t) else if holds_lock (mo_wait s t) then None else mo_mutex s)"

definition moved_work :: "callers \<Rightarrow> nat \<Rightarrow> wait_point \<Rightarrow> monitor \<Rightarrow> nat \<Rightarrow> nat std_mutex" where
  "moved_work who t p s =
     (case who t of None \<Rightarrow> mo_work s | Some f \<Rightarrow> (mo_work s)(fst f :=
        if holds_work p then Some t else if holds_work (mo_wait s t) then None else mo_work s (fst f)))"

lemma locks_ok_wait:
  assumes "locks_ok who s"
    and w: "mo_wait s' = (mo_wait s)(t := p)" and "\<And>u. mo_owns s' u = (if u = t then holds_lock p else mo_owns s u)" and "mo_notify s' = mo_notify s"
    and m: "mo_mutex s' = moved_mutex t p s" and k: "mo_work s' = moved_work who t p s"
    and "holds_lock p \<Longrightarrow> holds_lock (mo_wait s t) \<or> mo_mutex s = None"
    and "holds_work p \<Longrightarrow> \<exists>f. who t = Some f \<and> (holds_work (mo_wait s t) \<or> mo_work s (fst f) = None)"
  shows "locks_ok who s'"
proof -
  note d = locks_okD [OF assms(1)]
  have "mo_mutex s' = Some (Waiter u) \<longleftrightarrow> holds_lock (mo_wait s' u)" for u
    using d(1) [of t] d(1) [of u] assms(7) by (auto simp: w m moved_mutex_def)
  moreover have "mo_mutex s' = Some (Notifier e) \<longleftrightarrow> notifying (mo_notify s' e)" for e
    using d(1) [of t] d(3) [of e] assms(4,7) by (auto simp: m moved_mutex_def)
  moreover have "mo_work s' v = Some u \<longleftrightarrow> holds_work (mo_wait s' u) \<and> (\<exists>f. who u = Some (v, f))" for v u
    using d(4) [of v t] d(4) [of v u] assms(8) by (cases "who t") (auto simp: w k moved_work_def)
  ultimately show ?thesis using assms(3) d(2) w unfolding locks_ok_def by simp
qed

lemma mon_inv_wait:
  assumes "mon_inv who s"
    and w: "mo_wait s' = (mo_wait s)(t := p)" and "\<And>u. mo_owns s' u = (if u = t then holds_lock p else mo_owns s u)" and "mo_notify s' = mo_notify s"
    and m: "mo_mutex s' = moved_mutex t p s" and k: "mo_work s' = moved_work who t p s"
    and "holds_lock p \<Longrightarrow> holds_lock (mo_wait s t) \<or> mo_mutex s = None"
    and "holds_work p \<Longrightarrow> \<exists>f. who t = Some f \<and> (holds_work (mo_wait s t) \<or> mo_work s (fst f) = None)"
    and "mo_cv s' = mo_cv s" "point_ok p (cs_point (mo_cv s) t)"
  shows "mon_inv who s'"
  using locks_ok_wait [OF mon_invD(2) [OF assms(1)] assms(2-8)] mon_invD(1,3) [OF assms(1)] assms(9,10)
  by (simp add: mon_inv_def w)

text \<open>A step leads to a state in which the invariant holds.\<close>

definition safe :: "callers \<Rightarrow> monitor result \<Rightarrow> bool" where
  "safe who r \<longleftrightarrow> (\<exists>s'. r = Inr s' \<and> mon_inv who s')"

lemma cv_advance_inv:
  assumes "mon_inv who s" "mo_wait s t = WCall"
  shows "\<exists>p cv. cv_wait_next (who t) b (cs_point (mo_cv s) t) (cs_cv (mo_cv s)) = Inr (p, cv) \<and>
    cv_advance who b t s = Inr (s\<lparr>mo_cv := (mo_cv s)\<lparr>cs_cv := cv, cs_point := (cs_point (mo_cv s))(t := p)\<rparr>\<rparr>) \<and>
    mon_inv who (s\<lparr>mo_cv := (mo_cv s)\<lparr>cs_cv := cv, cs_point := (cs_point (mo_cv s))(t := p)\<rparr>\<rparr>)"
proof -
  obtain p cv where n: "cv_wait_next (who t) b (cs_point (mo_cv s) t) (cs_cv (mo_cv s)) = Inr (p, cv)"
    "cv_inv who ((mo_cv s)\<lparr>cs_cv := cv, cs_point := (cs_point (mo_cv s))(t := p)\<rparr>)"
    using cv_step_inv [OF mon_invD(1) [OF assms(1)], of t b] by blast
  then show ?thesis using assms mon_invD(2,3) [OF assms(1)]
    by (auto simp: cv_advance_def mon_inv_def locks_ok_def)
qed

lemma listed_who:
  assumes "mon_inv who s" "is_listed (cs_point (mo_cv s) t)"
  obtains h f where "cs_point (mo_cv s) t = CListed h" "who t = Some f"
    "(h, f) \<in> set (mlist_abs (cv_waiting (cs_cv (mo_cv s))))"
proof -
  obtain h where h: "cs_point (mo_cv s) t = CListed h" using assms(2) by (cases "cs_point (mo_cv s) t") auto
  show thesis
    by (rule listed_okD [OF cv_inv_facts(2) [OF mon_invD(1) [OF assms(1)]] h]) (rule that [OF h])
qed


text \<open>The steps of a waiting call as moves between places, in \<open>wait\<close> and in the condition variable.\<close>

inductive wmove :: "bool \<Rightarrow> wait_point \<Rightarrow> cv_point \<Rightarrow> wait_point \<Rightarrow> cv_point \<Rightarrow> bool" for pv where
  wm_call: "wmove pv WIdle c WLock c"
| wm_lock: "wmove pv WLock c WCall c"
| wm_enter: "wmove pv WCall CEnter WCall (if pv then CReturned True else CCounted)"
| wm_listed: "wmove pv WCall CCounted WCall (CListed h)"
| wm_on_condition: "wmove pv WCall CCounted WCall COnCondition"
| wm_leave: "pv \<Longrightarrow> is_listed c \<or> c = COnCondition \<Longrightarrow> wmove pv WCall c WCall (CLeaving True)"
| wm_work: "\<not> pv \<Longrightarrow> is_listed c \<Longrightarrow> wmove pv WCall c WWork c"
| wm_block: "\<not> pv \<Longrightarrow> wmove pv WCall COnCondition WBlocked COnCondition"
| wm_left: "wmove pv WCall (CLeaving b) WCall (CReturned b)"
| wm_return: "wmove pv WCall (CReturned b) WRet (CReturned b)"
| wm_release: "wmove pv WWork c WReleased c"
| wm_switch: "wmove pv WReleased c WBlocked c"
| wm_relock: "wmove pv WWoken c WCall c"

definition wait_trans :: "callers \<Rightarrow> bool \<Rightarrow> nat \<Rightarrow> monitor \<Rightarrow> monitor \<Rightarrow> bool" where
  "wait_trans who pv t s s' \<longleftrightarrow> mon_inv who s' \<and> mo_notify s' = mo_notify s \<and>
     (\<exists>p c. mo_wait s' = (mo_wait s)(t := p) \<and> cs_point (mo_cv s') = (cs_point (mo_cv s))(t := c) \<and>
        wmove pv (mo_wait s t) (cs_point (mo_cv s) t) p c)"

lemma wait_transI:
  assumes "mon_inv who s'" "mo_cv s' = mo_cv s" "mo_notify s' = mo_notify s" "mo_wait s' = (mo_wait s)(t := p)"
    and "wmove pv (mo_wait s t) (cs_point (mo_cv s) t) p (cs_point (mo_cv s) t)"
  shows "wait_trans who pv t s s'"
  unfolding wait_trans_def using assms by (metis fun_upd_triv)

lemma cv_advance_trans:
  assumes "mon_inv who s" "mo_wait s t = WCall" "\<And>p cv. cv_wait_next (who t) b (cs_point (mo_cv s) t) (cs_cv (mo_cv s)) = Inr (p, cv) \<Longrightarrow>
      wmove pv WCall (cs_point (mo_cv s) t) WCall p"
  shows "\<exists>s'. cv_advance who b t s = Inr s' \<and> wait_trans who pv t s s'"
proof -
  obtain p cv where n: "cv_wait_next (who t) b (cs_point (mo_cv s) t) (cs_cv (mo_cv s)) = Inr (p, cv)"
    "cv_advance who b t s = Inr (s\<lparr>mo_cv := (mo_cv s)\<lparr>cs_cv := cv, cs_point := (cs_point (mo_cv s))(t := p)\<rparr>\<rparr>)"
    "mon_inv who (s\<lparr>mo_cv := (mo_cv s)\<lparr>cs_cv := cv, cs_point := (cs_point (mo_cv s))(t := p)\<rparr>\<rparr>)"
    using cv_advance_inv [OF assms(1,2)] by blast
  have "(mo_wait s)(t := WCall) = mo_wait s" using assms(2) by auto
  then show ?thesis unfolding n(2) wait_trans_def using n(3) assms(3) [OF n(1)] assms(2)
    by (intro exI [of _ "s\<lparr>mo_cv := (mo_cv s)\<lparr>cs_cv := cv, cs_point := (cs_point (mo_cv s))(t := p)\<rparr>\<rparr>"] conjI
        exI [of _ WCall] exI [of _ p]) simp_all
qed

lemmas lock_simps = lock_new_def lock_destruct_def lock_no_tsa_def unlock_no_tsa_def mutex_lock_def mutex_unlock_def
  block_bind_def

lemma fiber_sleep_trans:
  assumes "mon_inv who s" "mo_wait s t = WCall" "is_listed (cs_point (mo_cv s) t)" "\<not> pv" "fiber_sleep who t s = Some r"
  shows "\<exists>s'. r = Inr s' \<and> wait_trans who pv t s s'"
proof -
  obtain f where f: "who t = Some f" by (rule listed_who [OF assms(1,3)])
  have own: "mo_work s (fst f) \<noteq> Some t" using mon_locks(4) [OF assms(1), of "fst f" t] assms(2) by simp
  then have free: "mo_work s (fst f) = None" and
    r: "r = Inr (wait_at t WWork (s\<lparr>mo_work := (mo_work s)(fst f := Some t)\<rparr>))"
    using assms(5) f by (auto simp: fiber_sleep_def lock_simps split: option.splits if_splits)
  have "mon_inv who (wait_at t WWork (s\<lparr>mo_work := (mo_work s)(fst f := Some t)\<rparr>))"
    by (rule mon_inv_wait [OF assms(1), of _ t WWork])
      (use assms(2,3) f free mon_locks(1,2) [OF assms(1), of t] in
        \<open>auto simp: wait_at_def moved_mutex_def moved_work_def\<close>)
  then show ?thesis unfolding r using assms(2-4)
    by (auto intro!: wait_transI [where p = WWork] wm_work simp: wait_at_def)
qed

lemma call_next_trans:
  assumes "mon_inv who s" "mo_wait s t = WCall" "call_next who pv t s = Some r"
  shows "\<exists>s'. r = Inr s' \<and> wait_trans who pv t s s'"
proof -
  note m = mon_locks(1,2) [OF assms(1), of t, unfolded assms(2), simplified]
  note inv = mon_inv_wait [OF assms(1), where t = t] and tr = wait_transI [where t = t]
  note mv = wait_at_def put_lock_def moved_mutex_def moved_work_def
  have adv: "\<exists>s'. cv_advance who b t s = Inr s' \<and> wait_trans who pv t s s'"
    if "\<And>p cv. cv_wait_next (who t) b (cs_point (mo_cv s) t) (cs_cv (mo_cv s)) = Inr (p, cv) \<Longrightarrow>
      wmove pv WCall (cs_point (mo_cv s) t) WCall p" for b
    by (rule cv_advance_trans [OF assms(1,2) that])
  show ?thesis
  proof (cases "cs_point (mo_cv s) t")
    case CEnter
    then have r: "r = cv_advance who pv t s" using assms(3) by (simp add: call_next_def)
    show ?thesis unfolding r by (rule adv) (use CEnter wm_enter [of pv] in \<open>auto split: if_splits\<close>)
  next
    case CCounted
    then have r: "r = cv_advance who pv t s" using assms(3) by (simp add: call_next_def)
    show ?thesis unfolding r
      by (rule adv) (use CCounted wm_listed [of pv] wm_on_condition [of pv] in \<open>auto split: option.splits\<close>)
  next
    case (CLeaving b)
    then have r: "r = cv_advance who pv t s" using assms(3) by (simp add: call_next_def)
    show ?thesis unfolding r by (rule adv) (use CLeaving wm_left [of pv] in auto)
  next
    case (CListed h)
    then show ?thesis
      using assms(3) adv [of True] wm_leave [of pv "CListed h"] fiber_sleep_trans [OF assms(1,2), of pv r]
      by (auto simp: call_next_def split: if_splits)
  next
    case COnCondition
    show ?thesis
    proof (cases pv)
      case True
      then show ?thesis using assms(3) COnCondition adv [of True] wm_leave [of pv COnCondition] by (auto simp: call_next_def)
    next
      case False
      then have r: "r = Inr (wait_at t WBlocked (put_lock t (False, None) s))"
        using assms(3) COnCondition m by (auto simp: call_next_def thread_sleep_def lock_simps)
      have "mon_inv who (wait_at t WBlocked (put_lock t (False, None) s))"
        by (rule inv [of _ WBlocked]) (use assms(2) COnCondition in \<open>auto simp: mv split: option.split\<close>)
      then show ?thesis unfolding r using assms(2) COnCondition False
        by (auto intro!: tr [where p = WBlocked] wm_block simp: mv)
    qed
  next
    case (CReturned b)
    then have r: "r = Inr (wait_at t WRet (put_lock t (False, None) s))"
      using assms(3) m by (auto simp: call_next_def lock_simps)
    have "mon_inv who (wait_at t WRet (put_lock t (False, None) s))"
      by (rule inv [of _ WRet]) (use assms(2) CReturned in \<open>auto simp: mv split: option.split\<close>)
    then show ?thesis unfolding r using assms(2) CReturned
      by (auto intro!: tr [where p = WRet] wm_return simp: mv)
  qed
qed

lemma wait_next_trans:
  assumes "mon_inv who s" "wait_next who pv t s = Some r"
  shows "\<exists>s'. r = Inr s' \<and> wait_trans who pv t s s'"
proof -
  note own = mon_locks(1,2) [OF assms(1), of t] and pt = mon_invD(3) [OF assms(1), of t]
  note inv = mon_inv_wait [OF assms(1), where t = t] and tr = wait_transI [where t = t]
  note mv = wait_at_def put_lock_def moved_mutex_def moved_work_def
  show ?thesis
  proof (cases "mo_wait s t")
    case WIdle
    have "mon_inv who (wait_at t WLock s)"
      by (rule inv [of _ WLock]) (use WIdle own pt in \<open>auto simp: mv split: option.split\<close>)
    then show ?thesis using assms(2) WIdle
      by (auto intro!: tr [where p = WLock] wm_call simp: wait_next_def wait_at_def)
  next
    case WLock
    then have free: "mo_mutex s = None" and r: "r = Inr (wait_at t WCall (put_lock t (True, Some (Waiter t)) s))"
      using assms(2) own by (auto simp: wait_next_def lock_simps split: option.splits if_splits)
    have "mon_inv who (wait_at t WCall (put_lock t (True, Some (Waiter t)) s))"
      by (rule inv [of _ WCall]) (use WLock free in \<open>auto simp: mv split: option.split\<close>)
    then show ?thesis unfolding r using WLock by (auto intro!: tr [where p = WCall] wm_lock simp: mv)
  next
    case WWoken
    then have free: "mo_mutex s = None" and r: "r = Inr (wait_at t WCall (put_lock t (True, Some (Waiter t)) s))"
      using assms(2) own by (auto simp: wait_next_def lock_simps split: option.splits if_splits)
    have "mon_inv who (wait_at t WCall (put_lock t (True, Some (Waiter t)) s))"
      by (rule inv [of _ WCall]) (use WWoken free in \<open>auto simp: mv split: option.split\<close>)
    then show ?thesis unfolding r using WWoken by (auto intro!: tr [where p = WCall] wm_relock simp: mv)
  next
    case WWork
    then have r: "r = Inr (wait_at t WReleased (put_lock t (False, None) s))"
      using assms(2) own by (auto simp: wait_next_def lock_simps)
    obtain f where f: "who t = Some f" by (rule listed_who [OF assms(1), of t]) (use pt WWork in simp)
    have "mo_work s (fst f) = Some t" using mon_locks(4) [OF assms(1), of "fst f" t] f WWork by (cases f) simp
    then have "(mo_work s)(fst f := Some t) = mo_work s" by auto
    then have "mon_inv who (wait_at t WReleased (put_lock t (False, None) s))"
      by (intro inv [of _ WReleased]) (use WWork f pt in \<open>auto simp: mv\<close>)
    then show ?thesis unfolding r using WWork by (auto intro!: tr [where p = WReleased] wm_release simp: mv)
  next
    case WReleased
    obtain f where f: "who t = Some f" by (rule listed_who [OF assms(1), of t]) (use pt WReleased in simp)
    have wk: "mo_work s (fst f) = Some t" using mon_locks(4) [OF assms(1), of "fst f" t] f WReleased by (cases f) simp
    then have r: "r = Inr (wait_at t WBlocked (s\<lparr>mo_work := (mo_work s)(fst f := None)\<rparr>))"
      using assms(2) WReleased f by (simp add: wait_next_def switch_away_def mutex_unlock_def)
    have "mon_inv who (wait_at t WBlocked (s\<lparr>mo_work := (mo_work s)(fst f := None)\<rparr>))"
      by (rule inv [of _ WBlocked]) (use WReleased f pt own in \<open>auto simp: mv\<close>)
    then show ?thesis unfolding r using WReleased by (auto intro!: tr [where p = WBlocked] wm_switch simp: mv)
  next
    case WCall
    then show ?thesis using call_next_trans [OF assms(1) WCall] assms(2) by (simp add: wait_next_def)
  qed (use assms(2) in \<open>simp_all add: wait_next_def\<close>)
qed


text \<open>The same for the calls that notify; the last argument are the calls that a step wakes.\<close>

inductive nmove :: "callers \<Rightarrow> monitor \<Rightarrow> notify_point \<Rightarrow> notify_point \<Rightarrow> (nat \<Rightarrow> bool) \<Rightarrow> bool" for who s where
  nm_lock: "nmove who s NLock NLocked (\<lambda>_. False)"
| nm_nobody: "waiters (mo_cv s) = {} \<Longrightarrow> nmove who s NLocked NUnlock (\<lambda>_. False)"
| nm_begin: "\<forall>f. f \<in> set fs \<longleftrightarrow> (\<exists>t. is_listed (cs_point (mo_cv s) t) \<and> who t = Some f) \<Longrightarrow>
    nmove who s NLocked (NFibers fs) (\<lambda>_. False)"
| nm_fiber: "mo_work s (fst f) = None \<Longrightarrow> nmove who s (NFibers (f # fs)) (NFibers fs) (fiber_calls who f s)"
| nm_end: "nmove who s (NFibers []) NThreads (\<lambda>_. False)"
| nm_threads: "nmove who s NThreads NUnlock (thread_calls s)"
| nm_unlock: "nmove who s NUnlock NRet (\<lambda>_. False)"

inductive_cases wmove_elims: "wmove pv p c p' c'"
inductive_cases nmove_elims: "nmove who s n n' sel"

definition notify_trans :: "callers \<Rightarrow> nat \<Rightarrow> monitor \<Rightarrow> monitor \<Rightarrow> bool" where
  "notify_trans who d s s' \<longleftrightarrow> mon_inv who s' \<and> mo_cv s' = mo_cv s \<and>
     (\<exists>p sel. mo_notify s' = (mo_notify s)(d := p) \<and> mo_wait s' = mo_wait (wake sel s) \<and> nmove who s (mo_notify s d) p sel)"

lemma wake_nobody [simp]: "wake (\<lambda>_. False) s = s"
  by (simp add: wake_def)

lemma wake_mo_wait: "mo_wait (wake sel s) t = (if mo_wait s t = WBlocked \<and> sel t then WWoken else mo_wait s t)"
  by (simp add: wake_def)

lemma wake_keeps [simp]:
  "mo_cv (wake sel s) = mo_cv s" "mo_mutex (wake sel s) = mo_mutex s" "mo_owns (wake sel s) = mo_owns s"
  "mo_work (wake sel s) = mo_work s" "mo_notify (wake sel s) = mo_notify s"
  "holds_lock (mo_wait (wake sel s) t) = holds_lock (mo_wait s t)"
  "holds_work (mo_wait (wake sel s) t) = holds_work (mo_wait s t)"
  by (simp_all add: wake_def)

lemma mon_inv_notify:
  assumes "mon_inv who s"
    and "mo_notify s' = (mo_notify s)(d := p)" "mo_wait s' = mo_wait (wake sel s)" "mo_owns s' = mo_owns s"
    and "mo_mutex s' = (if notifying p then Some (Notifier d) else if notifying (mo_notify s d) then None else mo_mutex s)"
    and "notifying p \<Longrightarrow> notifying (mo_notify s d) \<or> mo_mutex s = None"
    and "mo_work s' = mo_work s" "mo_cv s' = mo_cv s"
  shows "mon_inv who s'"
proof -
  note d = mon_locks [OF assms(1)]
  have "mo_mutex s' = Some (Waiter t) \<longleftrightarrow> holds_lock (mo_wait s' t)" for t
    using d(1) [of t] d(3) [of d] assms(3,5,6) by auto
  moreover have "mo_mutex s' = Some (Notifier e) \<longleftrightarrow> notifying (mo_notify s' e)" for e
    using d(3) [of d] d(3) [of e] assms(2,5,6) by auto
  ultimately have "locks_ok who s'" unfolding locks_ok_def using d(2,4) assms(3,4,7) by simp
  moreover have "point_ok (mo_wait s' t) (cs_point (mo_cv s') t)" for t
    using mon_invD(3) [OF assms(1), of t] assms(3,8) by (auto simp: wake_mo_wait)
  ultimately show ?thesis using mon_invD(1) [OF assms(1)] assms(8) by (simp add: mon_inv_def)
qed

lemma notify_next_trans:
  assumes "mon_inv who s" "notify_next who d s = Some r"
  shows "\<exists>s'. r = Inr s' \<and> notify_trans who d s s'"
proof -
  note cv = cv_inv_facts [OF mon_invD(1) [OF assms(1)]] and own = mon_locks(3) [OF assms(1), of d]
  have tr: "\<exists>s'. Inr v = (Inr s' :: monitor result) \<and> notify_trans who d s s'"
    if "nmove who s (mo_notify s d) p sel" "mo_notify v = (mo_notify s)(d := p)" "mo_wait v = mo_wait (wake sel s)" "mo_owns v = mo_owns s"
      "mo_mutex v = (if notifying p then Some (Notifier d) else if notifying (mo_notify s d) then None else mo_mutex s)"
      "notifying p \<Longrightarrow> notifying (mo_notify s d) \<or> mo_mutex s = None" "mo_work v = mo_work s" "mo_cv v = mo_cv s" for v p sel
    using mon_inv_notify [OF assms(1) that(2-8)] that(1-3,8) by (auto simp: notify_trans_def)
  show ?thesis
  proof (cases "mo_notify s d")
    case NLock
    then have free: "mo_mutex s = None" and r: "r = Inr (notify_at d NLocked (s\<lparr>mo_mutex := Some (Notifier d)\<rparr>))"
      using assms(2) own by (auto simp: notify_next_def lock_simps split: option.splits if_splits)
    show ?thesis unfolding r
      by (rule tr [of NLocked "\<lambda>_. False"]) (use NLock free nm_lock in \<open>auto simp: notify_at_def\<close>)
  next
    case NLocked
    show ?thesis
    proof (cases "cv_num_waiting (cs_cv (mo_cv s)) = 0")
      case True
      then have r: "r = Inr (notify_at d NUnlock s)" using assms(2) NLocked by (simp add: notify_next_def)
      show ?thesis unfolding r
        by (rule tr [of NUnlock "\<lambda>_. False"]) (use NLocked nm_nobody own True cv(6) in \<open>auto simp: notify_at_def\<close>)
    next
      case False
      let ?fs = "map snd (mlist_abs (cv_waiting (cs_cv (mo_cv s))))"
      have r: "r = Inr (notify_at d (NFibers ?fs) s)"
        using assms(2) NLocked False inv_list_facts(1) [OF cv(1)] by (simp add: notify_next_def block_bind_def)
      have "f \<in> set ?fs" if "is_listed (cs_point (mo_cv s) t)" "who t = Some f" for t f
        by (rule listed_who [OF assms(1) that(1)]) (use that(2) in force)
      moreover have "\<exists>t. is_listed (cs_point (mo_cv s) t) \<and> who t = Some f" if f: "f \<in> set ?fs" for f
      proof -
        obtain h where "(h, f) \<in> set (mlist_abs (cv_waiting (cs_cv (mo_cv s))))" using f by auto
        then obtain t where "cs_point (mo_cv s) t = CListed h" "who t = Some f" using cv(2) unfolding listed_ok_def by blast
        then show ?thesis by (intro exI [of _ t]) simp
      qed
      ultimately have "nmove who s NLocked (NFibers ?fs) (\<lambda>_. False)" by (intro nm_begin) blast
      then show ?thesis unfolding r
        by (intro tr [of "NFibers ?fs" "\<lambda>_. False"]) (use NLocked own in \<open>auto simp: notify_at_def\<close>)
    qed
  next
    case (NFibers fs)
    show ?thesis
    proof (cases fs)
      case Nil
      then have r: "r = Inr (notify_at d NThreads s)" using assms(2) NFibers by (simp add: notify_next_def)
      show ?thesis unfolding r
        by (rule tr [of NThreads "\<lambda>_. False"]) (use NFibers Nil nm_end own in \<open>auto simp: notify_at_def\<close>)
    next
      case (Cons f gs)
      then have r: "mo_work s (fst f) = None" "r = Inr (notify_at d (NFibers gs) (wake (fiber_calls who f s) s))"
        using assms(2) NFibers by (auto simp: notify_next_def split: if_splits)
      show ?thesis unfolding r(2)
        by (rule tr [of "NFibers gs" "fiber_calls who f s"])
          (use NFibers Cons nm_fiber [OF r(1)] own in \<open>auto simp: notify_at_def wake_def\<close>)
    qed
  next
    case NThreads
    have "wake (thread_calls s) s = s" if "\<not> 0 < cv_num_waiting_on_condition (cs_cv (mo_cv s))"
      using that unfolding cv(7) by (simp add: wake_def thread_calls_def)
    then have r: "r = Inr (notify_at d NUnlock (wake (thread_calls s) s))"
      using assms(2) NThreads by (auto simp: notify_next_def split: if_splits)
    show ?thesis unfolding r
      by (rule tr [of NUnlock "thread_calls s"]) (use NThreads nm_threads own in \<open>auto simp: notify_at_def wake_def\<close>)
  next
    case NUnlock
    then have r: "r = Inr (notify_at d NRet (s\<lparr>mo_mutex := None\<rparr>))"
      using assms(2) own by (simp add: notify_next_def lock_simps)
    show ?thesis unfolding r
      by (rule tr [of NRet "\<lambda>_. False"]) (use NUnlock nm_unlock own in \<open>auto simp: notify_at_def\<close>)
  qed (use assms(2) in \<open>simp_all add: notify_next_def\<close>)
qed

section \<open>No call is left asleep\<close>

text \<open>The calls that are, or are about to be, asleep; and those of them that a notification in progress has yet to reach.\<close>

fun drowsy :: "wait_point \<Rightarrow> bool" where
  "drowsy WWork = True"
| "drowsy WReleased = True"
| "drowsy WBlocked = True"
| "drowsy _ = False"

fun to_reach :: "callers \<Rightarrow> nat \<Rightarrow> cv_point \<Rightarrow> notify_point \<Rightarrow> bool" where
  "to_reach who t c NLocked = True"
| "to_reach who t c (NFibers fs) = (is_listed c \<longrightarrow> who t \<in> Some ` set fs)"
| "to_reach who t c NThreads = (c = COnCondition)"
| "to_reach who t c _ = False"

definition will_wake :: "callers \<Rightarrow> monitor \<Rightarrow> nat \<Rightarrow> bool" where
  "will_wake who s t \<longleftrightarrow> (\<exists>d. to_reach who t (cs_point (mo_cv s) t) (mo_notify s d))"

lemma to_reach_notifying: "to_reach who t c n \<Longrightarrow> notifying n"
  by (cases n) auto

text \<open>Nobody falls asleep with the predicate true; and nobody can while a notification runs, because it holds the mutex.\<close>

lemma wait_trans_drowsy:
  assumes "wait_trans who pv t s s'" "drowsy (mo_wait s' u)"
  shows "drowsy (mo_wait s u) \<and> cs_point (mo_cv s') u = cs_point (mo_cv s) u \<and> will_wake who s' u = will_wake who s u \<or>
    u = t \<and> \<not> pv"
proof -
  obtain p c where s': "mo_notify s' = mo_notify s" "mo_wait s' = (mo_wait s)(t := p)"
    "cs_point (mo_cv s') = (cs_point (mo_cv s))(t := c)" "wmove pv (mo_wait s t) (cs_point (mo_cv s) t) p c"
    using assms(1) by (auto simp: wait_trans_def)
  show ?thesis
  proof (cases "u = t")
    case False
    then show ?thesis using s'(1-3) assms(2) by (simp add: will_wake_def)
  next
    case True
    from s'(4) show ?thesis
      by (cases rule: wmove.cases) (use True assms(2) s'(1-3) in \<open>auto simp: will_wake_def\<close>)
  qed
qed

lemma notify_trans_drowsy:
  assumes "mon_inv who s" "notify_trans who d s s'" "drowsy (mo_wait s' t)"
  shows "drowsy (mo_wait s t)" "will_wake who s t \<or> mo_notify s d = NLock \<Longrightarrow> will_wake who s' t"
proof -
  obtain p sel where s': "mo_cv s' = mo_cv s" "mo_notify s' = (mo_notify s)(d := p)"
    "mo_wait s' = mo_wait (wake sel s)" "nmove who s (mo_notify s d) p sel"
    using assms(2) by (auto simp: notify_trans_def)
  show dr: "drowsy (mo_wait s t)" using assms(3) s'(3) by (auto simp: wake_mo_wait split: if_splits)
  let ?c = "cs_point (mo_cv s) t"
  have pt: "is_listed ?c \<or> ?c = COnCondition \<and> mo_wait s t = WBlocked"
    using mon_invD(3) [OF assms(1), of t] dr by (cases "mo_wait s t") auto
  have awake: "\<not> (mo_wait s t = WBlocked \<and> sel t)" using assms(3) s'(3) by (auto simp: wake_mo_wait)
  have step: "to_reach who t ?c p" if "to_reach who t ?c (mo_notify s d) \<or> mo_notify s d = NLock"
    using s'(4)
  proof cases
    case nm_nobody
    have "in_wait ?c" using pt by (cases ?c) auto
    then show ?thesis using nm_nobody by (auto simp: waiters_def)
  next
    case (nm_begin fs)
    have "who t \<in> Some ` set fs" if l: "is_listed ?c"
    proof -
      obtain f where "who t = Some f" by (rule listed_who [OF assms(1) l])
      then show ?thesis using nm_begin(4) l by blast
    qed
    then show ?thesis using nm_begin by simp
  next
    case (nm_fiber f fs)
    have "who t \<noteq> Some f" if l: "is_listed ?c"
    proof
      assume w: "who t = Some f"
      then have "mo_wait s t \<noteq> WBlocked" using awake l nm_fiber by (simp add: fiber_calls_def)
      then have "holds_work (mo_wait s t)" using dr by (cases "mo_wait s t") auto
      then show False using mon_locks(4) [OF assms(1), of "fst f" t] w nm_fiber by (cases f) auto
    qed
    then show ?thesis using that nm_fiber by auto
  next
    case nm_threads
    then show ?thesis using that awake pt by (auto simp: thread_calls_def)
  qed (use that pt in auto)
  show "will_wake who s' t" if ww: "will_wake who s t \<or> mo_notify s d = NLock"
  proof (cases "to_reach who t ?c (mo_notify s d) \<or> mo_notify s d = NLock")
    case True
    then show ?thesis using step s'(1,2) by (auto simp: will_wake_def intro: exI [of _ d])
  next
    case False
    then obtain e where "to_reach who t ?c (mo_notify s e)" "e \<noteq> d" using ww by (auto simp: will_wake_def)
    then show ?thesis using s'(1,2) by (auto simp: will_wake_def intro!: exI [of _ e])
  qed
qed


section \<open>Progress\<close>

lemma wait_ready:
  assumes "mo_wait s t \<noteq> WBlocked" "mo_wait s t \<noteq> WRet" "mo_mutex s = None \<or> mo_wait s t \<notin> {WLock, WWoken}" "pv"
  shows "wait_next who pv t s \<noteq> None"
  using assms
  by (cases "mo_wait s t"; cases "cs_point (mo_cv s) t")
    (auto simp: wait_next_def call_next_def lock_simps)

lemma notify_ready:
  assumes "mon_inv who s" "notifying (mo_notify s d)"
  shows "notify_next who d s \<noteq> None \<or> (\<exists>t. mo_wait s t = WReleased)"
proof -
  note cv = cv_inv_facts(1) [OF mon_invD(1) [OF assms(1)]]
  show ?thesis
  proof (cases "\<exists>f fs. mo_notify s d = NFibers (f # fs) \<and> mo_work s (fst f) \<noteq> None")
    case True
    then obtain f t where "mo_work s (fst f) = Some t" by auto
    then have w: "holds_work (mo_wait s t)" using mon_locks(4) [OF assms(1), of "fst f" t] by simp
    have "mo_mutex s \<noteq> Some (Waiter t)" using mon_locks(3) [OF assms(1), of d] assms(2) by auto
    then have "mo_wait s t \<noteq> WWork" using mon_locks(1) [OF assms(1), of t] by auto
    with w have "mo_wait s t = WReleased" by (cases "mo_wait s t") auto
    then show ?thesis by blast
  next
    case False
    then show ?thesis using assms(2) inv_list_facts(1) [OF cv]
      by (cases "mo_notify s d") (auto simp: notify_next_def block_bind_def split: list.split)
  qed
qed

text \<open>
  How many steps a call has at most before it, once the predicate is true. The steps a call that notifies makes after \<open>NLock\<close>
  depend on the number of waiting fibers then; \<open>NLock\<close> itself is counted apart.
\<close>

fun wait_rank :: "wait_point \<Rightarrow> cv_point \<Rightarrow> nat" where
  "wait_rank WCall (CReturned b) = 1"
| "wait_rank WCall (CLeaving b) = 2"
| "wait_rank WCall (CListed h) = 3"
| "wait_rank WCall COnCondition = 3"
| "wait_rank WCall CCounted = 4"
| "wait_rank WCall CEnter = 5"
| "wait_rank WLock c = 6"
| "wait_rank WWoken c = 4"
| "wait_rank WBlocked c = 5"
| "wait_rank WReleased c = 6"
| "wait_rank WWork c = 7"
| "wait_rank WIdle c = 0"
| "wait_rank WRet c = 0"

fun notify_rank :: "notify_point \<Rightarrow> nat" where
  "notify_rank NIdle = 0"
| "notify_rank NLock = 0"
| "notify_rank NLocked = 1"
| "notify_rank (NFibers fs) = 4 + length fs"
| "notify_rank NThreads = 3"
| "notify_rank NUnlock = 2"
| "notify_rank NRet = 1"

fun lock_rank :: "notify_point \<Rightarrow> nat" where
  "lock_rank NLock = 2"
| "lock_rank NLocked = 1"
| "lock_rank _ = 0"

lemma nmove_rank:
  assumes "nmove who s n n' sel"
  shows "lock_rank n' < lock_rank n \<or> lock_rank n' = lock_rank n \<and> notify_rank n' < notify_rank n" "n' \<noteq> NLock" "n' \<noteq> NIdle"
  using assms by (cases rule: nmove.cases; simp)+

end
