(* ===== verification/Wait_Group_Wait.thy ===== *)
theory Wait_Group_Wait
  imports Monitor_Proofs Wait_Group
begin

text \<open>
  \<open>marl::WaitGroup\<close> (\<open>wait_group.hpp\<close>) with its condition variable and its mutex: calls of \<open>wait\<close> are those of \<open>Monitor_Model\<close> with the count as
  predicate, calls of \<open>done\<close> count down and the last one runs \<open>notify_all\<close> under the mutex. The count is an atomic variable that is accessed
  without the mutex; the test in the assertion of \<open>done\<close> and the countdown are separate steps.

  \<open>wg_inv\<close> adds to the invariant of the monitor that no sleeper is forgotten (\<open>covered\<close>). When the count is zero, every step of
  a call that has begun makes a measure smaller (\<open>quiet_order\<close>: first the calls of \<open>done\<close> before their iteration over the waiting fibers, whose
  length is known only then, and then the steps that are left).
\<close>

section \<open>State and steps\<close>

datatype done_point =
    DIdle        \<comment> \<open>not called yet\<close>
  | DAssert      \<comment> \<open>at \<open>MARL_ASSERT(count > 0)\<close>\<close>
  | DDec         \<comment> \<open>at \<open>--count\<close>\<close>
  | DNotify      \<comment> \<open>in the block of the lock, at the place \<open>mo_notify\<close> says\<close>
  | DRet bool

record wg_system =
  wgs_group :: wait_group
  wgs_mon :: monitor
  wgs_done :: "nat \<Rightarrow> done_point"

definition wg_system_new :: "32 word \<Rightarrow> wg_system" where
  "wg_system_new initial_count = \<lparr>wgs_group = wg_new initial_count, wgs_mon = monitor_new, wgs_done = (\<lambda>_. DIdle)\<rparr>"

definition done_at :: "nat \<Rightarrow> done_point \<Rightarrow> wg_system \<Rightarrow> wg_system" where
  "done_at d p s = s\<lparr>wgs_done := (wgs_done s)(d := p)\<rparr>"

definition wg_wait_next :: "callers \<Rightarrow> nat \<Rightarrow> wg_system \<Rightarrow> wg_system result option" where
  "wg_wait_next who t s =
     block_bind (wait_next who (wg_open (wgs_group s)) t (wgs_mon s)) (\<lambda>m. Inr (s\<lparr>wgs_mon := m\<rparr>))"

definition wg_done_next :: "callers \<Rightarrow> nat \<Rightarrow> wg_system \<Rightarrow> wg_system result option" where
  "wg_done_next who d s =
     (case wgs_done s d of
        DIdle \<Rightarrow> Some (Inr (done_at d DAssert s))
      | DAssert \<Rightarrow> Some (rbind (marl_assert (0 < wg_count (wgs_group s)) ''marl::WaitGroup::done() called too many times'') (\<lambda>_.
          Inr (done_at d DDec s)))
      | DDec \<Rightarrow>
          let n = wg_count (wgs_group s) - 1; s' = s\<lparr>wgs_group := \<lparr>wg_count = n\<rparr>\<rparr>
          in Some (Inr (if n = 0 then done_at d DNotify (s'\<lparr>wgs_mon := notify_at d NLock (wgs_mon s)\<rparr>)
                        else done_at d (DRet False) s'))
      | DNotify \<Rightarrow>
          if mo_notify (wgs_mon s) d = NRet then Some (Inr (done_at d (DRet True) s))
          else block_bind (notify_next who d (wgs_mon s)) (\<lambda>m. Inr (s\<lparr>wgs_mon := m\<rparr>))
      | DRet _ \<Rightarrow> None)"

text \<open>
  The contract of the callers: \<open>done\<close> is called for something that was added before, and \<open>add\<close> does not go over the
  range of an \<open>unsigned int\<close>. \<open>pending\<close> are the calls of \<open>done\<close> that have not counted down yet.
\<close>

definition pending :: "wg_system \<Rightarrow> nat set" where
  "pending s = {d. wgs_done s d = DAssert \<or> wgs_done s d = DDec}"

inductive wg_step :: "callers \<Rightarrow> wg_system \<Rightarrow> wg_system result \<Rightarrow> bool" for who where
  wgs_wait: "wg_wait_next who t s = Some r \<Longrightarrow> wg_step who s r"
| wgs_done: "wg_done_next who d s = Some r \<Longrightarrow>
    wgs_done s d = DIdle \<longrightarrow> card (pending s) < wg_outstanding (wgs_group s) \<Longrightarrow> wg_step who s r"
| wgs_add: "wg_outstanding (wgs_group s) + unat n < 2 ^ 32 \<Longrightarrow>
    wg_step who s (Inr (s\<lparr>wgs_group := wg_add n (wgs_group s)\<rparr>))"
| wgs_spurious: "wg_step who s (Inr (s\<lparr>wgs_mon := wake sel (wgs_mon s)\<rparr>))"

definition wg_init :: "wg_system \<Rightarrow> bool" where
  "wg_init s \<longleftrightarrow> (\<exists>n. s = wg_system_new n)"

text \<open>The steps of the calls that have begun.\<close>

inductive wg_quiet :: "callers \<Rightarrow> wg_system \<Rightarrow> wg_system \<Rightarrow> bool" for who where
  "mo_wait (wgs_mon s) t \<noteq> WIdle \<Longrightarrow> wg_wait_next who t s = Some (Inr s') \<Longrightarrow> wg_quiet who s s'"
| "wgs_done s d \<noteq> DIdle \<Longrightarrow> wg_done_next who d s = Some (Inr s') \<Longrightarrow> wg_quiet who s s'"

text \<open>A call of \<open>done\<close> that nobody disturbs is \<open>wg_done\<close>, up to the notification.\<close>

lemma done_alone:
  assumes "wgs_done s d = DIdle" "wg_done_next who d s = Some (Inr s1)"
  shows "(case wg_done_next who d s1 of Some r \<Rightarrow> rbind r (\<lambda>s2. case wg_done_next who d s2 of Some r \<Rightarrow> r | None \<Rightarrow> Inr s2)
      | None \<Rightarrow> Inr s1) =
    rbind (wg_done (wgs_group s)) (\<lambda>(g, last).
      Inr (if last then done_at d DNotify (s\<lparr>wgs_group := g, wgs_mon := notify_at d NLock (wgs_mon s)\<rparr>)
           else done_at d (DRet False) (s\<lparr>wgs_group := g\<rparr>)))"
  using assms by (cases s) (auto simp: wg_done_next_def wg_done_def done_at_def Let_def marl_assert_def)

section \<open>The invariant\<close>

fun done_ok :: "done_point \<Rightarrow> notify_point \<Rightarrow> bool" where
  "done_ok DNotify n = (n \<noteq> NIdle)"
| "done_ok (DRet b) n = (n = (if b then NRet else NIdle))"
| "done_ok _ n = (n = NIdle)"

definition covered :: "callers \<Rightarrow> wg_system \<Rightarrow> nat \<Rightarrow> bool" where
  "covered who s t \<longleftrightarrow> (drowsy (mo_wait (wgs_mon s) t) \<longrightarrow> \<not> wg_open (wgs_group s) \<or>
     (\<exists>d. mo_notify (wgs_mon s) d = NLock) \<or> will_wake who (wgs_mon s) t)"

abbreviation begun_waits :: "wg_system \<Rightarrow> nat set" where
  "begun_waits s \<equiv> {t. mo_wait (wgs_mon s) t \<noteq> WIdle}"

abbreviation begun_dones :: "wg_system \<Rightarrow> nat set" where
  "begun_dones s \<equiv> {d. wgs_done s d \<noteq> DIdle}"

definition wg_inv :: "callers \<Rightarrow> wg_system \<Rightarrow> bool" where
  "wg_inv who s \<longleftrightarrow> mon_inv who (wgs_mon s) \<and> finite (begun_waits s) \<and> finite (begun_dones s) \<and>
     card (pending s) \<le> wg_outstanding (wgs_group s) \<and>
     (\<forall>d. done_ok (wgs_done s d) (mo_notify (wgs_mon s) d)) \<and> (\<forall>t. covered who s t)"

lemma wg_invD:
  assumes "wg_inv who s"
  shows "mon_inv who (wgs_mon s)" "finite (begun_waits s)" "finite (begun_dones s)"
    "card (pending s) \<le> wg_outstanding (wgs_group s)" "done_ok (wgs_done s d) (mo_notify (wgs_mon s) d)" "covered who s t"
  using assms unfolding wg_inv_def by blast+

lemma wg_invI:
  assumes "mon_inv who (wgs_mon s)" "finite (begun_waits s)" "finite (begun_dones s)"
    "card (pending s) \<le> wg_outstanding (wgs_group s)" "\<And>d. done_ok (wgs_done s d) (mo_notify (wgs_mon s) d)" "\<And>t. covered who s t"
  shows "wg_inv who s"
  using assms unfolding wg_inv_def by blast

lemma finite_pending: "wg_inv who s \<Longrightarrow> finite (pending s)"
  by (rule finite_subset [OF _ wg_invD(3)]) (auto simp: pending_def)

lemma wait_inv:
  assumes "wg_inv who s" "wg_wait_next who t s = Some r"
  shows "\<exists>m. r = Inr (s\<lparr>wgs_mon := m\<rparr>) \<and> wait_trans who (wg_open (wgs_group s)) t (wgs_mon s) m \<and>
    wg_inv who (s\<lparr>wgs_mon := m\<rparr>)"
proof -
  note inv = wg_invD [OF assms(1)]
  obtain r' where r': "wait_next who (wg_open (wgs_group s)) t (wgs_mon s) = Some r'"
    "r = rbind r' (\<lambda>m. Inr (s\<lparr>wgs_mon := m\<rparr>))" using assms(2) by (auto simp: wg_wait_next_def block_bind_def)
  obtain m where m: "r' = Inr m" "wait_trans who (wg_open (wgs_group s)) t (wgs_mon s) m"
    using wait_next_trans [OF inv(1) r'(1)] by blast
  from m(2) obtain p where w: "mon_inv who m" "mo_notify m = mo_notify (wgs_mon s)" "mo_wait m = (mo_wait (wgs_mon s))(t := p)"
    by (auto simp: wait_trans_def)
  have "covered who (s\<lparr>wgs_mon := m\<rparr>) u" for u
    using wait_trans_drowsy [OF m(2), of u] inv(6) [of u] w(2) by (auto simp: covered_def)
  then have "wg_inv who (s\<lparr>wgs_mon := m\<rparr>)"
    by (intro wg_invI) (use inv w finite_update [OF inv(2), of t p] in \<open>simp_all add: pending_def\<close>)
  with m r'(2) show ?thesis by auto
qed

lemma outstanding_dec:
  assumes "0 < wg_outstanding g"
  shows "wg_outstanding \<lparr>wg_count = wg_count g - 1\<rparr> = wg_outstanding g - 1" "0 < wg_count g"
  using assms by (simp_all add: wg_outstanding_def unat_gt_0 unat_minus_one word_gt_0)

text \<open>The countdown: either it is not the last one, or this call is now about to notify.\<close>

lemma done_dec_inv:
  assumes "wg_inv who s" "wgs_done s d = DDec" "0 < wg_outstanding (wgs_group s)" "wg_done_next who d s = Some r"
  shows "\<exists>s'. r = Inr s' \<and> wg_inv who s'"
proof -
  note inv = wg_invD [OF assms(1)] and fin = finite_pending [OF assms(1)]
  have fd: "finite {e. ((wgs_done s)(d := p)) e \<noteq> DIdle}" for p by (rule finite_update [OF inv(3)])
  have d: "d \<in> pending s" using assms(2) by (simp add: pending_def)
  let ?n = "wg_count (wgs_group s) - 1"
  have card: "card (pending s - {d}) \<le> wg_outstanding \<lparr>wg_count = ?n\<rparr>"
    using inv(4) fin d outstanding_dec(1) [OF assms(3)] by (simp add: card_Diff_singleton)
  have idle: "mo_notify (wgs_mon s) d = NIdle" using inv(5) [of d] assms(2) by simp
  show ?thesis
  proof (cases "?n = 0")
    case True
    have m: "mon_inv who (notify_at d NLock (wgs_mon s))"
      by (rule mon_inv_notify [OF inv(1), where sel = "\<lambda>_. False" and p = NLock]) (use idle in \<open>auto simp: notify_at_def\<close>)
    let ?s = "done_at d DNotify (s\<lparr>wgs_group := \<lparr>wg_count = ?n\<rparr>, wgs_mon := notify_at d NLock (wgs_mon s)\<rparr>)"
    have "covered who ?s t" for t by (auto simp: covered_def done_at_def notify_at_def)
    moreover have "pending ?s = pending s - {d}" by (auto simp: pending_def done_at_def)
    ultimately have "wg_inv who ?s"
      by (intro wg_invI) (use inv m fd card in \<open>auto simp: done_at_def notify_at_def\<close>)
    then show ?thesis using assms(2,4) True by (auto simp: wg_done_next_def Let_def)
  next
    case False
    let ?s = "done_at d (DRet False) (s\<lparr>wgs_group := \<lparr>wg_count = ?n\<rparr>\<rparr>)"
    have "covered who ?s t" for t using False by (auto simp: covered_def done_at_def wg_open_def)
    moreover have "pending ?s = pending s - {d}" by (auto simp: pending_def done_at_def)
    ultimately have "wg_inv who ?s"
      by (intro wg_invI) (use inv fd card idle in \<open>auto simp: done_at_def\<close>)
    then show ?thesis using assms(2,4) False by (auto simp: wg_done_next_def Let_def)
  qed
qed

text \<open>A step of the notification.\<close>

lemma done_notify_step:
  assumes "wg_inv who s" "wgs_done s d = DNotify" "mo_notify (wgs_mon s) d \<noteq> NRet" "wg_done_next who d s = Some r"
  obtains m where "r = Inr (s\<lparr>wgs_mon := m\<rparr>)" "notify_trans who d (wgs_mon s) m"
proof -
  obtain r' where r': "notify_next who d (wgs_mon s) = Some r'" "r = rbind r' (\<lambda>m. Inr (s\<lparr>wgs_mon := m\<rparr>))"
    using assms(2-4) by (auto simp: wg_done_next_def block_bind_def)
  then show thesis using notify_next_trans [OF wg_invD(1) [OF assms(1)] r'(1)] that by auto
qed

lemma done_notify_inv:
  assumes "wg_inv who s" "wgs_done s d = DNotify" "notify_trans who d (wgs_mon s) m"
  shows "wg_inv who (s\<lparr>wgs_mon := m\<rparr>)"
proof -
  note inv = wg_invD [OF assms(1)]
  from assms(3) obtain p sel where n: "mon_inv who m" "mo_notify m = (mo_notify (wgs_mon s))(d := p)"
    "mo_wait m = mo_wait (wake sel (wgs_mon s))" "nmove who (wgs_mon s) (mo_notify (wgs_mon s) d) p sel"
    by (auto simp: notify_trans_def)
  have "p \<noteq> NIdle" using n(4) by cases auto
  then have ok: "done_ok (wgs_done s e) (mo_notify m e)" for e using inv(5) [of e] n(2) assms(2) by auto
  have bw: "{t. mo_wait m t \<noteq> WIdle} = begun_waits s" using n(3) by (auto simp: wake_mo_wait)
  have "covered who (s\<lparr>wgs_mon := m\<rparr>) t" for t
  proof (cases "drowsy (mo_wait m t)")
    case True
    note nd = notify_trans_drowsy [OF inv(1) assms(3) True]
    show ?thesis
    proof (cases "\<exists>e. e \<noteq> d \<and> mo_notify (wgs_mon s) e = NLock")
      case True
      then show ?thesis using n(2) by (auto simp: covered_def)
    next
      case False
      then have "\<not> wg_open (wgs_group s) \<or> will_wake who m t" using nd inv(6) [of t] unfolding covered_def by metis
      then show ?thesis by (auto simp: covered_def)
    qed
  qed (simp add: covered_def)
  then show ?thesis by (intro wg_invI) (use inv n(1) ok bw in \<open>simp_all add: pending_def\<close>)
qed

lemma done_inv:
  assumes "wg_inv who s" "wg_done_next who d s = Some r"
    and "wgs_done s d = DIdle \<longrightarrow> card (pending s) < wg_outstanding (wgs_group s)"
  shows "\<exists>s'. r = Inr s' \<and> wg_inv who s'"
proof -
  note inv = wg_invD [OF assms(1)] and fin = finite_pending [OF assms(1)]
  have fd: "finite {e. ((wgs_done s)(d := p)) e \<noteq> DIdle}" for p by (rule finite_update [OF inv(3)])
  have pend: "pending (s\<lparr>wgs_done := (wgs_done s)(d := p)\<rparr>) =
      (if p = DAssert \<or> p = DDec then insert d (pending s) else pending s - {d})" for p
    by (auto simp: pending_def)
  have pos: "0 < wg_outstanding (wgs_group s)" if "d \<in> pending s"
    using that inv(4) fin card_gt_0_iff [of "pending s"] by auto
  show ?thesis
  proof (cases "wgs_done s d")
    case DIdle
    then have "d \<notin> pending s" by (simp add: pending_def)
    then have "wg_inv who (done_at d DAssert s)"
      by (intro wg_invI)
        (use inv fd assms(3) DIdle fin inv(5) [of d] pend [of DAssert] in \<open>auto simp: done_at_def covered_def\<close>)
    then show ?thesis using assms(2) DIdle by (auto simp: wg_done_next_def)
  next
    case DAssert
    then have d: "d \<in> pending s" by (simp add: pending_def)
    have "wg_inv who (done_at d DDec s)"
      by (intro wg_invI)
        (use inv fd DAssert d inv(5) [of d] pend [of DDec] in \<open>auto simp: done_at_def covered_def insert_absorb\<close>)
    then show ?thesis using assms(2) DAssert outstanding_dec(2) [OF pos [OF d]] by (auto simp: wg_done_next_def)
  next
    case DDec
    then show ?thesis using done_dec_inv [OF assms(1) DDec pos assms(2)] by (simp add: pending_def)
  next
    case DNotify
    then have nd: "d \<notin> pending s" by (simp add: pending_def)
    show ?thesis
    proof (cases "mo_notify (wgs_mon s) d = NRet")
      case True
      have "wg_inv who (done_at d (DRet True) s)"
        by (intro wg_invI)
          (use inv fd True nd pend [of "DRet True"] in \<open>auto simp: done_at_def covered_def\<close>)
      then show ?thesis using assms(2) DNotify True by (auto simp: wg_done_next_def)
    next
      case False
      then show ?thesis using done_notify_step [OF assms(1) DNotify False assms(2)] done_notify_inv [OF assms(1) DNotify] by metis
    qed
  qed (use assms(2) in \<open>simp add: wg_done_next_def\<close>)
qed

lemma add_inv:
  assumes "wg_inv who s" "wg_outstanding (wgs_group s) + unat n < 2 ^ 32"
  shows "wg_inv who (s\<lparr>wgs_group := wg_add n (wgs_group s)\<rparr>)"
proof -
  note inv = wg_invD [OF assms(1)]
  have o: "wg_outstanding (wg_add n (wgs_group s)) = wg_outstanding (wgs_group s) + unat n"
    using assms(2) by (simp add: wg_outstanding_def wg_add_def unat_word_ariths)
  then have "wg_open (wg_add n (wgs_group s)) \<Longrightarrow> wg_open (wgs_group s)" by (simp add: wg.is_open_spec)
  then have "covered who (s\<lparr>wgs_group := wg_add n (wgs_group s)\<rparr>) t" for t
    using inv(6) [of t] by (auto simp: covered_def)
  then show ?thesis by (intro wg_invI) (use inv o in \<open>simp_all add: pending_def\<close>)
qed

lemma spurious_inv:
  assumes "wg_inv who s"
  shows "wg_inv who (s\<lparr>wgs_mon := wake sel (wgs_mon s)\<rparr>)"
proof -
  note inv = wg_invD [OF assms(1)]
  let ?m = "wake sel (wgs_mon s)"
  have "mon_inv who ?m"
    by (rule mon_inv_notify [OF inv(1), where d = 0 and p = "mo_notify (wgs_mon s) 0"])
      (use mon_locks(3) [OF inv(1), of 0] in auto)
  moreover have "{t. mo_wait ?m t \<noteq> WIdle} = begun_waits s" by (auto simp: wake_mo_wait)
  moreover have "covered who (s\<lparr>wgs_mon := ?m\<rparr>) t" for t
    using inv(6) [of t] by (auto simp: covered_def wake_mo_wait will_wake_def)
  ultimately show ?thesis by (intro wg_invI) (use inv in \<open>simp_all add: pending_def\<close>)
qed

interpretation wg_system: invariant_system wg_init "wg_step who" "wg_inv who"
proof (unfold_locales, goal_cases)
  case (1 s)
  then show ?case
    by (auto simp: wg_init_def wg_system_new_def covered_def pending_def monitor_new_def
        intro!: wg_invI monitor_new_inv [unfolded monitor_new_def])
next
  case (2 s r)
  from 2(2) show ?case
  proof cases
    case (wgs_wait t)
    then show ?thesis using wait_inv [OF 2(1)] by blast
  next
    case (wgs_done d)
    then show ?thesis using done_inv [OF 2(1)] by blast
  qed (use add_inv [OF 2(1)] spurious_inv [OF 2(1)] in auto)
qed


section \<open>When the count is zero\<close>

definition done_rank :: "done_point \<Rightarrow> notify_point \<Rightarrow> nat" where
  "done_rank p n = (if p = DNotify then notify_rank n else 0)"

definition lock_measure :: "wg_system \<Rightarrow> nat" where
  "lock_measure s = (\<Sum>d \<in> begun_dones s. lock_rank (mo_notify (wgs_mon s) d))"

definition call_measure :: "wg_system \<Rightarrow> nat" where
  "call_measure s = (\<Sum>t \<in> begun_waits s. wait_rank (mo_wait (wgs_mon s) t) (cs_point (mo_cv (wgs_mon s)) t)) +
     (\<Sum>d \<in> begun_dones s. done_rank (wgs_done s d) (mo_notify (wgs_mon s) d))"

definition quiet_order :: "(wg_system \<times> wg_system) set" where
  "quiet_order = inv_image (less_than <*lex*> less_than) (\<lambda>s. (lock_measure s, call_measure s))"

lemma wmove_rank:
  assumes "wmove True p c p' c'" "p \<noteq> WIdle" "point_ok p c"
  shows "wait_rank p' c' < wait_rank p c" "p' \<noteq> WIdle"
proof -
  have "wait_rank p' c' < wait_rank p c \<and> p' \<noteq> WIdle"
    using assms(1) by (cases rule: wmove.cases; cases c) (use assms(2,3) in auto)
  then show "wait_rank p' c' < wait_rank p c" "p' \<noteq> WIdle" by blast+
qed

lemma wait_quiet:
  assumes "wg_inv who s" "wg_open (wgs_group s)" "mo_wait (wgs_mon s) t \<noteq> WIdle" "wg_wait_next who t s = Some (Inr s')"
  shows "wgs_group s' = wgs_group s \<and> lock_measure s' = lock_measure s \<and> call_measure s' < call_measure s"
proof -
  note inv = wg_invD [OF assms(1)]
  obtain m where m: "s' = s\<lparr>wgs_mon := m\<rparr>" "wait_trans who True t (wgs_mon s) m"
    using wait_inv [OF assms(1,4)] assms(2) by auto
  then obtain p c where w: "mo_notify m = mo_notify (wgs_mon s)" "mo_wait m = (mo_wait (wgs_mon s))(t := p)"
    "cs_point (mo_cv m) = (cs_point (mo_cv (wgs_mon s)))(t := c)"
    "wmove True (mo_wait (wgs_mon s) t) (cs_point (mo_cv (wgs_mon s)) t) p c"
    by (auto simp: wait_trans_def)
  note rank = wmove_rank [OF w(4) assms(3) mon_invD(3) [OF inv(1)]]
  have b: "{u. mo_wait m u \<noteq> WIdle} = begun_waits s" using w(2) rank(2) assms(3) by auto
  have "(\<Sum>u \<in> begun_waits s. wait_rank (mo_wait m u) (cs_point (mo_cv m) u)) <
      (\<Sum>u \<in> begun_waits s. wait_rank (mo_wait (wgs_mon s) u) (cs_point (mo_cv (wgs_mon s)) u))"
    by (rule sum_strict_mono_ex1 [OF inv(2)]) (use w(2,3) rank(1) assms(3) in \<open>auto intro!: exI [of _ t]\<close>)
  then show ?thesis using m(1) b w(1) by (simp add: lock_measure_def call_measure_def)
qed

lemma wake_rank: "wait_rank (mo_wait (wake sel s) t) c \<le> wait_rank (mo_wait s t) c"
  by (simp add: wake_mo_wait)

lemma done_quiet:
  assumes "wg_inv who s" "wg_open (wgs_group s)" "wgs_done s d \<noteq> DIdle" "wg_done_next who d s = Some (Inr s')"
  shows "wgs_group s' = wgs_group s \<and>
    (lock_measure s' < lock_measure s \<or> lock_measure s' = lock_measure s \<and> call_measure s' < call_measure s)"
proof -
  note inv = wg_invD [OF assms(1)]
  have "pending s = {}" using inv(4) finite_pending [OF assms(1)] assms(2) by (simp add: wg.is_open_spec)
  then have "wgs_done s d \<noteq> DAssert" "wgs_done s d \<noteq> DDec" by (auto simp: pending_def)
  then have dn: "wgs_done s d = DNotify"
    using assms(3,4) by (cases "wgs_done s d") (auto simp: wg_done_next_def)
  show ?thesis
  proof (cases "mo_notify (wgs_mon s) d = NRet")
    case True
    then have s': "s' = done_at d (DRet True) s" using assms(4) dn by (simp add: wg_done_next_def)
    have b: "begun_dones s' = begun_dones s" using s' dn by (auto simp: done_at_def)
    have "(\<Sum>e \<in> begun_dones s. done_rank (wgs_done s' e) (mo_notify (wgs_mon s') e)) <
        (\<Sum>e \<in> begun_dones s. done_rank (wgs_done s e) (mo_notify (wgs_mon s) e))"
      by (rule sum_strict_mono_ex1 [OF inv(3)]) (use s' dn True in \<open>auto simp: done_at_def done_rank_def intro!: exI [of _ d]\<close>)
    moreover have "wgs_mon s' = wgs_mon s" "wgs_group s' = wgs_group s" using s' by (simp_all add: done_at_def)
    ultimately show ?thesis using b by (simp add: lock_measure_def call_measure_def)
  next
    case False
    then obtain m where s': "s' = s\<lparr>wgs_mon := m\<rparr>" and m: "notify_trans who d (wgs_mon s) m"
      using done_notify_step [OF assms(1) dn _ assms(4)] by auto
    from m obtain p sel where n: "mo_cv m = mo_cv (wgs_mon s)" "mo_notify m = (mo_notify (wgs_mon s))(d := p)"
      "mo_wait m = mo_wait (wake sel (wgs_mon s))" "nmove who (wgs_mon s) (mo_notify (wgs_mon s) d) p sel"
      by (auto simp: notify_trans_def)
    have b: "{t. mo_wait m t \<noteq> WIdle} = begun_waits s" using n(3) by (auto simp: wake_mo_wait)
    note rank = nmove_rank [OF n(4)]
    have w: "(\<Sum>u \<in> begun_waits s. wait_rank (mo_wait m u) (cs_point (mo_cv m) u)) \<le>
      (\<Sum>u \<in> begun_waits s. wait_rank (mo_wait (wgs_mon s) u) (cs_point (mo_cv (wgs_mon s)) u))"
      unfolding n(1,3) by (intro sum_mono wake_rank)
    show ?thesis
    proof (cases "lock_rank p < lock_rank (mo_notify (wgs_mon s) d)")
      case True
      have "(\<Sum>e \<in> begun_dones s. lock_rank (mo_notify m e)) < (\<Sum>e \<in> begun_dones s. lock_rank (mo_notify (wgs_mon s) e))"
        by (rule sum_strict_mono_ex1 [OF inv(3)]) (use n(2) True dn in \<open>auto intro!: exI [of _ d]\<close>)
      then show ?thesis using s' by (simp add: lock_measure_def)
    next
      case False
      then have eq: "lock_rank p = lock_rank (mo_notify (wgs_mon s) d)" "notify_rank p < notify_rank (mo_notify (wgs_mon s) d)"
        using rank(1) by auto
      have "(\<Sum>e \<in> begun_dones s. done_rank (wgs_done s e) (mo_notify m e)) <
          (\<Sum>e \<in> begun_dones s. done_rank (wgs_done s e) (mo_notify (wgs_mon s) e))"
        by (rule sum_strict_mono_ex1 [OF inv(3)]) (use n(2) eq(2) dn in \<open>auto simp: done_rank_def intro!: exI [of _ d]\<close>)
      moreover have "lock_rank (mo_notify m e) = lock_rank (mo_notify (wgs_mon s) e)" for e
        using n(2) eq(1) by simp
      ultimately show ?thesis using s' w b by (simp add: lock_measure_def call_measure_def)
    qed
  qed
qed

lemma quiet_step: "wg_quiet who s s' \<Longrightarrow> wg_step who s (Inr s')"
  by (cases rule: wg_quiet.cases) (auto intro: wgs_wait wgs_done)

lemma quiet_decreases:
  assumes "wg_inv who s" "wg_open (wgs_group s)" "wg_quiet who s s'"
  shows "wg_inv who s'" "wg_open (wgs_group s')" "(s', s) \<in> quiet_order"
proof -
  show "wg_inv who s'" using wg_system.inv_step [OF assms(1) quiet_step [OF assms(3)]] by auto
  have "wgs_group s' = wgs_group s \<and>
    (lock_measure s' < lock_measure s \<or> lock_measure s' = lock_measure s \<and> call_measure s' < call_measure s)"
    using assms(3)
  proof cases
    case (1 t)
    then show ?thesis using wait_quiet [OF assms(1,2)] by blast
  next
    case (2 d)
    then show ?thesis using done_quiet [OF assms(1,2)] by blast
  qed
  then show "wg_open (wgs_group s')" "(s', s) \<in> quiet_order" using assms(2) by (auto simp: quiet_order_def)
qed

lemma quiet_run_inv:
  assumes "wg_inv who s" "wg_open (wgs_group s)" "(wg_quiet who)\<^sup>*\<^sup>* s s'"
  shows "wg_inv who s' \<and> wg_open (wgs_group s')"
  using assms(3) by induction (use assms(1,2) quiet_decreases in blast)+

lemma quiet_run_ends:
  assumes "wg_inv who s" "wg_open (wgs_group s)" "run 0 = s" "\<forall>i. wg_quiet who (run i) (run (Suc i))"
  shows False
proof -
  have "wg_inv who (run i) \<and> wg_open (wgs_group (run i))" for i
    by (induction i) (use assms quiet_decreases in blast)+
  then have "\<forall>i. (run (Suc i), run i) \<in> quiet_order" using assms(4) quiet_decreases(3) by blast
  moreover have "wf quiet_order" by (simp add: quiet_order_def wf_inv_image wf_lex_prod)
  ultimately show False by (auto simp: wf_iff_no_infinite_down_chain)
qed

lemma quiet_run_final:
  assumes "wg_inv who s" "wg_open (wgs_group s)"
  shows "\<exists>s'. (wg_quiet who)\<^sup>*\<^sup>* s s' \<and> (\<nexists>s''. wg_quiet who s' s'')"
proof -
  have "wf quiet_order" by (simp add: quiet_order_def wf_inv_image wf_lex_prod)
  then show ?thesis using assms
  proof (induction s rule: wf_induct_rule)
    case (less s)
    show ?case
    proof (cases "\<exists>s1. wg_quiet who s s1")
      case True
      then obtain s1 where q: "wg_quiet who s s1" by blast
      then show ?thesis using less.IH [OF quiet_decreases(3,1,2) [OF less.prems q]]
        by (blast intro: converse_rtranclp_into_rtranclp)
    qed blast
  qed
qed

text \<open>A call that can go on makes a quiet step.\<close>

lemma wait_goes_on:
  assumes "wg_inv who s" "wg_open (wgs_group s)" "mo_wait (wgs_mon s) t \<notin> {WIdle, WBlocked, WRet}"
    and "mo_mutex (wgs_mon s) = None \<or> mo_wait (wgs_mon s) t \<notin> {WLock, WWoken}"
  shows "\<exists>s'. wg_quiet who s s'"
proof -
  obtain r where "wait_next who True t (wgs_mon s) = Some r"
    using wait_ready [of "wgs_mon s" t True who] assms(3,4) by auto
  then have n: "wg_wait_next who t s = Some (rbind r (\<lambda>m. Inr (s\<lparr>wgs_mon := m\<rparr>)))"
    using assms(2) by (simp add: wg_wait_next_def block_bind_def)
  with wait_inv [OF assms(1) n] show ?thesis using assms(3) wg_quiet.intros(1) by fastforce
qed

lemma done_goes_on:
  assumes "wg_inv who s" "wgs_done s d \<noteq> DIdle" "wg_done_next who d s \<noteq> None"
  shows "\<exists>s'. wg_quiet who s s'"
proof -
  obtain r where r: "wg_done_next who d s = Some r" using assms(3) by blast
  with done_inv [OF assms(1) r] assms(2) show ?thesis using wg_quiet.intros(2) [OF assms(2)] by blast
qed

lemma notify_goes_on:
  assumes "wg_inv who s" "wg_open (wgs_group s)" "notifying (mo_notify (wgs_mon s) d)"
  shows "\<exists>s'. wg_quiet who s s'"
proof (cases "\<exists>t. mo_wait (wgs_mon s) t = WReleased")
  case True
  then obtain t where "mo_wait (wgs_mon s) t = WReleased" by blast
  then show ?thesis using wait_goes_on [OF assms(1,2), of t] by simp
next
  case False
  have "wgs_done s d = DNotify" "mo_notify (wgs_mon s) d \<noteq> NRet"
    using wg_invD(5) [OF assms(1), of d] assms(3) by (cases "wgs_done s d"; auto split: if_splits)+
  then show ?thesis using notify_ready [OF wg_invD(1) [OF assms(1)] assms(3)] False done_goes_on [OF assms(1), of d]
    by (auto simp: wg_done_next_def block_bind_def)
qed

lemma open_progress:
  assumes "wg_inv who s" "wg_open (wgs_group s)" "\<nexists>s'. wg_quiet who s s'"
  shows "mo_mutex (wgs_mon s) = None" "mo_wait (wgs_mon s) t \<in> {WIdle, WRet}" "wgs_done s d = DIdle \<or> (\<exists>b. wgs_done s d = DRet b)"
proof -
  let ?m = "wgs_mon s"
  note inv = wg_invD [OF assms(1)] and locks = mon_locks [OF wg_invD(1) [OF assms(1)]]
  have quiet: "\<not> notifying (mo_notify ?m e)" for e using notify_goes_on [OF assms(1,2)] assms(3) by blast
  show free: "mo_mutex ?m = None"
  proof (cases "mo_mutex ?m")
    case (Some a)
    then show ?thesis
    proof (cases a)
      case (Waiter u)
      then have "holds_lock (mo_wait ?m u)" using locks(1) [of u] Some by simp
      then have "mo_wait ?m u \<notin> {WIdle, WBlocked, WRet, WLock, WWoken}" by (cases "mo_wait ?m u") auto
      then show ?thesis using wait_goes_on [OF assms(1,2), of u] assms(3) by blast
    qed (use Some locks(3) quiet in blast)
  qed simp
  have nlock: "mo_notify ?m e \<noteq> NLock" for e
  proof
    assume n: "mo_notify ?m e = NLock"
    then have "wgs_done s e = DNotify" using inv(5) [of e] by (cases "wgs_done s e") (auto split: if_splits)
    then show False using done_goes_on [OF assms(1), of e] assms(3) n free
      by (auto simp: wg_done_next_def notify_next_def lock_simps)
  qed
  have "\<not> will_wake who ?m t" for t using quiet to_reach_notifying unfolding will_wake_def by blast
  then have "\<not> drowsy (mo_wait ?m t)" using inv(6) [of t] assms(2) nlock by (auto simp: covered_def)
  then have "mo_wait ?m t \<noteq> WBlocked" by auto
  then show "mo_wait ?m t \<in> {WIdle, WRet}" using wait_goes_on [OF assms(1,2), of t] assms(3) free by blast
  have "pending s = {}" using inv(4) finite_pending [OF assms(1)] assms(2) by (simp add: wg.is_open_spec)
  then have "wgs_done s d \<noteq> DAssert" "wgs_done s d \<noteq> DDec" by (auto simp: pending_def)
  moreover have "wgs_done s d \<noteq> DNotify"
  proof
    assume dn: "wgs_done s d = DNotify"
    then have "mo_notify ?m d = NRet" using inv(5) [of d] nlock [of d] quiet [of d] by (cases "mo_notify ?m d") auto
    then show False using done_goes_on [OF assms(1), of d] assms(3) dn by (simp add: wg_done_next_def)
  qed
  ultimately show "wgs_done s d = DIdle \<or> (\<exists>b. wgs_done s d = DRet b)" by (cases "wgs_done s d") auto
qed


section \<open>Properties\<close>

text \<open>C18. No wake-up of \<open>WaitGroup::wait\<close> is lost, in any interleaving of calls of \<open>add\<close>, \<open>done\<close> and \<open>wait\<close> by fibers and threads: no assertion fails, no
  mutex is misused, and whenever a call sleeps although the count is zero, a call of \<open>done\<close> is on its way to wake it: it is about to lock the
  mutex, or in \<open>notify_all\<close> with this sleeper still before it.\<close>

theorem wait_group_no_lost_wakeup:
  assumes "reach wg_init (wg_step who) s"
  shows "(\<forall>r. wg_step who s r \<longrightarrow> ok r) \<and>
    (\<forall>t. mo_wait (wgs_mon s) t = WBlocked \<longrightarrow> \<not> wg_open (wgs_group s) \<or>
       (\<exists>d. wgs_done s d = DNotify \<and> (mo_notify (wgs_mon s) d = NLock \<or>
          to_reach who t (cs_point (mo_cv (wgs_mon s)) t) (mo_notify (wgs_mon s) d))))"
proof -
  note inv = wg_invD [OF wg_system.reach_inv [OF assms]]
  have "wgs_done s d = DNotify" if "mo_notify (wgs_mon s) d = NLock \<or> to_reach who t c (mo_notify (wgs_mon s) d)" for d t c
    using that inv(5) [of d] by (cases "wgs_done s d") (auto split: if_splits)
  moreover have "drowsy (mo_wait (wgs_mon s) t)" if "mo_wait (wgs_mon s) t = WBlocked" for t using that by simp
  ultimately show ?thesis using inv(6) wg_system.reach_no_fault [OF assms] unfolding covered_def will_wake_def by metis
qed

text \<open>C19. When the count is zero, everybody returns: a run of the calls that have begun ends, and when it has ended all of them
  have returned, \<open>wait\<close> and \<open>done\<close> alike, and the mutex is free. The scheduler has to run a runnable fiber for this, nothing else.\<close>

theorem wait_group_all_return:
  assumes "reach wg_init (wg_step who) s" "wg_open (wgs_group s)"
  shows "(\<nexists>run. run 0 = s \<and> (\<forall>i. wg_quiet who (run i) (run (Suc i)))) \<and>
    (\<forall>s'. (wg_quiet who)\<^sup>*\<^sup>* s s' \<and> (\<nexists>s''. wg_quiet who s' s'') \<longrightarrow>
       mo_mutex (wgs_mon s') = None \<and> (\<forall>t. mo_wait (wgs_mon s') t \<in> {WIdle, WRet}) \<and>
       (\<forall>d. wgs_done s' d = DIdle \<or> (\<exists>b. wgs_done s' d = DRet b)))"
proof -
  note inv = wg_system.reach_inv [OF assms(1)]
  have "mo_mutex (wgs_mon s') = None \<and> (\<forall>t. mo_wait (wgs_mon s') t \<in> {WIdle, WRet}) \<and>
      (\<forall>d. wgs_done s' d = DIdle \<or> (\<exists>b. wgs_done s' d = DRet b))"
    if "(wg_quiet who)\<^sup>*\<^sup>* s s'" "\<nexists>s''. wg_quiet who s' s''" for s'
    using quiet_run_inv [OF inv assms(2) that(1)] open_progress [OF _ _ that(2)] by blast
  then show ?thesis using quiet_run_ends [OF inv assms(2)] by blast
qed

text \<open>Runs in which the count is never zero.\<close>

definition closed_step :: "callers \<Rightarrow> wg_system \<Rightarrow> wg_system result \<Rightarrow> bool" where
  "closed_step who s r \<longleftrightarrow> wg_step who s r \<and> (\<forall>s'. r = Inr s' \<longrightarrow> \<not> wg_open (wgs_group s'))"

definition closed_init :: "wg_system \<Rightarrow> bool" where
  "closed_init s \<longleftrightarrow> wg_init s \<and> \<not> wg_open (wgs_group s)"

fun leaves :: "cv_point \<Rightarrow> bool" where
  "leaves (CLeaving b) = True"
| "leaves (CReturned b) = True"
| "leaves _ = False"

definition closed_inv :: "callers \<Rightarrow> wg_system \<Rightarrow> bool" where
  "closed_inv who s \<longleftrightarrow> wg_inv who s \<and> \<not> wg_open (wgs_group s) \<and> (\<forall>t. \<not> leaves (cs_point (mo_cv (wgs_mon s)) t))"

lemma wmove_closed: "wmove False p c p' c' \<Longrightarrow> \<not> leaves c \<Longrightarrow> \<not> leaves c'"
  by (erule wmove.cases) auto

lemma done_next_cv:
  assumes "wg_inv who s" "wg_done_next who d s = Some (Inr s')"
  shows "mo_cv (wgs_mon s') = mo_cv (wgs_mon s)"
proof (cases "wgs_done s d = DNotify \<and> mo_notify (wgs_mon s) d \<noteq> NRet")
  case True
  then have dn: "wgs_done s d = DNotify" "mo_notify (wgs_mon s) d \<noteq> NRet" by blast+
  show ?thesis by (rule done_notify_step [OF assms(1) dn assms(2)]) (simp add: notify_trans_def)
qed (use assms(2) in \<open>auto simp: wg_done_next_def done_at_def notify_at_def Let_def marl_assert_def split: done_point.splits if_splits\<close>)

interpretation closed_wg: invariant_system closed_init "closed_step who" "closed_inv who"
proof (unfold_locales, goal_cases)
  case (1 s)
  then show ?case using wg_system.inv_init [of s who]
    by (auto simp: closed_init_def closed_inv_def wg_init_def wg_system_new_def monitor_new_def)
next
  case (2 s r)
  then have inv: "wg_inv who s" "\<not> wg_open (wgs_group s)" "\<not> leaves (cs_point (mo_cv (wgs_mon s)) t)"
    and st: "wg_step who s r" for t by (auto simp: closed_inv_def closed_step_def)
  obtain s' where s': "r = Inr s'" "wg_inv who s'" using wg_system.inv_step [OF inv(1) st] by blast
  have "\<not> leaves (cs_point (mo_cv (wgs_mon s')) u)" for u
    using st
  proof cases
    case (wgs_wait t)
    then obtain m where m: "s' = s\<lparr>wgs_mon := m\<rparr>" "wait_trans who False t (wgs_mon s) m"
      using wait_inv [OF inv(1), of t r] inv(2) s'(1) by auto
    from m(2) obtain p c where c: "cs_point (mo_cv m) = (cs_point (mo_cv (wgs_mon s)))(t := c)"
      "wmove False (mo_wait (wgs_mon s) t) (cs_point (mo_cv (wgs_mon s)) t) p c" by (auto simp: wait_trans_def)
    then show ?thesis using inv(3) [of u] m(1) wmove_closed [OF c(2) inv(3)] by simp
  next
    case (wgs_done d)
    then show ?thesis using done_next_cv [OF inv(1)] s'(1) inv(3) by simp
  qed (use s'(1) inv(3) in auto)
  then show ?case using s' 2(2) by (simp add: closed_inv_def closed_step_def)
qed

text \<open>C20. \<open>wait\<close> does not return early: as long as the count has not been zero since the beginning, no call of \<open>wait\<close> has
  returned or left the wait loop, whatever wakes it up.\<close>

theorem wait_group_not_early:
  assumes "reach closed_init (closed_step who) s"
  shows "mo_wait (wgs_mon s) t \<noteq> WRet \<and> \<not> leaves (cs_point (mo_cv (wgs_mon s)) t)"
proof -
  have inv: "closed_inv who s" by (rule closed_wg.reach_inv [OF assms])
  then have "\<not> leaves (cs_point (mo_cv (wgs_mon s)) t)" "mon_inv who (wgs_mon s)"
    by (auto simp: closed_inv_def dest: wg_invD(1))
  then show ?thesis using mon_invD(3) [of who "wgs_mon s" t] by auto
qed

text \<open>The assertion of \<open>done\<close> and its countdown are two accesses. Two calls of \<open>done\<close> for a count of one, a violation of the contract, both
  pass the assertion, and the count becomes the largest \<open>unsigned int\<close>.\<close>

definition two_dones :: "wg_system result" where
  "two_dones = foldl (\<lambda>r d. rbind r (\<lambda>s. case wg_done_next (\<lambda>_. None) d s of Some r' \<Rightarrow> r' | None \<Rightarrow> Inr s))
     (Inr (wg_system_new 1)) [0, 1, 0, 1, 0, 1]"

theorem done_race_undetected:
  "\<exists>s. two_dones = Inr s \<and> wg_count (wgs_group s) = 2 ^ 32 - 1 \<and> wgs_done s 1 = DRet False"
  by (simp add: two_dones_def wg_done_next_def wg_system_new_def wg_new_def done_at_def Let_def notify_at_def monitor_new_def)

section \<open>Example: a thread waits for one task\<close>

definition no_fiber :: callers where
  "no_fiber t = None"

definition demo_sys :: "cv_point \<Rightarrow> wait_point \<Rightarrow> agent std_mutex \<Rightarrow> condvar \<Rightarrow> done_point \<Rightarrow> notify_point \<Rightarrow> 32 word \<Rightarrow> wg_system" where
  "demo_sys c p mx cv dp n k =
     \<lparr>wgs_group = \<lparr>wg_count = k\<rparr>,
      wgs_mon = \<lparr>mo_cv = \<lparr>cs_cv = cv, cs_point = (\<lambda>_. CEnter)(0 := c)\<rparr>, mo_mutex = mx,
        mo_owns = (\<lambda>_. False)(0 := (mx = Some (Waiter 0))), mo_work = (\<lambda>_. None), mo_wait = (\<lambda>_. WIdle)(0 := p),
        mo_notify = (\<lambda>_. NIdle)(0 := n)\<rparr>,
      wgs_done = (\<lambda>_. DIdle)(0 := dp)\<rparr>"

lemmas demo_sys_defs = demo_sys_def wg_wait_next_def wait_next_def call_next_def cv_advance_def wait_at_def put_lock_def
  thread_sleep_def lock_simps no_fiber_def closed_step_def wg_open_def

lemma demo_closed:
  "reach closed_init (closed_step no_fiber)
     (demo_sys COnCondition WBlocked None (condvar_new\<lparr>cv_num_waiting := 1, cv_num_waiting_on_condition := 1\<rparr>) DIdle NIdle 1)"
proof -
  let ?cv = "condvar_new\<lparr>cv_num_waiting := 1\<rparr>" and ?cv2 = "condvar_new\<lparr>cv_num_waiting := 1, cv_num_waiting_on_condition := 1\<rparr>"
  let ?s = "\<lambda>c p mx cv. demo_sys c p mx cv DIdle NIdle 1"
  note R = reach_step [where init = closed_init and step = "closed_step no_fiber"]
  have S: "closed_step no_fiber s (Inr s')" if "wg_wait_next no_fiber 0 s = Some (Inr s')" "wg_count (wgs_group s') \<noteq> 0" for s s'
    using that wgs_wait [of no_fiber 0 s] by (auto simp: closed_step_def wg_open_def)
  have "reach closed_init (closed_step no_fiber) (?s CEnter WIdle None condvar_new)"
    by (rule reach_init)
      (simp add: closed_init_def wg_init_def wg_system_new_def monitor_new_def demo_sys_def wg_open_def wg_new_def fun_upd_def
        exI [of _ 1])
  then have "reach closed_init (closed_step no_fiber) (?s CEnter WLock None condvar_new)"
    by (rule R) (rule S; simp add: demo_sys_defs)
  then have "reach closed_init (closed_step no_fiber) (?s CEnter WCall (Some (Waiter 0)) condvar_new)"
    by (rule R) (rule S; simp add: demo_sys_defs)
  then have "reach closed_init (closed_step no_fiber) (?s CCounted WCall (Some (Waiter 0)) ?cv)"
    by (rule R) (rule S; simp add: demo_sys_defs condvar_new_def)
  then have "reach closed_init (closed_step no_fiber) (?s COnCondition WCall (Some (Waiter 0)) ?cv2)"
    by (rule R) (rule S; simp add: demo_sys_defs condvar_new_def)
  then show ?thesis
    by (rule R) (rule S; simp add: demo_sys_defs condvar_new_def)
qed


lemma closed_reach: "reach closed_init (closed_step who) s \<Longrightarrow> reach wg_init (wg_step who) s"
  by (induction rule: reach.induct) (auto simp: closed_init_def closed_step_def intro: reach_init reach_step)

abbreviation demo_open :: wg_system where
  "demo_open \<equiv> demo_sys COnCondition WBlocked None
     (condvar_new\<lparr>cv_num_waiting := 1, cv_num_waiting_on_condition := 1\<rparr>) DNotify NLock 0"

lemma demo_open_reach: "reach wg_init (wg_step no_fiber) demo_open"
proof -
  let ?cv = "condvar_new\<lparr>cv_num_waiting := 1, cv_num_waiting_on_condition := 1\<rparr>"
  let ?s = "\<lambda>dp. demo_sys COnCondition WBlocked None ?cv dp NIdle 1"
  note R = reach_step [where init = wg_init and step = "wg_step no_fiber"]
  have "reach wg_init (wg_step no_fiber) (?s DIdle)" by (rule closed_reach [OF demo_closed])
  moreover have "wg_done_next no_fiber 0 (?s DIdle) = Some (Inr (?s DAssert))"
    "card (pending (?s DIdle)) < wg_outstanding (wgs_group (?s DIdle))"
    by (simp_all add: wg_done_next_def demo_sys_def done_at_def pending_def wg_outstanding_def)
  ultimately have "reach wg_init (wg_step no_fiber) (?s DAssert)" by (blast intro: R wgs_done)
  moreover have "wg_done_next no_fiber 0 (?s DAssert) = Some (Inr (?s DDec))" "wgs_done (?s DAssert) 0 \<noteq> DIdle"
    by (simp_all add: wg_done_next_def demo_sys_def done_at_def)
  ultimately have "reach wg_init (wg_step no_fiber) (?s DDec)" by (blast intro: R wgs_done)
  moreover have "wg_done_next no_fiber 0 (?s DDec) = Some (Inr demo_open)" "wgs_done (?s DDec) 0 \<noteq> DIdle"
    by (simp_all add: wg_done_next_def demo_sys_def done_at_def notify_at_def Let_def)
  ultimately show ?thesis by (blast intro: R wgs_done)
qed

theorem wait_group_no_lost_wakeup_witness:
  "mo_wait (wgs_mon demo_open) 0 = WBlocked \<and> wg_open (wgs_group demo_open) \<and> (\<exists>d. wgs_done demo_open d = DNotify)"
proof -
  have "mo_wait (wgs_mon demo_open) 0 = WBlocked" "wg_open (wgs_group demo_open)" by (simp_all add: demo_sys_def wg_open_def)
  then show ?thesis using wait_group_no_lost_wakeup [OF demo_open_reach] by blast
qed

theorem wait_group_all_return_witness:
  "mo_wait (wgs_mon demo_open) 0 = WBlocked \<and>
   (\<exists>s'. (wg_quiet no_fiber)\<^sup>*\<^sup>* demo_open s' \<and> mo_wait (wgs_mon s') 0 \<in> {WIdle, WRet} \<and> mo_mutex (wgs_mon s') = None)"
proof -
  have d: "mo_wait (wgs_mon demo_open) 0 = WBlocked" "wg_open (wgs_group demo_open)" by (simp_all add: demo_sys_def wg_open_def)
  obtain s' where "(wg_quiet no_fiber)\<^sup>*\<^sup>* demo_open s'" "\<nexists>s''. wg_quiet no_fiber s' s''"
    using quiet_run_final [OF wg_system.reach_inv [OF demo_open_reach] d(2)] by blast
  then show ?thesis using wait_group_all_return [OF demo_open_reach d(2)] d(1) by blast
qed

theorem wait_group_not_early_witness:
  "mo_wait (wgs_mon (demo_sys COnCondition WBlocked None
     (condvar_new\<lparr>cv_num_waiting := 1, cv_num_waiting_on_condition := 1\<rparr>) DIdle NIdle 1)) 0 \<noteq> WRet"
  using wait_group_not_early [OF demo_closed, of 0] by (rule conjunct1)

end
