(* ===== verification/Parallel_Calls.thy ===== *)
theory Parallel_Calls
  imports Wait_Group Scheduler_Proofs
begin

text \<open>
  \<open>parallelize.hpp\<close> and \<open>blocking_call.hpp\<close>: calls that hand work to other threads and wait for it with a wait group. The wait is a step that is
  possible when the count is zero; that a call of \<open>WaitGroup::wait\<close> behaves like this is shown in \<open>Wait_Group_Wait\<close>. Everything else runs from one
  access to shared state to the next, in any interleaving. The counting argument rests on the laws of the locale \<open>latch\<close> (\<open>wg\<close>).
\<close>

section \<open>\<open>parallelize\<close>\<close>

text \<open>Function \<open>0\<close> is \<open>f0\<close>, function \<open>i + 1\<close> the one of task \<open>i\<close>; there are \<open>n\<close> tasks, fewer than an \<open>unsigned int\<close> can count.\<close>

datatype pz_point =
    PzSchedule nat   \<comment> \<open>has called \<open>schedule_f\<close> for the tasks before\<close>
  | PzF0             \<comment> \<open>at \<open>f0()\<close>\<close>
  | PzWait           \<comment> \<open>at \<open>wg.wait()\<close>\<close>
  | PzReturned

datatype pz_task = TNone | TScheduled | TCalled | TFinished

record 'u parallel =
  pz_group :: wait_group
  pz_caller :: pz_point
  pz_task :: "nat \<Rightarrow> pz_task"
  pz_user :: 'u
  pz_calls :: "nat list"

definition parallelize_begin :: "nat \<Rightarrow> 'u \<Rightarrow> 'u parallel" where
  "parallelize_begin n u =
     \<lparr>pz_group = wg_new (of_nat n), pz_caller = PzSchedule 0, pz_task = (\<lambda>_. TNone), pz_user = u, pz_calls = []\<rparr>"

text \<open>\<open>call i\<close> is the effect of function \<open>i\<close>.\<close>

definition pz_call :: "(nat \<Rightarrow> 'u \<Rightarrow> 'u) \<Rightarrow> nat \<Rightarrow> 'u parallel \<Rightarrow> 'u parallel" where
  "pz_call call i s = s\<lparr>pz_user := call i (pz_user s), pz_calls := pz_calls s @ [i]\<rparr>"

definition schedule_f :: "bool \<Rightarrow> nat \<Rightarrow> 'u parallel \<Rightarrow> 'u parallel result" where
  "schedule_f bound i s =
     rbind (marl_assert bound ''marl::schedule requires a marl::Scheduler to be bound'') (\<lambda>_.
     Inr (s\<lparr>pz_task := (pz_task s)(i := TScheduled)\<rparr>))"

definition parallelize_next :: "bool \<Rightarrow> nat \<Rightarrow> (nat \<Rightarrow> 'u \<Rightarrow> 'u) \<Rightarrow> 'u parallel \<Rightarrow> 'u parallel result option" where
  "parallelize_next bound n call s =
     (case pz_caller s of
        PzSchedule i \<Rightarrow>
          Some (if i < n then rbind (schedule_f bound i s) (\<lambda>s'. Inr (s'\<lparr>pz_caller := PzSchedule (i + 1)\<rparr>))
                else Inr (s\<lparr>pz_caller := PzF0\<rparr>))
      | PzF0 \<Rightarrow> Some (Inr (pz_call call 0 (s\<lparr>pz_caller := PzWait\<rparr>)))
      | PzWait \<Rightarrow> if wg_open (pz_group s) then Some (Inr (s\<lparr>pz_caller := PzReturned\<rparr>)) else None
      | PzReturned \<Rightarrow> None)"

text \<open>The lambda given to \<open>marl::schedule\<close>: it has copies of the function and of the wait group.\<close>

definition pz_task_next :: "(nat \<Rightarrow> 'u \<Rightarrow> 'u) \<Rightarrow> nat \<Rightarrow> 'u parallel \<Rightarrow> 'u parallel result option" where
  "pz_task_next call i s =
     (case pz_task s i of
        TScheduled \<Rightarrow> Some (Inr (pz_call call (i + 1) (s\<lparr>pz_task := (pz_task s)(i := TCalled)\<rparr>)))
      | TCalled \<Rightarrow> Some (rbind (wg_done (pz_group s)) (\<lambda>(g, _).
          Inr (s\<lparr>pz_group := g, pz_task := (pz_task s)(i := TFinished)\<rparr>)))
      | _ \<Rightarrow> None)"

inductive pz_step :: "nat \<Rightarrow> (nat \<Rightarrow> 'u \<Rightarrow> 'u) \<Rightarrow> 'u parallel \<Rightarrow> 'u parallel result \<Rightarrow> bool" for n call where
  pz_step_caller: "parallelize_next True n call s = Some r \<Longrightarrow> pz_step n call s r"
| pz_step_task: "pz_task_next call i s = Some r \<Longrightarrow> pz_step n call s r"

definition pz_init :: "nat \<Rightarrow> 'u \<Rightarrow> 'u parallel \<Rightarrow> bool" where
  "pz_init n u s \<longleftrightarrow> n < 2 ^ 32 \<and> s = parallelize_begin n u"

text \<open>The number of tasks that \<open>schedule_f\<close> was called for.\<close>

fun scheduled :: "nat \<Rightarrow> pz_point \<Rightarrow> nat" where
  "scheduled n (PzSchedule i) = i"
| "scheduled n _ = n"

fun f0_called :: "pz_point \<Rightarrow> bool" where
  "f0_called (PzSchedule i) = False"
| "f0_called PzF0 = False"
| "f0_called _ = True"

definition called :: "pz_task \<Rightarrow> bool" where
  "called p \<longleftrightarrow> p = TCalled \<or> p = TFinished"

definition pz_inv :: "nat \<Rightarrow> (nat \<Rightarrow> 'u \<Rightarrow> 'u) \<Rightarrow> 'u \<Rightarrow> 'u parallel \<Rightarrow> bool" where
  "pz_inv n call u s \<longleftrightarrow> scheduled n (pz_caller s) \<le> n \<and>
     (\<forall>i. pz_task s i = TNone \<longleftrightarrow> \<not> i < scheduled n (pz_caller s)) \<and>
     wg_outstanding (pz_group s) + card {i. pz_task s i = TFinished} = n \<and>
     (pz_caller s = PzReturned \<longrightarrow> wg_open (pz_group s)) \<and>
     distinct (pz_calls s) \<and>
     (\<forall>k. k \<in> set (pz_calls s) \<longleftrightarrow> (case k of 0 \<Rightarrow> f0_called (pz_caller s) | Suc i \<Rightarrow> called (pz_task s i))) \<and>
     pz_user s = fold call (pz_calls s) u"

lemma pz_invD:
  assumes "pz_inv n call u s"
  shows "scheduled n (pz_caller s) \<le> n" "pz_task s i = TNone \<longleftrightarrow> \<not> i < scheduled n (pz_caller s)"
    "wg_outstanding (pz_group s) + card {i. pz_task s i = TFinished} = n"
    "pz_caller s = PzReturned \<Longrightarrow> wg_open (pz_group s)" "distinct (pz_calls s)"
    "0 \<in> set (pz_calls s) \<longleftrightarrow> f0_called (pz_caller s)" "Suc i \<in> set (pz_calls s) \<longleftrightarrow> called (pz_task s i)"
    "pz_user s = fold call (pz_calls s) u"
  using assms unfolding pz_inv_def by (auto split: nat.splits)

lemma pz_invI:
  assumes "scheduled n (pz_caller s) \<le> n" "\<And>i. pz_task s i = TNone \<longleftrightarrow> \<not> i < scheduled n (pz_caller s)"
    "wg_outstanding (pz_group s) + card {i. pz_task s i = TFinished} = n"
    "pz_caller s = PzReturned \<Longrightarrow> wg_open (pz_group s)" "distinct (pz_calls s)"
    "0 \<in> set (pz_calls s) \<longleftrightarrow> f0_called (pz_caller s)" "\<And>i. Suc i \<in> set (pz_calls s) \<longleftrightarrow> called (pz_task s i)"
    "pz_user s = fold call (pz_calls s) u"
  shows "pz_inv n call u s"
  using assms unfolding pz_inv_def by (auto split: nat.splits)

lemma finished_subset:
  assumes "pz_inv n call u s"
  shows "{i. pz_task s i = TFinished} \<subseteq> {..<n}" "finite {i. pz_task s i = TFinished}"
proof -
  show "{i. pz_task s i = TFinished} \<subseteq> {..<n}"
  proof
    fix i
    assume "i \<in> {i. pz_task s i = TFinished}"
    then show "i \<in> {..<n}" using pz_invD(1) [OF assms] pz_invD(2) [OF assms, of i] by auto
  qed
  then show "finite {i. pz_task s i = TFinished}" by (rule finite_subset) simp
qed

lemma caller_inv:
  assumes "pz_inv n call u s" "parallelize_next True n call s = Some r"
  shows "\<exists>s'. r = Inr s' \<and> pz_inv n call u s'"
proof -
  note inv = pz_invD [OF assms(1)]
  show ?thesis
  proof (cases "pz_caller s")
    case (PzSchedule i)
    show ?thesis
    proof (cases "i < n")
      case True
      let ?s = "s\<lparr>pz_task := (pz_task s)(i := TScheduled), pz_caller := PzSchedule (i + 1)\<rparr>"
      have none: "pz_task s i = TNone" using inv(2) [of i] PzSchedule by simp
      then have "{k. pz_task ?s k = TFinished} = {k. pz_task s k = TFinished}" by auto
      moreover have "pz_task ?s k = TNone \<longleftrightarrow> \<not> k < Suc i" for k using inv(2) [of k] PzSchedule by auto
      moreover have "Suc k \<in> set (pz_calls s) \<longleftrightarrow> called (pz_task ?s k)" for k
        using inv(7) [of k] none by (auto simp: called_def)
      ultimately have "pz_inv n call u ?s"
        by (intro pz_invI) (use inv(1,3-6,8) PzSchedule True in simp_all)
      then show ?thesis using assms(2) PzSchedule True by (auto simp: parallelize_next_def schedule_f_def)
    next
      case False
      have "pz_inv n call u (s\<lparr>pz_caller := PzF0\<rparr>)"
        by (intro pz_invI) (use inv PzSchedule False in auto)
      then show ?thesis using assms(2) PzSchedule False by (auto simp: parallelize_next_def)
    qed
  next
    case PzF0
    have "pz_inv n call u (pz_call call 0 (s\<lparr>pz_caller := PzWait\<rparr>))"
      by (intro pz_invI) (use inv PzF0 in \<open>auto simp: pz_call_def\<close>)
    then show ?thesis using assms(2) PzF0 by (auto simp: parallelize_next_def)
  next
    case PzWait
    then have r: "wg_open (pz_group s)" "r = Inr (s\<lparr>pz_caller := PzReturned\<rparr>)"
      using assms(2) by (auto simp: parallelize_next_def split: if_splits)
    have "pz_inv n call u (s\<lparr>pz_caller := PzReturned\<rparr>)"
      by (intro pz_invI) (use inv PzWait r(1) in auto)
    then show ?thesis using r(2) by blast
  qed (use assms(2) in \<open>simp add: parallelize_next_def\<close>)
qed

lemma task_inv:
  assumes "pz_inv n call u s" "pz_task_next call i s = Some r"
  shows "\<exists>s'. r = Inr s' \<and> pz_inv n call u s'"
proof -
  note inv = pz_invD [OF assms(1)] and fin = finished_subset [OF assms(1)]
  show ?thesis
  proof (cases "pz_task s i")
    case TScheduled
    let ?s = "pz_call call (i + 1) (s\<lparr>pz_task := (pz_task s)(i := TCalled)\<rparr>)"
    have "{k. pz_task ?s k = TFinished} = {k. pz_task s k = TFinished}" using TScheduled by (auto simp: pz_call_def)
    moreover have "pz_task ?s k = TNone \<longleftrightarrow> \<not> k < scheduled n (pz_caller ?s)" for k
      using inv(2) [of k] TScheduled by (auto simp: pz_call_def)
    moreover have "Suc k \<in> set (pz_calls ?s) \<longleftrightarrow> called (pz_task ?s k)" for k
      using inv(7) [of k] by (auto simp: pz_call_def called_def)
    moreover have "Suc i \<notin> set (pz_calls s)" using inv(7) [of i] TScheduled by (simp add: called_def)
    ultimately have "pz_inv n call u ?s"
      by (intro pz_invI) (use inv in \<open>auto simp: pz_call_def\<close>)
    then show ?thesis using assms(2) TScheduled by (auto simp: pz_task_next_def)
  next
    case TCalled
    have lt: "i < n" using inv(1) inv(2) [of i] TCalled by auto
    have "{k. pz_task s k = TFinished} \<subseteq> {..<n} - {i}" using fin(1) TCalled by auto
    then have "card {k. pz_task s k = TFinished} \<le> card ({..<n} - {i})" by (intro card_mono) simp_all
    then have "0 < wg_outstanding (pz_group s)" using inv(3) lt by simp
    then obtain g where g: "wg_done (pz_group s) = Inr (g, wg_outstanding (pz_group s) = 1)"
      "wg_outstanding g = wg_outstanding (pz_group s) - 1" using wg.finish_spec by blast
    let ?s = "s\<lparr>pz_group := g, pz_task := (pz_task s)(i := TFinished)\<rparr>"
    have "{k. pz_task ?s k = TFinished} = insert i {k. pz_task s k = TFinished}" by auto
    then have "card {k. pz_task ?s k = TFinished} = Suc (card {k. pz_task s k = TFinished})" using fin(2) TCalled by simp
    moreover have "pz_task ?s k = TNone \<longleftrightarrow> \<not> k < scheduled n (pz_caller ?s)" for k
      using inv(2) [of k] TCalled by auto
    moreover have "Suc k \<in> set (pz_calls ?s) \<longleftrightarrow> called (pz_task ?s k)" for k
      using inv(7) [of k] TCalled by (auto simp: called_def)
    moreover have "pz_caller s \<noteq> PzReturned" using inv(4) \<open>0 < wg_outstanding (pz_group s)\<close> by (auto simp: wg.is_open_spec)
    ultimately have "pz_inv n call u ?s"
      by (intro pz_invI) (use inv g(2) \<open>0 < wg_outstanding (pz_group s)\<close> in auto)
    then show ?thesis using assms(2) TCalled g(1) by (auto simp: pz_task_next_def)
  qed (use assms(2) in \<open>simp_all add: pz_task_next_def\<close>)
qed

interpretation parallel_system: invariant_system "pz_init n u" "pz_step n call" "pz_inv n call u"
proof (unfold_locales, goal_cases)
  case (1 s)
  then show ?case
    by (intro pz_invI)
      (auto simp: pz_init_def parallelize_begin_def wg_outstanding_def wg_new_def called_def unat_of_nat_less)
next
  case (2 s r)
  from 2(2) show ?case using caller_inv [OF 2(1)] task_inv [OF 2(1)] by cases blast+
qed

text \<open>The work that is left.\<close>

fun task_work :: "pz_task \<Rightarrow> nat" where
  "task_work TNone = 2"
| "task_work TScheduled = 2"
| "task_work TCalled = 1"
| "task_work TFinished = 0"

fun caller_work :: "nat \<Rightarrow> pz_point \<Rightarrow> nat" where
  "caller_work n (PzSchedule i) = n - i + 3"
| "caller_work n PzF0 = 2"
| "caller_work n PzWait = 1"
| "caller_work n PzReturned = 0"

definition pz_work :: "nat \<Rightarrow> 'u parallel \<Rightarrow> nat" where
  "pz_work n s = caller_work n (pz_caller s) + (\<Sum>i<n. task_work (pz_task s i))"

lemma task_work_less:
  fixes n :: nat
  assumes "i < n" "task_work p < task_work (f i)"
  shows "(\<Sum>k<n. task_work ((f(i := p)) k)) < (\<Sum>k<n. task_work (f k))"
  by (rule sum_strict_mono_ex1 [OF finite_lessThan]) (use assms in \<open>auto intro!: bexI [of _ i]\<close>)

lemma pz_work_decreases:
  assumes "pz_inv n call u s" "pz_step n call s (Inr s')"
  shows "pz_work n s' < pz_work n s"
  using assms(2)
proof cases
  case pz_step_caller
  note inv = pz_invD [OF assms(1)]
  have keep: "(\<Sum>k<n. task_work (((pz_task s)(i := TScheduled)) k)) = (\<Sum>k<n. task_work (pz_task s k))"
    if "pz_caller s = PzSchedule i" for i
    using inv(2) [of i] that by (intro sum.cong) auto
  show ?thesis
    using pz_step_caller keep
    by (cases "pz_caller s") (auto simp: parallelize_next_def schedule_f_def pz_work_def pz_call_def split: if_splits)
next
  case (pz_step_task i)
  note inv = pz_invD [OF assms(1)]
  have lt: "i < n" if "pz_task s i \<noteq> TNone" using inv(1) inv(2) [of i] that by auto
  show ?thesis
    using pz_step_task lt task_work_less [of i n TCalled "pz_task s"] task_work_less [of i n TFinished "pz_task s"]
    by (cases "pz_task s i") (auto simp: pz_task_next_def pz_work_def pz_call_def)
qed

lemma pz_progress:
  assumes "pz_inv n call u s" "pz_caller s \<noteq> PzReturned"
  shows "\<exists>s'. pz_step n call s (Inr s')"
proof (cases "\<exists>i. pz_task s i = TScheduled \<or> pz_task s i = TCalled")
  case True
  then obtain i where "pz_task s i = TScheduled \<or> pz_task s i = TCalled" by blast
  then obtain r where "pz_task_next call i s = Some r" by (auto simp: pz_task_next_def)
  moreover from this obtain s' where "r = Inr s'" using task_inv [OF assms(1)] by blast
  ultimately show ?thesis using pz_step.pz_step_task [of call i s r n] by blast
next
  case False
  note inv = pz_invD [OF assms(1)]
  have "parallelize_next True n call s \<noteq> None"
  proof (cases "pz_caller s")
    case PzWait
    have "pz_task s i = TFinished" if "i < n" for i
      using False inv(2) [of i] that PzWait by (cases "pz_task s i") auto
    then have "{..<n} \<subseteq> {i. pz_task s i = TFinished}" by auto
    then have "{i. pz_task s i = TFinished} = {..<n}" using finished_subset(1) [OF assms(1)] by blast
    then have "wg_open (pz_group s)" using inv(3) by (simp add: wg.is_open_spec)
    then show ?thesis using PzWait by (simp add: parallelize_next_def)
  qed (use assms(2) in \<open>simp_all add: parallelize_next_def\<close>)
  then obtain r where r: "parallelize_next True n call s = Some r" by blast
  then obtain s' where "r = Inr s'" using caller_inv [OF assms(1)] by blast
  then show ?thesis using pz_step.pz_step_caller [OF r] by blast
qed

text \<open>C36. \<open>parallelize(f0, f1, ..., fn)\<close> called with a bound scheduler: no assertion fails, every step brings it nearer to its end by a measure, and it is never
  stuck before the end. When it returns, every one of its functions has been called exactly once and has returned, and the wait group is at zero.
  The calls may happen in any order.\<close>

theorem parallelize_runs_all:
  assumes "reach (pz_init n u) (pz_step n call) s"
  shows "(\<forall>r. pz_step n call s r \<longrightarrow> (\<exists>s'. r = Inr s' \<and> pz_work n s' < pz_work n s)) \<and>
    (pz_caller s \<noteq> PzReturned \<longrightarrow> (\<exists>r. pz_step n call s r)) \<and>
    (pz_caller s = PzReturned \<longrightarrow> distinct (pz_calls s) \<and> set (pz_calls s) = {..n} \<and>
       pz_user s = fold call (pz_calls s) u \<and> (\<forall>i<n. pz_task s i = TFinished) \<and> wg_open (pz_group s))"
proof -
  have inv: "pz_inv n call u s" by (rule parallel_system.reach_inv [OF assms])
  have "\<exists>s'. r = Inr s' \<and> pz_work n s' < pz_work n s" if "pz_step n call s r" for r
    using parallel_system.inv_step [OF inv that] pz_work_decreases [OF inv] that by blast
  moreover have "distinct (pz_calls s) \<and> set (pz_calls s) = {..n} \<and>
       pz_user s = fold call (pz_calls s) u \<and> (\<forall>i<n. pz_task s i = TFinished) \<and> wg_open (pz_group s)" if ret: "pz_caller s = PzReturned"
  proof -
    note d = pz_invD [OF inv]
    have "card {i. pz_task s i = TFinished} = n" using d(3,4) ret by (simp add: wg.is_open_spec)
    then have fin: "{i. pz_task s i = TFinished} = {..<n}"
      using finished_subset(1) [OF inv] by (intro card_subset_eq) auto
    have "k \<in> set (pz_calls s) \<longleftrightarrow> k \<le> n" for k
    proof (cases k)
      case 0
      then show ?thesis using d(6) ret by simp
    next
      case (Suc i)
      have "i < n \<longleftrightarrow> pz_task s i = TFinished" using fin by blast
      moreover have "i < n \<longleftrightarrow> pz_task s i \<noteq> TNone" using d(2) [of i] ret by simp
      ultimately have "called (pz_task s i) \<longleftrightarrow> i < n" by (cases "pz_task s i") (auto simp: called_def)
      then show ?thesis using d(7) [of i] Suc by auto
    qed
    then have "set (pz_calls s) = {..n}" by auto
    moreover have "\<forall>i<n. pz_task s i = TFinished" using fin by auto
    ultimately show ?thesis using d(4) [OF ret] d(5,8) by (intro conjI)
  qed
  ultimately show ?thesis using pz_progress [OF inv] by blast
qed


theorem parallelize_runs_all_witness:
  "\<exists>s. reach (pz_init 1 (0 :: nat)) (pz_step 1 (\<lambda>i u. u + i + 5)) s \<and> pz_caller s = PzReturned \<and>
     set (pz_calls s) = {..1} \<and> pz_user s = 11"
proof -
  let ?c = "\<lambda>i u. u + i + 5 :: nat"
  let ?s = "\<lambda>p t g u l. \<lparr>pz_group = \<lparr>wg_count = g\<rparr>, pz_caller = p, pz_task = (\<lambda>_. TNone)(0 := t), pz_user = u :: nat, pz_calls = l\<rparr>"
  note R = reach_step [where init = "pz_init 1 (0 :: nat)" and step = "pz_step 1 ?c"]
  have "reach (pz_init 1 0) (pz_step 1 ?c) (?s (PzSchedule 0) TNone 1 0 [])"
    by (rule reach_init) (simp add: pz_init_def parallelize_begin_def wg_new_def fun_upd_def)
  then have "reach (pz_init 1 0) (pz_step 1 ?c) (?s (PzSchedule 1) TScheduled 1 0 [])"
    by (rule R) (rule pz_step_caller, simp add: parallelize_next_def schedule_f_def)
  then have "reach (pz_init 1 0) (pz_step 1 ?c) (?s (PzSchedule 1) TCalled 1 6 [1])"
    by (rule R) (rule pz_step_task [where i = 0], simp add: pz_task_next_def pz_call_def)
  then have "reach (pz_init 1 0) (pz_step 1 ?c) (?s PzF0 TCalled 1 6 [1])"
    by (rule R) (rule pz_step_caller, simp add: parallelize_next_def)
  then have "reach (pz_init 1 0) (pz_step 1 ?c) (?s PzWait TCalled 1 11 [1, 0])"
    by (rule R) (rule pz_step_caller, simp add: parallelize_next_def pz_call_def)
  then have "reach (pz_init 1 0) (pz_step 1 ?c) (?s PzWait TFinished 0 11 [1, 0])"
    by (rule R) (rule pz_step_task [where i = 0], simp add: pz_task_next_def wg_done_def Let_def)
  then have r: "reach (pz_init 1 0) (pz_step 1 ?c) (?s PzReturned TFinished 0 11 [1, 0])"
    by (rule R) (rule pz_step_caller, simp add: parallelize_next_def wg_open_def)
  show ?thesis using parallelize_runs_all [OF r] r by (intro exI conjI) (assumption, simp_all)
qed


section \<open>\<open>blocking_call\<close>\<close>

text \<open>
  \<open>OnNewThread<ReturnType>::call\<close>. The lambda of the new thread holds the local variables \<open>scheduler\<close> and \<open>result\<close> and the function by reference, so that
  it may touch them only while the frame of the call is alive (\<open>bc_frame\<close>); the wait group is copied. \<open>caller\<close> and \<open>tid\<close> are the two threads. The
  scheduler may be changed by others at any time, except for what belongs to the new thread. The result of the function is
  \<open>v\<close>; the version for \<open>void\<close> has the same steps with no result, \<open>v = None\<close>. That \<open>f\<close> and the loop of \<open>worker->stop()\<close> return is taken as
  given: each is one step (for \<open>stop\<close> see \<open>stop_runs_all_tasks\<close> in \<open>Worker_Properties\<close>). The thread ends some time after \<open>wg.done()\<close>, so that it is
  \<open>thread.join()\<close> that makes the caller wait for its end.
\<close>

datatype 'r bc_point =
    BBegin
  | BSpawn          \<comment> \<open>at the construction of the thread\<close>
  | BWait           \<comment> \<open>at \<open>wg.wait()\<close>\<close>
  | BJoin           \<comment> \<open>at \<open>thread.join()\<close>\<close>
  | BReturned "'r option"

datatype bt_point =
    BtNone          \<comment> \<open>not created\<close>
  | BtBind          \<comment> \<open>at the first \<open>if (scheduler != nullptr)\<close>\<close>
  | BtCall          \<comment> \<open>at \<open>result = f(...)\<close>\<close>
  | BtUnbind        \<comment> \<open>at the second \<open>if (scheduler != nullptr)\<close>\<close>
  | BtStopping wref \<comment> \<open>in \<open>worker->stop()\<close> of \<open>unbind\<close>\<close>
  | BtDone          \<comment> \<open>at \<open>wg.done()\<close>\<close>
  | BtLeave         \<comment> \<open>\<open>done\<close> has returned, the thread has not ended\<close>
  | BtExit

record ('u, 'r) blocking =
  bc_group :: wait_group
  bc_scheduler :: bool           \<comment> \<open>whether \<open>scheduler\<close> is not null\<close>
  bc_result :: "'r option"       \<comment> \<open>\<open>None\<close> before the assignment\<close>
  bc_frame :: bool
  bc_caller :: "'r bc_point"
  bc_thread :: bt_point
  bc_sch :: "'u scheduler"
  bc_runs :: nat                 \<comment> \<open>how often \<open>f\<close> was called\<close>

definition blocking_begin :: "'u scheduler \<Rightarrow> ('u, 'r) blocking" where
  "blocking_begin sch = \<lparr>bc_group = wg_new 1, bc_scheduler = False, bc_result = None, bc_frame = True,
     bc_caller = BBegin, bc_thread = BtNone, bc_sch = sch, bc_runs = 0\<rparr>"

definition blocking_next :: "nat \<Rightarrow> ('u, 'r) blocking \<Rightarrow> ('u, 'r) blocking result option" where
  "blocking_next caller s =
     (case bc_caller s of
        BBegin \<Rightarrow> Some (Inr (s\<lparr>bc_scheduler := sch_current (bc_sch s) caller \<noteq> None, bc_caller := BSpawn\<rparr>))
      | BSpawn \<Rightarrow> Some (Inr (s\<lparr>bc_thread := BtBind, bc_caller := BWait\<rparr>))
      | BWait \<Rightarrow> if wg_open (bc_group s) then Some (Inr (s\<lparr>bc_caller := BJoin\<rparr>)) else None
      | BJoin \<Rightarrow> if bc_thread s = BtExit then Some (Inr (s\<lparr>bc_caller := BReturned (bc_result s), bc_frame := False\<rparr>)) else None
      | BReturned _ \<Rightarrow> None)"

text \<open>Access to a variable of the frame.\<close>

definition in_frame :: "('u, 'r) blocking \<Rightarrow> 'a result \<Rightarrow> 'a result" where
  "in_frame s r = (if bc_frame s then r else Inl BadAccess)"

definition bc_thread_next :: "nat list \<Rightarrow> nat \<Rightarrow> 'r option \<Rightarrow> ('u, 'r) blocking \<Rightarrow> ('u, 'r) blocking result option" where
  "bc_thread_next tids tid v s =
     (case bc_thread s of
        BtBind \<Rightarrow> Some (in_frame s
          (if bc_scheduler s then rbind (sched_bind tid (bc_sch s)) (\<lambda>sch. Inr (s\<lparr>bc_sch := sch, bc_thread := BtCall\<rparr>))
           else Inr (s\<lparr>bc_thread := BtCall\<rparr>)))
      | BtCall \<Rightarrow> Some (in_frame s (Inr (s\<lparr>bc_result := v, bc_runs := bc_runs s + 1, bc_thread := BtUnbind\<rparr>)))
      | BtUnbind \<Rightarrow> Some (in_frame s
          (if bc_scheduler s
           then rbind (sched_unbind_stop tid (bc_sch s)) (\<lambda>(w, sch). Inr (s\<lparr>bc_sch := sch, bc_thread := BtStopping w\<rparr>))
           else Inr (s\<lparr>bc_thread := BtDone\<rparr>)))
      | BtStopping w \<Rightarrow> Some (rbind (sched_unbind_finish tids tid w (bc_sch s)) (\<lambda>(sch, _).
          Inr (s\<lparr>bc_sch := sch, bc_thread := BtDone\<rparr>)))
      | BtDone \<Rightarrow> Some (rbind (wg_done (bc_group s)) (\<lambda>(g, _). Inr (s\<lparr>bc_group := g, bc_thread := BtLeave\<rparr>)))
      | BtLeave \<Rightarrow> Some (Inr (s\<lparr>bc_thread := BtExit\<rparr>))
      | _ \<Rightarrow> None)"

definition bc_thread_next_void :: "nat list \<Rightarrow> nat \<Rightarrow> ('u, unit) blocking \<Rightarrow> ('u, unit) blocking result option" where
  "bc_thread_next_void tids tid s = bc_thread_next tids tid None s"

text \<open>What belongs to the new thread: whether it is bound, and that its worker is there.\<close>

definition same_thread_part :: "nat \<Rightarrow> 'u scheduler \<Rightarrow> 'u scheduler \<Rightarrow> bool" where
  "same_thread_part tid a b \<longleftrightarrow> sch_current b tid = sch_current a tid \<and> (sch_by_tid b tid = None) = (sch_by_tid a tid = None)"

inductive bc_step ::
  "nat list \<Rightarrow> nat \<Rightarrow> nat \<Rightarrow> 'r option \<Rightarrow> ('u, 'r) blocking \<Rightarrow> ('u, 'r) blocking result \<Rightarrow> bool" for tids caller tid v where
  bc_step_caller: "blocking_next caller s = Some r \<Longrightarrow> bc_step tids caller tid v s r"
| bc_step_thread: "bc_thread_next tids tid v s = Some r \<Longrightarrow> bc_step tids caller tid v s r"
| bc_step_others: "same_thread_part tid (bc_sch s) sch \<Longrightarrow> bc_step tids caller tid v s (Inr (s\<lparr>bc_sch := sch\<rparr>))"

text \<open>A new thread is not bound, and no thread that has ended left a worker behind under its number.\<close>

definition bc_init :: "nat \<Rightarrow> ('u, 'r) blocking \<Rightarrow> bool" where
  "bc_init tid s \<longleftrightarrow> (\<exists>sch. s = blocking_begin sch \<and> sch_current sch tid = None \<and> sch_by_tid sch tid = None)"

fun thread_bound :: "bt_point \<Rightarrow> bool" where
  "thread_bound BtCall = True"
| "thread_bound BtUnbind = True"
| "thread_bound (BtStopping w) = True"
| "thread_bound _ = False"

fun caller_waits :: "'r bc_point \<Rightarrow> bool" where
  "caller_waits BWait = True"
| "caller_waits BJoin = True"
| "caller_waits _ = False"

definition bc_inv :: "nat \<Rightarrow> 'r option \<Rightarrow> ('u, 'r) blocking \<Rightarrow> bool" where
  "bc_inv tid v s \<longleftrightarrow>
     (bc_thread s = BtNone \<longleftrightarrow> bc_caller s = BBegin \<or> bc_caller s = BSpawn) \<and>
     wg_outstanding (bc_group s) = (if bc_thread s \<in> {BtLeave, BtExit} then 0 else 1) \<and>
     (bc_caller s = BJoin \<longrightarrow> bc_thread s \<in> {BtLeave, BtExit}) \<and>
     (bc_frame s \<longleftrightarrow> (\<forall>r. bc_caller s \<noteq> BReturned r)) \<and>
     (\<forall>r. bc_caller s = BReturned r \<longrightarrow> r = v \<and> bc_thread s = BtExit) \<and>
     sch_current (bc_sch s) tid = (if bc_scheduler s \<and> thread_bound (bc_thread s) then Some (WSingle tid) else None) \<and>
     (sch_by_tid (bc_sch s) tid \<noteq> None \<longleftrightarrow> bc_scheduler s \<and> thread_bound (bc_thread s)) \<and>
     (\<forall>w. bc_thread s = BtStopping w \<longrightarrow> bc_scheduler s \<and> w = WSingle tid) \<and>
     (if bc_thread s \<in> {BtNone, BtBind, BtCall} then bc_runs s = 0 else bc_result s = v \<and> bc_runs s = 1)"

lemma bc_invD:
  assumes "bc_inv tid v s"
  shows "bc_thread s = BtNone \<longleftrightarrow> bc_caller s = BBegin \<or> bc_caller s = BSpawn"
    "wg_outstanding (bc_group s) = (if bc_thread s \<in> {BtLeave, BtExit} then 0 else 1)"
    "bc_caller s = BJoin \<Longrightarrow> bc_thread s \<in> {BtLeave, BtExit}"
    "bc_caller s = BReturned r \<Longrightarrow> r = v \<and> bc_thread s = BtExit"
  using assms unfolding bc_inv_def by blast+

lemma bc_caller_inv:
  assumes "bc_inv tid v s" "blocking_next caller s = Some r"
  shows "\<exists>s'. r = Inr s' \<and> bc_inv tid v s'"
proof (cases "bc_caller s")
  case BBegin
  then have r: "r = Inr (s\<lparr>bc_scheduler := sch_current (bc_sch s) caller \<noteq> None, bc_caller := BSpawn\<rparr>)"
    using assms(2) by (simp add: blocking_next_def)
  show ?thesis using assms(1) BBegin by (simp add: r bc_inv_def)
next
  case BSpawn
  then have r: "r = Inr (s\<lparr>bc_thread := BtBind, bc_caller := BWait\<rparr>)" using assms(2) by (simp add: blocking_next_def)
  show ?thesis using assms(1) BSpawn by (simp add: r bc_inv_def)
next
  case BWait
  then have r: "r = Inr (s\<lparr>bc_caller := BJoin\<rparr>)" "wg_outstanding (bc_group s) = 0"
    using assms(2) by (auto simp: blocking_next_def wg.is_open_spec split: if_splits)
  then have "bc_thread s \<in> {BtLeave, BtExit}" using bc_invD(2) [OF assms(1)] by (metis zero_neq_one)
  then show ?thesis using assms(1) BWait by (simp add: r bc_inv_def)
next
  case BJoin
  then have r: "r = Inr (s\<lparr>bc_caller := BReturned (bc_result s), bc_frame := False\<rparr>)" "bc_thread s = BtExit"
    using assms(2) by (auto simp: blocking_next_def split: if_splits)
  then show ?thesis using assms(1) BJoin by (simp add: bc_inv_def)
qed (use assms(2) in \<open>simp add: blocking_next_def\<close>)

lemma bc_thread_inv:
  assumes "bc_inv tid v s" "bc_thread_next tids tid v s = Some r"
  shows "\<exists>s'. r = Inr s' \<and> bc_inv tid v s'"
proof -
  have frame: "bc_frame s" if "bc_thread s \<noteq> BtExit"
    using assms(1) that by (auto simp: bc_inv_def)
  show ?thesis
  proof (cases "bc_thread s")
    case BtBind
    have free: "sch_current (bc_sch s) tid = None" "sch_by_tid (bc_sch s) tid = None" using assms(1) BtBind by (simp_all add: bc_inv_def)
    show ?thesis
    proof (cases "bc_scheduler s")
      case True
      let ?sch = "(bc_sch s)\<lparr>sch_by_tid := (sch_by_tid (bc_sch s))(tid := Some (worker_start SingleThreaded (- 1))),
        sch_current := (sch_current (bc_sch s))(tid \<mapsto> WSingle tid)\<rparr>"
      have r: "r = Inr (s\<lparr>bc_sch := ?sch, bc_thread := BtCall\<rparr>)"
        using assms(2) BtBind True free frame by (simp add: bc_thread_next_def in_frame_def sched_bind_def)
      show ?thesis using assms(1) BtBind True by (simp add: r bc_inv_def)
    next
      case False
      then have r: "r = Inr (s\<lparr>bc_thread := BtCall\<rparr>)" using assms(2) BtBind frame by (simp add: bc_thread_next_def in_frame_def)
      show ?thesis using assms(1) BtBind False by (simp add: r bc_inv_def)
    qed
  next
    case BtCall
    then have r: "r = Inr (s\<lparr>bc_result := v, bc_runs := bc_runs s + 1, bc_thread := BtUnbind\<rparr>)"
      using assms(2) frame by (simp add: bc_thread_next_def in_frame_def)
    show ?thesis using assms(1) BtCall by (simp add: r bc_inv_def)
  next
    case BtUnbind
    show ?thesis
    proof (cases "bc_scheduler s")
      case True
      obtain w where w: "sch_current (bc_sch s) tid = Some (WSingle tid)" "sch_by_tid (bc_sch s) tid = Some w"
        using assms(1) BtUnbind True by (auto simp: bc_inv_def)
      then have r: "r = Inr (s\<lparr>bc_sch := set_worker (WSingle tid) (stop_single w) (bc_sch s), bc_thread := BtStopping (WSingle tid)\<rparr>)"
        using assms(2) BtUnbind True frame
        by (simp add: bc_thread_next_def in_frame_def sched_unbind_stop_def worker_at_def)
      show ?thesis using assms(1) BtUnbind True w by (simp add: r bc_inv_def set_worker_def)
    next
      case False
      then have r: "r = Inr (s\<lparr>bc_thread := BtDone\<rparr>)" using assms(2) BtUnbind frame by (simp add: bc_thread_next_def in_frame_def)
      show ?thesis using assms(1) BtUnbind False by (simp add: r bc_inv_def)
    qed
  next
    case (BtStopping w)
    then have "w = WSingle tid" "sch_by_tid (bc_sch s) tid \<noteq> None" using assms(1) by (simp_all add: bc_inv_def del: not_None_eq)
    then have r: "r = Inr (s\<lparr>bc_sch := (bc_sch s)\<lparr>sch_by_tid := (sch_by_tid (bc_sch s))(tid := None),
        sch_current := (sch_current (bc_sch s))(tid := None)\<rparr>, bc_thread := BtDone\<rparr>)"
      using assms(2) BtStopping by (simp add: bc_thread_next_def sched_unbind_finish_def Let_def del: not_None_eq)
    show ?thesis using assms(1) BtStopping by (simp add: r bc_inv_def)
  next
    case BtDone
    then have "0 < wg_outstanding (bc_group s)" "wg_outstanding (bc_group s) = 1" using bc_invD(2) [OF assms(1)] by auto
    then obtain g where g: "wg_done (bc_group s) = Inr (g, True)" "wg_outstanding g = 0"
      using wg.finish_spec [of "bc_group s"] by auto
    then have r: "r = Inr (s\<lparr>bc_group := g, bc_thread := BtLeave\<rparr>)" using assms(2) BtDone by (simp add: bc_thread_next_def)
    show ?thesis using assms(1) BtDone g(2) by (simp add: r bc_inv_def)
  next
    case BtLeave
    then have r: "r = Inr (s\<lparr>bc_thread := BtExit\<rparr>)" using assms(2) by (simp add: bc_thread_next_def)
    show ?thesis using assms(1) BtLeave by (auto simp: r bc_inv_def)
  qed (use assms(2) in \<open>simp_all add: bc_thread_next_def\<close>)
qed

interpretation blocking_system: invariant_system "bc_init tid" "bc_step tids caller tid v" "bc_inv tid v"
proof (unfold_locales, goal_cases)
  case (1 s)
  then show ?case by (auto simp: bc_init_def bc_inv_def blocking_begin_def wg_outstanding_def wg_new_def)
next
  case (2 s r)
  from 2(2) show ?case
  proof cases
    case bc_step_caller
    then show ?thesis by (rule bc_caller_inv [OF 2(1)])
  next
    case bc_step_thread
    then show ?thesis by (rule bc_thread_inv [OF 2(1)])
  next
    case (bc_step_others sch)
    then show ?thesis using 2(1) by (simp add: bc_inv_def same_thread_part_def del: not_None_eq)
  qed
qed

fun bc_rank :: "'r bc_point \<Rightarrow> nat" where
  "bc_rank BBegin = 4"
| "bc_rank BSpawn = 3"
| "bc_rank BWait = 2"
| "bc_rank BJoin = 1"
| "bc_rank (BReturned r) = 0"

fun bt_rank :: "bt_point \<Rightarrow> nat" where
  "bt_rank BtNone = 7"
| "bt_rank BtBind = 6"
| "bt_rank BtCall = 5"
| "bt_rank BtUnbind = 4"
| "bt_rank (BtStopping w) = 3"
| "bt_rank BtDone = 2"
| "bt_rank BtLeave = 1"
| "bt_rank BtExit = 0"

definition bc_work :: "('u, 'r) blocking \<Rightarrow> nat" where
  "bc_work s = bc_rank (bc_caller s) + bt_rank (bc_thread s)"

lemma bc_work_decreases:
  assumes "bc_inv tid v s" "blocking_next caller s = Some (Inr s') \<or> bc_thread_next tids tid v s = Some (Inr s')"
  shows "bc_work s' < bc_work s"
  using assms(2)
proof
  assume "blocking_next caller s = Some (Inr s')"
  then show ?thesis using assms(1)
    by (cases "bc_caller s") (auto simp: blocking_next_def bc_work_def bc_inv_def split: if_splits)
next
  assume "bc_thread_next tids tid v s = Some (Inr s')"
  then show ?thesis
    by (cases "bc_thread s") (auto simp: bc_thread_next_def bc_work_def in_frame_def split: if_splits)
qed

lemma bc_progress:
  assumes "bc_inv tid v s" "\<forall>r. bc_caller s \<noteq> BReturned r"
  shows "blocking_next caller s \<noteq> None \<or> bc_thread_next tids tid v s \<noteq> None"
proof (cases "bc_thread s = BtNone \<or> bc_thread s = BtExit")
  case True
  then show ?thesis using assms(2) bc_invD(1-3) [OF assms(1)]
    by (cases "bc_caller s") (auto simp: blocking_next_def wg.is_open_spec)
next
  case False
  then show ?thesis by (cases "bc_thread s") (auto simp: bc_thread_next_def)
qed

lemma bc_reaches_end:
  fixes s :: "('u, 'r) blocking"
  assumes "reach (bc_init tid) (bc_step tids caller tid v) s"
  shows "\<exists>(s' :: ('u, 'r) blocking) r. reach (bc_init tid) (bc_step tids caller tid v) s' \<and> bc_caller s' = BReturned r"
  using assms
proof (induction s rule: measure_induct_rule [of bc_work])
  case (less s)
  note inv = blocking_system.reach_inv [OF less.prems]
  show ?case
  proof (cases "\<exists>r. bc_caller s = BReturned r")
    case True
    then show ?thesis using less.prems by blast
  next
    case False
    then obtain r where r: "blocking_next caller s = Some r \<or> bc_thread_next tids tid v s = Some r"
      using bc_progress [OF inv, of caller tids] by blast
    then have st: "bc_step tids caller tid v s r" by (auto intro: bc_step_caller bc_step_thread)
    then obtain s' where s': "r = Inr s'" using blocking_system.inv_step [OF inv] by blast
    have "bc_work s' < bc_work s" using bc_work_decreases [OF inv] r s' by blast
    moreover have "reach (bc_init tid) (bc_step tids caller tid v) s'" using reach_step [OF less.prems] st s' by blast
    ultimately show ?thesis by (rule less.IH)
  qed
qed

text \<open>C37. \<open>blocking_call\<close>: in every interleaving of the caller, the new thread and the rest of the program no assertion of \<open>bind\<close>, \<open>unbind\<close> or \<open>done\<close>
  fails, and the new thread touches the frame of the caller only while it exists. Each step of the two threads makes a measure smaller,
  and one of the two can go on until the call returns. The result is then what \<open>f\<close> returned, \<open>f\<close> ran once,
  the thread has ended, not only called \<open>done\<close>, and is not bound to the scheduler any more. That \<open>f\<close> and \<open>worker->stop()\<close> return is assumed.\<close>

theorem blocking_call_returns:
  assumes "reach (bc_init tid) (bc_step tids caller tid v) s"
  shows "(\<forall>r. bc_step tids caller tid v s r \<longrightarrow> ok r) \<and>
    (\<forall>s'. blocking_next caller s = Some (Inr s') \<or> bc_thread_next tids tid v s = Some (Inr s') \<longrightarrow> bc_work s' < bc_work s) \<and>
    ((\<forall>r. bc_caller s \<noteq> BReturned r) \<longrightarrow> blocking_next caller s \<noteq> None \<or> bc_thread_next tids tid v s \<noteq> None) \<and>
    (\<forall>r. bc_caller s = BReturned r \<longrightarrow> r = v \<and> bc_runs s = 1 \<and> bc_thread s = BtExit \<and>
       sch_current (bc_sch s) tid = None \<and> sch_by_tid (bc_sch s) tid = None)"
proof -
  have inv: "bc_inv tid v s" by (rule blocking_system.reach_inv [OF assms])
  have "blocking_next caller s \<noteq> None \<or> bc_thread_next tids tid v s \<noteq> None" if "\<forall>r. bc_caller s \<noteq> BReturned r"
    by (rule bc_progress [OF inv that])
  moreover have "r = v \<and> bc_runs s = 1 \<and> bc_thread s = BtExit \<and>
       sch_current (bc_sch s) tid = None \<and> sch_by_tid (bc_sch s) tid = None" if "bc_caller s = BReturned r" for r
    using inv that by (auto simp: bc_inv_def)
  ultimately show ?thesis
    using blocking_system.reach_no_fault [OF assms] bc_work_decreases [OF inv] by blast
qed


lemma scheduler_new_unbound:
  "scheduler_new cpus c = Inr s \<Longrightarrow> sch_current s = (\<lambda>_. None)" "scheduler_new cpus c = Inr s \<Longrightarrow> sch_by_tid s = (\<lambda>_. None)"
  by (auto simp: scheduler_new_def Let_def)

text \<open>A call by a worker thread.\<close>

theorem blocking_call_returns_witness:
  "\<exists>s. reach (bc_init 1) (bc_step [0, 1] 0 1 (Some (42 :: nat))) (s :: (nat, nat) blocking) \<and> bc_caller s = BReturned (Some 42) \<and> bc_runs s = 1"
proof -
  let ?s = "blocking_begin (worker_thread_begin 0 0 sched_example) :: (nat, nat) blocking"
  have "sch_current sched_example = (\<lambda>_. None)" "sch_by_tid sched_example = (\<lambda>_. None)"
    by (rule scheduler_new_unbound [OF sched_example_eq])+
  then have "bc_init 1 ?s"
    unfolding bc_init_def by (intro exI [of _ "worker_thread_begin 0 0 sched_example"]) (simp add: worker_thread_begin_def)
  then have "reach (bc_init 1) (bc_step [0, 1] 0 1 (Some 42)) ?s" by (rule reach_init)
  from bc_reaches_end [OF this] obtain s :: "(nat, nat) blocking" and r where s: "reach (bc_init 1) (bc_step [0, 1] 0 1 (Some 42)) s" "bc_caller s = BReturned r"
    by blast
  then show ?thesis using blocking_call_returns [OF s(1)] by blast
qed

end
