(* ===== verification/Os_Fiber.thy ===== *)
theory Os_Fiber
  imports Memory_Proofs
begin

unbundle bit_operations_syntax

text \<open>
  The switch between the stacks of two fibers: \<open>src/arch/osfiber_asm_x64.S\<close>, \<open>osfiber_asm_x64.h\<close>, \<open>osfiber_x64.c\<close> and the class
  \<open>OSFiber\<close> of \<open>src/osfiber_asm.hpp\<close>.

  The machine has the registers that the routine uses and the memory of \<open>Memory_Model\<close>, of which the live blocks and the
  mapped pages that are not guarded can be accessed. The assembly text is a list of
  instructions, \<open>marl_fiber_swap\<close>, in the order of the file, with the offsets of the header; \<open>exec_code\<close> runs it. A call
  of the routine from C++ puts the two arguments into \<open>rdi\<close> and \<open>rsi\<close> and pushes the return address.
\<close>

section \<open>Machine\<close>

datatype reg = RBX | RBP | R12 | R13 | R14 | R15 | RDI | RSI | RSP | RIP | RCX | R8

record machine =
  m_reg :: "reg \<Rightarrow> 64 word"
  m_mem :: heap

text \<open>Bytes that can be accessed: inside of a live block, or mapped and on no guard page.\<close>

definition mapped_range :: "64 word \<Rightarrow> heap \<Rightarrow> addr \<Rightarrow> nat \<Rightarrow> bool" where
  "mapped_range pageSize h a n \<longleftrightarrow>
     list_ex (\<lambda>(b, s). unat b \<le> unat a \<and> unat a + n \<le> unat b + unat s) (hp_maps h) \<and>
     list_all (\<lambda>g. unat a + n \<le> unat g \<or> unat g + unat pageSize \<le> unat a) (hp_guarded h)"

definition accessible :: "64 word \<Rightarrow> heap \<Rightarrow> addr \<Rightarrow> nat \<Rightarrow> bool" where
  "accessible pageSize h a n \<longleftrightarrow> valid_range h a n \<or> mapped_range pageSize h a n"

definition poke :: "addr \<Rightarrow> 64 word \<Rightarrow> heap \<Rightarrow> heap" where
  "poke a v h =
     h\<lparr>hp_bytes := (\<lambda>x. if unat (x - a) < 8 then ptr_byte v (unat (x - a)) else hp_bytes h x)\<rparr>"

definition peek :: "addr \<Rightarrow> heap \<Rightarrow> 64 word" where
  "peek a h = ptr_of_bytes (map (\<lambda>i. hp_bytes h (a + of_nat i)) [0..<8])"

definition mem_store :: "64 word \<Rightarrow> addr \<Rightarrow> 64 word \<Rightarrow> heap \<Rightarrow> heap result" where
  "mem_store pageSize a v h = (if accessible pageSize h a 8 then Inr (poke a v h) else Inl BadAccess)"

definition mem_load :: "64 word \<Rightarrow> addr \<Rightarrow> heap \<Rightarrow> 64 word result" where
  "mem_load pageSize a h = (if accessible pageSize h a 8 then Inr (peek a h) else Inl BadAccess)"

text \<open>The instructions with their operands in the order of the assembler: source, destination.\<close>

datatype instr =
    MovToMem reg "64 word" reg      \<comment> \<open>\<open>movq %src, off(%base)\<close>\<close>
  | MovFromMem "64 word" reg reg    \<comment> \<open>\<open>movq off(%base), %dst\<close>\<close>
  | MovReg reg reg                  \<comment> \<open>\<open>movq %src, %dst\<close>\<close>
  | Lea "64 word" reg reg           \<comment> \<open>\<open>leaq off(%base), %dst\<close>\<close>
  | JmpReg reg                      \<comment> \<open>\<open>jmp *%reg\<close>\<close>

definition set_reg :: "reg \<Rightarrow> 64 word \<Rightarrow> machine \<Rightarrow> machine" where
  "set_reg r v m = m\<lparr>m_reg := (m_reg m)(r := v)\<rparr>"

fun exec1 :: "64 word \<Rightarrow> instr \<Rightarrow> machine \<Rightarrow> machine result" where
  "exec1 ps (MovToMem src off base) m =
     rbind (mem_store ps (m_reg m base + off) (m_reg m src) (m_mem m)) (\<lambda>h. Inr (m\<lparr>m_mem := h\<rparr>))"
| "exec1 ps (MovFromMem off base dst) m =
     rbind (mem_load ps (m_reg m base + off) (m_mem m)) (\<lambda>v. Inr (set_reg dst v m))"
| "exec1 ps (MovReg src dst) m = Inr (set_reg dst (m_reg m src) m)"
| "exec1 ps (Lea off base dst) m = Inr (set_reg dst (m_reg m base + off) m)"
| "exec1 ps (JmpReg r) m = Inr (set_reg RIP (m_reg m r) m)"

fun exec_code :: "64 word \<Rightarrow> instr list \<Rightarrow> machine \<Rightarrow> machine result" where
  "exec_code ps [] m = Inr m"
| "exec_code ps (i # is) m = rbind (exec1 ps i m) (exec_code ps is)"

section \<open>Contexts\<close>

text \<open>The offsets \<open>MARL_REG_...\<close> of the header, which its static assertions compare with the struct.\<close>

fun marl_reg :: "reg \<Rightarrow> 64 word" where
  "marl_reg RBX = 0x00" | "marl_reg RBP = 0x08" | "marl_reg R12 = 0x10" | "marl_reg R13 = 0x18"
| "marl_reg R14 = 0x20" | "marl_reg R15 = 0x28" | "marl_reg RDI = 0x30" | "marl_reg RSI = 0x38"
| "marl_reg RSP = 0x40" | "marl_reg RIP = 0x48"

definition context_size :: nat where
  "context_size = 80"

definition context_regs :: "reg list" where
  "context_regs = [RBX, RBP, R12, R13, R14, R15, RDI, RSI, RSP, RIP]"

text \<open>The registers that a function must preserve for its caller.\<close>

definition callee_saved :: "reg list" where
  "callee_saved = [RBX, RBP, R12, R13, R14, R15]"

text \<open>The value of a register in the context at address \<open>p\<close>.\<close>

definition ctx_get :: "addr \<Rightarrow> heap \<Rightarrow> reg \<Rightarrow> 64 word" where
  "ctx_get p h r = peek (p + marl_reg r) h"

definition marl_fiber_swap :: "instr list" where
  "marl_fiber_swap =
    [MovToMem RBX (marl_reg RBX) RDI,
     MovToMem RBP (marl_reg RBP) RDI,
     MovToMem R12 (marl_reg R12) RDI,
     MovToMem R13 (marl_reg R13) RDI,
     MovToMem R14 (marl_reg R14) RDI,
     MovToMem R15 (marl_reg R15) RDI,
     MovFromMem 0 RSP RCX,
     MovToMem RCX (marl_reg RIP) RDI,
     Lea 8 RSP RCX,
     MovToMem RCX (marl_reg RSP) RDI,
     MovReg RSI R8,
     MovFromMem (marl_reg RBX) R8 RBX,
     MovFromMem (marl_reg RBP) R8 RBP,
     MovFromMem (marl_reg R12) R8 R12,
     MovFromMem (marl_reg R13) R8 R13,
     MovFromMem (marl_reg R14) R8 R14,
     MovFromMem (marl_reg R15) R8 R15,
     MovFromMem (marl_reg RDI) R8 RDI,
     MovFromMem (marl_reg RSI) R8 RSI,
     MovFromMem (marl_reg RSP) R8 RSP,
     MovFromMem (marl_reg RIP) R8 RCX,
     JmpReg RCX]"

text \<open>\<open>OSFiber::switchTo\<close>: the call \<open>marl_fiber_swap(from, to)\<close> whose return address is \<open>ret\<close>.\<close>

definition switchTo :: "64 word \<Rightarrow> addr \<Rightarrow> addr \<Rightarrow> addr \<Rightarrow> machine \<Rightarrow> machine result" where
  "switchTo ps from to ret m =
     (let sp = m_reg m RSP - 8 in
      rbind (mem_store ps sp ret (m_mem m)) (\<lambda>h.
      exec_code ps marl_fiber_swap
        (set_reg RSP sp (set_reg RDI from (set_reg RSI to (m\<lparr>m_mem := h\<rparr>))))))"

text \<open>\<open>marl_fiber_set_target\<close>; \<open>trampoline\<close> is the address of \<open>marl_fiber_trampoline\<close>. The size is a \<open>uint32_t\<close>.\<close>

definition set_target ::
  "64 word \<Rightarrow> addr \<Rightarrow> addr \<Rightarrow> addr \<Rightarrow> 32 word \<Rightarrow> addr \<Rightarrow> addr \<Rightarrow> heap \<Rightarrow> heap result" where
  "set_target ps trampoline ctx stack stack_size target arg h =
     (let stack_top = stack + ucast stack_size in
      rbind (mem_store ps (ctx + marl_reg RIP) trampoline h) (\<lambda>h1.
      rbind (mem_store ps (ctx + marl_reg RDI) target h1) (\<lambda>h2.
      rbind (mem_store ps (ctx + marl_reg RSI) arg h2) (\<lambda>h3.
      rbind (mem_store ps (ctx + marl_reg RSP) (stack_top - 24) h3) (\<lambda>h4.
      mem_store ps (stack_top - 16) 0 h4)))))"

text \<open>\<open>marl_fiber_trampoline(target, arg)\<close> at its entry: it calls \<open>target\<close> with \<open>arg\<close>.\<close>

definition trampoline_call :: "machine \<Rightarrow> addr \<times> 64 word" where
  "trampoline_call m = (m_reg m RDI, m_reg m RSI)"

section \<open>Fibers\<close>

text \<open>
  \<open>OSFiber\<close>: \<open>of_self\<close> is the smart pointer to the object, whose member \<open>context_\<close> follows the pointer \<open>allocator_\<close>; \<open>of_stack\<close> is \<open>None\<close>
  for the fiber of a thread, which runs on the stack of the thread. \<open>of_target\<close> is the function \<open>target_\<close>, a number, \<open>None\<close> when it is empty. The two allocations of \<open>createFiber\<close> are those of
  \<open>A1\<close> and \<open>A2\<close>: one allocator, with the answers of the system for either call. \<open>sz\<close> and \<open>al\<close> are \<open>sizeof(OSFiber)\<close> and
  \<open>alignof(OSFiber)\<close>, \<open>run\<close> is the address of \<open>OSFiber::run\<close>.
\<close>

record os_fiber =
  of_self :: unique_ptr
  of_target :: "nat option"
  of_stack :: "allocation option"

definition context_addr :: "os_fiber \<Rightarrow> addr" where
  "context_addr f = up_ptr (of_self f) + 8"

fun store_zeros :: "64 word \<Rightarrow> reg list \<Rightarrow> addr \<Rightarrow> heap \<Rightarrow> heap result" where
  "store_zeros ps [] p h = Inr h"
| "store_zeros ps (r # rs) p h = rbind (mem_store ps (p + marl_reg r) 0 h) (store_zeros ps rs p)"

definition createFiberFromCurrentThread ::
  "heap allocator_ops \<Rightarrow> 64 word \<Rightarrow> 64 word \<Rightarrow> 64 word \<Rightarrow> heap \<Rightarrow> (os_fiber \<times> heap) result" where
  "createFiberFromCurrentThread A ps sz al h =
     rbind (make_unique A sz al h) (\<lambda>(u, _, h1).
     let f = \<lparr>of_self = u, of_target = None, of_stack = None\<rparr> in
     rbind (store_zeros ps context_regs (context_addr f) h1) (\<lambda>h2. Inr (f, h2)))"

definition stack_request :: "64 word \<Rightarrow> request" where
  "stack_request stack_size = \<lparr>rq_size = stack_size, rq_alignment = 16, rq_use_guards = True, rq_usage = UStack\<rparr>"

definition createFiber ::
  "heap allocator_ops \<Rightarrow> heap allocator_ops \<Rightarrow> 64 word \<Rightarrow> addr \<Rightarrow> addr \<Rightarrow> 64 word \<Rightarrow> 64 word \<Rightarrow> 64 word \<Rightarrow> nat \<Rightarrow> heap \<Rightarrow>
     (os_fiber \<times> heap) result" where
  "createFiber A1 A2 ps trampoline run sz al stack_size func h =
     rbind (make_unique A1 sz al h) (\<lambda>(u, _, h1).
     let ctx = up_ptr u + 8 in
     rbind (store_zeros ps context_regs ctx h1) (\<lambda>h2.
     rbind (ao_allocate A2 (stack_request stack_size) h2) (\<lambda>(stack, h3).
     rbind (set_target ps trampoline ctx (al_ptr stack) (ucast stack_size) run (up_ptr u) h3) (\<lambda>h4.
     Inr (\<lparr>of_self = u, of_target = Some func, of_stack = Some stack\<rparr>, h4)))))"

text \<open>\<open>OSFiber::run\<close>: the function that it calls. An empty \<open>std::function\<close> throws.\<close>

definition os_run :: "os_fiber \<Rightarrow> nat result" where
  "os_run self = (case of_target self of None \<Rightarrow> Inl (Fatal ''bad_function_call'') | Some f \<Rightarrow> Inr f)"

text \<open>The destructor, which the deleter of the smart pointer calls.\<close>

definition os_fiber_destruct :: "heap allocator_ops \<Rightarrow> os_fiber \<Rightarrow> heap \<Rightarrow> heap result" where
  "os_fiber_destruct A f h =
     (case of_stack f of
        None \<Rightarrow> Inr h
      | Some s \<Rightarrow> if al_ptr s \<noteq> 0 then ao_free A s h else Inr h)"

section \<open>Memory lemmas\<close>

definition apart :: "addr \<Rightarrow> nat \<Rightarrow> addr \<Rightarrow> nat \<Rightarrow> bool" where
  "apart a n b k \<longleftrightarrow> n \<le> unat (b - a) \<and> k \<le> unat (a - b)"

lemma poke_simps [simp]:
  "hp_blocks (poke a v h) = hp_blocks h" "hp_maps (poke a v h) = hp_maps h"
  "hp_guarded (poke a v h) = hp_guarded h" "accessible ps (poke a v h) b n = accessible ps h b n"
  by (simp_all add: poke_def accessible_def valid_range_def mapped_range_def)

lemma peek_poke_same [simp]: "peek a (poke a v h) = v"
proof -
  have "map (\<lambda>i. hp_bytes (poke a v h) (a + of_nat i)) [0..<8] = map (ptr_byte v) [0..<8]"
    by (simp add: poke_def unat_of_nat_less)
  then show ?thesis by (simp only: peek_def ptr_of_ptr_bytes)
qed

lemma peek_cong: "(\<And>i. i < 8 \<Longrightarrow> hp_bytes h (a + of_nat i) = hp_bytes h' (a + of_nat i)) \<Longrightarrow> peek a h = peek a h'"
  unfolding peek_def by (intro arg_cong [where f = ptr_of_bytes] map_cong) auto

lemma unat_less_64: "unat (x :: 64 word) < 2 ^ 64"
  using unsigned_less [of x] by simp

lemma unat_neg:
  fixes d :: "64 word"
  assumes "d \<noteq> 0"
  shows "unat (- d) = 2 ^ 64 - unat d"
proof -
  have "unat d + unat (- d) = 2 ^ 64"
  proof (rule ccontr)
    assume ne: "unat d + unat (- d) \<noteq> 2 ^ 64"
    have lt: "unat d < 2 ^ 64" "unat (- d) < 2 ^ 64"
      by (rule unat_less_64)+
    have "(unat d + unat (- d)) mod 2 ^ 64 = unat (d + - d)" by (simp only: unat_word_ariths len_of_numeral_defs) simp
    then have "(unat d + unat (- d)) mod 2 ^ 64 = 0" by simp
    then obtain k where k: "unat d + unat (- d) = 2 ^ 64 * k" by blast
    then have "k < 2" using lt by simp
    moreover have "0 < unat d" using assms by (simp add: unat_gt_0)
    ultimately show False using k ne by (cases k) auto
  qed
  then show ?thesis by simp
qed

lemma unat_sub_shift:
  fixes d :: "64 word"
  assumes "n \<le> unat d" "k \<le> unat (- d)" "unat i + l \<le> n" "unat j + l \<le> k" "0 < l"
  shows "l \<le> unat (d + j - i)" "l \<le> unat (i - d - j)"
proof -
  have "d \<noteq> 0" using assms(1,3,5) by auto
  then have nd: "unat (- d) = 2 ^ 64 - unat d" by (simp add: unat_neg)
  have d: "unat d < 2 ^ 64" by (rule unat_less_64)
  have "unat (d + j) = unat d + unat j" using assms(2,4,5) nd d by (intro unat_add_less) linarith
  moreover have "i \<le> d + j" using assms(1,3) calculation by (simp add: word_le_nat_alt)
  ultimately have s: "unat (d + j - i) = unat d + unat j - unat i" by (simp add: unat_sub)
  then show "l \<le> unat (d + j - i)" using assms(1,3) by linarith
  have "d + j - i \<noteq> 0" using s assms(1,3,5) by auto
  then have "unat (- (d + j - i)) = 2 ^ 64 - (unat d + unat j - unat i)" using unat_neg s by metis
  moreover have "i - d - j = - (d + j - i)" by simp
  ultimately have "unat (i - d - j) = 2 ^ 64 - (unat d + unat j - unat i)" by metis
  then show "l \<le> unat (i - d - j)" using nd assms(2,4) d by linarith
qed

lemma apart_offsets:
  assumes "apart a n b k" "unat i + 8 \<le> n" "unat j + 8 \<le> k"
  shows "apart (a + i) 8 (b + j) 8"
  using unat_sub_shift [of n "b - a" k i 8 j] assms by (simp add: apart_def algebra_simps)

lemma peek_poke_other:
  assumes "apart a 8 b 8"
  shows "peek a (poke b v h) = peek a h"
proof (rule peek_cong)
  fix i :: nat assume i: "i < 8"
  have u: "unat (of_nat i :: 64 word) = i" using i by (intro unat_of_nat_less) simp
  have "8 \<le> unat (a - b + of_nat i)"
  proof -
    have "a - b \<noteq> 0" using assms by (auto simp: apart_def)
    then have "unat (a - b) = 2 ^ 64 - unat (b - a)" using unat_neg [of "b - a"] by simp
    then have "unat (a - b) + i < 2 ^ 64" using assms i unat_less_64 [of "b - a"] unfolding apart_def by linarith
    then have "unat (a - b + of_nat i) = unat (a - b) + i" using u by (subst unat_add_less) simp_all
    then show ?thesis using assms by (simp add: apart_def)
  qed
  then show "hp_bytes (poke b v h) (a + of_nat i) = hp_bytes h (a + of_nat i)"
    by (simp add: poke_def algebra_simps)
qed

lemma apart_sym: "apart a n b k = apart b k a n"
  by (auto simp: apart_def)

section \<open>The swap\<close>

text \<open>Where the routine reads and writes: the two contexts and the return address.\<close>

definition context_ok :: "64 word \<Rightarrow> addr \<Rightarrow> heap \<Rightarrow> bool" where
  "context_ok ps p h \<longleftrightarrow> (\<forall>r \<in> set context_regs. accessible ps h (p + marl_reg r) 8)"

lemma context_okD:
  assumes "context_ok ps p h"
  shows "accessible ps h (p + marl_reg RBX) 8" "accessible ps h (p + marl_reg RBP) 8"
    "accessible ps h (p + marl_reg R12) 8" "accessible ps h (p + marl_reg R13) 8"
    "accessible ps h (p + marl_reg R14) 8" "accessible ps h (p + marl_reg R15) 8"
    "accessible ps h (p + marl_reg RDI) 8" "accessible ps h (p + marl_reg RSI) 8"
    "accessible ps h (p + marl_reg RSP) 8" "accessible ps h (p + marl_reg RIP) 8"
  using assms by (simp_all add: context_ok_def context_regs_def del: marl_reg.simps)

lemma context_ok_poke [simp]: "context_ok ps p (poke a v h) = context_ok ps p h"
  by (simp add: context_ok_def)

text \<open>The eight stores of the routine into the context at \<open>p\<close>; \<open>rip\<close> and \<open>rsp\<close> are what it computes for the caller.\<close>

definition save_context :: "addr \<Rightarrow> (reg \<Rightarrow> 64 word) \<Rightarrow> 64 word \<Rightarrow> 64 word \<Rightarrow> heap \<Rightarrow> heap" where
  "save_context p g rip rsp h =
     poke (p + marl_reg RSP) rsp (poke (p + marl_reg RIP) rip (poke (p + marl_reg R15) (g R15)
       (poke (p + marl_reg R14) (g R14) (poke (p + marl_reg R13) (g R13) (poke (p + marl_reg R12) (g R12)
         (poke (p + marl_reg RBP) (g RBP) (poke (p + marl_reg RBX) (g RBX) h)))))))"

definition saved_regs :: "reg set" where
  "saved_regs = {RBX, RBP, R12, R13, R14, R15, RSP, RIP}"

lemma marl_reg_range: "r \<in> set context_regs \<Longrightarrow> unat (marl_reg r) + 8 \<le> context_size"
  by (auto simp: context_regs_def context_size_def)

lemma marl_reg_apart:
  assumes "r \<in> set context_regs" "r' \<in> set context_regs" "r \<noteq> r'"
  shows "apart (p + marl_reg r) 8 (p + marl_reg r') 8"
  by (cases r; cases r') (use assms in \<open>simp_all add: apart_def context_regs_def\<close>)

lemma ctx_get_poke:
  assumes "r \<in> set context_regs" "r' \<in> set context_regs"
  shows "ctx_get p (poke (p + marl_reg r') v h) r = (if r = r' then v else ctx_get p h r)"
  using assms marl_reg_apart [of r r' p] by (auto simp: ctx_get_def peek_poke_other)

lemma ctx_get_poke_other:
  assumes "apart p context_size q context_size" "r \<in> set context_regs" "r' \<in> set context_regs"
  shows "ctx_get p (poke (q + marl_reg r') v h) r = ctx_get p h r"
  unfolding ctx_get_def
  by (intro peek_poke_other apart_offsets [OF assms(1)] marl_reg_range assms)

lemma ctx_get_poke_outside:
  assumes "apart p context_size a 8" "r \<in> set context_regs"
  shows "ctx_get p (poke a v h) r = ctx_get p h r"
  using apart_offsets [OF assms(1), of "marl_reg r" 0] marl_reg_range [OF assms(2)]
  by (simp add: ctx_get_def peek_poke_other)

lemma save_context_get:
  assumes "r \<in> set context_regs"
  shows "ctx_get p (save_context p g rip rsp h) r =
    (if r = RSP then rsp else if r = RIP then rip else if r = RDI \<or> r = RSI then ctx_get p h r else g r)"
  unfolding save_context_def
  by (cases r) (use assms in \<open>simp_all add: ctx_get_poke context_regs_def del: marl_reg.simps\<close>)

lemma save_context_other:
  assumes "apart q context_size p context_size" "r \<in> set context_regs"
  shows "ctx_get q (save_context p g rip rsp h) r = ctx_get q h r"
  unfolding save_context_def using assms
  by (simp add: ctx_get_poke_other context_regs_def del: marl_reg.simps)

lemma save_context_outside:
  assumes "apart a 8 p context_size"
  shows "peek a (save_context p g rip rsp h) = peek a h"
proof -
  have "peek a (poke (p + marl_reg r) v h') = peek a h'" if "r \<in> set context_regs" for r v h'
    using apart_offsets [OF assms, of 0 "marl_reg r"] marl_reg_range [OF that] by (simp add: peek_poke_other)
  then show ?thesis by (simp add: save_context_def context_regs_def del: marl_reg.simps)
qed

lemma save_context_access [simp]:
  "accessible ps (save_context p g rip rsp h) a n = accessible ps h a n"
  "context_ok ps q (save_context p g rip rsp h) = context_ok ps q h"
  by (simp_all add: save_context_def)

text \<open>The registers after the loads.\<close>

definition loaded :: "addr \<Rightarrow> heap \<Rightarrow> (reg \<Rightarrow> 64 word) \<Rightarrow> (reg \<Rightarrow> 64 word)" where
  "loaded q h g = g(R8 := q, RBX := ctx_get q h RBX, RBP := ctx_get q h RBP, R12 := ctx_get q h R12,
     R13 := ctx_get q h R13, R14 := ctx_get q h R14, R15 := ctx_get q h R15, RDI := ctx_get q h RDI,
     RSI := ctx_get q h RSI, RSP := ctx_get q h RSP, RCX := ctx_get q h RIP, RIP := ctx_get q h RIP)"

lemma exec_code_append: "exec_code ps (xs @ ys) m = rbind (exec_code ps xs m) (exec_code ps ys)"
proof (induction xs arbitrary: m)
  case (Cons i xs)
  show ?case by (cases "exec1 ps i m") (simp_all add: Cons)
qed simp

text \<open>The first half of the code saves, the second half loads.\<close>

lemma swap_saves:
  assumes "context_ok ps (m_reg m RDI) (m_mem m)" "accessible ps (m_mem m) (m_reg m RSP) 8"
    and "apart (m_reg m RSP) 8 (m_reg m RDI) context_size"
  shows "exec_code ps (take 10 marl_fiber_swap) m =
    Inr (m\<lparr>m_reg := (m_reg m)(RCX := m_reg m RSP + 8),
           m_mem := save_context (m_reg m RDI) (m_reg m) (peek (m_reg m RSP) (m_mem m)) (m_reg m RSP + 8) (m_mem m)\<rparr>)"
proof -
  note ok = context_okD [OF assms(1)]
  have other: "peek (m_reg m RSP) (poke (m_reg m RDI + marl_reg r) v h) = peek (m_reg m RSP) h"
    if "r \<in> set context_regs" for r v h
    using apart_offsets [OF assms(3), of 0 "marl_reg r"] marl_reg_range [OF that] by (simp add: peek_poke_other)
  show ?thesis
    by (cases m) (use ok assms(2) other in
      \<open>simp add: marl_fiber_swap_def mem_store_def mem_load_def set_reg_def save_context_def context_regs_def
        del: marl_reg.simps\<close>)
qed

lemma swap_loads:
  assumes "context_ok ps (m_reg m RSI) (m_mem m)"
  shows "exec_code ps (drop 10 marl_fiber_swap) m = Inr (m\<lparr>m_reg := loaded (m_reg m RSI) (m_mem m) (m_reg m)\<rparr>)"
  by (cases m) (use context_okD [OF assms] in
    \<open>simp add: marl_fiber_swap_def mem_load_def set_reg_def loaded_def ctx_get_def fun_upd_twist del: marl_reg.simps\<close>)

text \<open>Both halves together, on the memory with the pushed return address.\<close>

definition switch_ok :: "64 word \<Rightarrow> addr \<Rightarrow> addr \<Rightarrow> machine \<Rightarrow> bool" where
  "switch_ok ps from to m \<longleftrightarrow>
     context_ok ps from (m_mem m) \<and> context_ok ps to (m_mem m) \<and> accessible ps (m_mem m) (m_reg m RSP - 8) 8 \<and>
     apart (m_reg m RSP - 8) 8 from context_size \<and> apart (m_reg m RSP - 8) 8 to context_size \<and>
     apart from context_size to context_size"

lemma switchTo_run:
  assumes "switch_ok ps from to m"
  shows "\<exists>m'. switchTo ps from to ret m = Inr m' \<and>
    m_mem m' = save_context from (m_reg m) ret (m_reg m RSP) (poke (m_reg m RSP - 8) ret (m_mem m)) \<and>
    (\<forall>r \<in> set context_regs. m_reg m' r = ctx_get to (m_mem m) r)"
proof -
  define h0 where "h0 = poke (m_reg m RSP - 8) ret (m_mem m)"
  define h1 where "h1 = save_context from (m_reg m) ret (m_reg m RSP) h0"
  note ok = assms(1) [unfolded switch_ok_def]
  let ?sp = "m_reg m RSP - 8"
  let ?m0 = "set_reg RSP ?sp (set_reg RDI from (set_reg RSI to (m\<lparr>m_mem := h0\<rparr>)))"
  have regs: "m_reg ?m0 RDI = from" "m_reg ?m0 RSI = to" "m_reg ?m0 RSP = ?sp" "m_mem ?m0 = h0"
    "\<And>r. r \<in> set callee_saved \<Longrightarrow> m_reg ?m0 r = m_reg m r"
    by (auto simp: set_reg_def callee_saved_def)
  define m1 where "m1 = ?m0\<lparr>m_reg := (m_reg ?m0)(RCX := m_reg ?m0 RSP + 8),
    m_mem := save_context from (m_reg ?m0) (peek ?sp h0) (?sp + 8) h0\<rparr>"
  have first: "exec_code ps (take 10 marl_fiber_swap) ?m0 = Inr m1"
    using swap_saves [of ps ?m0] ok regs by (simp add: h0_def m1_def)
  have m1: "m_mem m1 = h1" "m_reg m1 RSI = to" "context_ok ps to (m_mem m1)"
    using regs ok by (simp_all add: m1_def h1_def h0_def save_context_def callee_saved_def)
  let ?m2 = "m1\<lparr>m_reg := loaded to h1 (m_reg m1)\<rparr>"
  have second: "exec_code ps (drop 10 marl_fiber_swap) m1 = Inr ?m2"
    using swap_loads [of ps m1] m1 by simp
  have "switchTo ps from to ret m = exec_code ps (take 10 marl_fiber_swap @ drop 10 marl_fiber_swap) ?m0"
    using ok by (simp add: switchTo_def mem_store_def h0_def Let_def)
  also have "\<dots> = Inr ?m2" by (simp only: exec_code_append first rbind_simps second)
  finally have run: "switchTo ps from to ret m = Inr ?m2" .
  have "ctx_get to h1 r = ctx_get to (m_mem m) r" if "r \<in> set context_regs" for r
    using ok that by (simp add: h1_def h0_def save_context_other ctx_get_poke_outside apart_sym)
  moreover have "loaded to h1 g r = ctx_get to h1 r" if "r \<in> set context_regs" for g r
    by (cases r) (use that in \<open>simp_all add: loaded_def context_regs_def\<close>)
  ultimately have "\<forall>r \<in> set context_regs. m_reg ?m2 r = ctx_get to (m_mem m) r" by simp
  with run m1(1) show ?thesis by (intro exI [of _ ?m2]) (simp add: h1_def h0_def)
qed

section \<open>Properties of the switch\<close>

text \<open>C22. \<open>marl_fiber_swap\<close>, instruction by instruction, is the exchange of contexts: the registers become those of the context \<open>to\<close> and
  control goes to its instruction pointer; the context \<open>from\<close> gets the registers that a function must preserve, the stack
  pointer of the caller as it is after the call, and the return address; and apart from that context and the pushed return address
  no memory changes.\<close>

theorem fiber_switch_spec:
  assumes "switch_ok ps from to m"
  shows "\<exists>m'. switchTo ps from to ret m = Inr m' \<and>
    (\<forall>r \<in> set context_regs. m_reg m' r = ctx_get to (m_mem m) r) \<and>
    (\<forall>r \<in> set callee_saved. ctx_get from (m_mem m') r = m_reg m r) \<and>
    ctx_get from (m_mem m') RSP = m_reg m RSP \<and> ctx_get from (m_mem m') RIP = ret \<and>
    (\<forall>a. apart a 8 from context_size \<and> apart a 8 (m_reg m RSP - 8) 8 \<longrightarrow> peek a (m_mem m') = peek a (m_mem m))"
proof -
  let ?h0 = "poke (m_reg m RSP - 8) ret (m_mem m)"
  obtain m' where m': "switchTo ps from to ret m = Inr m'" "m_mem m' = save_context from (m_reg m) ret (m_reg m RSP) ?h0"
    "\<forall>r \<in> set context_regs. m_reg m' r = ctx_get to (m_mem m) r"
    using switchTo_run [OF assms] by blast
  have "ctx_get from (m_mem m') r = m_reg m r" if "r \<in> set callee_saved" for r
    using that by (auto simp: m'(2) save_context_get callee_saved_def context_regs_def)
  moreover have "ctx_get from (m_mem m') RSP = m_reg m RSP" "ctx_get from (m_mem m') RIP = ret"
    by (simp_all add: m'(2) save_context_get context_regs_def)
  moreover have "peek a (m_mem m') = peek a (m_mem m)"
    if "apart a 8 from context_size" "apart a 8 (m_reg m RSP - 8) 8" for a
    using that by (simp add: m'(2) save_context_outside peek_poke_other)
  ultimately show ?thesis using m'(1,3) by blast
qed

text \<open>A switch returns as a call: a fiber that switches away, and to which any other code switches back while its context
  has not been overwritten, goes on at the return address of its call with its stack pointer and all registers it may rely on, whatever
  happened to the registers and to the rest of the memory in between.\<close>

theorem fiber_switch_returns:
  assumes "switch_ok ps f g m" and "switchTo ps f g ret m = Inr m1"
    and "\<forall>r \<in> set context_regs. ctx_get f (m_mem m2) r = ctx_get f (m_mem m1) r"
    and "switch_ok ps g' f m2"
  shows "\<exists>m3. switchTo ps g' f ret' m2 = Inr m3 \<and> m_reg m3 RIP = ret \<and> m_reg m3 RSP = m_reg m RSP \<and>
    (\<forall>r \<in> set callee_saved. m_reg m3 r = m_reg m r)"
proof -
  let ?h0 = "poke (m_reg m RSP - 8) ret (m_mem m)"
  have mem: "m_mem m1 = save_context f (m_reg m) ret (m_reg m RSP) ?h0"
    using switchTo_run [OF assms(1), of ret] assms(2) by auto
  obtain m3 where m3: "switchTo ps g' f ret' m2 = Inr m3" "\<forall>r \<in> set context_regs. m_reg m3 r = ctx_get f (m_mem m2) r"
    using switchTo_run [OF assms(4), of ret'] by blast
  have "m_reg m3 r = ctx_get f (m_mem m1) r" if "r \<in> set context_regs" for r using m3(2) assms(3) that by simp
  then have "m_reg m3 RIP = ret" "m_reg m3 RSP = m_reg m RSP" "\<forall>r \<in> set callee_saved. m_reg m3 r = m_reg m r"
    by (simp_all add: mem save_context_get context_regs_def callee_saved_def)
  with m3(1) show ?thesis by blast
qed

section \<open>New fibers\<close>

text \<open>The stores into the memory change bytes only.\<close>

definition same_layout :: "heap \<Rightarrow> heap \<Rightarrow> bool" where
  "same_layout h h' \<longleftrightarrow> hp_blocks h' = hp_blocks h \<and> hp_maps h' = hp_maps h \<and> hp_guarded h' = hp_guarded h"

lemma same_layout_access: "same_layout h h' \<Longrightarrow> accessible ps h' a n = accessible ps h a n"
  by (simp add: same_layout_def accessible_def valid_range_def mapped_range_def)

lemma same_layout_context: "same_layout h h' \<Longrightarrow> context_ok ps p h' = context_ok ps p h"
  by (simp add: context_ok_def same_layout_access)

lemma block_context_ok:
  assumes "valid_range h p context_size" "unat p + context_size < 2 ^ 64"
  shows "context_ok ps p h"
  unfolding context_ok_def
proof
  fix r assume r: "r \<in> set context_regs"
  have "unat (p + marl_reg r) = unat p + unat (marl_reg r)"
    using marl_reg_range [OF r] assms(2) by (intro unat_add_less) linarith
  moreover obtain b s where "(b, s) \<in> set (hp_blocks h)" "unat b \<le> unat p" "unat p + context_size \<le> unat b + unat s"
    using assms(1) by (auto simp: valid_range_def list_ex_iff)
  ultimately have "\<exists>(b, s) \<in> set (hp_blocks h).
      unat b \<le> unat (p + marl_reg r) \<and> unat (p + marl_reg r) + 8 \<le> unat b + unat s"
    using marl_reg_range [OF r] by (intro bexI [of _ "(b, s)"]) simp_all
  then show "accessible ps h (p + marl_reg r) 8" by (simp add: accessible_def valid_range_def list_ex_iff)
qed

lemma store_zeros_ok:
  assumes "\<forall>r \<in> set rs. accessible ps h (p + marl_reg r) 8"
  shows "\<exists>h'. store_zeros ps rs p h = Inr h' \<and> same_layout h h'"
  using assms
proof (induction rs arbitrary: h)
  case Nil
  then show ?case by (simp add: same_layout_def)
next
  case (Cons r rs)
  have "\<exists>h'. store_zeros ps rs p (poke (p + marl_reg r) 0 h) = Inr h' \<and> same_layout (poke (p + marl_reg r) 0 h) h'"
    using Cons.prems by (intro Cons.IH) simp
  then show ?case using Cons.prems by (auto simp: mem_store_def same_layout_def)
qed

lemma set_target_ok:
  assumes "context_ok ps ctx h" "accessible ps h (stack + ucast sz - 16) 8"
    and "apart ctx context_size (stack + ucast sz - 16) 8"
  shows "\<exists>h'. set_target ps tr ctx stack sz target arg h = Inr h' \<and> same_layout h h' \<and>
    ctx_get ctx h' RIP = tr \<and> ctx_get ctx h' RDI = target \<and> ctx_get ctx h' RSI = arg \<and>
    ctx_get ctx h' RSP = stack + ucast sz - 24 \<and> peek (stack + ucast sz - 16) h' = 0"
proof -
  have "r \<in> set context_regs" if "r \<in> {RIP, RDI, RSI, RSP}" for r using that by (auto simp: context_regs_def)
  note mem = this [of RIP, simplified] this [of RDI, simplified] this [of RSI, simplified] this [of RSP, simplified]
  show ?thesis
    using context_okD [OF assms(1)] assms(2) ctx_get_poke_outside [OF assms(3)] mem
    by (auto simp: set_target_def mem_store_def Let_def same_layout_def ctx_get_poke simp del: marl_reg.simps)
qed

text \<open>The pages that \<open>mmap\<close> returns meet no guard page of another mapping.\<close>

definition mmap_fresh :: "64 word \<Rightarrow> heap \<Rightarrow> addr \<Rightarrow> 64 word \<Rightarrow> bool" where
  "mmap_fresh pageSize h m n \<longleftrightarrow>
     (\<forall>g \<in> set (hp_guarded h). unat m + unat n \<le> unat g \<or> unat g + unat pageSize \<le> unat m)"

lemma stack_accessible:
  assumes "hp_maps h = (m, t) # maps" "hp_guarded h = [m + ps + u, m] @ guards"
    and "\<forall>g \<in> set guards. unat m + unat t \<le> unat g \<or> unat g + unat ps \<le> unat m"
    and "unat (m + ps + u) = unat m + unat ps + unat u" "unat t = unat u + 2 * unat ps"
    and "unat m + unat ps \<le> unat a" "unat a + n \<le> unat m + unat ps + unat u"
  shows "accessible ps h a n"
  using assms by (fastforce simp: accessible_def mapped_range_def list_all_iff)

lemma apart_inside:
  assumes "apart c k s n" "unat s + n < 2 ^ 64" "unat i + 8 \<le> n" "8 \<le> k"
  shows "apart c k (s + i) 8"
proof -
  have cs: "c - s \<noteq> 0" using assms(1,3) by (auto simp: apart_def)
  then have e: "unat (s - c) = 2 ^ 64 - unat (c - s)" using unat_neg [OF cs] by simp
  have "unat (s - c) + unat i < 2 ^ 64" using e assms(1,3) unat_less_64 [of "c - s"] unfolding apart_def by linarith
  then have a: "unat (s - c + i) = unat (s - c) + unat i" by (rule unat_add_less)
  have le: "i \<le> c - s" using assms(1,3) by (simp add: apart_def word_le_nat_alt)
  then have b: "unat (c - s - i) = unat (c - s) - unat i" by (simp add: unat_sub)
  have "k \<le> unat (s + i - c)" using a assms(1) by (simp add: apart_def algebra_simps)
  moreover have "8 \<le> unat (c - (s + i))"
    using b assms(1,3) unfolding apart_def diff_diff_add [of c s i] by linarith
  ultimately show ?thesis by (simp add: apart_def)
qed

text \<open>\<open>createFiber\<close> up to the allocation of the stack: what remains is \<open>marl_fiber_set_target\<close>, on a memory with the new mapping.\<close>

lemma create_up_to_target:
  assumes "make_unique A1 sz al h = Inr (u, cs, h1)"
    and "valid_range h1 (up_ptr u + 8) context_size" "unat (up_ptr u + 8) + context_size < 2 ^ 64"
    and "16 < ps" "unat ps mod 16 = 0" "unat n + 3 * unat ps < 2 ^ 64"
    and "os_mmap os = Some p" "unat p mod unat ps = 0" "os_mprotect os"
    and "unat p + unat (num_total_pages ps n True True * ps) < 2 ^ 64"
  defines "g \<equiv> num_requested_pages ps n * ps" and "t \<equiv> num_total_pages ps n True True * ps"
    and "stk \<equiv> \<lparr>al_ptr = p + ps, al_request = stack_request n\<rparr>"
  obtains h3 where "createFiber A1 (default_ops ps os) ps tr run sz al n func h =
      rbind (set_target ps tr (up_ptr u + 8) (p + ps) (ucast n) run (up_ptr u) h3) (\<lambda>h4.
      Inr (\<lparr>of_self = u, of_target = Some func, of_stack = Some stk\<rparr>, h4))"
    and "context_ok ps (up_ptr u + 8) h3" and "hp_blocks h3 = hp_blocks h1"
    and "hp_maps h3 = (p, t) # hp_maps h1" and "hp_guarded h3 = [p + ps + g, p] @ hp_guarded h1"
    and "unat (p + ps) = unat p + unat ps" and "unat (p + ps + g) = unat p + unat ps + unat g"
    and "unat n \<le> unat g" and "unat t = unat g + 2 * unat ps"
proof -
  let ?r = "stack_request n" and ?ctx = "up_ptr u + 8"
  have r: "rq_use_guards ?r" "rq_alignment ?r \<noteq> 0" "rq_alignment ?r < ps" "unat ps mod unat (rq_alignment ?r) = 0"
    "unat (rq_size ?r) + 3 * unat ps < 2 ^ 64" "unat p + unat (num_total_pages ps (rq_size ?r) True True * ps) < 2 ^ 64"
    using assms(4-6,10) by (simp_all add: stack_request_def)
  have "rq_size ?r = n" by (simp add: stack_request_def)
  note ga = guarded_allocate [OF r(1-5) assms(7-9) r(6), unfolded this, folded g_def t_def]
  obtain h2 where h2: "store_zeros ps context_regs ?ctx h1 = Inr h2" "same_layout h1 h2"
    using store_zeros_ok block_context_ok [OF assms(2,3)] unfolding context_ok_def by blast
  define h3 where "h3 = h2\<lparr>hp_maps := (p, t) # hp_maps h2, hp_guarded := [p + ps + g, p] @ hp_guarded h2\<rparr>"
  have "ao_allocate (default_ops ps os) ?r h2 = Inr (stk, h3)"
    using ga(1) by (simp add: default_ops_def h3_def stk_def)
  then have "createFiber A1 (default_ops ps os) ps tr run sz al n func h =
      rbind (set_target ps tr ?ctx (p + ps) (ucast n) run (up_ptr u) h3) (\<lambda>h4. Inr (\<lparr>of_self = u, of_target = Some func, of_stack = Some stk\<rparr>, h4))"
    using assms(1) h2(1) by (simp add: createFiber_def Let_def stk_def)
  moreover have "context_ok ps ?ctx h3"
    using assms(2,3) h2(2) by (intro block_context_ok) (simp_all add: h3_def same_layout_def valid_range_def)
  moreover have "hp_blocks h3 = hp_blocks h1" "hp_maps h3 = (p, t) # hp_maps h1"
    "hp_guarded h3 = [p + ps + g, p] @ hp_guarded h1" using h2(2) by (simp_all add: h3_def same_layout_def)
  ultimately show thesis using ga(2-5) by (intro that [of h3])
qed

text \<open>\<open>createFiber\<close> returns, and what it leaves in the context.\<close>

lemma create_fiber_runs:
  assumes "make_unique A1 sz al h = Inr (u, cs, h1)"
    and "valid_range h1 (up_ptr u + 8) context_size" "unat (up_ptr u + 8) + context_size < 2 ^ 64"
    and "24 \<le> unat n" "unat n < 2 ^ 32"
    and "16 < ps" "unat ps mod 16 = 0" "unat n + 3 * unat ps < 2 ^ 64"
    and "os_mmap os = Some p" "unat p mod unat ps = 0" "os_mprotect os"
    and "unat p + unat (num_total_pages ps n True True * ps) < 2 ^ 64"
    and "mmap_fresh ps h1 p (num_total_pages ps n True True * ps)"
    and "apart (up_ptr u + 8) context_size (p + ps) (unat n)"
  obtains h4 where "createFiber A1 (default_ops ps os) ps tr run sz al n func h =
      Inr (\<lparr>of_self = u, of_target = Some func, of_stack = Some \<lparr>al_ptr = p + ps, al_request = stack_request n\<rparr>\<rparr>, h4)"
    and "hp_guarded h4 = [p + ps + num_requested_pages ps n * ps, p] @ hp_guarded h1"
    and "ctx_get (up_ptr u + 8) h4 RIP = tr" and "ctx_get (up_ptr u + 8) h4 RDI = run"
    and "ctx_get (up_ptr u + 8) h4 RSI = up_ptr u" and "ctx_get (up_ptr u + 8) h4 RSP = p + ps + (n - 24)"
    and "unat (p + ps + (n - 24)) = unat (p + ps) + unat n - 24" and "unat (p + ps) = unat p + unat ps"
proof -
  let ?ctx = "up_ptr u + 8" and ?u = "num_requested_pages ps n * ps" and ?t = "num_total_pages ps n True True * ps"
  obtain h3 where cr: "createFiber A1 (default_ops ps os) ps tr run sz al n func h =
      rbind (set_target ps tr ?ctx (p + ps) (ucast n) run (up_ptr u) h3) (\<lambda>h4.
      Inr (\<lparr>of_self = u, of_target = Some func, of_stack = Some \<lparr>al_ptr = p + ps, al_request = stack_request n\<rparr>\<rparr>, h4))"
    and ctx3: "context_ok ps ?ctx h3" and "hp_blocks h3 = hp_blocks h1"
    and maps: "hp_maps h3 = (p, ?t) # hp_maps h1" "hp_guarded h3 = [p + ps + ?u, p] @ hp_guarded h1"
    and g: "unat (p + ps) = unat p + unat ps" "unat (p + ps + ?u) = unat p + unat ps + unat ?u"
      "unat n \<le> unat ?u" "unat ?t = unat ?u + 2 * unat ps"
    by (rule create_up_to_target [OF assms(1-3,6-12)])
  have trunc: "ucast (ucast n :: 32 word) = n"
    using assms(5)
    by (intro word_unat_eq_iff [THEN iffD2]) (simp add: unsigned_ucast_eq unsigned_take_bit_eq take_bit_nat_eq_self)
  have room: "unat (p + ps) + unat n < 2 ^ 64" using g(1,3,4) assms(12) by linarith
  have top: "p + ps + n - 16 = p + ps + (n - 16)" "unat (n - 16) = unat n - 16" "unat (n - 24) = unat n - 24"
    using assms(4) by (simp_all add: unat_sub word_le_nat_alt)
  have a16: "unat (p + ps + (n - 16)) = unat (p + ps) + unat n - 16"
    using room top(2) assms(4) by (subst unat_add_less) simp_all
  have a24: "unat (p + ps + (n - 24)) = unat (p + ps) + unat n - 24"
    using room top(3) assms(4) by (subst unat_add_less) simp_all
  have "accessible ps h3 (p + ps + (n - 16)) 8"
  proof (rule stack_accessible [OF maps _ g(2,4)])
    show "\<forall>g \<in> set (hp_guarded h1). unat p + unat ?t \<le> unat g \<or> unat g + unat ps \<le> unat p"
      using assms(13) by (simp add: mmap_fresh_def)
    show "unat p + unat ps \<le> unat (p + ps + (n - 16))" "unat (p + ps + (n - 16)) + 8 \<le> unat p + unat ps + unat ?u"
      using a16 g(1,3) assms(4) by linarith+
  qed
  moreover have "apart ?ctx context_size (p + ps + (n - 16)) 8"
    using apart_inside [OF assms(14) room, of "n - 16"] top(2) assms(4) by (simp add: context_size_def)
  ultimately obtain h4 where h4: "set_target ps tr ?ctx (p + ps) (ucast n) run (up_ptr u) h3 = Inr h4" "same_layout h3 h4"
    "ctx_get ?ctx h4 RIP = tr" "ctx_get ?ctx h4 RDI = run" "ctx_get ?ctx h4 RSI = up_ptr u"
    "ctx_get ?ctx h4 RSP = p + ps + n - 24"
    using set_target_ok [OF ctx3, of "p + ps" "ucast n" tr run "up_ptr u"] unfolding trunc top(1) by blast
  have "ctx_get ?ctx h4 RSP = p + ps + (n - 24)" using h4(6) by simp
  moreover have "createFiber A1 (default_ops ps os) ps tr run sz al n func h =
      Inr (\<lparr>of_self = u, of_target = Some func, of_stack = Some \<lparr>al_ptr = p + ps, al_request = stack_request n\<rparr>\<rparr>, h4)"
    using cr h4(1) by simp
  moreover have "hp_guarded h4 = [p + ps + ?u, p] @ hp_guarded h1"
    using maps(2) h4(2) by (simp add: same_layout_def)
  ultimately show thesis using h4(3-5) a24 g(1) by (intro that [of h4])
qed

text \<open>C24. A new fiber can be switched to. With a stack size of at least 24 bytes that is a multiple of 16 and fits into 32 bits, and pages
  that the system can provide, \<open>createFiber\<close> returns; the stack lies between two guard pages; and the first switch to the fiber, from
  anywhere, enters the trampoline with \<open>OSFiber::run\<close> and the fiber as its arguments and a stack pointer inside of the
  stack that is aligned as at the entry of a function.\<close>

theorem new_fiber_starts:
  assumes "make_unique A1 sz al h = Inr (u, cs, h1)"
    and "valid_range h1 (up_ptr u + 8) context_size" "unat (up_ptr u + 8) + context_size < 2 ^ 64"
    and "24 \<le> unat n" "unat n mod 16 = 0" "unat n < 2 ^ 32"
    and "16 < ps" "unat ps mod 16 = 0" "unat n + 3 * unat ps < 2 ^ 64"
    and "os_mmap os = Some p" "unat p mod unat ps = 0" "os_mprotect os"
    and "unat p + unat (num_total_pages ps n True True * ps) < 2 ^ 64"
    and "mmap_fresh ps h1 p (num_total_pages ps n True True * ps)"
    and "apart (up_ptr u + 8) context_size (p + ps) (unat n)"
  shows "\<exists>f h'. createFiber A1 (default_ops ps os) ps tr run sz al n func h = Inr (f, h') \<and>
    of_stack f = Some \<lparr>al_ptr = p + ps, al_request = stack_request n\<rparr> \<and>
    up_ptr (of_self f) = up_ptr u \<and> os_run f = Inr func \<and>
    hp_guarded h' = [p + ps + num_requested_pages ps n * ps, p] @ hp_guarded h1 \<and>
    (\<forall>from m ret. m_mem m = h' \<and> switch_ok ps from (context_addr f) m \<longrightarrow>
      (\<exists>m'. switchTo ps from (context_addr f) ret m = Inr m' \<and> m_reg m' RIP = tr \<and>
        trampoline_call m' = (run, up_ptr u) \<and>
        unat (m_reg m' RSP) = unat (p + ps) + unat n - 24 \<and> (unat (m_reg m' RSP) + 8) mod 16 = 0))"
proof -
  let ?ctx = "up_ptr u + 8" and ?u = "num_requested_pages ps n * ps"
  let ?f = "\<lparr>of_self = u, of_target = Some func, of_stack = Some \<lparr>al_ptr = p + ps, al_request = stack_request n\<rparr>\<rparr>"
  obtain h4 where h4: "createFiber A1 (default_ops ps os) ps tr run sz al n func h = Inr (?f, h4)"
    "hp_guarded h4 = [p + ps + ?u, p] @ hp_guarded h1" "ctx_get ?ctx h4 RIP = tr" "ctx_get ?ctx h4 RDI = run"
    "ctx_get ?ctx h4 RSI = up_ptr u" "ctx_get ?ctx h4 RSP = p + ps + (n - 24)"
    and a24: "unat (p + ps + (n - 24)) = unat (p + ps) + unat n - 24" and pps: "unat (p + ps) = unat p + unat ps"
    by (rule create_fiber_runs [OF assms(1-4,6-15)])
  have aligned: "(unat (p + ps) + unat n - 24 + 8) mod 16 = 0"
  proof -
    have d: "16 dvd unat n" "16 dvd unat p + unat ps"
      using assms(5,8,11) by (auto simp: mod_eq_0_iff_dvd intro: dvd_trans)
    have "unat (p + ps) + unat n - 24 + 8 = unat p + unat ps + unat n - 16" using pps assms(4) by simp
    moreover have "16 dvd unat p + unat ps + unat n - 16" using d by (intro dvd_diff_nat) auto
    ultimately show ?thesis by simp
  qed
  have "\<exists>m'. switchTo ps a (context_addr ?f) ret m = Inr m' \<and> m_reg m' RIP = tr \<and>
        trampoline_call m' = (run, up_ptr u) \<and>
        unat (m_reg m' RSP) = unat (p + ps) + unat n - 24 \<and> (unat (m_reg m' RSP) + 8) mod 16 = 0"
    if m: "m_mem m = h4" "switch_ok ps a (context_addr ?f) m" for a m ret
  proof -
    obtain m' where m': "switchTo ps a (context_addr ?f) ret m = Inr m'"
      "\<forall>r \<in> set context_regs. m_reg m' r = ctx_get ?ctx h4 r"
      using switchTo_run [OF m(2), of ret] m(1) by (auto simp: context_addr_def)
    then show ?thesis using h4(3-6) a24 aligned by (simp add: trampoline_call_def context_regs_def)
  qed
  with h4(1,2) show ?thesis by (intro exI [of _ ?f] exI [of _ h4]) (simp add: os_run_def)
qed

text \<open>The size is cut to 32 bits on its way to \<open>marl_fiber_set_target\<close>: a stack whose size is a multiple of 4 GiB is allocated in full, but its
  top is then taken to be its bottom, and the first word written there is on the guard page below the stack.\<close>

theorem huge_stack_faults:
  assumes "make_unique A1 sz al h = Inr (u, cs, h1)"
    and "valid_range h1 (up_ptr u + 8) context_size" "unat (up_ptr u + 8) + context_size < 2 ^ 64"
    and "unat n mod 2 ^ 32 = 0" "16 < ps" "unat ps mod 16 = 0" "unat n + 3 * unat ps < 2 ^ 64"
    and "os_mmap os = Some p" "unat p mod unat ps = 0" "os_mprotect os"
    and "unat p + unat (num_total_pages ps n True True * ps) < 2 ^ 64"
    and "\<forall>(b, s) \<in> set (hp_blocks h1). unat b + unat s \<le> unat p \<or> unat p + unat ps \<le> unat b"
  shows "createFiber A1 (default_ops ps os) ps tr run sz al n func h = Inl BadAccess"
proof -
  let ?ctx = "up_ptr u + 8"
  obtain h3 where cr: "createFiber A1 (default_ops ps os) ps tr run sz al n func h =
      rbind (set_target ps tr ?ctx (p + ps) (ucast n) run (up_ptr u) h3) (\<lambda>h4.
      Inr (\<lparr>of_self = u, of_target = Some func, of_stack = Some \<lparr>al_ptr = p + ps, al_request = stack_request n\<rparr>\<rparr>, h4))"
    and ctx3: "context_ok ps ?ctx h3" and blocks: "hp_blocks h3 = hp_blocks h1"
    and "hp_maps h3 = (p, num_total_pages ps n True True * ps) # hp_maps h1"
    and gd: "hp_guarded h3 = [p + ps + num_requested_pages ps n * ps, p] @ hp_guarded h1"
    and pps: "unat (p + ps) = unat p + unat ps"
    by (rule create_up_to_target [OF assms(1-3,5-11)])
  have z: "ucast (ucast n :: 32 word) = (0 :: 64 word)"
    using assms(4)
    by (intro word_unat_eq_iff [THEN iffD2])
      (simp add: unsigned_ucast_eq unsigned_take_bit_eq take_bit_eq_mod unat_mod)
  have "16 < unat ps" using assms(5) by (simp add: word_less_nat_alt)
  then have a: "unat (p + ps - 16) = unat p + unat ps - 16" using pps by (simp add: unat_sub word_le_nat_alt)
  have "\<not> unat (p + ps - 16) + 8 \<le> unat p" "\<not> unat p + unat ps \<le> unat (p + ps - 16)"
    using a \<open>16 < unat ps\<close> by linarith+
  then have "\<not> mapped_range ps h3 (p + ps - 16) 8" using gd by (simp add: mapped_range_def)
  moreover have "\<not> valid_range h3 (p + ps - 16) 8"
    using assms(12) blocks a \<open>16 < unat ps\<close> by (fastforce simp: valid_range_def list_ex_iff)
  ultimately have "\<not> accessible ps h3 (p + ps - 16) 8" by (simp add: accessible_def)
  then have "set_target ps tr ?ctx (p + ps) (ucast n) run (up_ptr u) h3 = Inl BadAccess"
    using context_okD [OF ctx3] z by (simp add: set_target_def mem_store_def Let_def del: marl_reg.simps)
  then show ?thesis using cr by simp
qed

section \<open>Examples\<close>

text \<open>Two contexts in blocks of their own and a stack that is a mapping.\<close>

definition swap_heap :: heap where
  "swap_heap = \<lparr>hp_blocks = [(4096, 128), (8192, 128)], hp_maps = [(65536, 65536)], hp_guarded = [],
     hp_bytes = (\<lambda>_. 0)\<rparr>"

definition swap_machine :: machine where
  "swap_machine = \<lparr>m_reg = (\<lambda>_. 7)(RSP := 69632), m_mem = swap_heap\<rparr>"

lemma swap_machine_ok:
  "hp_blocks h = hp_blocks swap_heap \<Longrightarrow> hp_maps h = hp_maps swap_heap \<Longrightarrow> hp_guarded h = hp_guarded swap_heap \<Longrightarrow>
   switch_ok 4096 4096 8192 \<lparr>m_reg = g(RSP := 69632), m_mem = h\<rparr>"
  "hp_blocks h = hp_blocks swap_heap \<Longrightarrow> hp_maps h = hp_maps swap_heap \<Longrightarrow> hp_guarded h = hp_guarded swap_heap \<Longrightarrow>
   switch_ok 4096 8192 4096 \<lparr>m_reg = g(RSP := 69632), m_mem = h\<rparr>"
  by (simp_all add: switch_ok_def swap_heap_def context_ok_def context_regs_def accessible_def
      valid_range_def mapped_range_def apart_def context_size_def)

lemma swap_machine_switch: "switch_ok 4096 4096 8192 swap_machine"
  unfolding swap_machine_def by (rule swap_machine_ok) simp_all

theorem fiber_switch_spec_witness:
  "\<exists>m'. switchTo 4096 4096 8192 77 swap_machine = Inr m' \<and> ctx_get 4096 (m_mem m') RBX = 7 \<and>
     ctx_get 4096 (m_mem m') RSP = 69632 \<and> ctx_get 4096 (m_mem m') RIP = 77"
  using fiber_switch_spec [OF swap_machine_switch, of 77] by (auto simp: callee_saved_def swap_machine_def)

theorem fiber_switch_returns_witness:
  "\<exists>m1 m3. switchTo 4096 4096 8192 77 swap_machine = Inr m1 \<and>
     switchTo 4096 8192 4096 99 \<lparr>m_reg = (\<lambda>_. 0)(RSP := 69632), m_mem = m_mem m1\<rparr> = Inr m3 \<and>
     m_reg m3 RIP = 77 \<and> m_reg m3 RSP = 69632 \<and> m_reg m3 RBX = 7"
proof -
  obtain m1 where m1: "switchTo 4096 4096 8192 77 swap_machine = Inr m1"
    "m_mem m1 = save_context 4096 (m_reg swap_machine) 77 (m_reg swap_machine RSP)
       (poke (m_reg swap_machine RSP - 8) 77 (m_mem swap_machine))"
    using switchTo_run [OF swap_machine_switch, of 77] by blast
  let ?m2 = "\<lparr>m_reg = (\<lambda>_. 0)(RSP := 69632), m_mem = m_mem m1\<rparr>"
  have "switch_ok 4096 8192 4096 ?m2"
    by (rule swap_machine_ok(2)) (simp_all add: m1(2) save_context_def swap_machine_def)
  then obtain m3 where "switchTo 4096 8192 4096 99 ?m2 = Inr m3" "m_reg m3 RIP = 77"
    "m_reg m3 RSP = m_reg swap_machine RSP" "\<forall>r \<in> set callee_saved. m_reg m3 r = m_reg swap_machine r"
    using fiber_switch_returns [OF swap_machine_switch m1(1), of ?m2 8192 99] by auto
  with m1(1) show ?thesis by (auto simp: swap_machine_def callee_saved_def)
qed

text \<open>An object of 160 bytes from \<open>malloc\<close>, and a stack of 64 KiB.\<close>

definition stack_os :: os_answer where
  "stack_os = \<lparr>os_malloc = 4096, os_mmap = Some 65536, os_mprotect = True, os_munmap = True\<rparr>"

lemma stack_demo:
  defines "h1 \<equiv> empty_heap\<lparr>hp_blocks := [(4096, 160)]\<rparr>" and "u \<equiv> \<lparr>up_ptr = 4096, up_count = 1\<rparr>"
  shows "make_unique (default_ops 4096 stack_os) 160 1 empty_heap = Inr (u, [4096], h1)"
    "valid_range h1 (up_ptr u + 8) context_size" "unat (up_ptr u + 8) + context_size < 2 ^ 64"
    "unat (65536 :: 64 word) + unat (num_total_pages 4096 65536 True True * 4096) < 2 ^ 64"
    "mmap_fresh 4096 h1 65536 (num_total_pages 4096 65536 True True * 4096)"
    "apart (up_ptr u + 8) context_size (65536 + 4096) (unat (65536 :: 64 word))"
  by (simp_all add: h1_def u_def make_unique_def make_unique_n_def default_ops_def default_allocate_def create_request_def
      request_default_def c_malloc_def stack_os_def valid_range_def context_size_def mmap_fresh_def empty_heap_def apart_def
      num_total_pages_def num_requested_pages_def)

theorem new_fiber_starts_witness:
  "\<exists>f h'. createFiber (default_ops 4096 stack_os) (default_ops 4096 stack_os) 4096 11 22 160 1 65536 7 empty_heap = Inr (f, h') \<and>
     hp_guarded h' = [135168, 65536]"
  using new_fiber_starts [OF stack_demo(1-3) _ _ _ _ _ _ _ _ _ stack_demo(4-6), of stack_os 11 22 7]
  by (auto simp: stack_os_def num_requested_pages_def empty_heap_def)

theorem huge_stack_faults_witness:
  "createFiber (default_ops 4096 stack_os) (default_ops 4096 stack_os) 4096 11 22 160 1 4294967296 7 empty_heap = Inl BadAccess"
  by (rule huge_stack_faults [OF stack_demo(1-3), where p = 65536])
    (simp_all add: empty_heap_def num_total_pages_def num_requested_pages_def stack_os_def)

section \<open>The version on top of \<open>ucontext\<close>\<close>

text \<open>
  \<open>src/osfiber_ucontext.hpp\<close>. The functions of the C library are the documented ones: \<open>getcontext\<close> gives a context or an
  error, \<open>makecontext\<close> sets the function that runs first and its two \<open>int\<close> arguments. The address of the fiber is cut into the two arguments by a
  union.
\<close>

record ucontext =
  uc_ss_sp :: addr
  uc_ss_size :: "64 word"
  uc_link :: addr
  uc_entry :: "(addr \<times> 32 word \<times> 32 word) option"

definition args_split :: "64 word \<Rightarrow> 32 word \<times> 32 word" where
  "args_split p = (ucast p, ucast (drop_bit 32 p))"

definition args_join :: "32 word \<Rightarrow> 32 word \<Rightarrow> 64 word" where
  "args_join a b = ucast a OR push_bit 32 (ucast b)"

definition makecontext :: "addr \<Rightarrow> 32 word \<Rightarrow> 32 word \<Rightarrow> ucontext \<Rightarrow> ucontext" where
  "makecontext func a b c = c\<lparr>uc_entry := Some (func, a, b)\<rparr>"

text \<open>\<open>Target::Main\<close>: the fiber whose function it calls.\<close>

definition target_main :: "32 word \<Rightarrow> 32 word \<Rightarrow> addr" where
  "target_main a b = args_join a b"

definition createFiber_ucontext ::
  "heap allocator_ops \<Rightarrow> heap allocator_ops \<Rightarrow> (int \<times> ucontext) \<Rightarrow> addr \<Rightarrow> 64 word \<Rightarrow> 64 word \<Rightarrow> 64 word \<Rightarrow> nat \<Rightarrow> heap \<Rightarrow>
     (os_fiber \<times> ucontext \<times> heap) result" where
  "createFiber_ucontext A1 A2 getcontext main_fn sz al stack_size func h =
     rbind (make_unique A1 sz al h) (\<lambda>(u, _, h1).
     rbind (ao_allocate A2 (stack_request stack_size) h1) (\<lambda>(stack, h2).
     let (res, c) = getcontext in
     rbind (marl_assert (res = 0) ''getcontext() returned %d'') (\<lambda>_.
     let c1 = c\<lparr>uc_ss_sp := al_ptr stack, uc_ss_size := stack_size, uc_link := 0\<rparr>;
         (a, b) = args_split (up_ptr u)
     in Inr (\<lparr>of_self = u, of_target = Some func, of_stack = Some stack\<rparr>, makecontext main_fn a b c1, h2))))"

definition createFiberFromCurrentThread_ucontext ::
  "heap allocator_ops \<Rightarrow> (int \<times> ucontext) \<Rightarrow> 64 word \<Rightarrow> 64 word \<Rightarrow> heap \<Rightarrow> (os_fiber \<times> ucontext \<times> heap) result" where
  "createFiberFromCurrentThread_ucontext A getcontext sz al h =
     rbind (make_unique A sz al h) (\<lambda>(u, _, h1).
     Inr (\<lparr>of_self = u, of_target = None, of_stack = None\<rparr>, snd getcontext, h1))"

definition switchTo_ucontext :: "int \<Rightarrow> unit result" where
  "switchTo_ucontext res = marl_assert (res = 0) ''swapcontext() returned %d''"

lemma args_roundtrip: "(case args_split p of (a, b) \<Rightarrow> args_join a b) = p"
  unfolding args_split_def args_join_def prod.case by (rule bit_word_eqI) (auto simp: bit_simps)

text \<open>The version with \<open>ucontext\<close>: a fiber that \<open>createFiber\<close> returns starts in \<open>Target::Main\<close> with two integers from which \<open>Main\<close> recovers
  exactly that fiber, on the stack that was allocated for it with the requested size; if \<open>getcontext\<close> fails an assertion fails.\<close>

theorem ucontext_starts_self:
  "(\<forall>f c h'. createFiber_ucontext A1 A2 getcontext main_fn sz al n func h = Inr (f, c, h') \<longrightarrow>
     (\<exists>a b s. uc_entry c = Some (main_fn, a, b) \<and> target_main a b = up_ptr (of_self f) \<and> os_run f = Inr func \<and>
        of_stack f = Some s \<and> uc_ss_sp c = al_ptr s \<and> uc_ss_size c = n \<and> fst getcontext = 0)) \<and>
   (fst getcontext \<noteq> 0 \<longrightarrow> \<not> ok (createFiber_ucontext A1 A2 getcontext main_fn sz al n func h))"
proof -
  obtain res c0 where g: "getcontext = (res, c0)" by (cases getcontext)
  have "\<exists>a b. args_split p = (a, b) \<and> args_join a b = p" for p
    using args_roundtrip [of p] by (cases "args_split p") simp
  then show ?thesis
    unfolding g by (auto simp: createFiber_ucontext_def Let_def makecontext_def target_main_def os_run_def ok_iff split_beta)
qed

theorem ucontext_starts_self_witness:
  "\<not> ok (createFiber_ucontext (default_ops 4096 stack_os) (default_ops 4096 stack_os)
      (-1, \<lparr>uc_ss_sp = 0, uc_ss_size = 0, uc_link = 0, uc_entry = None\<rparr>) 33 160 1 65536 7 empty_heap) \<and>
   (\<exists>f c h'. createFiber_ucontext (default_ops 4096 stack_os) (default_ops 4096 stack_os)
      (0, \<lparr>uc_ss_sp = 0, uc_ss_size = 0, uc_link = 0, uc_entry = None\<rparr>) 33 160 1 65536 7 empty_heap = Inr (f, c, h') \<and>
     (\<exists>a b. uc_entry c = Some (33, a, b) \<and> target_main a b = 4096))"
proof -
  let ?c = "\<lparr>uc_ss_sp = 0, uc_ss_size = 0, uc_link = 0, uc_entry = None\<rparr> :: ucontext"
  let ?A = "default_ops 4096 stack_os"
  obtain f c h' where r: "createFiber_ucontext ?A ?A (0, ?c) 33 160 1 65536 7 empty_heap = Inr (f, c, h')" "up_ptr (of_self f) = 4096"
    by (simp add: createFiber_ucontext_def make_unique_def make_unique_n_def default_ops_def default_allocate_def
        create_request_def request_default_def c_malloc_def stack_os_def empty_heap_def stack_request_def
        pagedMalloc_def allocatePages_def protectPage_def num_total_pages_def num_requested_pages_def args_split_def Let_def)
  then show ?thesis
    using ucontext_starts_self [of ?A ?A "(0, ?c)" 33 160 1 65536 7 empty_heap]
      ucontext_starts_self [of ?A ?A "(-1, ?c)" 33 160 1 65536 7 empty_heap] by fastforce
qed

end
