(* ===== verification/Fiber_Model.thy ===== *)
theory Fiber_Model
  imports Os_Fiber Scheduler_Model
begin

text \<open>
  \<open>Scheduler::Fiber\<close> (\<open>scheduler.hpp\<close> 113--216, \<open>scheduler.cpp\<close> 199--257): a fiber of the scheduler around the machine part \<open>OSFiber\<close>.

  \<open>current\<close> is \<open>Worker::getCurrent()\<close> of the calling thread. The state of a fiber is kept by its worker (\<open>fiber_state\<close> of \<open>Worker_Model\<close>);
  \<open>sf_state\<close> is its initial value. \<open>notify\<close> is \<open>fiber_notify\<close> of \<open>Condition_Variable\<close>. Fibers are told apart by their addresses.
\<close>

section \<open>Model\<close>

record sfiber =
  sf_self :: unique_ptr
  sf_id :: "32 word"
  sf_impl :: os_fiber
  sf_worker :: wref
  sf_state :: fstate

definition fiber_new :: "wref option \<Rightarrow> unique_ptr \<Rightarrow> os_fiber \<Rightarrow> 32 word \<Rightarrow> sfiber result" where
  "fiber_new current self impl i =
     (case current of
        None \<Rightarrow> Inl (AssertFailed ''No Scheduler::Worker bound'')
      | Some w \<Rightarrow> Inr \<lparr>sf_self = self, sf_id = i, sf_impl = impl, sf_worker = w, sf_state = Running\<rparr>)"

definition fiber_current :: "wref option \<Rightarrow> (wref \<Rightarrow> 'f) \<Rightarrow> 'f option" where
  "fiber_current current getCurrentFiber = (case current of None \<Rightarrow> None | Some w \<Rightarrow> Some (getCurrentFiber w))"

text \<open>The assertion of \<open>wait\<close> and \<open>switchTo\<close>; \<open>wait\<close> goes on with \<open>wait_pred\<close> of \<open>Worker_Model\<close>.\<close>

definition fiber_check :: "wref option \<Rightarrow> sfiber \<Rightarrow> unit result" where
  "fiber_check current f =
     marl_assert (current = Some (sf_worker f))
       ''Scheduler::Fiber::wait() must only be called on the currently executing fiber''"

definition fiber_wait ::
  "wref option \<Rightarrow> sfiber \<Rightarrow> ctx \<Rightarrow> bool \<Rightarrow> nat \<Rightarrow> 'u worker \<Rightarrow> 'u worker result" where
  "fiber_wait current f c pv pick w = rbind (fiber_check current f) (\<lambda>_. wait_pred c None pv pick w)"

text \<open>The versions with a deadline and without a predicate are in the header and have no assertion.\<close>

definition fiber_wait_until :: "ctx \<Rightarrow> int \<Rightarrow> bool \<Rightarrow> nat \<Rightarrow> 'u worker \<Rightarrow> 'u worker result" where
  "fiber_wait_until c timeout pv pick w = wait_pred c (Some timeout) pv pick w"

definition fiber_wait_plain :: "ctx \<Rightarrow> int option \<Rightarrow> nat \<Rightarrow> 'u worker \<Rightarrow> 'u worker result" where
  "fiber_wait_plain c timeout pick w = wait_plain c timeout pick w"

definition fiber_switchTo :: "64 word \<Rightarrow> wref option \<Rightarrow> sfiber \<Rightarrow> sfiber \<Rightarrow> addr \<Rightarrow> machine \<Rightarrow> machine result" where
  "fiber_switchTo ps current f to ret m =
     rbind (fiber_check current f) (\<lambda>_.
     if up_ptr (sf_self to) \<noteq> up_ptr (sf_self f)
     then switchTo ps (context_addr (sf_impl f)) (context_addr (sf_impl to)) ret m
     else Inr m)"

text \<open>
  \<open>create\<close> and \<open>createFromCurrentThread\<close>: the machine part first, then the object \<open>Fiber\<close> of size \<open>szf\<close> and alignment \<open>alf\<close>, from \<open>A3\<close>.
\<close>

definition fiber_create ::
  "heap allocator_ops \<Rightarrow> heap allocator_ops \<Rightarrow> heap allocator_ops \<Rightarrow> 64 word \<Rightarrow> addr \<Rightarrow> addr \<Rightarrow> 64 word \<Rightarrow> 64 word \<Rightarrow>
     64 word \<Rightarrow> 64 word \<Rightarrow> wref option \<Rightarrow> 32 word \<Rightarrow> 64 word \<Rightarrow> nat \<Rightarrow> heap \<Rightarrow> (sfiber \<times> heap) result" where
  "fiber_create A1 A2 A3 ps trampoline run sz al szf alf current i stack_size func h =
     rbind (createFiber A1 A2 ps trampoline run sz al stack_size func h) (\<lambda>(impl, h1).
     rbind (make_unique A3 szf alf h1) (\<lambda>(u, _, h2).
     rbind (fiber_new current u impl i) (\<lambda>f. Inr (f, h2))))"

definition fiber_createFromCurrentThread ::
  "heap allocator_ops \<Rightarrow> heap allocator_ops \<Rightarrow> 64 word \<Rightarrow> 64 word \<Rightarrow> 64 word \<Rightarrow> 64 word \<Rightarrow> 64 word \<Rightarrow> wref option \<Rightarrow>
     32 word \<Rightarrow> heap \<Rightarrow> (sfiber \<times> heap) result" where
  "fiber_createFromCurrentThread A1 A3 ps sz al szf alf current i h =
     rbind (createFiberFromCurrentThread A1 ps sz al h) (\<lambda>(impl, h1).
     rbind (make_unique A3 szf alf h1) (\<lambda>(u, _, h2).
     rbind (fiber_new current u impl i) (\<lambda>f. Inr (f, h2))))"

text \<open>The states are the values 0 to 4 of an \<open>enum\<close>; another value is possible in principle.\<close>

fun state_value :: "fstate \<Rightarrow> nat" where
  "state_value Idle = 0"
| "state_value Yielded = 1"
| "state_value Waiting = 2"
| "state_value Queued = 3"
| "state_value Running = 4"

definition fiber_toString :: "nat \<Rightarrow> string result" where
  "fiber_toString v =
     (if v = state_value Idle then Inr ''Idle''
      else if v = state_value Yielded then Inr ''Yielded''
      else if v = state_value Queued then Inr ''Queued''
      else if v = state_value Running then Inr ''Running''
      else if v = state_value Waiting then Inr ''Waiting''
      else Inl (AssertFailed ''bad fiber state''))"

section \<open>Properties\<close>

lemma toString_names: "\<exists>n. fiber_toString (state_value s) = Inr n"
  "fiber_toString (state_value s) = fiber_toString (state_value s') \<Longrightarrow> s = s'"
  by (cases s; simp add: fiber_toString_def) (cases s; cases s'; simp add: fiber_toString_def)

lemma set_target_layout: "set_target ps tr ctx stack sz target arg h = Inr h' \<Longrightarrow> same_layout h h'"
  by (auto simp: set_target_def mem_store_def same_layout_def Let_def split: if_splits simp del: marl_reg.simps)

text \<open>The stack of a fiber lives as long as the fiber: the destructor of a fiber that \<open>createFiber\<close> made unmaps its stack with
  both guard pages and nothing else, and the destructor of the fiber of a thread does nothing.\<close>

theorem fiber_stack_released:
  assumes "make_unique A1 sz al h = Inr (u, cs, h1)"
    and "valid_range h1 (up_ptr u + 8) context_size" "unat (up_ptr u + 8) + context_size < 2 ^ 64"
    and "16 < ps" "unat ps mod 16 = 0" "unat n + 3 * unat ps < 2 ^ 64"
    and "os_mmap os = Some p" "unat p mod unat ps = 0" "os_mprotect os"
    and "unat p + unat (num_total_pages ps n True True * ps) < 2 ^ 64"
    and "mmap_fresh ps h1 p (num_total_pages ps n True True * ps)" "os_munmap os'"
    and "createFiber A1 (default_ops ps os) ps tr run sz al n func h = Inr (f, h')"
  shows "(\<exists>h''. os_fiber_destruct (default_ops ps os') f h' = Inr h'' \<and> hp_maps h'' = hp_maps h1 \<and>
      hp_guarded h'' = hp_guarded h1 \<and> hp_blocks h'' = hp_blocks h1) \<and>
    (\<forall>A2 g h2. createFiberFromCurrentThread A1 ps sz al h = Inr (g, h2) \<longrightarrow> os_fiber_destruct A2 g h2 = Inr h2)"
proof -
  let ?u = "num_requested_pages ps n * ps" and ?t = "num_total_pages ps n True True * ps"
  let ?stk = "\<lparr>al_ptr = p + ps, al_request = stack_request n\<rparr>"
  obtain h3 where cr: "createFiber A1 (default_ops ps os) ps tr run sz al n func h =
      rbind (set_target ps tr (up_ptr u + 8) (p + ps) (ucast n) run (up_ptr u) h3) (\<lambda>h4.
      Inr (\<lparr>of_self = u, of_target = Some func, of_stack = Some ?stk\<rparr>, h4))"
    and "context_ok ps (up_ptr u + 8) h3" and b: "hp_blocks h3 = hp_blocks h1"
    and maps: "hp_maps h3 = (p, ?t) # hp_maps h1" "hp_guarded h3 = [p + ps + ?u, p] @ hp_guarded h1"
    and g: "unat (p + ps) = unat p + unat ps" "unat (p + ps + ?u) = unat p + unat ps + unat ?u"
      "unat n \<le> unat ?u" "unat ?t = unat ?u + 2 * unat ps"
    by (rule create_up_to_target [OF assms(1-10)])
  have f: "f = \<lparr>of_self = u, of_target = Some func, of_stack = Some ?stk\<rparr>"
    and lay: "same_layout h3 h'" using assms(13) [unfolded cr] by (auto dest: set_target_layout)
  have "0 < unat ps" using assms(4) by (simp add: word_less_nat_alt)
  have nz: "p + ps \<noteq> 0" using g(1) \<open>0 < unat ps\<close> by auto
  have "\<not> (unat p \<le> unat x \<and> unat x < unat p + unat ?t)" if "x \<in> set (hp_guarded h1)" for x
    using assms(11) that \<open>0 < unat ps\<close> by (fastforce simp: mmap_fresh_def)
  then have keep: "filter (\<lambda>x. \<not> (unat p \<le> unat x \<and> unat x < unat p + unat ?t)) (hp_guarded h1) = hp_guarded h1"
    by (intro filter_True) blast
  have gone: "unat p \<le> unat (p + ps + ?u) \<and> unat (p + ps + ?u) < unat p + unat ?t" "unat p < unat p + unat ?t"
    using g \<open>0 < unat ps\<close> by linarith+
  have free: "default_free ps os' ?stk h' = Inr (h'\<lparr>hp_maps := hp_maps h1, hp_guarded := hp_guarded h1\<rparr>)"
    using assms(4,12) maps lay keep gone
    by (simp add: default_free_def pagedFree_def freePages_def stack_request_def same_layout_def Let_def)
  have "os_fiber_destruct (default_ops ps os') f h' = Inr (h'\<lparr>hp_maps := hp_maps h1, hp_guarded := hp_guarded h1\<rparr>)"
    using nz free by (simp add: f os_fiber_destruct_def default_ops_def)
  moreover have "os_fiber_destruct A2 g h2 = Inr h2" if "createFiberFromCurrentThread A1 ps sz al h = Inr (g, h2)" for A2 g h2
    using that by (auto simp: createFiberFromCurrentThread_def os_fiber_destruct_def Let_def)
  ultimately show ?thesis using b lay by (simp add: same_layout_def)
qed

text \<open>\<open>Fiber::switchTo\<close> is safe to call: on a thread that does not run the worker of the fiber an assertion fails and
  nothing is touched; a switch to itself does nothing; a switch to another fiber saves the state of the calling fiber in its own context
  and continues the other one where its context says.\<close>

theorem fiber_switchTo_checked:
  "(current \<noteq> Some (sf_worker f) \<longrightarrow> \<not> ok (fiber_switchTo ps current f g ret m)) \<and>
   (current = Some (sf_worker f) \<longrightarrow> fiber_switchTo ps current f f ret m = Inr m) \<and>
   (current = Some (sf_worker f) \<and> up_ptr (sf_self g) \<noteq> up_ptr (sf_self f) \<and>
      switch_ok ps (context_addr (sf_impl f)) (context_addr (sf_impl g)) m \<longrightarrow>
    (\<exists>m'. fiber_switchTo ps current f g ret m = Inr m' \<and>
       (\<forall>r \<in> set context_regs. m_reg m' r = ctx_get (context_addr (sf_impl g)) (m_mem m) r) \<and>
       (\<forall>r \<in> set callee_saved. ctx_get (context_addr (sf_impl f)) (m_mem m') r = m_reg m r)))"
proof -
  have "ctx_get p (save_context p (m_reg m) ret sp h) r = m_reg m r" if "r \<in> set callee_saved" for p sp h r
    using that by (auto simp: save_context_get callee_saved_def context_regs_def)
  then show ?thesis
    using switchTo_run [of ps "context_addr (sf_impl f)" "context_addr (sf_impl g)" m ret]
    by (auto simp: fiber_switchTo_def fiber_check_def ok_iff)
qed

text \<open>The fiber on the stack of 64 KiB of \<open>Os_Fiber\<close>.\<close>

theorem fiber_stack_released_witness:
  "\<exists>f h' h''. createFiber (default_ops 4096 stack_os) (default_ops 4096 stack_os) 4096 11 22 160 1 65536 7 empty_heap = Inr (f, h') \<and>
     os_fiber_destruct (default_ops 4096 stack_os) f h' = Inr h'' \<and> hp_maps h'' = [] \<and> hp_guarded h'' = []"
proof -
  let ?A = "default_ops 4096 stack_os"
  obtain f h' where cr: "createFiber ?A ?A 4096 11 22 160 1 65536 7 empty_heap = Inr (f, h')"
    by (rule create_fiber_runs [OF stack_demo(1-3) _ _ _ _ _ _ _ _ stack_demo(4-6), of stack_os 11 22 7])
      (simp_all add: stack_os_def)
  have "\<exists>h''. os_fiber_destruct ?A f h' = Inr h'' \<and> hp_maps h'' = hp_maps (empty_heap\<lparr>hp_blocks := [(4096, 160)]\<rparr>) \<and>
      hp_guarded h'' = hp_guarded (empty_heap\<lparr>hp_blocks := [(4096, 160)]\<rparr>) \<and> hp_blocks h'' = [(4096, 160)]"
    using fiber_stack_released [OF stack_demo(1-3) _ _ _ _ _ _ stack_demo(4,5) _ cr] by (simp add: stack_os_def)
  then show ?thesis using cr by (auto simp: empty_heap_def)
qed

theorem fiber_switchTo_checked_witness:
  "\<exists>m'. fiber_switchTo 4096 (Some (WThread 0))
     \<lparr>sf_self = \<lparr>up_ptr = 1, up_count = 1\<rparr>, sf_id = 0, sf_impl = \<lparr>of_self = \<lparr>up_ptr = 4088, up_count = 1\<rparr>, of_target = None, of_stack = None\<rparr>,
        sf_worker = WThread 0, sf_state = Running\<rparr>
     \<lparr>sf_self = \<lparr>up_ptr = 2, up_count = 1\<rparr>, sf_id = 1, sf_impl = \<lparr>of_self = \<lparr>up_ptr = 8184, up_count = 1\<rparr>, of_target = None, of_stack = None\<rparr>,
        sf_worker = WThread 0, sf_state = Queued\<rparr> 77 swap_machine = Inr m' \<and> ctx_get 4096 (m_mem m') RBX = 7"
  (is "\<exists>m'. fiber_switchTo 4096 ?w ?f ?g 77 swap_machine = Inr m' \<and> _")
proof -
  have "\<exists>m'. fiber_switchTo 4096 ?w ?f ?g 77 swap_machine = Inr m' \<and>
       (\<forall>r \<in> set callee_saved. ctx_get (context_addr (sf_impl ?f)) (m_mem m') r = m_reg swap_machine r)"
    using fiber_switchTo_checked [of ?w ?f 4096 ?g 77 swap_machine] swap_machine_switch by (simp add: context_addr_def) blast
  then show ?thesis by (auto simp: context_addr_def callee_saved_def swap_machine_def)
qed

end
