(* ===== verification/Worker_Tasks.thy ===== *)
theory Worker_Tasks
  imports Worker_Properties
begin

text \<open>
  What a step of a worker does to its tasks, for the proofs about many workers: all but \<open>runUntilIdle\<close> leave the queue of
  tasks and the log of the executed bodies alone, \<open>runUntilIdle\<close> moves the first task from the one to the other, and the
  flag \<open>shutdown\<close> of a worker thread is set only by the task of \<open>stop\<close>.
\<close>

section \<open>Frames\<close>

definition task_frame :: "'u worker \<Rightarrow> 'u worker \<Rightarrow> bool" where
  "task_frame w w' \<longleftrightarrow> own_id w' = own_id w \<and> wmode w' = wmode w \<and> work_tasks w' = work_tasks w \<and>
     executed w' = executed w \<and> shutdown w' = shutdown w"

lemma task_frame_refl [simp]: "task_frame w w"
  by (simp add: task_frame_def)

lemma task_frame_trans: "task_frame u v \<Longrightarrow> task_frame v w \<Longrightarrow> task_frame u w"
  by (simp add: task_frame_def)

lemma task_frame_upd [simp]:
  "task_frame u (w\<lparr>wpc := p\<rparr>) = task_frame u w" "task_frame u (w\<lparr>work_num := n\<rparr>) = task_frame u w"
  "task_frame u (w\<lparr>work_num_blocked_fibers := n\<rparr>) = task_frame u w" "task_frame u (w\<lparr>work_fibers := fs\<rparr>) = task_frame u w"
  "task_frame u (w\<lparr>work_waiting := q\<rparr>) = task_frame u w" "task_frame u (w\<lparr>work_notify_added := b\<rparr>) = task_frame u w"
  "task_frame u (w\<lparr>current_fiber := f\<rparr>) = task_frame u w" "task_frame u (w\<lparr>idle_fibers := i\<rparr>) = task_frame u w"
  "task_frame u (w\<lparr>worker_fibers := k\<rparr>) = task_frame u w" "task_frame u (w\<lparr>fiber_state := g\<rparr>) = task_frame u w"
  "task_frame u (w\<lparr>fiber_cont := c\<rparr>) = task_frame u w" "task_frame u (w\<lparr>wait_result := x\<rparr>) = task_frame u w"
  by (simp_all add: task_frame_def)

named_theorems frame \<open>operations that leave the tasks alone\<close>

lemma setFiberState_frame [simp]: "task_frame u (setFiberState f st w) = task_frame u w"
  by (simp add: setFiberState_def)

lemma changeFiberState_frame [frame]: "changeFiberState f a b w = Inr w' \<Longrightarrow> task_frame w w'"
  by (auto simp: changeFiberState_def)

lemma resume_frame [frame]: "resume w = Inr w' \<Longrightarrow> task_frame w w'"
  by (auto simp: resume_def Let_def changeFiberState_def split: cont.splits if_splits)

lemma switchToFiber_frame [frame]: "switchToFiber here to w = Inr w' \<Longrightarrow> task_frame w w'"
  by (auto simp: switchToFiber_def task_frame_def dest: resume_frame)

lemma enqueueFiberTimeouts_frame [frame]: "enqueueFiberTimeouts now w = Inr w' \<Longrightarrow> task_frame w w'"
proof (induction now w arbitrary: w' rule: enqueueFiberTimeouts.induct)
  case (1 now w)
  then show ?case
    by (subst (asm) (2) enqueueFiberTimeouts.simps)
      (fastforce simp: changeFiberState_def task_frame_def split: option.splits)
qed

lemma work_wait_frame [frame]: "work_wait to w = Inr w' \<Longrightarrow> task_frame w w'"
  by (auto simp: work_wait_def split: if_splits)

lemma suspend_switch_frame [frame]: "suspend_switch c k t pick w = Inr w' \<Longrightarrow> task_frame w w'"
  by (auto simp: suspend_switch_def createWorkerFiber_def Let_def task_frame_def dest!: switchToFiber_frame
      split: list.splits if_splits)

lemma after_waitForWork_frame [frame]: "after_waitForWork s pick w = Inr w' \<Longrightarrow> task_frame w w'"
  by (auto simp: after_waitForWork_def runUntilIdle_begin_def dest: suspend_switch_frame split: site.splits)

lemma waitForWork_frame [frame]: "waitForWork s pick w = Inr w' \<Longrightarrow> task_frame w w'"
  by (auto simp: waitForWork_def dest: after_waitForWork_frame work_wait_frame split: if_splits mode.splits)

lemma waitForWork_wake_frame [frame]: "waitForWork_wake s now pick w = Inr w' \<Longrightarrow> task_frame w w'"
  by (auto simp: waitForWork_wake_def Let_def task_frame_def
      dest!: after_waitForWork_frame enqueueFiberTimeouts_frame split: if_splits)

lemma suspend_frame [frame]: "suspend c k t pick w = Inr w' \<Longrightarrow> task_frame w w'"
  by (auto simp: suspend_def task_frame_def dest!: waitForWork_frame changeFiberState_frame split: option.splits)

lemma wait_pred_frame [frame]: "wait_pred c t pv pick w = Inr w' \<Longrightarrow> task_frame w w'"
  by (auto simp: wait_pred_def dest: suspend_frame split: if_splits)

lemma wait_after_suspend_frame [frame]: "wait_after_suspend c k t now pv pick w = Inr w' \<Longrightarrow> task_frame w w'"
  by (auto simp: wait_after_suspend_def dest: wait_pred_frame split: wait_kind.splits if_splits)

lemma run_begin_frame [frame]: "run_begin w = Inr w' \<Longrightarrow> task_frame w w'"
  by (auto simp: run_begin_def dest: work_wait_frame split: mode.splits)

lemma run_wake_frame [frame]: "run_wake w = Inr w' \<Longrightarrow> task_frame w w'"
  by (auto simp: run_wake_def)

lemma runUntilShutdown_frame [frame]: "runUntilShutdown pick w = Inr w' \<Longrightarrow> task_frame w w'"
  by (auto simp: runUntilShutdown_def dest: waitForWork_frame switchToFiber_frame split: if_splits)

lemma enqueue_fiber_frame [frame]: "enqueue_fiber f w = Inr (w', b) \<Longrightarrow> task_frame w w'"
  by (auto simp: enqueue_fiber_def Let_def split: fstate.splits)

section \<open>Steps\<close>

text \<open>The first task of the queue is executed.\<close>

definition task_run :: "'u worker \<Rightarrow> 'u worker \<Rightarrow> bool" where
  "task_run w w' \<longleftrightarrow> (\<exists>t b. wpc w = PIdle \<and> work_tasks w = t # work_tasks w' \<and> task_function t = Some b \<and>
     executed w' = executed w @ [b] \<and> own_id w' = own_id w \<and> wmode w' = wmode w \<and> wpc w' = PTask \<and>
     shutdown w' = (shutdown w \<or> b = SetShutdown (own_id w)))"

lemma runUntilIdle_tasks:
  assumes "wpc w = PIdle" "runUntilIdle w = Inr w'"
  shows "task_frame w w' \<or> task_run w w'"
proof (cases "work_fibers w")
  case Nil
  show ?thesis
  proof (cases "work_tasks w")
    case (Cons t ts)
    with Nil assms show ?thesis
      by (cases "task_function t"; cases "the (task_function t)")
        (auto simp: runUntilIdle_def task_run_def task_call_def run_body_def)
  qed (use Nil assms in \<open>auto simp: runUntilIdle_def\<close>)
next
  case (Cons f fs)
  then show ?thesis
    using assms(2)
    by (auto simp: runUntilIdle_def Let_def task_frame_def changeFiberState_def dest!: switchToFiber_frame)
qed

lemma tstep_tasks:
  assumes "tstep w (Inr w')" "wpc w \<noteq> POutside"
  shows "task_frame w w' \<or> task_run w w'"
  using assms
proof cases
  case ts_idle
  then show ?thesis using runUntilIdle_tasks by metis
next
  case ts_stop
  then show ?thesis using assms(2) by simp
qed (auto simp: wait_plain_def intro: frame)

end
