(* ===== verification/Worker_Moves.thy ===== *)
theory Worker_Moves
  imports Worker_Tasks
begin

text \<open>
  How a worker goes from fiber to fiber: a step of the worker goes on with the current fiber or makes one switch, which changes the place of the fiber that is left
  only, and takes the next fiber from the front of the queue, to which new ones are added at the end.
\<close>

section \<open>Switches in a run of a worker\<close>

text \<open>The place in the code where a fiber goes on.\<close>

fun resume_pc :: "cont \<Rightarrow> pc" where
  "resume_pc NotStarted = PRun"
| "resume_pc (Suspended c k t) = PWaitRet c k t"
| "resume_pc Parked = PIdle"
| "resume_pc Finished = PExit"

definition stays :: "'u worker \<Rightarrow> 'u worker \<Rightarrow> bool" where
  "stays w w' \<longleftrightarrow> current_fiber w' = current_fiber w \<and> worker_fibers w' = worker_fibers w \<and> fiber_cont w' = fiber_cont w"

definition hops :: "'u worker \<Rightarrow> 'u worker \<Rightarrow> bool" where
  "hops w w' \<longleftrightarrow> (\<exists>here. let to = current_fiber w' in
     (worker_fibers w' = worker_fibers w \<and> fiber_cont w' = (fiber_cont w)(current_fiber w := here) \<or>
      worker_fibers w' = worker_fibers w + 1 \<and> to = worker_fibers w' \<and>
        fiber_cont w' = (fiber_cont w)(to := NotStarted, current_fiber w := here)) \<and>
     wpc w' = resume_pc (fiber_cont w' to))"

lemma stays_refl [simp]: "stays w w"
  by (simp add: stays_def)

lemma stays_upd [simp]:
  "stays u (w\<lparr>wpc := p\<rparr>) = stays u w" "stays u (w\<lparr>work_num := n\<rparr>) = stays u w"
  "stays u (w\<lparr>work_num_blocked_fibers := n\<rparr>) = stays u w" "stays u (w\<lparr>work_fibers := fs\<rparr>) = stays u w"
  "stays u (w\<lparr>work_waiting := q\<rparr>) = stays u w" "stays u (w\<lparr>work_notify_added := b\<rparr>) = stays u w"
  "stays u (w\<lparr>idle_fibers := i\<rparr>) = stays u w" "stays u (w\<lparr>fiber_state := g\<rparr>) = stays u w"
  "stays u (w\<lparr>wait_result := x\<rparr>) = stays u w" "stays u (w\<lparr>shutdown := y\<rparr>) = stays u w"
  "stays u (w\<lparr>work_tasks := ts\<rparr>) = stays u w" "stays u (w\<lparr>executed := z\<rparr>) = stays u w"
  by (simp_all add: stays_def)

lemma stays_setFiberState [simp]: "stays u (setFiberState f st w) = stays u w"
  by (simp add: setFiberState_def)

lemma stays_hops: "stays u v \<Longrightarrow> hops v w \<Longrightarrow> hops u w"
  by (auto simp: stays_def hops_def Let_def)

lemma stays_trans: "stays u v \<Longrightarrow> stays v w \<Longrightarrow> stays u w"
  by (simp add: stays_def)

lemma stays_changeFiberState: "changeFiberState f a b w = Inr w' \<Longrightarrow> stays w w'"
  by (auto simp: changeFiberState_def)

lemma resume_place: "resume w = Inr w' \<Longrightarrow> stays w w' \<and> wpc w' = resume_pc (fiber_cont w (current_fiber w))"
  by (auto simp: resume_def Let_def changeFiberState_def split: cont.splits if_splits)

lemma switchToFiber_hops: "switchToFiber here to w = Inr w' \<Longrightarrow> hops w w'"
  using resume_place [of "w\<lparr>fiber_cont := (fiber_cont w)(current_fiber w := here), current_fiber := to\<rparr>" w']
  by (auto simp: switchToFiber_def hops_def stays_def Let_def split: if_splits)

lemma enqueueFiberTimeouts_stays: "enqueueFiberTimeouts now w = Inr w' \<Longrightarrow> stays w w'"
proof (induction now w arbitrary: w' rule: enqueueFiberTimeouts.induct)
  case (1 now w)
  then show ?case
    by (subst (asm) (2) enqueueFiberTimeouts.simps)
      (fastforce simp: changeFiberState_def stays_def split: option.splits)
qed

lemma suspend_switch_hops:
  assumes s: "suspend_switch c k t pick w = Inr w'"
  shows "hops w w'"
proof -
  let ?w1 = "w\<lparr>work_num_blocked_fibers := work_num_blocked_fibers w + 1\<rparr>"
  consider (queued) f fs where "work_fibers w = f # fs" | (idle) "work_fibers w = []" "idle_fibers w \<noteq> {}"
    | (new) "work_fibers w = []" "idle_fibers w = {}" by (cases "work_fibers w") auto
  then show ?thesis
  proof cases
    case queued
    let ?w2 = "?w1\<lparr>work_num := work_num w - 1, work_fibers := fs\<rparr>"
    have "switchToFiber (Suspended c k t) f ?w2 = Inr w'" using s queued by (simp add: suspend_switch_def Let_def)
    then have "hops ?w2 w'" by (rule switchToFiber_hops)
    then show ?thesis by (rule stays_hops [rotated]) simp
  next
    case idle
    let ?w2 = "?w1\<lparr>idle_fibers := idle_fibers w - {pick}\<rparr>"
    have "switchToFiber (Suspended c k t) pick ?w2 = Inr w'" using s idle by (simp add: suspend_switch_def Let_def)
    then have "hops ?w2 w'" by (rule switchToFiber_hops)
    then show ?thesis by (rule stays_hops [rotated]) simp
  next
    case new
    then have "switchToFiber (Suspended c k t) (worker_fibers w + 1) (snd (createWorkerFiber ?w1)) = Inr w'"
      using s by (simp add: suspend_switch_def createWorkerFiber_def Let_def)
    then show ?thesis
      using resume_place by (fastforce simp: switchToFiber_def createWorkerFiber_def hops_def stays_def Let_def)
  qed
qed

text \<open>A step goes on with the current fiber or switches to another one.\<close>

definition moves :: "'u worker \<Rightarrow> 'u worker \<Rightarrow> bool" where
  "moves w w' \<longleftrightarrow> stays w w' \<or> hops w w'"

lemma stays_moves [intro]: "stays w w' \<Longrightarrow> moves w w'"
  by (simp add: moves_def)

lemma hops_moves [intro]: "hops w w' \<Longrightarrow> moves w w'"
  by (simp add: moves_def)

lemma stays_then_moves: "stays u v \<Longrightarrow> moves v w \<Longrightarrow> moves u w"
  by (auto simp: moves_def intro: stays_trans stays_hops)

lemma work_wait_stays: "work_wait to w = Inr w' \<Longrightarrow> stays w w'"
  by (auto simp: work_wait_def split: if_splits)

lemma after_waitForWork_moves: "after_waitForWork s pick w = Inr w' \<Longrightarrow> moves w w'"
  by (auto simp: after_waitForWork_def runUntilIdle_begin_def intro: suspend_switch_hops split: site.splits)

lemma waitForWork_moves: "waitForWork s pick w = Inr w' \<Longrightarrow> moves w w'"
  by (auto simp: waitForWork_def intro: after_waitForWork_moves work_wait_stays split: if_splits mode.splits)

lemma waitForWork_wake_moves:
  assumes "waitForWork_wake s now pick w = Inr w'"
  shows "moves w w'"
proof -
  let ?w1 = "w\<lparr>work_notify_added := False\<rparr>"
  obtain w2 where w2: "(if wf_bool (work_waiting ?w1) then enqueueFiberTimeouts now ?w1 else Inr ?w1) = Inr w2"
    "after_waitForWork s pick w2 = Inr w'"
    using assms by (auto simp: waitForWork_wake_def Let_def split: if_splits)
  have "stays ?w1 w2" using w2(1) by (auto intro: enqueueFiberTimeouts_stays split: if_splits)
  then have "stays w w2" by (rule stays_trans [rotated]) simp
  then show ?thesis by (rule stays_then_moves) (rule after_waitForWork_moves [OF w2(2)])
qed

lemma suspend_moves:
  assumes "suspend c k t pick w = Inr w'"
  shows "moves w w'"
proof -
  obtain w2 where "waitForWork (SSuspend c k t) pick w2 = Inr w'" "stays w w2"
    using assms by (auto simp: suspend_def dest: stays_changeFiberState split: option.splits)
  then show ?thesis by (blast intro: stays_then_moves waitForWork_moves)
qed

lemma wait_pred_moves: "wait_pred c t pv pick w = Inr w' \<Longrightarrow> moves w w'"
  by (auto simp: wait_pred_def intro: suspend_moves split: if_splits)

lemma stays_run_body: "stays w (run_body b (w\<lparr>work_num := n, work_tasks := ts\<rparr>))"
  by (simp add: run_body_def split: body.split)

lemma run_begin_stays: "run_begin w = Inr w' \<Longrightarrow> stays w w'"
  by (auto simp: run_begin_def intro: work_wait_stays split: mode.splits)

lemma run_wake_stays: "run_wake w = Inr w' \<Longrightarrow> stays w w'"
  by (auto simp: run_wake_def)

lemma runUntilShutdown_moves: "runUntilShutdown pick w = Inr w' \<Longrightarrow> moves w w'"
  by (auto simp: runUntilShutdown_def dest: switchToFiber_hops intro: waitForWork_moves split: if_splits)

lemma wait_after_suspend_moves: "wait_after_suspend c k t now pv pick w = Inr w' \<Longrightarrow> moves w w'"
  by (auto simp: wait_after_suspend_def intro: wait_pred_moves split: wait_kind.splits if_splits)

lemma runUntilIdle_moves:
  assumes "runUntilIdle w = Inr w'"
  shows "moves w w'"
proof (cases "work_fibers w")
  case Nil
  then show ?thesis
    using assms by (auto simp: runUntilIdle_def stays_run_body split: list.splits)
next
  case (Cons f fs)
  let ?w2 = "w\<lparr>work_num := work_num w - 1, work_fibers := fs, fiber_state := (fiber_state w)(current_fiber w := Idle),
    idle_fibers := insert (current_fiber w) (idle_fibers w)\<rparr>"
  have "switchToFiber Parked f ?w2 = Inr w'" using assms Cons by (auto simp: runUntilIdle_def Let_def changeFiberState_def)
  then have "hops ?w2 w'" by (rule switchToFiber_hops)
  then show ?thesis by (intro hops_moves stays_hops [of w ?w2 w']) simp_all
qed

lemma enqueue_fiber_stays: "enqueue_fiber f w = Inr (w', b) \<Longrightarrow> stays w w'"
  by (auto simp: enqueue_fiber_def Let_def split: fstate.splits)

lemma steal_stays: "stays w (fst (steal locked w))"
  by (simp add: steal_def split: list.split)

lemma tstep_moves:
  assumes "tstep w (Inr w')"
  shows "moves w w'"
  using assms
proof cases
  case ts_run
  then show ?thesis by (metis run_begin_stays stays_moves)
next
  case ts_run_wake
  then show ?thesis by (metis run_wake_stays stays_moves)
next
  case ts_loop
  then show ?thesis by (metis runUntilShutdown_moves)
next
  case ts_spin_return
  then show ?thesis by (metis work_wait_stays stays_moves)
qed (auto simp: wait_plain_def stop_single_def
    intro: waitForWork_wake_moves runUntilIdle_moves suspend_moves wait_pred_moves wait_after_suspend_moves)

lemma wstep_moves:
  assumes "wstep w (Inr w')"
  shows "moves w w'"
  using assms
proof cases
  case (ws_enqueue_fiber f)
  then show ?thesis by (cases "enqueue_fiber f w") (auto intro: stays_moves [OF enqueue_fiber_stays])
qed (auto simp: spinForWork_stolen_def enqueue_task_def enqueueAndUnlock_def steal_stays intro: tstep_moves)

text \<open>What a switch leaves alone: the places of the other fibers.\<close>

lemma moves_cont:
  assumes "moves w w'" "current_fiber w \<le> worker_fibers w"
  shows "\<And>f. f \<le> worker_fibers w \<Longrightarrow> f \<noteq> current_fiber w \<Longrightarrow> fiber_cont w' f = fiber_cont w f"
    "worker_fibers w' = worker_fibers w \<or> worker_fibers w' = Suc (worker_fibers w) \<and> current_fiber w' = Suc (worker_fibers w)"
    "current_fiber w' \<noteq> current_fiber w \<Longrightarrow> wpc w' = resume_pc (fiber_cont w' (current_fiber w'))"
  using assms by (auto simp: moves_def stays_def hops_def Let_def)

section \<open>The queue of fibers\<close>

text \<open>A step adds fibers at the end of the queue, and perhaps takes the first one, which is then the current fiber.\<close>

definition appends :: "'u worker \<Rightarrow> 'u worker \<Rightarrow> bool" where
  "appends w w' \<longleftrightarrow> (\<exists>zs. work_fibers w' = work_fibers w @ zs)"

definition serves :: "'u worker \<Rightarrow> 'u worker \<Rightarrow> bool" where
  "serves w w' \<longleftrightarrow> (\<exists>zs. work_fibers w @ zs = current_fiber w' # work_fibers w')"

definition queues :: "'u worker \<Rightarrow> 'u worker \<Rightarrow> bool" where
  "queues w w' \<longleftrightarrow> appends w w' \<or> serves w w'"

lemma same_appends [simp, intro]: "work_fibers w' = work_fibers w \<Longrightarrow> appends w w'"
  by (simp add: appends_def)

lemma appends_queues [intro]: "appends w w' \<Longrightarrow> queues w w'"
  by (simp add: queues_def)

lemma same_queues [simp]: "work_fibers w' = work_fibers w \<Longrightarrow> queues w w'"
  by (simp add: queues_def)

lemma appends_then_queues:
  assumes "appends u v" "queues v w"
  shows "queues u w"
proof -
  obtain zs where v: "work_fibers v = work_fibers u @ zs" using assms(1) by (auto simp: appends_def)
  from assms(2) show ?thesis unfolding queues_def appends_def serves_def v append_assoc by blast
qed

lemma resume_queue: "resume w = Inr w' \<Longrightarrow> work_fibers w' = work_fibers w \<and> current_fiber w' = current_fiber w"
  by (auto simp: resume_def Let_def changeFiberState_def setFiberState_def split: cont.splits if_splits)

lemma switchToFiber_queue: "switchToFiber here to w = Inr w' \<Longrightarrow> work_fibers w' = work_fibers w \<and> current_fiber w' = to"
  by (auto simp: switchToFiber_def dest: resume_queue)

lemma enqueueFiberTimeouts_queue: "enqueueFiberTimeouts now w = Inr w' \<Longrightarrow> appends w w'"
proof (induction now w arbitrary: w' rule: enqueueFiberTimeouts.induct)
  case (1 now w)
  then show ?case
    by (subst (asm) (2) enqueueFiberTimeouts.simps)
      (fastforce simp: changeFiberState_def appends_def split: option.splits)
qed

lemma suspend_switch_queue: "suspend_switch c k t pick w = Inr w' \<Longrightarrow> queues w w'"
  by (auto simp: suspend_switch_def createWorkerFiber_def Let_def queues_def appends_def serves_def dest!: switchToFiber_queue
      split: list.splits if_splits)

lemma work_wait_queue: "work_wait to w = Inr w' \<Longrightarrow> appends w w'"
  by (auto simp: work_wait_def split: if_splits)

lemma after_waitForWork_queue: "after_waitForWork s pick w = Inr w' \<Longrightarrow> queues w w'"
  by (auto simp: after_waitForWork_def runUntilIdle_begin_def intro: suspend_switch_queue split: site.splits)

lemma waitForWork_queue: "waitForWork s pick w = Inr w' \<Longrightarrow> queues w w'"
  by (auto simp: waitForWork_def intro: after_waitForWork_queue work_wait_queue split: if_splits mode.splits)

lemma waitForWork_wake_queue:
  assumes "waitForWork_wake s now pick w = Inr w'"
  shows "queues w w'"
proof -
  let ?w1 = "w\<lparr>work_notify_added := False\<rparr>"
  obtain w2 where w2: "(if wf_bool (work_waiting ?w1) then enqueueFiberTimeouts now ?w1 else Inr ?w1) = Inr w2"
    "after_waitForWork s pick w2 = Inr w'"
    using assms by (auto simp: waitForWork_wake_def Let_def split: if_splits)
  have "appends ?w1 w2" using w2(1) by (auto intro: enqueueFiberTimeouts_queue split: if_splits)
  then have "appends w w2" by (simp add: appends_def)
  then show ?thesis by (rule appends_then_queues) (rule after_waitForWork_queue [OF w2(2)])
qed

lemma suspend_queue:
  assumes "suspend c k t pick w = Inr w'"
  shows "queues w w'"
proof -
  have changed: "work_fibers w2 = work_fibers w" if "changeFiberState f a b w = Inr w2" for f a b w2
    using that by (auto simp: changeFiberState_def)
  obtain w2 where "waitForWork (SSuspend c k t) pick w2 = Inr w'" "appends w w2"
    using assms by (fastforce simp: suspend_def dest: changed split: option.splits)
  then show ?thesis by (blast intro: appends_then_queues waitForWork_queue)
qed

lemma wait_pred_queue: "wait_pred c t pv pick w = Inr w' \<Longrightarrow> queues w w'"
  by (auto simp: wait_pred_def intro: suspend_queue split: if_splits)

lemma wait_after_suspend_queue: "wait_after_suspend c k t now pv pick w = Inr w' \<Longrightarrow> queues w w'"
  by (auto simp: wait_after_suspend_def intro: wait_pred_queue split: wait_kind.splits if_splits)

lemma runUntilShutdown_queue: "runUntilShutdown pick w = Inr w' \<Longrightarrow> queues w w'"
  by (auto simp: runUntilShutdown_def dest: switchToFiber_queue intro: waitForWork_queue split: if_splits)

text \<open>\<open>runUntilIdle\<close> takes the first fiber if there is one.\<close>

lemma runUntilIdle_takes:
  assumes "work_fibers w = f # fs" "runUntilIdle w = Inr w'"
  shows "current_fiber w' = f \<and> work_fibers w' = fs \<and> wpc w' = resume_pc (fiber_cont w f)"
proof -
  obtain w2 where w2: "f \<noteq> current_fiber w" "switchToFiber Parked f w2 = Inr w'" "work_fibers w2 = fs"
    "fiber_cont w2 = fiber_cont w" "current_fiber w2 = current_fiber w"
    using assms by (fastforce simp: runUntilIdle_def Let_def changeFiberState_def)
  have "wpc w' = resume_pc (((fiber_cont w)(current_fiber w := Parked)) f)"
    using w2 resume_place [of "w2\<lparr>fiber_cont := (fiber_cont w)(current_fiber w := Parked), current_fiber := f\<rparr>" w']
    by (auto simp: switchToFiber_def)
  then show ?thesis using w2 switchToFiber_queue [OF w2(2)] by simp
qed

lemma run_body_queue [simp]: "work_fibers (run_body b w) = work_fibers w"
  by (simp add: run_body_def split: body.split)

lemma runUntilIdle_queue: "runUntilIdle w = Inr w' \<Longrightarrow> queues w w'"
proof (cases "work_fibers w")
  case Nil
  moreover assume "runUntilIdle w = Inr w'"
  ultimately show ?thesis by (auto simp: runUntilIdle_def split: list.splits)
next
  case (Cons f fs)
  moreover assume "runUntilIdle w = Inr w'"
  ultimately show ?thesis using runUntilIdle_takes [OF Cons] by (auto simp: queues_def serves_def intro: exI [of _ "[]"])
qed

lemma enqueue_fiber_queue: "enqueue_fiber f w = Inr (w', b) \<Longrightarrow> appends w w'"
  by (auto simp: enqueue_fiber_def setFiberState_def appends_def Let_def split: fstate.splits)

lemma steal_queue [simp]: "work_fibers (fst (steal locked w)) = work_fibers w"
  by (simp add: steal_def split: list.split)

lemma run_begin_queue: "run_begin w = Inr w' \<Longrightarrow> appends w w'"
  by (auto simp: run_begin_def intro: work_wait_queue split: mode.splits)

lemma run_wake_queue: "run_wake w = Inr w' \<Longrightarrow> appends w w'"
  by (auto simp: run_wake_def)

lemma tstep_queue:
  assumes "tstep w (Inr w')"
  shows "queues w w'"
  using assms
proof cases
  case ts_run
  then show ?thesis by (metis run_begin_queue appends_queues)
next
  case ts_run_wake
  then show ?thesis by (metis run_wake_queue appends_queues)
next
  case ts_loop
  then show ?thesis by (metis runUntilShutdown_queue)
next
  case ts_spin_return
  then show ?thesis by (metis work_wait_queue appends_queues)
qed (auto simp: wait_plain_def stop_single_def
    intro: waitForWork_wake_queue runUntilIdle_queue suspend_queue wait_pred_queue wait_after_suspend_queue)

lemma wstep_queue:
  assumes "wstep w (Inr w')"
  shows "queues w w'"
  using assms
proof cases
  case (ws_enqueue_fiber f)
  then show ?thesis by (cases "enqueue_fiber f w") (auto intro: appends_queues [OF enqueue_fiber_queue])
qed (auto simp: spinForWork_stolen_def enqueue_task_def enqueueAndUnlock_def intro: tstep_queue)

section \<open>Property\<close>

text \<open>C11. The queue of fibers is served in order: in every step a fiber in the queue either keeps all fibers that are ahead of it, or the first fiber of the
  queue becomes the current one and the fiber moves up by one place, or runs itself if it was the first; no fiber is ever put in front of it. A worker at the head of \<open>runUntilIdle\<close>
  takes the first fiber in its next step, and it goes on at the place where it was suspended.\<close>

theorem fiber_queue_fair:
  assumes "worker_reach w" "work_fibers w = xs @ f # ys"
  shows "(\<forall>w'. wstep w (Inr w') \<longrightarrow> (\<exists>zs. work_fibers w' = xs @ f # ys @ zs \<or>
      (case xs of [] \<Rightarrow> current_fiber w' = f \<and> work_fibers w' = ys @ zs
       | x # xs' \<Rightarrow> current_fiber w' = x \<and> work_fibers w' = xs' @ f # ys @ zs))) \<and>
    (\<forall>r. wpc w = PIdle \<and> tstep w r \<longrightarrow> (\<exists>w' g gs. r = Inr w' \<and> xs @ f # ys = g # gs \<and> work_fibers w' = gs \<and> current_fiber w' = g \<and>
       wpc w' = resume_pc (fiber_cont w g)))"
proof (intro conjI allI impI)
  fix w' assume "wstep w (Inr w')"
  then obtain zs where "work_fibers w' = work_fibers w @ zs \<or> work_fibers w @ zs = current_fiber w' # work_fibers w'"
    using wstep_queue unfolding queues_def appends_def serves_def by blast
  then show "\<exists>zs. work_fibers w' = xs @ f # ys @ zs \<or>
      (case xs of [] \<Rightarrow> current_fiber w' = f \<and> work_fibers w' = ys @ zs
       | x # xs' \<Rightarrow> current_fiber w' = x \<and> work_fibers w' = xs' @ f # ys @ zs)"
    using assms(2) by (intro exI [of _ zs]) (auto split: list.split)
next
  fix r assume "wpc w = PIdle \<and> tstep w r"
  then have r: "r = runUntilIdle w" by (auto elim: tstep.cases)
  have st: "wstep w r" using \<open>wpc w = PIdle \<and> tstep w r\<close> by (blast intro: ws_thread)
  then obtain w' where w': "r = Inr w'" using worker_system.reach_no_fault [OF assms(1)] ok_iff by metis
  obtain g gs where g: "work_fibers w = g # gs" using assms(2) by (metis append_is_Nil_conv list.distinct(1) neq_Nil_conv)
  then have "current_fiber w' = g \<and> work_fibers w' = gs \<and> wpc w' = resume_pc (fiber_cont w g)"
    using runUntilIdle_takes r w' by metis
  then show "\<exists>w' g gs. r = Inr w' \<and> xs @ f # ys = g # gs \<and> work_fibers w' = gs \<and> current_fiber w' = g \<and>
       wpc w' = resume_pc (fiber_cont w g)" using w' g assms(2) by auto
qed

section \<open>Example\<close>

text \<open>
  A thread waits outside of any task; its worker, which has work, creates a fiber for it; the fiber runs the task, during which the main fiber
  is notified, and then goes idle: the thread continues.
\<close>

definition run_task :: "unit body task" where
  "run_task = task_new (User ()) FlagNone"

definition run_waiting :: "unit worker" where
  "run_waiting = (worker_start SingleThreaded 0)\<lparr>fiber_state := (\<lambda>_. Running)(0 := Yielded), work_notify_added := True,
     wpc := PWait (SSuspend Outside WaitPlain None) None\<rparr>"

definition run_queued :: "unit worker" where
  "run_queued = run_waiting\<lparr>work_tasks := [run_task], work_num := 1\<rparr>"

definition run_created :: "unit worker" where
  "run_created = run_queued\<lparr>work_notify_added := False, work_num_blocked_fibers := 1, worker_fibers := 1,
     fiber_cont := (\<lambda>_. NotStarted)(0 := Suspended Outside WaitPlain None), current_fiber := 1, wpc := PRun\<rparr>"

definition run_started :: "unit worker" where
  "run_started = run_created\<lparr>work_tasks := [], work_num := 0, executed := [User ()], wpc := PTask\<rparr>"

definition run_notified :: "unit worker" where
  "run_notified = run_started\<lparr>work_fibers := [0], work_num := 1, fiber_state := (\<lambda>_. Running)(0 := Queued)\<rparr>"

definition run_back :: "unit worker" where
  "run_back = run_notified\<lparr>work_fibers := [], work_num := 0, fiber_state := (\<lambda>_. Running)(1 := Idle), idle_fibers := {1},
     fiber_cont := (fiber_cont run_notified)(1 := Parked), current_fiber := 0, work_num_blocked_fibers := 0,
     wpc := PWaitRet Outside WaitPlain None\<rparr>"

lemmas run_defs = run_waiting_def run_queued_def run_created_def run_started_def run_notified_def run_back_def run_task_def
  worker_start_def main_fiber_def queue_room_def fiber_room_def pick_ok_def wf_new_def wf_bool_def

lemma run_steps:
  "wstep (worker_start SingleThreaded 0) (Inr run_waiting)" "wstep run_waiting (Inr run_queued)" "wstep run_queued (Inr run_created)"
  "wstep run_created (Inr (run_created\<lparr>wpc := PLoop\<rparr>))"
  "wstep (run_created\<lparr>wpc := PLoop\<rparr>) (Inr (run_created\<lparr>wpc := PIdle\<rparr>))" "wstep (run_created\<lparr>wpc := PIdle\<rparr>) (Inr run_started)"
  "wstep run_started (Inr run_notified)" "wstep run_notified (Inr (run_notified\<lparr>wpc := PIdle\<rparr>))"
  "wstep (run_notified\<lparr>wpc := PIdle\<rparr>) (Inr run_back)"
proof -
  have "wait_plain Outside None 0 (worker_start SingleThreaded 0) = Inr run_waiting"
    by (simp add: run_defs wait_plain_def suspend_def changeFiberState_def waitForWork_def work_wait_def)
  then show "wstep (worker_start SingleThreaded 0) (Inr run_waiting)"
    using ts_wait_plain [of "worker_start SingleThreaded 0 :: unit worker" Outside 0 None] by (auto simp: run_defs intro: ws_thread)
  have "fst (enqueue_task run_task run_waiting) = run_queued" by (simp add: run_defs enqueue_task_def enqueueAndUnlock_def)
  then show "wstep run_waiting (Inr run_queued)"
    using ws_enqueue_task [of run_waiting run_task] by (simp add: run_defs task_bool_def task_new_def)
  have "waitForWork_wake (SSuspend Outside WaitPlain None) 0 0 run_queued = Inr run_created"
    by (simp add: run_defs waitForWork_wake_def after_waitForWork_def suspend_switch_def createWorkerFiber_def switchToFiber_def
        resume_def Let_def fun_eq_iff)
  then show "wstep run_queued (Inr run_created)"
    using ts_wake [of run_queued "SSuspend Outside WaitPlain None" None 0 0 0]
    by (auto simp: run_defs waitForWork_ready_def intro: ws_thread)
  have "run_begin run_created = Inr (run_created\<lparr>wpc := PLoop\<rparr>)" by (simp add: run_defs run_begin_def)
  then show "wstep run_created (Inr (run_created\<lparr>wpc := PLoop\<rparr>))"
    using ts_run [of run_created] by (auto simp: run_created_def intro: ws_thread)
  have "runUntilShutdown 0 (run_created\<lparr>wpc := PLoop\<rparr>) = Inr (run_created\<lparr>wpc := PIdle\<rparr>)"
    by (simp add: run_defs runUntilShutdown_def waitForWork_def after_waitForWork_def runUntilIdle_begin_def)
  then show "wstep (run_created\<lparr>wpc := PLoop\<rparr>) (Inr (run_created\<lparr>wpc := PIdle\<rparr>))"
    using ts_loop [of "run_created\<lparr>wpc := PLoop\<rparr>" 0] by (auto simp: run_defs intro: ws_thread)
  have "runUntilIdle (run_created\<lparr>wpc := PIdle\<rparr>) = Inr run_started"
    by (simp add: run_defs runUntilIdle_def task_call_def task_new_def run_body_def)
  then show "wstep (run_created\<lparr>wpc := PIdle\<rparr>) (Inr run_started)"
    using ts_idle [of "run_created\<lparr>wpc := PIdle\<rparr>"] by (auto intro: ws_thread)
  have "rbind (enqueue_fiber 0 run_started) (\<lambda>r. Inr (fst r)) = Inr run_notified"
    by (simp add: run_defs enqueue_fiber_def setFiberState_def wf_contains_def Let_def)
  moreover have "wstep run_started (rbind (enqueue_fiber 0 run_started) (\<lambda>r. Inr (fst r)))"
    by (rule ws_enqueue_fiber) (simp_all add: run_defs)
  ultimately show "wstep run_started (Inr run_notified)" by (simp only:)
  show "wstep run_notified (Inr (run_notified\<lparr>wpc := PIdle\<rparr>))" by (intro ws_thread ts_task_done) (simp add: run_defs)
  have "runUntilIdle (run_notified\<lparr>wpc := PIdle\<rparr>) = Inr run_back"
    by (simp add: run_defs runUntilIdle_def changeFiberState_def switchToFiber_def resume_def setFiberState_def Let_def fun_eq_iff)
  then show "wstep (run_notified\<lparr>wpc := PIdle\<rparr>) (Inr run_back)"
    using ts_idle [of "run_notified\<lparr>wpc := PIdle\<rparr>"] by (auto intro: ws_thread)
qed

lemma run_notified_reached: "worker_reach (run_notified\<lparr>wpc := PIdle\<rparr>)"
proof -
  have "worker_reach (worker_start SingleThreaded 0 :: unit worker)" by (rule reach_init) (auto simp: worker_init_def)
  then show ?thesis using run_steps(1-8) by (meson reach_step)
qed

theorem fiber_queue_fair_witness:
  "\<exists>w'. runUntilIdle (run_notified\<lparr>wpc := PIdle\<rparr>) = Inr w' \<and> work_fibers w' = [] \<and> current_fiber w' = 0 \<and>
     wpc w' = PWaitRet Outside WaitPlain None"
proof -
  have "\<exists>w' g gs. runUntilIdle (run_notified\<lparr>wpc := PIdle\<rparr>) = Inr w' \<and> [] @ 0 # [] = g # gs \<and> work_fibers w' = gs \<and> current_fiber w' = g \<and>
      wpc w' = resume_pc (fiber_cont (run_notified\<lparr>wpc := PIdle\<rparr>) g)"
    using fiber_queue_fair [OF run_notified_reached, of "[]" 0 "[]"] ts_idle [of "run_notified\<lparr>wpc := PIdle\<rparr>"]
    by (simp add: run_notified_def)
  then show ?thesis by (simp add: run_defs)
qed

end
