(* ===== verification/Scheduler_System.thy ===== *)
theory Scheduler_System
  imports Scheduler_Proofs Worker_Tasks
begin

text \<open>
  All worker threads of a scheduler together: the loops of \<open>Worker_Model\<close> run side by side over the shared \<open>scheduler\<close>, tasks
  go from one worker to another by stealing, threads schedule tasks, and \<open>~Scheduler\<close> stops the workers
  (\<open>scheduler.cpp\<close> 120--189, 332--371, 537--556, 582--608).

  The record \<open>system\<close> adds to the scheduler what its threads hold on their stacks and in the kernel:
  \<^item> \<open>sys_carry i\<close>: the variable \<open>stolen\<close> of \<open>spinForWork\<close> on worker \<open>i\<close>, a task between two queues;
  \<^item> \<open>sys_check i\<close>: for a worker in \<open>Work::wait\<close>, whether it is about to evaluate its condition, at the begin of the wait or
    after a notification of \<open>added\<close>; otherwise it sleeps;
  \<^item> \<open>sys_dtor\<close>: how far the destructor is.
  The lists \<open>sys_given\<close> and \<open>sys_late\<close> are not in the code: the bodies of all tasks given to workers so far, and those
  given to a worker whose thread had already ended.

  The parameter \<open>spurious\<close> of the steps is whether the condition variables may wake a thread without a notification. Workers of
  bound threads exchange no tasks with the worker threads; what a bound thread does with its own worker is
  left open here.
\<close>

section \<open>State\<close>

datatype dtor = DtorNot | DtorStop "nat list" | DtorJoin nat "nat list" | DtorDone

record 'u system =
  sys_sch :: "'u scheduler"
  sys_carry :: "nat \<Rightarrow> 'u body task option"
  sys_check :: "nat \<Rightarrow> bool"
  sys_dtor :: dtor
  sys_given :: "'u body list"
  sys_late :: "'u body list"

definition system_start :: "'u scheduler \<Rightarrow> 'u system" where
  "system_start sch = \<lparr>sys_sch = sch, sys_carry = (\<lambda>_. None), sys_check = (\<lambda>_. False), sys_dtor = DtorNot,
     sys_given = [], sys_late = []\<rparr>"

text \<open>The mutex of a worker is free at the places of \<open>mutex_free\<close> and when its thread has left \<open>run\<close>.\<close>

definition lockable :: "pc \<Rightarrow> bool" where
  "lockable p \<longleftrightarrow> mutex_free p \<or> p = PExit"

definition put_worker :: "nat \<Rightarrow> 'u worker \<Rightarrow> 'u system \<Rightarrow> 'u system" where
  "put_worker i w s = s\<lparr>sys_sch := set_worker (WThread i) w (sys_sch s)\<rparr>"

section \<open>The threads of the workers\<close>

fun in_work_wait :: "pc \<Rightarrow> bool" where
  "in_work_wait (PRunWait d) = True"
| "in_work_wait (PWait s d) = True"
| "in_work_wait _ = False"

fun spins :: "pc \<Rightarrow> bool" where
  "spins (PSpin s b) = True"
| "spins _ = False"

text \<open>The condition of \<open>Work::wait\<close>, as \<open>run\<close> and as \<open>waitForWork\<close> pass it.\<close>

fun wait_cond :: "pc \<Rightarrow> 'u worker \<Rightarrow> bool" where
  "wait_cond (PRunWait d) w = run_ready None 0 w"
| "wait_cond (PWait s d) w = waitForWork_ready None 0 w"
| "wait_cond _ w = True"

text \<open>Whether the thread can go on: it starts with \<open>sy_begin\<close>, adds a stolen task before it leaves \<open>spinForWork\<close>, and sleeps
  until it is notified, unless its wait has a deadline.\<close>

fun may_move :: "bool \<Rightarrow> bool \<Rightarrow> 'u body task option \<Rightarrow> pc \<Rightarrow> bool" where
  "may_move spurious check carry PStart = False"
| "may_move spurious check carry (PSpin s b) = (carry = None)"
| "may_move spurious check carry (PRunWait None) = (check \<or> spurious)"
| "may_move spurious check carry (PWait s None) = (check \<or> spurious)"
| "may_move spurious check carry _ = True"

text \<open>The task of \<open>stop\<close>: \<open>shutdown = true\<close> on the worker whose \<open>this\<close> it captured.\<close>

definition set_shutdown :: "32 word \<Rightarrow> 'u scheduler \<Rightarrow> 'u scheduler" where
  "set_shutdown j s =
     (case worker_at (WThread (unat j)) s of
        Inr w \<Rightarrow> set_worker (WThread (unat j)) (w\<lparr>shutdown := True\<rparr>) s
      | Inl e \<Rightarrow> s)"

fun body_effect :: "'u body \<Rightarrow> 'u scheduler \<Rightarrow> 'u scheduler" where
  "body_effect (User u) s = s"
| "body_effect (SetShutdown j) s = set_shutdown j s"

text \<open>A step of worker \<open>i\<close> from \<open>w\<close> to \<open>w'\<close>, with what it does outside of the worker: \<open>waitForWork\<close> announces that it begins to
  spin, the body of a task may stop another worker, and a wait begins with the evaluation of its condition.\<close>

definition own_effect :: "nat \<Rightarrow> 'u worker \<Rightarrow> 'u worker \<Rightarrow> 'u system \<Rightarrow> 'u system" where
  "own_effect i w w' s =
     (let s1 = put_worker i w' s;
          s2 = (if spins (wpc w') then s1\<lparr>sys_sch := onBeginSpinning (int i) (sys_sch s1)\<rparr> else s1);
          s3 = s2\<lparr>sys_sch := fold body_effect (drop (length (executed w)) (executed w')) (sys_sch s2)\<rparr>
      in if in_work_wait (wpc w') then s3\<lparr>sys_check := (sys_check s3)(i := True)\<rparr> else s3)"

section \<open>Giving tasks to workers\<close>

text \<open>A notification of \<open>added\<close> of worker \<open>j\<close>.\<close>

definition notify_worker :: "nat \<Rightarrow> bool \<Rightarrow> 'u system \<Rightarrow> 'u system" where
  "notify_worker j notify s = s\<lparr>sys_check := (sys_check s)(j := sys_check s j \<or> notify)\<rparr>"

text \<open>What is recorded when worker \<open>j\<close>, which was \<open>v\<close>, got the task.\<close>

definition task_given :: "'u body task \<Rightarrow> nat \<Rightarrow> 'u worker \<Rightarrow> 'u system \<Rightarrow> 'u system" where
  "task_given t j v s =
     (let s1 = notify_worker j (work_notify_added v) s
      in s1\<lparr>sys_given := sys_given s @ bodies [t],
            sys_late := (if wpc v = PExit then sys_late s @ bodies [t] else sys_late s)\<rparr>)"

text \<open>The worker thread that gets a task from \<open>Scheduler::enqueue\<close>.\<close>

definition receiver :: "nat \<Rightarrow> bool list \<Rightarrow> 'u body task \<Rightarrow> 'u scheduler \<Rightarrow> nat option" where
  "receiver tid locks t s =
     (if task_is t SameThread
      then (case sch_current s tid of Some (WThread j) \<Rightarrow> Some j | _ \<Rightarrow> None)
      else enqueue_target locks s)"

text \<open>Who may call \<open>schedule\<close>: a bound thread, or the body of a task on a worker thread.\<close>

definition caller_ok :: "nat \<Rightarrow> 'u scheduler \<Rightarrow> bool" where
  "caller_ok tid s =
     (case sch_current s tid of
        None \<Rightarrow> False
      | Some (WSingle t) \<Rightarrow> True
      | Some (WThread k) \<Rightarrow> (case worker_at (WThread k) s of Inr u \<Rightarrow> wpc u = PTask | Inl e \<Rightarrow> False))"

definition user_task :: "'u body task \<Rightarrow> bool" where
  "user_task t = (case task_function t of Some (User u) \<Rightarrow> True | _ \<Rightarrow> False)"

section \<open>What the callers owe\<close>

text \<open>
  The conditions that the interface leaves to its callers. A thread binds a scheduler only while none is bound, and unbinds only what it has bound
  itself: a worker thread is bound by \<open>start\<close> and must not call \<open>unbind\<close>. \<open>caller_ok\<close> above is the condition of \<open>schedule\<close>. A notification is for a fiber
  that exists and is not parked in \<open>idle_fibers_\<close>: \<open>Worker::enqueue\<close> takes a parked fiber too, but the worker aborts when it dequeues it. The steps below
  are those of callers that keep to this; every operation still returns its result, so that no step is left out because it would fail.
\<close>

definition may_bind :: "nat \<Rightarrow> 'u scheduler \<Rightarrow> bool" where
  "may_bind tid s \<longleftrightarrow> sch_current s tid = None"

definition may_unbind :: "nat \<Rightarrow> 'u scheduler \<Rightarrow> bool" where
  "may_unbind tid s \<longleftrightarrow> (case sch_current s tid of Some (WSingle t) \<Rightarrow> True | _ \<Rightarrow> False)"

definition may_notify :: "nat \<Rightarrow> 'u worker \<Rightarrow> bool" where
  "may_notify f w \<longleftrightarrow> f \<le> worker_fibers w \<and> fiber_state w f \<noteq> Idle"

section \<open>The step relation\<close>

text \<open>The worker from which worker \<open>i\<close> tries to steal.\<close>

definition victim :: "64 word \<Rightarrow> 'u scheduler \<Rightarrow> nat" where
  "victim from s = unat from mod nat (cfg_count (sch_cfg s))"

inductive sstep :: "bool \<Rightarrow> 'u system \<Rightarrow> 'u system result \<Rightarrow> bool" for spurious where
  sy_begin: "worker_at (WThread i) (sys_sch s) = Inr w \<Longrightarrow> wpc w = PStart \<Longrightarrow> tstep w r \<Longrightarrow>
    sch_current (sys_sch s) tid = None \<Longrightarrow>
    sstep spurious s (rbind r (\<lambda>w'. Inr ((put_worker i w' s)
      \<lparr>sys_sch := worker_thread_begin tid i (set_worker (WThread i) w' (sys_sch s))\<rparr>)))"
| sy_own: "worker_at (WThread i) (sys_sch s) = Inr w \<Longrightarrow> may_move spurious (sys_check s i) (sys_carry s i) (wpc w) \<Longrightarrow>
    tstep w r \<Longrightarrow> sstep spurious s (rbind r (\<lambda>w'. Inr (own_effect i w w' s)))"
| sy_recheck: "worker_at (WThread i) (sys_sch s) = Inr w \<Longrightarrow> in_work_wait (wpc w) \<Longrightarrow> \<not> wait_cond (wpc w) w \<Longrightarrow>
    sstep spurious s (Inr (s\<lparr>sys_check := (sys_check s)(i := False)\<rparr>))"
| sy_steal: "worker_at (WThread i) (sys_sch s) = Inr w \<Longrightarrow> wpc w = PSpin st False \<Longrightarrow> sys_carry s i = None \<Longrightarrow>
    worker_at (WThread (victim from (sys_sch s))) (sys_sch s) = Inr v \<Longrightarrow> (locked \<Longrightarrow> lockable (wpc v)) \<Longrightarrow>
    sstep spurious s (rbind (stealWork i from locked (sys_sch s)) (\<lambda>r.
      Inr (s\<lparr>sys_sch := fst r, sys_carry := (sys_carry s)(i := snd r)\<rparr>)))"
| sy_stolen: "worker_at (WThread i) (sys_sch s) = Inr w \<Longrightarrow> wpc w = PSpin st False \<Longrightarrow> sys_carry s i = Some t \<Longrightarrow>
    queue_room w \<Longrightarrow>
    sstep spurious s (Inr ((put_worker i (spinForWork_stolen st t w) s)\<lparr>sys_carry := (sys_carry s)(i := None)\<rparr>))"
| sy_schedule: "caller_ok tid (sys_sch s) \<Longrightarrow> user_task t \<Longrightarrow> receiver tid locks t (sys_sch s) = Some j \<Longrightarrow>
    worker_at (WThread j) (sys_sch s) = Inr v \<Longrightarrow> lockable (wpc v) \<Longrightarrow> queue_room v \<Longrightarrow>
    schedule tid locks t (sys_sch s) = Some r \<Longrightarrow>
    sstep spurious s (rbind r (\<lambda>sch'. Inr (task_given t j v (s\<lparr>sys_sch := sch'\<rparr>))))"
| sy_notify: "worker_at (WThread i) (sys_sch s) = Inr w \<Longrightarrow> mutex_free (wpc w) \<Longrightarrow> may_notify f w \<Longrightarrow>
    queue_room w \<Longrightarrow>
    sstep spurious s (rbind (enqueue_fiber f w) (\<lambda>r. Inr (notify_worker i (snd r) (put_worker i (fst r) s))))"
| sy_end: "worker_at (WThread i) (sys_sch s) = Inr w \<Longrightarrow> wpc w = PExit \<Longrightarrow>
    sch_current (sys_sch s) tid = Some (WThread i) \<Longrightarrow>
    sstep spurious s (Inr (s\<lparr>sys_sch := worker_thread_end tid (sys_sch s)\<rparr>))"
| sy_bind: "sys_dtor s = DtorNot \<Longrightarrow> may_bind tid (sys_sch s) \<Longrightarrow>
    sstep spurious s (rbind (sched_bind tid (sys_sch s)) (\<lambda>sch'. Inr (s\<lparr>sys_sch := sch'\<rparr>)))"
| sy_unbind: "may_unbind tid (sys_sch s) \<Longrightarrow>
    sstep spurious s (rbind (sched_unbind tids tid w (sys_sch s)) (\<lambda>r. Inr (s\<lparr>sys_sch := fst r\<rparr>)))"
| sy_destruct: "sys_dtor s = DtorNot \<Longrightarrow> (\<And>tid. sch_by_tid (sys_sch s) tid = None) \<Longrightarrow>
    sstep spurious s (Inr (s\<lparr>sys_dtor := DtorStop (destruct_order (sys_sch s))\<rparr>))"
| sy_stop: "sys_dtor s = DtorStop (i # is) \<Longrightarrow> worker_at (WThread i) (sys_sch s) = Inr v \<Longrightarrow> lockable (wpc v) \<Longrightarrow>
    queue_room v \<Longrightarrow>
    sstep spurious s (rbind (give_task (stop_task (of_nat i)) (WThread i) (sys_sch s)) (\<lambda>sch'.
      Inr (task_given (stop_task (of_nat i)) i v (s\<lparr>sys_sch := sch', sys_dtor := DtorJoin i is\<rparr>))))"
| sy_join: "sys_dtor s = DtorJoin i is \<Longrightarrow> worker_at (WThread i) (sys_sch s) = Inr v \<Longrightarrow> wpc v = PExit \<Longrightarrow>
    (\<And>tid. sch_current (sys_sch s) tid \<noteq> Some (WThread i)) \<Longrightarrow> sstep spurious s (Inr (s\<lparr>sys_dtor := DtorStop is\<rparr>))"
| sy_destroyed: "sys_dtor s = DtorStop [] \<Longrightarrow> sstep spurious s (Inr (s\<lparr>sys_dtor := DtorDone\<rparr>))"

definition system_init :: "'u system \<Rightarrow> bool" where
  "system_init s \<longleftrightarrow> (\<exists>cpus c sch. scheduler_new cpus c = Inr sch \<and> 0 < cfg_count c \<and> s = system_start sch)"

abbreviation system_reach :: "bool \<Rightarrow> 'u system \<Rightarrow> bool" where
  "system_reach spurious \<equiv> reach system_init (sstep spurious)"

end
