(* ===== verification/Scheduler_System_Proofs.thy ===== *)
theory Scheduler_System_Proofs
  imports Scheduler_System
begin

text \<open>
  Invariants of the system of all workers: every worker thread keeps the invariant of \<open>Worker_Invariant\<close> until it has ended, a
  task in flight belongs to a spinning worker, and no task is lost or duplicated on the way.
\<close>

section \<open>Views\<close>

text \<open>Worker \<open>i\<close> of a state; every step changes the workers by a function of their index.\<close>

definition wk :: "'u scheduler \<Rightarrow> nat \<Rightarrow> 'u worker" where
  "wk s i = the (sch_workers s ! i)"

definition view :: "(nat \<Rightarrow> 'u worker \<Rightarrow> 'u worker) \<Rightarrow> 'u scheduler \<Rightarrow> 'u scheduler \<Rightarrow> bool" where
  "view g s s' \<longleftrightarrow> sched_ok s' \<and> wcount s' = wcount s \<and>
     (\<forall>k < MaxWorkerThreads. sch_workers s' ! k = map_option (g k) (sch_workers s ! k))"

definition at_worker :: "nat \<Rightarrow> 'u worker \<Rightarrow> nat \<Rightarrow> 'u worker \<Rightarrow> 'u worker" where
  "at_worker i w k v = (if k = i then w else v)"

lemma at_worker_simps [simp]: "at_worker i w i v = w" "k \<noteq> i \<Longrightarrow> at_worker i w k v = v"
  by (simp_all add: at_worker_def)

lemma at_worker_other: "k \<noteq> i \<Longrightarrow> at_worker i w k = (\<lambda>v. v)"
  by (rule ext) simp

definition array_ok :: "'u scheduler \<Rightarrow> bool" where
  "array_ok s \<longleftrightarrow> sched_ok s \<and> (\<forall>i < MaxWorkerThreads. wcount s \<le> i \<longrightarrow> sch_workers s ! i = None)"

lemma array_okD:
  assumes "array_ok s"
  shows "sched_ok s" "wcount s \<le> MaxWorkerThreads" "length (sch_workers s) = MaxWorkerThreads"
    "\<And>i. i < wcount s \<Longrightarrow> sch_workers s ! i = Some (wk s i)"
  using assms by (auto simp: array_ok_def sched_ok_def wk_def)

lemma worker_at_wk:
  assumes "array_ok s"
  shows "worker_at (WThread i) s = Inr w \<longleftrightarrow> i < wcount s \<and> w = wk s i"
proof
  assume w: "worker_at (WThread i) s = Inr w"
  then have len: "i < length (sch_workers s)" "sch_workers s ! i = Some w"
    by (auto simp: worker_at_def split: if_splits option.splits)
  then have "i < wcount s" using assms array_okD(3) [OF assms] by (cases "i < wcount s") (auto simp: array_ok_def)
  with len show "i < wcount s \<and> w = wk s i" by (simp add: wk_def)
next
  assume i: "i < wcount s \<and> w = wk s i"
  then have "i < length (sch_workers s)" using array_okD(2,3) [OF assms] by simp
  then show "worker_at (WThread i) s = Inr w" using i array_okD(4) [OF assms] by (simp add: worker_at_def)
qed

lemma worker_at_in: "array_ok s \<Longrightarrow> i < wcount s \<Longrightarrow> worker_at (WThread i) s = Inr (wk s i)"
  by (simp add: worker_at_wk)

lemma view_wk: "view g s s' \<Longrightarrow> array_ok s \<Longrightarrow> i < wcount s \<Longrightarrow> wk s' i = g i (wk s i)"
  using array_okD(2) [of s] array_okD(4) [of s i] by (simp add: view_def wk_def [of s'])

lemma view_array: "view g s s' \<Longrightarrow> array_ok s \<Longrightarrow> array_ok s'"
  by (simp add: view_def array_ok_def)

lemma view_wcount: "view g s s' \<Longrightarrow> wcount s' = wcount s"
  by (simp add: view_def)

lemma view_trans: "view g s s1 \<Longrightarrow> view h s1 s2 \<Longrightarrow> view (\<lambda>k. h k \<circ> g k) s s2"
  by (simp add: view_def option.map_comp)

lemma view_same: "sched_ok s' \<Longrightarrow> sch_cfg s' = sch_cfg s \<Longrightarrow> sch_workers s' = sch_workers s \<Longrightarrow> view (\<lambda>_ v. v) s s'"
  by (simp add: view_def wcount_def option.map_ident)

lemma sched_ok_cong:
  "sch_cfg s' = sch_cfg s \<Longrightarrow> sch_workers s' = sch_workers s \<Longrightarrow> sch_spinning s' = sch_spinning s \<Longrightarrow> sched_ok s' = sched_ok s"
  by (simp add: sched_ok_def wcount_def)

lemma update_view:
  assumes "array_ok s" "i < wcount s" "sched_ok s'" "sch_cfg s' = sch_cfg s" "sch_workers s' = (sch_workers s)[i := Some w]"
  shows "view (at_worker i w) s s'"
proof -
  have "sch_workers s' ! k = map_option (at_worker i w k) (sch_workers s ! k)" if "k < MaxWorkerThreads" for k
    using that assms(2,5) array_okD(3,4) [OF assms(1)] by (cases "k = i") (auto simp: option.map_ident at_worker_other)
  then show ?thesis using assms(3,4) by (simp add: view_def wcount_def)
qed

lemma set_worker_view:
  assumes "array_ok s" "i < wcount s"
  shows "view (at_worker i w) s (set_worker (WThread i) w s)"
  by (rule update_view [OF assms sched_ok_set_worker [OF array_okD(1) [OF assms(1)] assms(2)]]) (simp_all add: set_worker_def)

lemma onBeginSpinning_view:
  assumes "array_ok s" "i < wcount s"
  shows "view (\<lambda>_ v. v) s (onBeginSpinning (int i) s)"
proof -
  have "sched_ok (onBeginSpinning (int i) s)"
    using array_okD(1) [OF assms(1)] assms(2) set_update_subset_insert [of "sch_spinning s" "unat (sch_next_spinning s) mod 8" "int i"]
    by (auto simp: onBeginSpinning_def sched_ok_def Let_def)
  then show ?thesis by (rule view_same) (simp_all add: onBeginSpinning_def Let_def)
qed

definition shut :: "bool \<Rightarrow> 'u worker \<Rightarrow> 'u worker" where
  "shut b v = (if b then v\<lparr>shutdown := True\<rparr> else v)"

lemma shut_simps [simp]:
  "wpc (shut b v) = wpc v" "work_tasks (shut b v) = work_tasks v" "executed (shut b v) = executed v"
  "own_id (shut b v) = own_id v" "wmode (shut b v) = wmode v" "work_num (shut b v) = work_num v"
  "work_num_blocked_fibers (shut b v) = work_num_blocked_fibers v" "work_fibers (shut b v) = work_fibers v"
  "shutdown (shut b v) = (shutdown v \<or> b)" "work_notify_added (shut b v) = work_notify_added v" "work_waiting (shut b v) = work_waiting v"
  by (simp_all add: shut_def)

lemma shut_False [simp]: "shut False = (\<lambda>v. v)"
  by (rule ext) (simp add: shut_def)

lemma shut_shut: "shut a (shut b v) = shut (a \<or> b) v"
  by (simp add: shut_def)

lemma unat_index: "k < MaxWorkerThreads \<Longrightarrow> unat (of_nat k :: 32 word) = k"
  by (simp add: unat_of_nat MaxWorkerThreads_def)

lemma set_shutdown_view:
  assumes "array_ok s"
  shows "view (\<lambda>k. shut (j = of_nat k)) s (set_shutdown j s)"
proof (cases "unat j < wcount s")
  case True
  have e: "set_shutdown j s = set_worker (WThread (unat j)) ((wk s (unat j))\<lparr>shutdown := True\<rparr>) s"
    using worker_at_in [OF assms True] by (simp add: set_shutdown_def)
  have "map_option (at_worker (unat j) ((wk s (unat j))\<lparr>shutdown := True\<rparr>) k) (sch_workers s ! k) =
      map_option (shut (j = of_nat k)) (sch_workers s ! k)" if "k < MaxWorkerThreads" for k
  proof (cases "k = unat j")
    case False
    then have "j \<noteq> of_nat k" using unat_index [OF that] by auto
    then show ?thesis using False by (simp add: at_worker_other)
  qed (simp add: array_okD(4) [OF assms True] shut_def)
  then show ?thesis using set_worker_view [OF assms True] e by (simp add: view_def)
next
  case False
  then have "worker_at (WThread (unat j)) s \<noteq> Inr w" for w using worker_at_wk [OF assms, of "unat j" w] by simp
  then have e: "set_shutdown j s = s" by (auto simp: set_shutdown_def split: sum.splits)
  have "map_option (shut (j = of_nat k)) (sch_workers s ! k) = sch_workers s ! k" if "k < MaxWorkerThreads" for k
    using False assms that unat_index [OF that] by (cases "j = of_nat k") (auto simp: array_ok_def shut_def option.map_ident)
  then show ?thesis using e array_okD(1) [OF assms] by (simp add: view_def)
qed

lemma fold_body_effect_view:
  fixes s :: "'u scheduler"
  assumes "array_ok s"
  shows "view (\<lambda>k. shut (SetShutdown (of_nat k) \<in> set bs)) s (fold body_effect bs s)"
  using assms
proof (induction bs arbitrary: s)
  case Nil
  then show ?case using view_same [of s s] array_okD(1) [OF Nil] by simp
next
  case (Cons b bs)
  have v: "view (\<lambda>k. shut (b = SetShutdown (of_nat k))) s (body_effect b s)"
    using set_shutdown_view [OF Cons.prems] view_same [of s s] array_okD(1) [OF Cons.prems] by (cases b) auto
  have "view (\<lambda>k. shut (SetShutdown (of_nat k) \<in> set bs) \<circ> shut (b = SetShutdown (of_nat k))) s (fold body_effect bs (body_effect b s))"
    by (rule view_trans [OF v Cons.IH [OF view_array [OF v Cons.prems]]])
  moreover have "shut (SetShutdown (of_nat k) \<in> set bs) \<circ> shut (b = SetShutdown (of_nat k)) =
      (shut (SetShutdown (of_nat k) \<in> set (b # bs)) :: 'u worker \<Rightarrow> 'u worker)" for k
    by (rule ext) (simp add: shut_shut disj_commute eq_commute)
  ultimately show ?case by (simp only: fold_simps)
qed

lemma own_effect_view:
  assumes "array_ok (sys_sch s)" "i < wcount (sys_sch s)"
  shows "view (\<lambda>k v. shut (SetShutdown (of_nat k) \<in> set (drop (length (executed w)) (executed w'))) (at_worker i w' k v))
    (sys_sch s) (sys_sch (own_effect i w w' s))"
proof -
  let ?a = "set_worker (WThread i) w' (sys_sch s)"
  let ?b = "if spins (wpc w') then onBeginSpinning (int i) ?a else ?a"
  note a = set_worker_view [OF assms, of w']
  have a': "array_ok ?a" "i < wcount ?a" using view_array [OF a] view_wcount [OF a] assms by simp_all
  have b: "view (\<lambda>_ v. v) ?a ?b" using onBeginSpinning_view [OF a'] view_same [of ?a ?a] array_okD(1) [OF a'(1)] by simp
  have "sys_sch (own_effect i w w' s) = fold body_effect (drop (length (executed w)) (executed w')) ?b"
    by (simp add: own_effect_def put_worker_def Let_def)
  with view_trans [OF view_trans [OF a b] fold_body_effect_view [OF view_array [OF b a'(1)]]] show ?thesis
    by (simp add: comp_def)
qed

lemma give_task_view:
  assumes "array_ok s" "j < wcount s"
  shows "\<exists>s'. give_task t (WThread j) s = Inr s' \<and> view (at_worker j (fst (enqueueAndUnlock t (wk s j)))) s s'"
proof -
  obtain w s' where s': "sch_workers s ! j = Some w" "give_task t (WThread j) s = Inr s'" "sched_ok s'"
    "sch_workers s' = (sch_workers s)[j := Some (fst (enqueueAndUnlock t w))]" "sch_cfg s' = sch_cfg s"
    by (rule give_task_ok [OF array_okD(1) [OF assms(1)] assms(2)])
  then have "w = wk s j" by (simp add: wk_def)
  with s' update_view [OF assms s'(3,5,4)] show ?thesis by auto
qed

lemma schedule_view:
  assumes "array_ok s" "receiver tid locks t s = Some j" "j < wcount s" "sch_current s tid \<noteq> None"
  shows "\<exists>s'. schedule tid locks t s = Some (Inr s') \<and> view (at_worker j (fst (enqueueAndUnlock t (wk s j)))) s s'"
proof (cases "task_is t SameThread")
  case True
  then have "sch_current s tid = Some (WThread j)" using assms(2) by (auto simp: receiver_def split: option.splits wref.splits)
  then show ?thesis using give_task_view [OF assms(1,3), of t] True by (auto simp: schedule_def scheduler_enqueue_def)
next
  case False
  then have t: "enqueue_target locks s = Some j" using assms(2) by (simp add: receiver_def)
  obtain w s' where s': "enqueue_loop locks t s = Some (Inr s')" "sch_workers s ! j = Some w"
    "sch_workers s' = (sch_workers s)[j := Some (fst (enqueueAndUnlock t w))]" "sched_ok s'" "sch_cfg s' = sch_cfg s"
    using enqueue_loop_target [OF array_okD(1) [OF assms(1)] t] by blast
  have "w = wk s j" using s'(2) by (simp add: wk_def)
  with update_view [OF assms(1,3) s'(4,5,3)] s'(1) False assms(4) sched_okD(7) [OF array_okD(1) [OF assms(1)]] show ?thesis
    by (simp add: schedule_def scheduler_enqueue_def)
qed

section \<open>Structure\<close>

definition worker_ok :: "nat \<Rightarrow> 'u worker \<Rightarrow> bool" where
  "worker_ok i w \<longleftrightarrow> own_id w = of_nat i \<and> wmode w = MultiThreaded \<and> (winv w \<or> wpc w = PExit) \<and>
     (\<forall>t \<in> set (work_tasks w). task_bool t)"

definition carry_ok :: "'u body task option \<Rightarrow> pc \<Rightarrow> bool" where
  "carry_ok c p \<longleftrightarrow> (\<forall>t. c = Some t \<longrightarrow> task_bool t \<and> (\<exists>st. p = PSpin st False))"

definition sys_ok :: "'u system \<Rightarrow> bool" where
  "sys_ok s \<longleftrightarrow> array_ok (sys_sch s) \<and> (\<forall>i < wcount (sys_sch s). worker_ok i (wk (sys_sch s) i)) \<and>
     (\<forall>i < wcount (sys_sch s). carry_ok (sys_carry s i) (wpc (wk (sys_sch s) i))) \<and>
     (\<forall>i. wcount (sys_sch s) \<le> i \<longrightarrow> sys_carry s i = None)"

lemma sys_okD:
  assumes "sys_ok s"
  shows "array_ok (sys_sch s)" "\<And>i. i < wcount (sys_sch s) \<Longrightarrow> worker_ok i (wk (sys_sch s) i)"
    "\<And>i. i < wcount (sys_sch s) \<Longrightarrow> carry_ok (sys_carry s i) (wpc (wk (sys_sch s) i))"
    "\<And>i. wcount (sys_sch s) \<le> i \<Longrightarrow> sys_carry s i = None"
  using assms by (simp_all add: sys_ok_def)

lemma sys_ok_view:
  assumes "sys_ok s" "view g (sys_sch s) (sys_sch s')"
    and "\<And>i. i < wcount (sys_sch s) \<Longrightarrow> worker_ok i (g i (wk (sys_sch s) i)) \<and> carry_ok (sys_carry s' i) (wpc (g i (wk (sys_sch s) i)))"
    and "\<And>i. wcount (sys_sch s) \<le> i \<Longrightarrow> sys_carry s' i = None"
  shows "sys_ok s'"
  using assms view_wk [OF assms(2) sys_okD(1) [OF assms(1)]] view_array [OF assms(2)] view_wcount [OF assms(2)]
  by (simp add: sys_ok_def)

lemma worker_ok_wstep:
  assumes "worker_ok i w" "wpc w \<noteq> PExit" "wstep w r"
  shows "\<exists>w'. r = Inr w' \<and> winv w'"
  using worker_system.inv_step [OF _ assms(3)] assms(1,2) by (simp add: worker_ok_def)

lemma worker_ok_place: "worker_ok i w \<Longrightarrow> wpc w \<noteq> POutside"
  by (auto simp: worker_ok_def winv_def live_inv_def exit_inv_def bound_thread_def)

lemma worker_ok_tstep:
  assumes "worker_ok i w" "tstep w r"
  shows "\<exists>w'. r = Inr w' \<and> worker_ok i w' \<and> winv w' \<and> (task_frame w w' \<or> task_run w w')"
proof -
  obtain w' where w': "r = Inr w'" "winv w'"
    using worker_ok_wstep [OF assms(1) tstep_not_exit [OF assms(2)] ws_thread [OF assms(2)]] by blast
  have "task_frame w w' \<or> task_run w w'"
    using tstep_tasks [of w w'] assms(2) w'(1) worker_ok_place [OF assms(1)] by simp
  with w' assms(1) show ?thesis by (auto simp: worker_ok_def task_frame_def task_run_def)
qed

lemma worker_ok_enqueue:
  assumes "worker_ok i w" "lockable (wpc w)" "task_bool t" "queue_room w"
  shows "worker_ok i (fst (enqueueAndUnlock t w))"
proof (cases "wpc w = PExit")
  case True
  then show ?thesis using assms(1,3) by (auto simp: worker_ok_def enqueueAndUnlock_def)
next
  case False
  then have "mutex_free (wpc w)" using assms(2) by (simp add: lockable_def)
  from worker_ok_wstep [OF assms(1) False ws_enqueue_task [OF this assms(3,4)]] show ?thesis
    using assms(1,3) by (auto simp: worker_ok_def enqueue_task_def enqueueAndUnlock_def)
qed

lemma steal_tasks:
  "steal locked w = (w, None) \<or>
   (\<exists>t. steal locked w = (w\<lparr>work_num := work_num w - 1, work_tasks := tl (work_tasks w)\<rparr>, Some t) \<and> locked \<and> work_num w \<noteq> 0 \<and>
      work_tasks w \<noteq> [] \<and> hd (work_tasks w) = t)"
  by (auto simp: steal_def split: list.splits)

lemma worker_ok_steal:
  assumes "worker_ok i w" "locked \<Longrightarrow> lockable (wpc w)"
  shows "worker_ok i (fst (steal locked w))"
  using steal_tasks [of locked w]
proof
  assume "steal locked w = (w, None)"
  then show ?thesis using assms(1) by simp
next
  assume "\<exists>t. steal locked w = (w\<lparr>work_num := work_num w - 1, work_tasks := tl (work_tasks w)\<rparr>, Some t) \<and> locked \<and> work_num w \<noteq> 0 \<and>
      work_tasks w \<noteq> [] \<and> hd (work_tasks w) = t"
  then obtain t where t: "steal locked w = (w\<lparr>work_num := work_num w - 1, work_tasks := tl (work_tasks w)\<rparr>, Some t)" "locked"
    by auto
  have sub: "set (tl (work_tasks w)) \<subseteq> set (work_tasks w)" by (cases "work_tasks w") auto
  show ?thesis
  proof (cases "wpc w = PExit")
    case False
    then have "mutex_free (wpc w)" using assms(2) t(2) by (simp add: lockable_def)
    from worker_ok_wstep [OF assms(1) False ws_steal [OF this, of locked]] show ?thesis
      using assms(1) t sub by (auto simp: worker_ok_def)
  qed (use assms(1) t sub in \<open>auto simp: worker_ok_def\<close>)
qed

lemma worker_ok_stolen:
  assumes "worker_ok i w" "wpc w = PSpin st False" "task_bool t" "queue_room w"
  shows "worker_ok i (spinForWork_stolen st t w)"
  using worker_ok_wstep [OF assms(1) _ ws_spin_steal [OF assms(2-4)]] assms(1,2,3)
  by (auto simp: worker_ok_def spinForWork_stolen_def)

lemma worker_ok_notify:
  assumes "worker_ok i w" "mutex_free (wpc w)" "f \<le> worker_fibers w" "fiber_state w f \<noteq> Idle" "queue_room w"
  shows "\<exists>w' n. enqueue_fiber f w = Inr (w', n) \<and> worker_ok i w' \<and> task_frame w w' \<and> wpc w' = wpc w"
proof -
  have "wpc w \<noteq> PExit" using assms(2) by auto
  from worker_ok_wstep [OF assms(1) this ws_enqueue_fiber [OF assms(2-5)]] obtain w' n
    where w': "enqueue_fiber f w = Inr (w', n)" "winv w'" by auto
  moreover have "task_frame w w'" by (rule enqueue_fiber_frame [OF w'(1)])
  moreover have "wpc w' = wpc w"
    using w'(1) by (auto simp: enqueue_fiber_def Let_def setFiberState_def split: fstate.splits)
  ultimately show ?thesis using assms(1) by (auto simp: worker_ok_def task_frame_def)
qed

lemma worker_ok_shut: "worker_ok i w \<Longrightarrow> worker_ok i (shut b w)"
proof (cases b)
  case True
  assume w: "worker_ok i w"
  show ?thesis
  proof (cases "wpc w = PExit")
    case False
    from worker_ok_wstep [OF w False ws_shutdown] w show ?thesis using True by (auto simp: worker_ok_def shut_def)
  qed (use w True in \<open>auto simp: worker_ok_def shut_def\<close>)
qed simp

section \<open>The shapes of a step\<close>

text \<open>The workers that the destructor has not yet joined.\<close>

fun unjoined :: "dtor \<Rightarrow> nat set" where
  "unjoined DtorNot = UNIV"
| "unjoined (DtorStop is) = set is"
| "unjoined (DtorJoin i is) = insert i (set is)"
| "unjoined DtorDone = {}"

abbreviation kept :: "'u system \<Rightarrow> 'u system \<Rightarrow> bool" where
  "kept s s' \<equiv> sys_given s' = sys_given s \<and> sys_late s' = sys_late s"

text \<open>The thread of worker \<open>i\<close> makes a step.\<close>

definition own_move :: "'u system \<Rightarrow> nat \<Rightarrow> 'u worker \<Rightarrow> 'u system \<Rightarrow> bool" where
  "own_move s i w' s' \<longleftrightarrow> i < wcount (sys_sch s) \<and> tstep (wk (sys_sch s) i) (Inr w') \<and> worker_ok i w' \<and> winv w' \<and>
     (task_frame (wk (sys_sch s) i) w' \<or> task_run (wk (sys_sch s) i) w') \<and> sys_carry s i = None \<and> sys_carry s' = sys_carry s \<and>
     view (\<lambda>k v. shut (SetShutdown (of_nat k) \<in> set (drop (length (executed (wk (sys_sch s) i))) (executed w'))) (at_worker i w' k v))
       (sys_sch s) (sys_sch s') \<and> kept s s' \<and> sys_dtor s' = sys_dtor s \<and>
     sys_check s' = (if in_work_wait (wpc w') then (sys_check s)(i := True) else sys_check s)"

text \<open>No worker changes; a worker may go to sleep and the destructor may go on.\<close>

definition quiet_move :: "'u system \<Rightarrow> 'u system \<Rightarrow> bool" where
  "quiet_move s s' \<longleftrightarrow> view (\<lambda>_ v. v) (sys_sch s) (sys_sch s') \<and> sys_carry s' = sys_carry s \<and> kept s s' \<and>
     (\<forall>k < wcount (sys_sch s). k \<in> unjoined (sys_dtor s) \<longrightarrow> k \<in> unjoined (sys_dtor s') \<or> wpc (wk (sys_sch s) k) = PExit) \<and>
     (\<forall>k < wcount (sys_sch s). sys_check s' k = sys_check s k \<or>
        in_work_wait (wpc (wk (sys_sch s) k)) \<and> \<not> wait_cond (wpc (wk (sys_sch s) k)) (wk (sys_sch s) k))"

text \<open>Worker \<open>i\<close> takes the task \<open>t\<close> from worker \<open>v\<close>; it adds the task to its queue.\<close>

definition theft :: "'u system \<Rightarrow> nat \<Rightarrow> nat \<Rightarrow> 'u body task \<Rightarrow> 'u system \<Rightarrow> bool" where
  "theft s i v t s' \<longleftrightarrow> i < wcount (sys_sch s) \<and> v < wcount (sys_sch s) \<and> v \<noteq> i \<and> (\<exists>st. wpc (wk (sys_sch s) i) = PSpin st False) \<and>
     sys_carry s i = None \<and> work_tasks (wk (sys_sch s) v) \<noteq> [] \<and> hd (work_tasks (wk (sys_sch s) v)) = t \<and> lockable (wpc (wk (sys_sch s) v)) \<and>
     work_num (wk (sys_sch s) v) \<noteq> 0 \<and>
     worker_ok v (fst (steal True (wk (sys_sch s) v))) \<and>
     view (at_worker v (fst (steal True (wk (sys_sch s) v)))) (sys_sch s) (sys_sch s') \<and>
     steal True (wk (sys_sch s) v) = ((wk (sys_sch s) v)\<lparr>work_num := work_num (wk (sys_sch s) v) - 1,
       work_tasks := tl (work_tasks (wk (sys_sch s) v))\<rparr>, Some t) \<and>
     sys_carry s' = (sys_carry s)(i \<mapsto> t) \<and> kept s s' \<and> sys_dtor s' = sys_dtor s \<and> sys_check s' = sys_check s"

definition adds_stolen :: "'u system \<Rightarrow> nat \<Rightarrow> 'u body task \<Rightarrow> 'u worker \<Rightarrow> 'u system \<Rightarrow> bool" where
  "adds_stolen s i t w' s' \<longleftrightarrow> i < wcount (sys_sch s) \<and> sys_carry s i = Some t \<and> sys_carry s' = (sys_carry s)(i := None) \<and>
     (\<exists>st. wpc (wk (sys_sch s) i) = PSpin st False \<and> w' = spinForWork_stolen st t (wk (sys_sch s) i)) \<and> worker_ok i w' \<and>
     view (at_worker i w') (sys_sch s) (sys_sch s') \<and> kept s s' \<and> sys_dtor s' = sys_dtor s \<and> sys_check s' = sys_check s"

text \<open>Worker \<open>j\<close> gets a new task.\<close>

definition gives :: "'u system \<Rightarrow> nat \<Rightarrow> 'u body task \<Rightarrow> 'u worker \<Rightarrow> 'u system \<Rightarrow> bool" where
  "gives s j t w' s' \<longleftrightarrow> j < wcount (sys_sch s) \<and> task_bool t \<and> lockable (wpc (wk (sys_sch s) j)) \<and>
     w' = fst (enqueueAndUnlock t (wk (sys_sch s) j)) \<and> worker_ok j w' \<and> view (at_worker j w') (sys_sch s) (sys_sch s') \<and>
     sys_carry s' = sys_carry s \<and> sys_given s' = sys_given s @ bodies [t] \<and>
     sys_late s' = (if wpc (wk (sys_sch s) j) = PExit then sys_late s @ bodies [t] else sys_late s) \<and>
     sys_check s' = (sys_check s)(j := sys_check s j \<or> work_notify_added (wk (sys_sch s) j)) \<and>
     unjoined (sys_dtor s') = unjoined (sys_dtor s)"

definition notifies :: "'u system \<Rightarrow> nat \<Rightarrow> nat \<Rightarrow> 'u worker \<Rightarrow> bool \<Rightarrow> 'u system \<Rightarrow> bool" where
  "notifies s i f w' n s' \<longleftrightarrow> i < wcount (sys_sch s) \<and> enqueue_fiber f (wk (sys_sch s) i) = Inr (w', n) \<and>
     mutex_free (wpc (wk (sys_sch s) i)) \<and> worker_ok i w' \<and> task_frame (wk (sys_sch s) i) w' \<and> wpc w' = wpc (wk (sys_sch s) i) \<and>
     view (at_worker i w') (sys_sch s) (sys_sch s') \<and> sys_carry s' = sys_carry s \<and> kept s s' \<and> sys_dtor s' = sys_dtor s \<and>
     sys_check s' = (sys_check s)(i := sys_check s i \<or> n)"

lemma tstep_begin: "tstep w r \<Longrightarrow> wpc w = PStart \<Longrightarrow> r = Inr (w\<lparr>wpc := PRun\<rparr>)"
  by (erule tstep.cases) auto

lemma own_carry: "sys_ok s \<Longrightarrow> i < wcount (sys_sch s) \<Longrightarrow> may_move sp b (sys_carry s i) (wpc (wk (sys_sch s) i)) \<Longrightarrow> sys_carry s i = None"
  using sys_okD(3) [of s i] by (cases "sys_carry s i") (auto simp: carry_ok_def)

lemma start_carry: "sys_ok s \<Longrightarrow> i < wcount (sys_sch s) \<Longrightarrow> wpc (wk (sys_sch s) i) = PStart \<Longrightarrow> sys_carry s i = None"
  using sys_okD(3) [of s i] by (cases "sys_carry s i") (auto simp: carry_ok_def)

lemma own_move_begin:
  assumes ok: "sys_ok s" and i: "i < wcount (sys_sch s)" and p: "wpc (wk (sys_sch s) i) = PStart" and t: "tstep (wk (sys_sch s) i) r"
  shows "\<exists>w' s'. rbind r (\<lambda>w'. Inr ((put_worker i w' s)
      \<lparr>sys_sch := worker_thread_begin tid i (set_worker (WThread i) w' (sys_sch s))\<rparr>)) = Inr s' \<and> own_move s i w' s'"
proof -
  let ?w = "wk (sys_sch s) i"
  let ?w' = "?w\<lparr>wpc := PRun\<rparr>"
  have r: "r = Inr ?w'" by (rule tstep_begin [OF t p])
  from worker_ok_tstep [OF sys_okD(2) [OF ok i] t] r have w': "worker_ok i ?w'" "winv ?w'" by auto
  note v = set_worker_view [OF sys_okD(1) [OF ok] i, of ?w']
  let ?sch = "worker_thread_begin tid i (set_worker (WThread i) ?w' (sys_sch s))"
  have "view (\<lambda>_ v. v) (set_worker (WThread i) ?w' (sys_sch s)) ?sch"
    using v sched_ok_cong [of ?sch "set_worker (WThread i) ?w' (sys_sch s)"]
    by (intro view_same) (simp_all add: worker_thread_begin_def view_def)
  from view_trans [OF v this] have "view (at_worker i ?w') (sys_sch s) ?sch" by (simp add: comp_def)
  then have "own_move s i ?w' ((put_worker i ?w' s)\<lparr>sys_sch := ?sch\<rparr>)"
    using i t r w' start_carry [OF ok i p] by (simp add: own_move_def put_worker_def task_frame_def)
  then show ?thesis using r by auto
qed

lemma own_move_own:
  assumes ok: "sys_ok s" and i: "i < wcount (sys_sch s)" and t: "tstep (wk (sys_sch s) i) r"
    and m: "may_move sp b (sys_carry s i) (wpc (wk (sys_sch s) i))"
  shows "\<exists>w' s'. rbind r (\<lambda>w'. Inr (own_effect i (wk (sys_sch s) i) w' s)) = Inr s' \<and> own_move s i w' s'"
proof -
  let ?w = "wk (sys_sch s) i"
  obtain w' where w': "r = Inr w'" "worker_ok i w'" "winv w'" "task_frame ?w w' \<or> task_run ?w w'"
    using worker_ok_tstep [OF sys_okD(2) [OF ok i] t] by blast
  have "own_move s i w' (own_effect i ?w w' s)"
    using own_effect_view [OF sys_okD(1) [OF ok] i, of ?w w'] i t w' own_carry [OF ok i m]
    by (simp add: own_move_def own_effect_def put_worker_def Let_def)
  then show ?thesis using w'(1) by auto
qed

lemma theft_step:
  assumes ok: "sys_ok s" and i: "i < wcount (sys_sch s)" and p: "wpc (wk (sys_sch s) i) = PSpin st False" "sys_carry s i = None"
    and v: "victim from (sys_sch s) < wcount (sys_sch s)" "locked \<Longrightarrow> lockable (wpc (wk (sys_sch s) (victim from (sys_sch s))))"
  shows "\<exists>s'. rbind (stealWork i from locked (sys_sch s)) (\<lambda>r.
      Inr (s\<lparr>sys_sch := fst r, sys_carry := (sys_carry s)(i := snd r)\<rparr>)) = Inr s' \<and>
    (quiet_move s s' \<or> (\<exists>t. theft s i (victim from (sys_sch s)) t s'))"
proof -
  let ?S = "sys_sch s" let ?v = "victim from ?S" let ?w = "wk ?S ?v"
  note arr = sys_okD(1) [OF ok]
  have st: "stealWork i from locked ?S = (if ?v \<noteq> i
      then Inr (set_worker (WThread ?v) (fst (steal locked ?w)) ?S, snd (steal locked ?w)) else Inr (?S, None))"
    using worker_at_in [OF arr v(1)] sched_okD(7) [OF array_okD(1) [OF arr]]
    by (simp add: stealWork_def victim_def Let_def split_def)
  have quiet: "quiet_move s (s\<lparr>sys_sch := S', sys_carry := (sys_carry s)(i := None)\<rparr>)" if "view (\<lambda>_ v. v) ?S S'" for S'
    using that p(2) by (auto simp: quiet_move_def fun_upd_idem)
  have same: "view (\<lambda>_ v. v) ?S ?S" by (rule view_same) (simp_all add: array_okD(1) [OF arr])
  note sv = set_worker_view [OF arr v(1)]
  show ?thesis
  proof (cases "?v = i")
    case True
    then show ?thesis using st quiet [OF same] by simp
  next
    case False
    from steal_tasks [of locked ?w] show ?thesis
    proof
      assume n: "steal locked ?w = (?w, None)"
      have "sch_workers (set_worker (WThread ?v) ?w ?S) = sch_workers ?S"
        using array_okD(4) [OF arr v(1)] by (simp add: set_worker_def list_update_same_conv array_okD(2,3) [OF arr] less_le_trans [OF v(1)])
      then have "view (\<lambda>_ v. v) ?S (set_worker (WThread ?v) ?w ?S)"
        using sv [of ?w] by (intro view_same) (simp_all add: view_def set_worker_def)
      then show ?thesis using st False n quiet by simp
    next
      assume "\<exists>t. steal locked ?w = (?w\<lparr>work_num := work_num ?w - 1, work_tasks := tl (work_tasks ?w)\<rparr>, Some t) \<and> locked \<and>
        work_num ?w \<noteq> 0 \<and> work_tasks ?w \<noteq> [] \<and> hd (work_tasks ?w) = t"
      then obtain t where t: "steal True ?w = (?w\<lparr>work_num := work_num ?w - 1, work_tasks := tl (work_tasks ?w)\<rparr>, Some t)" "locked"
        "work_num ?w \<noteq> 0" "work_tasks ?w \<noteq> [] \<and> hd (work_tasks ?w) = t" by auto
      have "worker_ok ?v (fst (steal True ?w))"
        by (rule worker_ok_steal [OF sys_okD(2) [OF ok v(1)]]) (use v(2) t(2) in simp)
      then have "theft s i ?v t (s\<lparr>sys_sch := set_worker (WThread ?v) (fst (steal True ?w)) ?S, sys_carry := (sys_carry s)(i := Some t)\<rparr>)"
        using i v p False t sv by (simp add: theft_def)
      then show ?thesis using st False t by auto
    qed
  qed
qed

lemma gives_step:
  assumes ok: "sys_ok s" and j: "j < wcount (sys_sch s)" and l: "lockable (wpc (wk (sys_sch s) j))" "queue_room (wk (sys_sch s) j)"
    and t: "task_bool t" and v: "view (at_worker j (fst (enqueueAndUnlock t (wk (sys_sch s) j)))) (sys_sch s) S'"
    and d: "unjoined d = unjoined (sys_dtor s)"
  shows "gives s j t (fst (enqueueAndUnlock t (wk (sys_sch s) j))) (task_given t j (wk (sys_sch s) j) (s\<lparr>sys_sch := S', sys_dtor := d\<rparr>))"
  using worker_ok_enqueue [OF sys_okD(2) [OF ok j] l(1) t l(2)] j l(1) t v d
  by (simp add: gives_def task_given_def notify_worker_def Let_def)

lemma quiet_sch:
  assumes "sys_ok s" "sch_cfg S' = sch_cfg (sys_sch s)" "sch_workers S' = sch_workers (sys_sch s)" "sch_spinning S' = sch_spinning (sys_sch s)"
  shows "quiet_move s (s\<lparr>sys_sch := S'\<rparr>)"
proof -
  have "sched_ok S'" using array_okD(1) [OF sys_okD(1) [OF assms(1)]] sched_ok_cong [OF assms(2-4)] by simp
  then show ?thesis using view_same [OF _ assms(2,3)] by (simp add: quiet_move_def)
qed

lemma quiet_dtor:
  assumes "sys_ok s" "\<And>k. k < wcount (sys_sch s) \<Longrightarrow> k \<in> unjoined (sys_dtor s) \<Longrightarrow> k \<in> unjoined d \<or> wpc (wk (sys_sch s) k) = PExit"
  shows "quiet_move s (s\<lparr>sys_dtor := d\<rparr>)"
  using assms(2) view_same [of "sys_sch s" "sys_sch s"] array_okD(1) [OF sys_okD(1) [OF assms(1)]] by (simp add: quiet_move_def)

end
