(* ===== verification/System_References.thy ===== *)
theory System_References
  imports Scheduler_System_Proofs
begin

text \<open>
  The references of a scheduler are valid in every reachable state of the system: what a thread takes for its worker exists and
  is the worker the scheduler has for that thread. With this, the assertions of \<open>bind\<close> and \<open>unbind\<close> hold exactly for the callers that keep to
  \<open>may_bind\<close> and \<open>may_unbind\<close>, and every step of the system has a result and is of one of six kinds (\<open>sstep_shape\<close>).
\<close>

fun ref_ok :: "nat \<Rightarrow> nat \<Rightarrow> wref option \<Rightarrow> bool \<Rightarrow> bool" where
  "ref_ok n tid None bound = (\<not> bound)"
| "ref_ok n tid (Some (WThread i)) bound = (i < n \<and> \<not> bound)"
| "ref_ok n tid (Some (WSingle t)) bound = (t = tid \<and> bound)"

definition refs_ok :: "'u scheduler \<Rightarrow> bool" where
  "refs_ok s \<longleftrightarrow> (\<forall>tid. ref_ok (wcount s) tid (sch_current s tid) (sch_by_tid s tid \<noteq> None))"

lemma refs_okD: "refs_ok s \<Longrightarrow> ref_ok (wcount s) tid (sch_current s tid) (sch_by_tid s tid \<noteq> None)"
  by (simp add: refs_ok_def)

lemma refs_ok_change:
  assumes "refs_ok s" "wcount s' = wcount s" "\<And>t. t \<noteq> tid \<Longrightarrow> sch_current s' t = sch_current s t \<and> sch_by_tid s' t = sch_by_tid s t"
    and "ref_ok (wcount s) tid (sch_current s' tid) (sch_by_tid s' tid \<noteq> None)"
  shows "refs_ok s'"
  unfolding refs_ok_def using assms refs_okD [OF assms(1)] by metis

text \<open>What most operations leave alone.\<close>

definition same_refs :: "'u scheduler \<Rightarrow> 'u scheduler \<Rightarrow> bool" where
  "same_refs s s' \<longleftrightarrow> sch_current s' = sch_current s \<and> sch_cfg s' = sch_cfg s \<and> dom (sch_by_tid s') = dom (sch_by_tid s)"

lemma same_refs_refl [simp]: "same_refs s s"
  by (simp add: same_refs_def)

lemma same_refs_trans: "same_refs s s1 \<Longrightarrow> same_refs s1 s2 \<Longrightarrow> same_refs s s2"
  by (simp add: same_refs_def)

lemma same_refs_ok:
  assumes "same_refs s s'" "refs_ok s"
  shows "refs_ok s'"
proof -
  have "sch_by_tid s' t = None \<longleftrightarrow> sch_by_tid s t = None" for t using assms(1) unfolding same_refs_def by (metis domIff)
  moreover have "wcount s' = wcount s" using assms(1) by (simp add: same_refs_def wcount_def)
  ultimately show ?thesis using assms by (simp add: refs_ok_def same_refs_def)
qed

lemma set_worker_refs [simp]: "same_refs s (set_worker (WThread i) w s)"
  by (simp add: same_refs_def set_worker_def)

lemma onBeginSpinning_refs [simp]: "same_refs s (onBeginSpinning i s)"
  by (simp add: same_refs_def onBeginSpinning_def Let_def)

lemma choose_worker_refs: "choose_worker s = (i, s') \<Longrightarrow> same_refs s s'"
  by (auto simp: same_refs_def choose_worker_def Let_def split: if_splits)

lemma give_task_refs: "give_task t (WThread i) s = Inr s' \<Longrightarrow> same_refs s s'"
  by (auto simp: give_task_def rbind_def split: sum.splits)

lemma enqueue_loop_refs: "enqueue_loop locks t s = Some (Inr s') \<Longrightarrow> same_refs s s'"
proof (induction locks t s rule: enqueue_loop.induct)
  case (2 locked ls t s)
  obtain i s1 where c: "choose_worker s = (i, s1)" by (cases "choose_worker s")
  then show ?case using 2 choose_worker_refs [OF c] give_task_refs same_refs_trans
    by (fastforce split: sum.splits if_splits)
qed simp

lemma set_shutdown_refs [simp]: "same_refs s (set_shutdown j s)"
  by (simp add: set_shutdown_def split: sum.split)

lemma body_effects_refs: "same_refs s (fold body_effect bs s)"
proof (induction bs arbitrary: s)
  case (Cons b bs)
  have "same_refs s (body_effect b s)" by (cases b) simp_all
  then show ?case using Cons [of "body_effect b s"] same_refs_trans by fastforce
qed simp

lemma own_effect_refs: "same_refs (sys_sch s) (sys_sch (own_effect i w w' s))"
proof -
  have "same_refs (sys_sch s) (sys_sch (put_worker i w' s))" by (simp add: put_worker_def)
  then show ?thesis
    by (auto simp: own_effect_def Let_def intro: same_refs_trans [OF _ body_effects_refs] same_refs_trans [OF _ onBeginSpinning_refs])
qed

lemma stealWork_refs: "stealWork i from locked s = Inr (s', t) \<Longrightarrow> same_refs s s'"
  by (auto simp: stealWork_def rbind_def Let_def split: if_splits sum.splits prod.splits)

lemma schedule_refs:
  assumes "schedule tid locks t s = Some (Inr s')" "receiver tid locks t s = Some j" "0 < cfg_count (sch_cfg s)"
  shows "same_refs s s'"
  using assms give_task_refs enqueue_loop_refs
  by (auto simp: schedule_def scheduler_enqueue_def receiver_def split: if_splits option.splits wref.splits)

section \<open>Binding and unbinding\<close>

lemma bind_fails_iff: "(\<exists>e. sched_bind tid s = Inl e) \<longleftrightarrow> \<not> may_bind tid s"
  by (auto simp: sched_bind_def may_bind_def rbind_def marl_assert_def)

lemma unbind_ok:
  assumes "refs_ok s" "may_unbind tid s"
  obtains s' n where "sched_unbind tids tid w s = Inr (s', n)" "sch_cfg s' = sch_cfg s" "sch_workers s' = sch_workers s"
    "sch_spinning s' = sch_spinning s" "sch_current s' = (sch_current s)(tid := None)" "sch_by_tid s' = (sch_by_tid s)(tid := None)"
proof -
  obtain t where t: "sch_current s tid = Some (WSingle t)" using assms(2) by (auto simp: may_unbind_def split: option.splits wref.splits)
  then have tid: "t = tid" and "sch_by_tid s tid \<noteq> None" using refs_okD [OF assms(1), of tid] by simp_all
  then obtain v where v: "sch_by_tid s tid = Some v" by blast
  have stop: "sched_unbind_stop tid s = Inr (WSingle tid, set_worker (WSingle tid) (stop_single v) s)"
    using t v by (simp add: sched_unbind_stop_def worker_at_def tid)
  show thesis
    by (rule that, simp add: sched_unbind_def stop sched_unbind_finish_def set_worker_def Let_def) (simp_all add: set_worker_def)
qed

lemma unbind_fails_iff:
  assumes "refs_ok s"
  shows "(\<exists>e. sched_unbind tids tid w s = Inl e) \<longleftrightarrow> \<not> may_unbind tid s"
proof (cases "may_unbind tid s")
  case True
  obtain s' n where "sched_unbind tids tid w s = Inr (s', n)" by (rule unbind_ok [OF assms True])
  then show ?thesis using True by simp
next
  case False
  then show ?thesis
    by (auto simp: sched_unbind_def sched_unbind_stop_def may_unbind_def split: option.splits wref.splits)
qed

section \<open>Steps\<close>

lemma sstep_refs:
  assumes "sstep spurious s (Inr s')" "refs_ok (sys_sch s)" "array_ok (sys_sch s)"
  shows "refs_ok (sys_sch s')"
  using assms(1)
proof cases
  case (sy_begin i w r tid)
  then obtain w' where s': "sys_sch s' = worker_thread_begin tid i (set_worker (WThread i) w' (sys_sch s))" by (cases r) auto
  have "i < wcount (sys_sch s)" using sy_begin(2) worker_at_wk [OF assms(3)] by blast
  then show ?thesis
    by (intro refs_ok_change [OF same_refs_ok [OF set_worker_refs assms(2), of i w'], of _ tid])
      (use s' sy_begin refs_okD [OF assms(2), of tid] in \<open>auto simp: worker_thread_begin_def set_worker_def wcount_def\<close>)
next
  case (sy_own i w r)
  then show ?thesis using same_refs_ok [OF own_effect_refs assms(2)] by (cases r) auto
next
  case (sy_steal i w st "from" v locked)
  then obtain sch t where "stealWork i from locked (sys_sch s) = Inr (sch, t)" "sys_sch s' = sch" by (auto simp: rbind_def split: sum.splits)
  then show ?thesis using same_refs_ok [OF stealWork_refs assms(2)] by blast
next
  case (sy_stolen i w st t)
  then show ?thesis using same_refs_ok [OF set_worker_refs assms(2)] by (simp add: put_worker_def)
next
  case (sy_schedule tid t locks j v r)
  then obtain sch where "r = Inr sch" "sys_sch s' = sch" by (cases r) (auto simp: task_given_def notify_worker_def Let_def)
  then show ?thesis
    using sy_schedule same_refs_ok [OF schedule_refs assms(2)] sched_okD(7) [OF array_okD(1) [OF assms(3)]] by blast
next
  case (sy_notify i w f)
  then show ?thesis using same_refs_ok [OF set_worker_refs assms(2)]
    by (auto simp: put_worker_def notify_worker_def rbind_def split: sum.splits)
next
  case (sy_end i w tid)
  then show ?thesis
    by (intro refs_ok_change [OF assms(2), of _ tid])
      (use refs_okD [OF assms(2), of tid] in \<open>auto simp: worker_thread_end_def wcount_def\<close>)
next
  case (sy_bind tid)
  then show ?thesis
    by (intro refs_ok_change [OF assms(2), of _ tid]) (auto simp: sched_bind_def may_bind_def wcount_def split: option.splits)
next
  case (sy_unbind tid tids w)
  obtain sch n where "sched_unbind tids tid w (sys_sch s) = Inr (sch, n)" "sch_cfg sch = sch_cfg (sys_sch s)"
    "sch_current sch = (sch_current (sys_sch s))(tid := None)" "sch_by_tid sch = (sch_by_tid (sys_sch s))(tid := None)"
    by (rule unbind_ok [OF assms(2) sy_unbind(2)])
  then show ?thesis using sy_unbind(1) by (intro refs_ok_change [OF assms(2), of _ tid]) (auto simp: wcount_def)
next
  case sy_stop
  then show ?thesis using assms(2)
    by (auto simp: task_given_def notify_worker_def rbind_def Let_def intro: same_refs_ok give_task_refs split: sum.splits)
qed (use assms(2) in auto)

lemma sstep_shape:
  assumes ok: "sys_ok s" and "sstep sp s r" and refs: "refs_ok (sys_sch s)"
  shows "\<exists>s'. r = Inr s' \<and> ((\<exists>i w'. own_move s i w' s') \<or> quiet_move s s' \<or> (\<exists>i v t. theft s i v t s') \<or>
    (\<exists>i t w'. adds_stolen s i t w' s') \<or> (\<exists>j t w'. gives s j t w' s') \<or> (\<exists>i f w' n. notifies s i f w' n s'))"
proof -
  note arr = sys_okD(1) [OF ok] note at = worker_at_wk [OF arr]
  from assms(2) show ?thesis
  proof cases
    case (sy_begin i w r tid)
    then show ?thesis using own_move_begin [OF ok, of i r tid] at by fastforce
  next
    case (sy_own i w r)
    then show ?thesis using own_move_own [OF ok, of i r sp "sys_check s i"] at by fastforce
  next
    case (sy_recheck i w)
    then have "quiet_move s (s\<lparr>sys_check := (sys_check s)(i := False)\<rparr>)"
      using at view_same [of "sys_sch s" "sys_sch s"] array_okD(1) [OF arr] by (auto simp: quiet_move_def)
    then show ?thesis using sy_recheck(1) by blast
  next
    case (sy_steal i w st "from" v locked)
    then have i: "i < wcount (sys_sch s)" "w = wk (sys_sch s) i"
      and v: "victim from (sys_sch s) < wcount (sys_sch s)" "v = wk (sys_sch s) (victim from (sys_sch s))"
      using at by blast+
    obtain s' where "r = Inr s'" "quiet_move s s' \<or> (\<exists>t. theft s i (victim from (sys_sch s)) t s')"
      using theft_step [OF ok i(1) _ sy_steal(4) v(1), of st locked] sy_steal i(2) v(2) by auto
    then show ?thesis by blast
  next
    case (sy_stolen i w st t)
    then have i: "i < wcount (sys_sch s)" "w = wk (sys_sch s) i" using at by simp_all
    have "task_bool t" using sys_okD(3) [OF ok i(1)] sy_stolen by (simp add: carry_ok_def)
    then have "worker_ok i (spinForWork_stolen st t w)"
      using worker_ok_stolen [OF sys_okD(2) [OF ok i(1)]] sy_stolen i(2) by simp
    then have "adds_stolen s i t (spinForWork_stolen st t w) ((put_worker i (spinForWork_stolen st t w) s)\<lparr>sys_carry := (sys_carry s)(i := None)\<rparr>)"
      using set_worker_view [OF arr i(1)] sy_stolen i by (auto simp: adds_stolen_def put_worker_def)
    then show ?thesis using sy_stolen(1) by blast
  next
    case (sy_schedule tid t locks j v r')
    then have j: "j < wcount (sys_sch s)" "v = wk (sys_sch s) j" using at by simp_all
    have "sch_current (sys_sch s) tid \<noteq> None"
      using sy_schedule(2) by (cases "sch_current (sys_sch s) tid") (simp_all add: caller_ok_def)
    from schedule_view [OF arr sy_schedule(4) j(1) this] sy_schedule(8) obtain S'
      where S': "r' = Inr S'" "view (at_worker j (fst (enqueueAndUnlock t (wk (sys_sch s) j)))) (sys_sch s) S'" by auto
    have "task_bool t" using sy_schedule by (auto simp: user_task_def task_bool_def split: option.splits)
    from gives_step [OF ok j(1) _ _ this S'(2), of "sys_dtor s"] sy_schedule j(2) S'(1) show ?thesis by auto
  next
    case (sy_notify i w f)
    then have i: "i < wcount (sys_sch s)" "w = wk (sys_sch s) i" using at by simp_all
    from worker_ok_notify [OF sys_okD(2) [OF ok i(1)]] sy_notify [unfolded may_notify_def] i(2) obtain w' n where
      n: "enqueue_fiber f w = Inr (w', n)" "worker_ok i w'" "task_frame w w'" "wpc w' = wpc w" by blast
    then have "notifies s i f w' n (notify_worker i n (put_worker i w' s))"
      using set_worker_view [OF arr i(1), of w'] i sy_notify by (simp add: notifies_def notify_worker_def put_worker_def)
    then show ?thesis using sy_notify(1) n(1) by auto
  next
    case (sy_end i w tid)
    then show ?thesis using quiet_sch [OF ok, of "worker_thread_end tid (sys_sch s)"] by (simp add: worker_thread_end_def)
  next
    case (sy_bind tid)
    let ?S = "(sys_sch s)\<lparr>sch_by_tid := (sch_by_tid (sys_sch s))(tid := (case sch_by_tid (sys_sch s) tid of
        None \<Rightarrow> Some (worker_start SingleThreaded (- 1)) | Some w \<Rightarrow> Some w)),
      sch_current := (sch_current (sys_sch s))(tid \<mapsto> WSingle tid)\<rparr>"
    have "r = Inr (s\<lparr>sys_sch := ?S\<rparr>)" using sy_bind by (simp add: sched_bind_def may_bind_def)
    then show ?thesis using quiet_sch [OF ok, of ?S] by simp
  next
    case (sy_unbind tid tids w)
    obtain sch n where u: "sched_unbind tids tid w (sys_sch s) = Inr (sch, n)" "sch_cfg sch = sch_cfg (sys_sch s)"
      "sch_workers sch = sch_workers (sys_sch s)" "sch_spinning sch = sch_spinning (sys_sch s)"
      by (rule unbind_ok [OF refs sy_unbind(2)])
    then show ?thesis using quiet_sch [OF ok u(2-4)] sy_unbind(1) by auto
  next
    case sy_destruct
    have "set (destruct_order (sys_sch s)) = {..<wcount (sys_sch s)}" by (auto simp: destruct_order_def wcount_def)
    then show ?thesis using quiet_dtor [OF ok, of "DtorStop (destruct_order (sys_sch s))"] sy_destruct by simp
  next
    case (sy_stop i "is" v)
    then have i: "i < wcount (sys_sch s)" "v = wk (sys_sch s) i" using at by simp_all
    let ?t = "stop_task (of_nat i) :: 'a body task"
    obtain S' where S': "give_task ?t (WThread i) (sys_sch s) = Inr S'"
      "view (at_worker i (fst (enqueueAndUnlock ?t (wk (sys_sch s) i)))) (sys_sch s) S'"
      using give_task_view [OF arr i(1)] by blast
    have "task_bool ?t" by (simp add: stop_task_def task_new_def task_bool_def)
    from gives_step [OF ok i(1) _ _ this S'(2), of "DtorJoin i is"] sy_stop S'(1) i(2) show ?thesis by auto
  next
    case (sy_join i "is" v)
    then show ?thesis using quiet_dtor [OF ok, of "DtorStop is"] at by auto
  next
    case sy_destroyed
    then show ?thesis using quiet_dtor [OF ok, of DtorDone] by simp
  qed
qed

end
