(* ===== verification/System_Properties.thy ===== *)
theory System_Properties
  imports System_References
begin

text \<open>
  What holds in every run of all workers of a scheduler: no assertion fails; every task that was given to a worker is executed
  once, waits in one queue or is carried by one thief; when the destructor has returned everything was executed but what was given
  to workers that had ended; and a worker sleeps only when it has nothing to do, unless another worker ran the
  task that stops it.
\<close>

section \<open>Counting tasks\<close>

definition load :: "'u worker \<Rightarrow> 'u body multiset" where
  "load w = mset (executed w) + mset (bodies (work_tasks w))"

definition in_flight :: "'u body task option \<Rightarrow> 'u body multiset" where
  "in_flight c = (case c of None \<Rightarrow> {#} | Some t \<Rightarrow> mset (bodies [t]))"

definition left_over :: "'u worker \<Rightarrow> 'u body multiset" where
  "left_over w = (if wpc w = PExit then mset (bodies (work_tasks w)) else {#})"

definition all_load :: "'u system \<Rightarrow> 'u body multiset" where
  "all_load s = (\<Sum>k < wcount (sys_sch s). load (wk (sys_sch s) k))"

definition all_flight :: "'u system \<Rightarrow> 'u body multiset" where
  "all_flight s = (\<Sum>k < wcount (sys_sch s). in_flight (sys_carry s k))"

definition all_left :: "'u system \<Rightarrow> 'u body multiset" where
  "all_left s = (\<Sum>k < wcount (sys_sch s). left_over (wk (sys_sch s) k))"

lemma in_flight_simps [simp]: "in_flight None = {#}" "in_flight (Some t) = mset (bodies [t])"
  by (simp_all add: in_flight_def)

lemma bodies_simps [simp]: "bodies [] = []" "bodies (xs @ ys) = bodies xs @ bodies ys"
  by (simp_all add: bodies_def)

lemma bodies_Cons: "bodies (t # ts) = bodies [t] @ bodies ts"
  by (simp add: bodies_def)

lemma load_frame: "task_frame w w' \<Longrightarrow> load w' = load w"
  by (simp add: load_def task_frame_def)

lemma load_run: "task_run w w' \<Longrightarrow> load w' = load w"
  by (auto simp: load_def task_run_def bodies_def)

lemma load_shut [simp]: "load (shut b w) = load w" "left_over (shut b w) = left_over w"
  by (simp_all add: load_def left_over_def)

lemma load_enqueue: "load (fst (enqueueAndUnlock t w)) = load w + mset (bodies [t])"
  by (simp add: load_def enqueueAndUnlock_def)

lemma sum_at:
  fixes f g :: "nat \<Rightarrow> 'b multiset"
  assumes "i < n" "\<And>k. k < n \<Longrightarrow> k \<noteq> i \<Longrightarrow> g k = f k"
  shows "(\<Sum>k < n. g k) + f i = (\<Sum>k < n. f k) + g i"
proof -
  have "(\<Sum>k \<in> {..<n} - {i}. g k) = (\<Sum>k \<in> {..<n} - {i}. f k)" by (rule sum.cong) (use assms(2) in auto)
  then show ?thesis
    using sum.remove [of "{..<n}" i f] sum.remove [of "{..<n}" i g] assms(1) by (simp add: ac_simps)
qed

lemma view_sum:
  assumes "view h (sys_sch s) (sys_sch s')" "array_ok (sys_sch s)"
    and "\<And>k. k < wcount (sys_sch s) \<Longrightarrow> F (h k (wk (sys_sch s) k)) = F (wk (sys_sch s) k)"
  shows "(\<Sum>k < wcount (sys_sch s'). F (wk (sys_sch s') k)) = (\<Sum>k < wcount (sys_sch s). F (wk (sys_sch s) k))"
  using assms(3) view_wk [OF assms(1,2)] view_wcount [OF assms(1)] by simp

lemma view_sum_at:
  fixes F :: "'u worker \<Rightarrow> 'b multiset"
  assumes "view (at_worker i w) (sys_sch s) (sys_sch s')" "array_ok (sys_sch s)" "i < wcount (sys_sch s)"
  shows "(\<Sum>k < wcount (sys_sch s'). F (wk (sys_sch s') k)) + F (wk (sys_sch s) i) =
    (\<Sum>k < wcount (sys_sch s). F (wk (sys_sch s) k)) + F w"
  using sum_at [OF assms(3), of "\<lambda>k. F (wk (sys_sch s') k)" "\<lambda>k. F (wk (sys_sch s) k)"] view_wk [OF assms(1,2)]
    view_wcount [OF assms(1)] assms(3) by simp

lemma flight_same: "wcount (sys_sch s') = wcount (sys_sch s) \<Longrightarrow> sys_carry s' = sys_carry s \<Longrightarrow> all_flight s' = all_flight s"
  by (simp add: all_flight_def)

lemma flight_at:
  assumes "wcount (sys_sch s') = wcount (sys_sch s)" "sys_carry s' = (sys_carry s)(i := c)" "i < wcount (sys_sch s)"
  shows "all_flight s' + in_flight (sys_carry s i) = all_flight s + in_flight c"
  using sum_at [OF assms(3), of "\<lambda>k. in_flight (sys_carry s' k)" "\<lambda>k. in_flight (sys_carry s k)"] assms(1,2)
  by (simp add: all_flight_def)

section \<open>The invariant\<close>

text \<open>The sleeping workers: the thread is in \<open>Work::wait\<close> and no notification has come since it found its condition false.\<close>

definition asleep :: "'u system \<Rightarrow> nat \<Rightarrow> bool" where
  "asleep s k \<longleftrightarrow> in_work_wait (wpc (wk (sys_sch s) k)) \<and> \<not> sys_check s k"

definition stopped_by_other :: "'u system \<Rightarrow> nat \<Rightarrow> bool" where
  "stopped_by_other s k \<longleftrightarrow> (\<exists>j < wcount (sys_sch s). j \<noteq> k \<and> SetShutdown (of_nat k) \<in> set (executed (wk (sys_sch s) j)))"

definition sleep_ok :: "'u system \<Rightarrow> nat \<Rightarrow> bool" where
  "sleep_ok s k \<longleftrightarrow>
     (let w = wk (sys_sch s) k in
      asleep s k \<longrightarrow> \<not> wait_cond (wpc w) (w\<lparr>shutdown := False\<rparr>) \<and> (wait_cond (wpc w) w \<longrightarrow> stopped_by_other s k))"

definition tally_ok :: "'u system \<Rightarrow> bool" where
  "tally_ok s \<longleftrightarrow> mset (sys_given s) = all_load s + all_flight s \<and> all_left s \<subseteq># mset (sys_late s)"

definition joined_ok :: "'u system \<Rightarrow> bool" where
  "joined_ok s \<longleftrightarrow> (\<forall>k < wcount (sys_sch s). k \<notin> unjoined (sys_dtor s) \<longrightarrow> wpc (wk (sys_sch s) k) = PExit)"

definition sys_inv :: "'u system \<Rightarrow> bool" where
  "sys_inv s \<longleftrightarrow> sys_ok s \<and> joined_ok s \<and> tally_ok s \<and> (\<forall>k < wcount (sys_sch s). sleep_ok s k)"

lemma wait_cond_mono: "wait_cond p (w\<lparr>shutdown := False\<rparr>) \<Longrightarrow> wait_cond p w"
  by (cases p) (auto simp: run_ready_def waitForWork_ready_def)

lemma shut_off [simp]: "(shut b w)\<lparr>shutdown := False\<rparr> = w\<lparr>shutdown := False\<rparr>"
  by (simp add: shut_def)

lemma awake_armed:
  assumes "worker_ok k w" "in_work_wait (wpc w)"
  shows "work_notify_added w"
proof -
  have "live_inv w" using assms by (auto simp: worker_ok_def winv_def exit_inv_def)
  then show ?thesis using assms(2) by (cases "wpc w") (auto simp: live_inv_def)
qed

lemma exit_no_tasks: "winv w \<Longrightarrow> wpc w = PExit \<Longrightarrow> work_tasks w = []"
  by (auto simp: winv_def exit_inv_def live_inv_def)

lemma sys_invD:
  assumes "sys_inv s"
  shows "sys_ok s" "array_ok (sys_sch s)" "joined_ok s" "tally_ok s" "\<And>k. k < wcount (sys_sch s) \<Longrightarrow> sleep_ok s k"
  using assms sys_okD(1) by (auto simp: sys_inv_def)

text \<open>A step that changes worker \<open>i\<close> only.\<close>

lemma joined_at:
  assumes "joined_ok s" "view (at_worker i w) (sys_sch s) (sys_sch s')" "array_ok (sys_sch s)" "unjoined (sys_dtor s') = unjoined (sys_dtor s)"
    and "wpc (wk (sys_sch s) i) = PExit \<Longrightarrow> wpc w = PExit"
  shows "joined_ok s'"
  using assms(1,4,5) view_wk [OF assms(2,3)] view_wcount [OF assms(2)] by (auto simp: joined_ok_def at_worker_def)

lemma sleep_at:
  assumes "view (at_worker i w) (sys_sch s) (sys_sch s')" "array_ok (sys_sch s)" "i < wcount (sys_sch s)" "sleep_ok s k"
    "k < wcount (sys_sch s)" "sys_check s' k = sys_check s k" "k \<noteq> i" "executed w = executed (wk (sys_sch s) i)"
  shows "sleep_ok s' k"
proof -
  have e: "executed (wk (sys_sch s') j) = executed (wk (sys_sch s) j)" if "j < wcount (sys_sch s)" for j
    using view_wk [OF assms(1,2) that] assms(8) by (cases "j = i") simp_all
  have "stopped_by_other s' k = stopped_by_other s k"
    using e view_wcount [OF assms(1)] by (auto simp: stopped_by_other_def)
  moreover have "wk (sys_sch s') k = wk (sys_sch s) k" using view_wk [OF assms(1,2,5)] assms(7) by simp
  ultimately show ?thesis using assms(4,6) by (simp add: sleep_ok_def asleep_def)
qed

lemma awake_sleep_ok: "\<not> asleep s k \<Longrightarrow> sleep_ok s k"
  by (simp add: sleep_ok_def)

subsection \<open>Steps of the threads\<close>

lemma own_move_workers:
  assumes "own_move s i w' s'" "array_ok (sys_sch s)" "k < wcount (sys_sch s)"
  shows "wk (sys_sch s') k = shut (SetShutdown (of_nat k) \<in> set (drop (length (executed (wk (sys_sch s) i))) (executed w')))
    (if k = i then w' else wk (sys_sch s) k)"
proof -
  have "view (\<lambda>k v. shut (SetShutdown (of_nat k) \<in> set (drop (length (executed (wk (sys_sch s) i))) (executed w'))) (at_worker i w' k v))
      (sys_sch s) (sys_sch s')" using assms(1) by (simp add: own_move_def)
  from view_wk [OF this assms(2,3)] show ?thesis by (simp only: at_worker_def)
qed

lemma own_move_log:
  assumes "own_move s i w' s'"
  obtains bs where "executed w' = executed (wk (sys_sch s) i) @ bs"
  using assms by (auto simp: own_move_def task_frame_def task_run_def)

lemma own_move_inv:
  assumes own: "own_move s i w' s'" and inv: "sys_inv s"
  shows "sys_inv s'"
proof -
  let ?S = "sys_sch s" and ?S' = "sys_sch s'"
  note arr = sys_invD(2) [OF inv]
  have i: "i < wcount ?S" and c: "sys_carry s i = None" "sys_carry s' = sys_carry s" and n: "wcount ?S' = wcount ?S"
    and w': "worker_ok i w'" "winv w'" and t: "tstep (wk ?S i) (Inr w')" and d: "sys_dtor s' = sys_dtor s"
    and kept: "kept s s'" and chk: "sys_check s' = (if in_work_wait (wpc w') then (sys_check s)(i := True) else sys_check s)"
    using own by (auto simp: own_move_def view_def)
  note wk' = own_move_workers [OF own arr]
  obtain bs where bs: "executed w' = executed (wk ?S i) @ bs" by (rule own_move_log [OF own])
  have "worker_ok k (wk ?S' k) \<and> carry_ok (sys_carry s' k) (wpc (wk ?S' k))" if "k < wcount ?S" for k
    using that wk' [OF that] worker_ok_shut w'(1) c sys_okD(2,3) [OF sys_invD(1) [OF inv] that] by (auto simp: carry_ok_def)
  then have ok: "sys_ok s'"
    using own view_array [OF _ arr, of _ ?S'] n c sys_okD(4) [OF sys_invD(1) [OF inv]] by (auto simp: sys_ok_def own_move_def)
  have joined: "joined_ok s'"
    using sys_invD(3) [OF inv] wk' tstep_not_exit [OF t] n d i by (auto simp: joined_ok_def)
  have "load (wk ?S' k) = load (wk ?S k)" if "k < wcount ?S" for k
    using wk' [OF that] load_frame [of "wk ?S i" w'] load_run [of "wk ?S i" w'] own by (auto simp: own_move_def)
  then have "all_load s' = all_load s" using n by (simp add: all_load_def)
  moreover have "left_over (wk ?S' k) = left_over (wk ?S k)" if "k < wcount ?S" for k
    using wk' [OF that] tstep_not_exit [OF t] exit_no_tasks [OF w'(2)] by (auto simp: left_over_def)
  then have "all_left s' = all_left s" using n by (simp add: all_left_def)
  ultimately have tally: "tally_ok s'"
    using sys_invD(4) [OF inv] flight_same [OF n c(2)] kept by (simp add: tally_ok_def)
  have "sleep_ok s' k" if k: "k < wcount ?S" for k
  proof (cases "k = i")
    case True
    then show ?thesis using wk' [OF k] chk by (intro awake_sleep_ok) (auto simp: asleep_def)
  next
    case False
    let ?b = "SetShutdown (of_nat k) \<in> set bs"
    have w: "wk ?S' k = shut ?b (wk ?S k)" using wk' [OF k] False bs by simp
    have log: "set (executed (wk ?S j)) \<subseteq> set (executed (wk ?S' j))" if "j < wcount ?S" for j
      using wk' [OF that] bs by auto
    have "stopped_by_other s' k" if "?b \<or> stopped_by_other s k"
      using that
    proof
      assume ?b
      then show ?thesis using wk' [OF i] bs i n False by (auto simp: stopped_by_other_def)
    qed (use log n in \<open>force simp: stopped_by_other_def\<close>)
    then show ?thesis
      using sys_invD(5) [OF inv k] w chk False
      by (cases ?b) (auto simp: sleep_ok_def asleep_def Let_def dest: wait_cond_mono)
  qed
  then show ?thesis using ok joined tally n by (simp add: sys_inv_def)
qed

lemma quiet_move_inv:
  assumes q: "quiet_move s s'" and inv: "sys_inv s"
  shows "sys_inv s'"
proof -
  let ?S = "sys_sch s" and ?S' = "sys_sch s'"
  note arr = sys_invD(2) [OF inv]
  have v: "view (\<lambda>_ v. v) ?S ?S'" and c: "sys_carry s' = sys_carry s" and kept: "kept s s'" using q by (simp_all add: quiet_move_def)
  note wk' = view_wk [OF v arr] and n = view_wcount [OF v]
  have ok: "sys_ok s'"
    by (rule sys_ok_view [OF sys_invD(1) [OF inv] v]) (use sys_okD [OF sys_invD(1) [OF inv]] c in simp_all)
  have joined: "joined_ok s'" using sys_invD(3) [OF inv] q wk' n by (auto simp: joined_ok_def quiet_move_def)
  have tally: "tally_ok s'"
    using sys_invD(4) [OF inv] flight_same [OF n c] kept wk' n by (simp add: tally_ok_def all_load_def all_left_def)
  have "sleep_ok s' k" if k: "k < wcount ?S" for k
  proof -
    have "stopped_by_other s' k = stopped_by_other s k" using wk' n by (auto simp: stopped_by_other_def)
    moreover have "sys_check s' k = sys_check s k \<or> in_work_wait (wpc (wk ?S k)) \<and> \<not> wait_cond (wpc (wk ?S k)) (wk ?S k)"
      using q k by (simp add: quiet_move_def)
    ultimately show ?thesis
      using sys_invD(5) [OF inv k] wk' [OF k] by (auto simp: sleep_ok_def asleep_def Let_def dest: wait_cond_mono)
  qed
  then show ?thesis using ok joined tally n by (simp add: sys_inv_def)
qed

subsection \<open>Steps that move a task\<close>

lemma no_wait_sleep: "sleep_ok s k \<Longrightarrow> asleep s k \<Longrightarrow> work_num (wk (sys_sch s) k) = 0"
  by (cases "wpc (wk (sys_sch s) k)") (auto simp: sleep_ok_def asleep_def run_ready_def waitForWork_ready_def word_gt_0 Let_def)

lemma theft_inv:
  assumes th: "theft s i v t s'" and inv: "sys_inv s"
  shows "sys_inv s'"
proof -
  let ?S = "sys_sch s" and ?S' = "sys_sch s'" let ?w = "wk ?S v" let ?w' = "fst (steal True ?w)"
  note arr = sys_invD(2) [OF inv]
  have i: "i < wcount ?S" "v < wcount ?S" "v \<noteq> i" and p: "\<exists>st. wpc (wk ?S i) = PSpin st False" and c: "sys_carry s i = None"
    "sys_carry s' = (sys_carry s)(i \<mapsto> t)" and t: "work_tasks ?w = t # work_tasks ?w'" and ok': "worker_ok v ?w'"
    and vw: "view (at_worker v ?w') ?S ?S'" and kept: "kept s s'" and d: "sys_dtor s' = sys_dtor s" and chk: "sys_check s' = sys_check s"
    and w': "wpc ?w' = wpc ?w" "executed ?w' = executed ?w" and num: "work_num ?w \<noteq> 0"
    using th by (auto simp: theft_def)
  note wk' = view_wk [OF vw arr] and n = view_wcount [OF vw]
  have tb: "task_bool t" using sys_okD(2) [OF sys_invD(1) [OF inv] i(2)] t by (simp add: worker_ok_def)
  have ok: "sys_ok s'"
  proof (rule sys_ok_view [OF sys_invD(1) [OF inv] vw])
    fix k assume k: "k < wcount ?S"
    then show "worker_ok k (at_worker v ?w' k (wk ?S k)) \<and> carry_ok (sys_carry s' k) (wpc (at_worker v ?w' k (wk ?S k)))"
      using sys_okD(2,3) [OF sys_invD(1) [OF inv] k] ok' w'(1) c i(3) p tb
      by (cases "k = v"; cases "k = i") (auto simp: carry_ok_def)
  qed (use sys_okD(4) [OF sys_invD(1) [OF inv]] c i(1) in auto)
  have joined: "joined_ok s'" by (rule joined_at [OF sys_invD(3) [OF inv] vw arr]) (simp_all add: d w'(1))
  have ll: "load ?w = load ?w' + mset (bodies [t])" "left_over ?w' \<subseteq># left_over ?w"
    using t w' bodies_Cons [of t "work_tasks ?w'"] by (simp_all add: load_def left_over_def)
  have "all_load s' + all_flight s' = all_load s + all_flight s"
    using view_sum_at [OF vw arr i(2), of load] flight_at [OF n c(2) i(1)] c(1) ll(1) by (simp add: all_load_def)
  moreover have "all_left s' \<subseteq># all_left s"
  proof -
    obtain x where x: "left_over ?w = left_over ?w' + x" using ll(2) by (metis mset_subset_eq_exists_conv)
    then have "all_left s' + x = all_left s"
      using view_sum_at [OF vw arr i(2), of left_over] by (simp add: all_left_def ac_simps)
    then show ?thesis by (metis mset_subset_eq_add_left)
  qed
  ultimately have tally: "tally_ok s'" using sys_invD(4) [OF inv] kept by (auto simp: tally_ok_def intro: subset_mset.trans)
  have "sleep_ok s' k" if k: "k < wcount ?S" for k
  proof (cases "k = v")
    case True
    then have "\<not> asleep s k" using no_wait_sleep [OF sys_invD(5) [OF inv k]] num by auto
    then show ?thesis using True wk' [OF k] chk w'(1) by (intro awake_sleep_ok) (simp add: asleep_def)
  next
    case False
    show ?thesis by (rule sleep_at [OF vw arr i(2) sys_invD(5) [OF inv k] k _ False w'(2)]) (simp add: chk)
  qed
  then show ?thesis using ok joined tally n by (simp add: sys_inv_def)
qed

lemma adds_stolen_inv:
  assumes ad: "adds_stolen s i t w' s'" and inv: "sys_inv s"
  shows "sys_inv s'"
proof -
  let ?S = "sys_sch s" and ?S' = "sys_sch s'" let ?w = "wk ?S i"
  note arr = sys_invD(2) [OF inv]
  from ad obtain st where i: "i < wcount ?S" and p: "wpc ?w = PSpin st False" "w' = spinForWork_stolen st t ?w" and c: "sys_carry s i = Some t"
    "sys_carry s' = (sys_carry s)(i := None)" and ok': "worker_ok i w'" and vw: "view (at_worker i w') ?S ?S'"
    and kept: "kept s s'" and d: "sys_dtor s' = sys_dtor s" and chk: "sys_check s' = sys_check s"
    by (auto simp: adds_stolen_def)
  note wk' = view_wk [OF vw arr] and n = view_wcount [OF vw]
  have ok: "sys_ok s'"
  proof (rule sys_ok_view [OF sys_invD(1) [OF inv] vw])
    fix k assume k: "k < wcount ?S"
    then show "worker_ok k (at_worker i w' k (wk ?S k)) \<and> carry_ok (sys_carry s' k) (wpc (at_worker i w' k (wk ?S k)))"
      using sys_okD(2,3) [OF sys_invD(1) [OF inv] k] ok' c by (cases "k = i") (auto simp: carry_ok_def)
  qed (use sys_okD(4) [OF sys_invD(1) [OF inv]] c i in auto)
  have joined: "joined_ok s'" by (rule joined_at [OF sys_invD(3) [OF inv] vw arr]) (simp_all add: d p)
  have ll: "load w' = load ?w + mset (bodies [t])" "left_over w' = left_over ?w"
    using p by (simp_all add: load_def left_over_def spinForWork_stolen_def)
  have "all_load s' + all_flight s' = all_load s + all_flight s"
    using view_sum_at [OF vw arr i, of load] flight_at [OF n c(2) i] c(1) ll(1) by (simp add: all_load_def ac_simps)
  moreover have "all_left s' = all_left s" using view_sum_at [OF vw arr i, of left_over] ll(2) by (simp add: all_left_def)
  ultimately have tally: "tally_ok s'" using sys_invD(4) [OF inv] kept by (simp add: tally_ok_def)
  have "sleep_ok s' k" if k: "k < wcount ?S" for k
  proof (cases "k = i")
    case True
    then show ?thesis using wk' [OF k] p by (intro awake_sleep_ok) (simp add: asleep_def spinForWork_stolen_def)
  next
    case False
    show ?thesis by (rule sleep_at [OF vw arr i sys_invD(5) [OF inv k] k _ False]) (simp_all add: chk p spinForWork_stolen_def)
  qed
  then show ?thesis using ok joined tally n by (simp add: sys_inv_def)
qed

lemma gives_inv:
  assumes gv: "gives s j t w' s'" and inv: "sys_inv s"
  shows "sys_inv s'"
proof -
  let ?S = "sys_sch s" and ?S' = "sys_sch s'" let ?w = "wk ?S j"
  note arr = sys_invD(2) [OF inv]
  have j: "j < wcount ?S" and w': "w' = fst (enqueueAndUnlock t ?w)" "worker_ok j w'" and vw: "view (at_worker j w') ?S ?S'"
    and c: "sys_carry s' = sys_carry s" and g: "sys_given s' = sys_given s @ bodies [t]"
    "sys_late s' = (if wpc ?w = PExit then sys_late s @ bodies [t] else sys_late s)"
    and chk: "sys_check s' = (sys_check s)(j := sys_check s j \<or> work_notify_added ?w)" and d: "unjoined (sys_dtor s') = unjoined (sys_dtor s)"
    using gv unfolding gives_def by blast+
  have p: "wpc w' = wpc ?w" "executed w' = executed ?w" using w'(1) by (simp_all add: enqueueAndUnlock_def)
  note wk' = view_wk [OF vw arr] and n = view_wcount [OF vw]
  have ok: "sys_ok s'"
  proof (rule sys_ok_view [OF sys_invD(1) [OF inv] vw])
    fix k assume k: "k < wcount ?S"
    then show "worker_ok k (at_worker j w' k (wk ?S k)) \<and> carry_ok (sys_carry s' k) (wpc (at_worker j w' k (wk ?S k)))"
      using sys_okD(2,3) [OF sys_invD(1) [OF inv] k] w'(2) c p(1) by (cases "k = j") auto
  qed (use sys_okD(4) [OF sys_invD(1) [OF inv]] c in auto)
  have joined: "joined_ok s'" by (rule joined_at [OF sys_invD(3) [OF inv] vw arr d]) (simp add: p(1))
  have lo: "left_over w' = left_over ?w + (if wpc ?w = PExit then mset (bodies [t]) else {#})"
    using w'(1) p(1) by (simp add: left_over_def enqueueAndUnlock_def)
  have "all_load s' = all_load s + mset (bodies [t])"
    using view_sum_at [OF vw arr j, of load] load_enqueue [of t ?w] w'(1) by (simp add: all_load_def)
  moreover have "all_left s' = all_left s + (if wpc ?w = PExit then mset (bodies [t]) else {#})"
    using view_sum_at [OF vw arr j, of left_over] lo by (simp add: all_left_def)
  ultimately have tally: "tally_ok s'"
    using sys_invD(4) [OF inv] flight_same [OF n c] g by (simp add: tally_ok_def)
  have "sleep_ok s' k" if k: "k < wcount ?S" for k
  proof (cases "k = j")
    case True
    then show ?thesis
      using wk' [OF k] p(1) chk awake_armed [OF sys_okD(2) [OF sys_invD(1) [OF inv] k]]
      by (intro awake_sleep_ok) (auto simp: asleep_def)
  next
    case False
    show ?thesis by (rule sleep_at [OF vw arr j sys_invD(5) [OF inv k] k _ False p(2)]) (simp add: chk False)
  qed
  then show ?thesis using ok joined tally n by (simp add: sys_inv_def)
qed

lemma enqueue_fiber_notify: "enqueue_fiber f w = Inr (w', n) \<Longrightarrow> w' = w \<or> n = work_notify_added w"
  by (auto simp: enqueue_fiber_def Let_def split: fstate.splits)

lemma notifies_inv:
  assumes nt: "notifies s i f w' b s'" and inv: "sys_inv s"
  shows "sys_inv s'"
proof -
  let ?S = "sys_sch s" and ?S' = "sys_sch s'" let ?w = "wk ?S i"
  note arr = sys_invD(2) [OF inv]
  have i: "i < wcount ?S" and w': "enqueue_fiber f ?w = Inr (w', b)" "worker_ok i w'" "task_frame ?w w'" "wpc w' = wpc ?w"
    and vw: "view (at_worker i w') ?S ?S'" and c: "sys_carry s' = sys_carry s" and kept: "kept s s'" and d: "sys_dtor s' = sys_dtor s"
    and chk: "sys_check s' = (sys_check s)(i := sys_check s i \<or> b)"
    using nt by (simp_all add: notifies_def)
  note wk' = view_wk [OF vw arr] and n = view_wcount [OF vw]
  have ok: "sys_ok s'"
  proof (rule sys_ok_view [OF sys_invD(1) [OF inv] vw])
    fix k assume k: "k < wcount ?S"
    then show "worker_ok k (at_worker i w' k (wk ?S k)) \<and> carry_ok (sys_carry s' k) (wpc (at_worker i w' k (wk ?S k)))"
      using sys_okD(2,3) [OF sys_invD(1) [OF inv] k] w'(2,4) c by (cases "k = i") auto
  qed (use sys_okD(4) [OF sys_invD(1) [OF inv]] c in auto)
  have joined: "joined_ok s'" by (rule joined_at [OF sys_invD(3) [OF inv] vw arr]) (simp_all add: d w'(4))
  have "left_over w' = left_over ?w" using w'(3,4) by (simp add: left_over_def task_frame_def)
  then have tally: "tally_ok s'"
    using view_sum_at [OF vw arr i, of load] view_sum_at [OF vw arr i, of left_over] load_frame [OF w'(3)]
      sys_invD(4) [OF inv] flight_same [OF n c] kept by (simp add: tally_ok_def all_load_def all_left_def)
  have "sleep_ok s' k" if k: "k < wcount ?S" for k
  proof (cases "k = i \<and> w' \<noteq> ?w")
    case True
    then show ?thesis
      using wk' [OF k] w'(4) chk enqueue_fiber_notify [OF w'(1)] awake_armed [OF sys_okD(2) [OF sys_invD(1) [OF inv] k]]
      by (intro awake_sleep_ok) (auto simp: asleep_def)
  next
    case False
    have e: "executed w' = executed ?w" using w'(3) by (simp add: task_frame_def)
    show ?thesis
    proof (cases "k = i")
      case True
      then have "wk ?S' j = wk ?S j" if "j < wcount ?S" for j using False wk' [OF that] by (cases "j = i") auto
      then show ?thesis
        using sys_invD(5) [OF inv k] k chk True n by (auto simp: sleep_ok_def asleep_def stopped_by_other_def Let_def)
    next
      case False
      show ?thesis by (rule sleep_at [OF vw arr i sys_invD(5) [OF inv k] k _ False e]) (simp add: chk False)
    qed
  qed
  then show ?thesis using ok joined tally n by (simp add: sys_inv_def)
qed

section \<open>Every run\<close>

lemma system_start_inv:
  assumes "system_init s"
  shows "sys_inv s"
proof -
  obtain cpus c sch where s: "scheduler_new cpus c = Inr sch" "0 < cfg_count c" "s = system_start sch"
    using assms by (auto simp: system_init_def)
  note new = scheduler_new_workers [OF s(1)]
  have n: "wcount sch = nat (cfg_count c)" "wcount sch \<le> 256" using new(1,2) by (simp_all add: wcount_def)
  have arr: "array_ok sch" using new n s(2) by (auto simp: array_ok_def sched_ok_def MaxWorkerThreads_def)
  have wk: "wk sch i = worker_start MultiThreaded (of_nat i)" if "i < wcount sch" for i using new(4) n that by (simp add: wk_def)
  have ok: "worker_ok i (worker_start MultiThreaded (of_nat i) :: 'a worker)" for i
    using worker_start_inv [of MultiThreaded "of_nat i"] by (auto simp: worker_ok_def worker_start_def)
  then have "sys_ok s" using arr wk s(3) by (simp add: sys_ok_def system_start_def carry_ok_def)
  moreover have "all_load s = {#}" "all_left s = {#}" "all_flight s = {#}"
    using wk s(3) by (simp_all add: all_load_def all_left_def all_flight_def system_start_def load_def left_over_def worker_start_def)
  then have "tally_ok s" using s(3) by (simp add: tally_ok_def system_start_def)
  moreover have "sleep_ok s k" if "k < wcount sch" for k
    using wk [OF that] s(3) by (intro awake_sleep_ok) (simp add: asleep_def system_start_def worker_start_def)
  ultimately show ?thesis using s(3) by (simp add: sys_inv_def joined_ok_def system_start_def)
qed

lemma system_start_refs:
  assumes "system_init s"
  shows "refs_ok (sys_sch s)"
proof -
  from assms obtain cpus c sch where "scheduler_new cpus c = Inr sch" "s = system_start sch" by (auto simp: system_init_def)
  then show ?thesis by (auto simp: system_start_def scheduler_new_def refs_ok_def rbind_def Let_def split: sum.splits)
qed

lemma system_step_inv:
  assumes "sys_inv s \<and> refs_ok (sys_sch s)" "sstep sp s r"
  shows "\<exists>s'. r = Inr s' \<and> sys_inv s' \<and> refs_ok (sys_sch s')"
proof -
  have inv: "sys_inv s" "refs_ok (sys_sch s)" using assms(1) by simp_all
  obtain s' where s': "r = Inr s'" "sys_inv s'"
    using sstep_shape [OF sys_invD(1) [OF inv(1)] assms(2) inv(2)] own_move_inv quiet_move_inv theft_inv adds_stolen_inv
      gives_inv notifies_inv inv(1) by metis
  moreover have "refs_ok (sys_sch s')" using sstep_refs [of sp s s'] sys_invD(2) [OF inv(1)] inv(2) assms(2) s'(1) by blast
  ultimately show ?thesis by blast
qed

interpretation system: invariant_system system_init "sstep sp" "\<lambda>s. sys_inv s \<and> refs_ok (sys_sch s)" for sp
  by unfold_locales (use system_start_inv system_start_refs system_step_inv in blast)+

lemma system_reach_inv:
  assumes "system_reach sp s"
  shows "sys_inv s" "refs_ok (sys_sch s)"
  using system.reach_inv [OF assms] by simp_all

text \<open>A parked fiber that is notified is queued while it still sits in \<open>idle_fibers_\<close>, and the worker aborts when the fiber comes up.\<close>

lemma parked_notification:
  assumes "worker_ok i w" "mutex_free (wpc w)" "fiber_state w f = Idle"
  shows "\<exists>w' n. enqueue_fiber f w = Inr (w', n) \<and> work_fibers w' = work_fibers w @ [f] \<and> f \<in> idle_fibers w' \<and>
    (work_fibers w = [] \<longrightarrow> runUntilIdle w' = Inl (AssertFailed ''dequeued fiber is idle''))"
proof -
  have "live_inv w" using assms(1,2) by (auto simp: worker_ok_def winv_def exit_inv_def)
  then have "located w f" "wf_inv (work_waiting w)" by (simp_all add: live_inv_def ginv_def containers_ok_def)
  then have "f \<in> idle_fibers w" "\<not> wf_contains f (work_waiting w)"
    using assms(3) by (auto simp: located_def wf_contains_def wf_abs_def)
  then show ?thesis
    using assms(3) by (simp add: enqueue_fiber_def setFiberState_def runUntilIdle_def Let_def)
qed

lemma reach_notification:
  assumes "system_reach sp s" "worker_at (WThread i) (sys_sch s) = Inr w" "mutex_free (wpc w)" "f \<le> worker_fibers w" "\<not> may_notify f w"
  shows "\<exists>w' n. enqueue_fiber f w = Inr (w', n) \<and> work_fibers w' = work_fibers w @ [f] \<and> f \<in> idle_fibers w' \<and>
    (work_fibers w = [] \<longrightarrow> runUntilIdle w' = Inl (AssertFailed ''dequeued fiber is idle''))"
proof -
  note inv = system_reach_inv(1) [OF assms(1)]
  have "i < wcount (sys_sch s)" "w = wk (sys_sch s) i" using worker_at_wk [OF sys_invD(2) [OF inv]] assms(2) by simp_all
  then have ok: "worker_ok i w" using sys_okD(2) [OF sys_invD(1) [OF inv]] by simp
  have "fiber_state w f = Idle" using assms(4,5) by (simp add: may_notify_def)
  then show ?thesis by (rule parked_notification [OF ok assms(3)])
qed

end
