(* ===== verification/System_Runs.thy ===== *)
theory System_Runs
  imports System_Properties
begin

text \<open>
  Two runs of a scheduler with two worker threads that end badly: the task that stops a worker is stolen and the destructor waits
  forever, and a task is given to a worker that has already ended.
\<close>

section \<open>A worker that runs single tasks\<close>

text \<open>The states of a worker thread that stays on its main fiber.\<close>

definition plain :: "32 word \<Rightarrow> nat body task list \<Rightarrow> bool \<Rightarrow> bool \<Rightarrow> pc \<Rightarrow> nat body list \<Rightarrow> nat worker" where
  "plain i ts armed sd p ex =
     \<lparr>own_id = i, wmode = MultiThreaded, work_num = of_nat (length ts), work_num_blocked_fibers = 0, work_tasks = ts,
      work_fibers = [], work_waiting = wf_new, work_notify_added = armed, current_fiber = 0, idle_fibers = {},
      worker_fibers = 0, fiber_state = (\<lambda>_. Running), shutdown = sd,
      fiber_cont = (\<lambda>_. NotStarted)(0 := (if p = PExit then Finished else NotStarted)), wpc = p, executed = ex, wait_result = None\<rparr>"

lemma plain_simps [simp]:
  "own_id (plain i ts armed sd p ex) = i" "work_tasks (plain i ts armed sd p ex) = ts" "work_notify_added (plain i ts armed sd p ex) = armed"
  "shutdown (plain i ts armed sd p ex) = sd" "wpc (plain i ts armed sd p ex) = p" "executed (plain i ts armed sd p ex) = ex"
  "worker_fibers (plain i ts armed sd p ex) = 0" "fiber_state (plain i ts armed sd p ex) f = Running"
  "wmode (plain i ts armed sd p ex) = MultiThreaded" "work_num (plain i ts armed sd p ex) = of_nat (length ts)"
  "(plain i ts armed sd p ex)\<lparr>shutdown := b\<rparr> = plain i ts armed b p ex"
  by (simp_all add: plain_def)

lemma plain_start: "worker_start MultiThreaded i = plain i [] True False PStart []"
  by (simp add: worker_start_def plain_def main_fiber_def fun_upd_idem)

lemma plain_room: "length ts < 2 \<Longrightarrow> queue_room (plain i ts armed sd p ex)"
  by (simp add: queue_room_def plain_def wf_new_def)

lemma plain_enqueue: "fst (enqueueAndUnlock t (plain i ts armed sd p ex)) = plain i (ts @ [t]) armed sd p ex"
  by (simp add: enqueueAndUnlock_def plain_def)

lemma plain_stolen: "spinForWork_stolen SLoop t (plain i ts armed sd (PSpin SLoop False) ex) = plain i (ts @ [t]) armed sd (PSpin SLoop True) ex"
  by (simp add: spinForWork_stolen_def plain_def)

lemma plain_steal: "\<not> task_is t SameThread \<Longrightarrow> steal True (plain i [t] armed sd p ex) = (plain i [] armed sd p ex, Some t)"
  by (simp add: steal_def plain_def)

lemma plain_begin: "tstep (plain i [] armed sd PStart ex) (Inr (plain i [] armed sd PRun ex))"
  using ts_start [of "plain i [] armed sd PStart ex"] by (simp add: plain_def)

lemma plain_run: "tstep (plain i [] armed sd PRun ex) (Inr (plain i [] True sd (PRunWait None) ex))"
  using ts_run [of "plain i [] armed sd PRun ex"] by (simp add: plain_def run_begin_def work_wait_def wf_bool_def wf_new_def)

lemma plain_wake: "tstep (plain i [t] armed sd (PRunWait None) ex) (Inr (plain i [t] False sd PLoop ex))"
  using ts_run_wake [of "plain i [t] armed sd (PRunWait None) ex" None 0] by (simp add: plain_def run_ready_def run_wake_def)

lemma plain_work: "tstep (plain i [t] armed sd PLoop ex) (Inr (plain i [t] armed sd PIdle ex))"
  using ts_loop [of "plain i [t] armed sd PLoop ex" 0]
  by (simp add: plain_def pick_ok_def runUntilShutdown_def waitForWork_def after_waitForWork_def runUntilIdle_begin_def)

lemma plain_task:
  "task_function t = Some b \<Longrightarrow> tstep (plain i [t] armed sd PIdle ex) (Inr (plain i [] armed (sd \<or> b = SetShutdown i) PTask (ex @ [b])))"
  using ts_idle [of "plain i [t] armed sd PIdle ex"]
  by (cases b) (auto simp: plain_def runUntilIdle_def task_call_def run_body_def split: if_splits)

lemma plain_done: "tstep (plain i ts armed sd PTask ex) (Inr (plain i ts armed sd PIdle ex))"
  using ts_task_done [of "plain i ts armed sd PTask ex"] by (simp add: plain_def)

lemma plain_idle: "tstep (plain i [] armed sd PIdle ex) (Inr (plain i [] armed sd PLoop ex))"
  using ts_idle [of "plain i [] armed sd PIdle ex"] by (simp add: plain_def runUntilIdle_def)

lemma plain_spin: "tstep (plain i [] armed False PLoop ex) (Inr (plain i [] armed False (PSpin SLoop False) ex))"
  using ts_loop [of "plain i [] armed False PLoop ex" 0]
  by (simp add: plain_def pick_ok_def runUntilShutdown_def waitForWork_def)

lemma plain_wait: "tstep (plain i ts armed sd (PSpin SLoop b) ex) (Inr (plain i ts True sd (PWait SLoop None) ex))"
  using ts_spin_return [of "plain i ts armed sd (PSpin SLoop b) ex" SLoop b]
  by (simp add: plain_def work_wait_def wf_bool_def wf_new_def)

lemma plain_wake2: "tstep (plain i [t] armed sd (PWait SLoop None) ex) (Inr (plain i [t] False sd PIdle ex))"
  using ts_wake [of "plain i [t] armed sd (PWait SLoop None) ex" SLoop None 0 0 0]
  by (simp add: plain_def waitForWork_ready_def pick_ok_def fiber_room_def waitForWork_wake_def wf_bool_def wf_new_def
      after_waitForWork_def runUntilIdle_begin_def)

lemma plain_exit: "tstep (plain i [] armed True PLoop ex) (Inr (plain i [] armed True PExit ex))"
  using ts_loop [of "plain i [] armed True PLoop ex" 0]
  by (simp add: plain_def pick_ok_def runUntilShutdown_def switchToFiber_def resume_def main_fiber_def)

section \<open>Two workers\<close>

definition two :: "nat worker \<Rightarrow> nat worker \<Rightarrow> int list \<Rightarrow> 32 word \<Rightarrow> 32 word \<Rightarrow> (nat \<Rightarrow> nat worker option) \<Rightarrow>
    (nat \<Rightarrow> wref option) \<Rightarrow> nat scheduler" where
  "two a b xs nx ne bt cur =
     \<lparr>sch_cfg = setConfigDefaults None (setWorkerThreadCount 2 config_default), sch_spinning = xs, sch_next_spinning = nx,
      sch_next_enqueue = ne, sch_workers = (replicate 256 None)[0 := Some a, 1 := Some b], sch_by_tid = bt, sch_current = cur\<rparr>"

definition two_flags :: "bool \<Rightarrow> bool \<Rightarrow> nat \<Rightarrow> bool" where
  "two_flags k0 k1 = (\<lambda>_. False)(0 := k0, 1 := k1)"

definition first :: "'a option \<Rightarrow> nat \<Rightarrow> 'a option" where
  "first c = (\<lambda>_. None)(0 := c)"

definition duo :: "nat worker \<Rightarrow> nat worker \<Rightarrow> int list \<Rightarrow> 32 word \<Rightarrow> 32 word \<Rightarrow> (nat \<Rightarrow> nat worker option) \<Rightarrow>
    (nat \<Rightarrow> wref option) \<Rightarrow> nat body task option \<Rightarrow> bool \<Rightarrow> bool \<Rightarrow> dtor \<Rightarrow> nat body list \<Rightarrow> nat body list \<Rightarrow> nat system" where
  "duo a b xs nx ne bt cur c k0 k1 d g l =
     \<lparr>sys_sch = two a b xs nx ne bt cur, sys_carry = first c, sys_check = two_flags k0 k1, sys_dtor = d, sys_given = g, sys_late = l\<rparr>"

lemma two_flags_simps [simp]:
  "two_flags k0 k1 0 = k0" "two_flags k0 k1 (Suc 0) = k1" "(two_flags k0 k1)(0 := x) = two_flags x k1" "(two_flags k0 k1)(Suc 0 := x) = two_flags k0 x"
  "first c 0 = c" "first c (Suc 0) = None" "(first c)(0 := y) = first y"
  by (auto simp: two_flags_def first_def fun_eq_iff)

lemma two_count: "cfg_count (sch_cfg (two a b xs nx ne bt cur)) = 2" "wcount (two a b xs nx ne bt cur) = 2"
  by (simp_all add: two_def wcount_def setConfigDefaults_def setWorkerThreadCount_def config_default_def)

lemma two_at [simp]:
  "worker_at (WThread 0) (two a b xs nx ne bt cur) = Inr a" "worker_at (WThread 1) (two a b xs nx ne bt cur) = Inr b"
  "worker_at (WThread (Suc 0)) (two a b xs nx ne bt cur) = Inr b"
  by (simp_all add: two_def worker_at_def)

lemma two_wk [simp]: "wk (two a b xs nx ne bt cur) 0 = a" "wk (two a b xs nx ne bt cur) (Suc 0) = b"
  by (simp_all add: two_def wk_def)

lemma two_set [simp]:
  "set_worker (WThread 0) w (two a b xs nx ne bt cur) = two w b xs nx ne bt cur"
  "set_worker (WThread 1) w (two a b xs nx ne bt cur) = two a w xs nx ne bt cur"
  "set_worker (WThread (Suc 0)) w (two a b xs nx ne bt cur) = two a w xs nx ne bt cur"
  by (simp_all add: two_def set_worker_def list_update_swap [of 1 0] list_update_swap [of "Suc 0" 0])

lemma two_other [simp]:
  "sch_current (two a b xs nx ne bt cur) = cur" "sch_by_tid (two a b xs nx ne bt cur) = bt"
  "(two a b xs nx ne bt cur)\<lparr>sch_current := cur'\<rparr> = two a b xs nx ne bt cur'"
  "onBeginSpinning w (two a b xs nx ne bt cur) = two a b (xs[unat nx mod 8 := w]) (nx + 1) ne bt cur"
  by (simp_all add: two_def onBeginSpinning_def Let_def)

lemma duo_simps [simp]:
  "sys_sch (duo a b xs nx ne bt cur c k0 k1 d g l) = two a b xs nx ne bt cur" "sys_carry (duo a b xs nx ne bt cur c k0 k1 d g l) = first c"
  "sys_check (duo a b xs nx ne bt cur c k0 k1 d g l) = two_flags k0 k1" "sys_dtor (duo a b xs nx ne bt cur c k0 k1 d g l) = d"
  "sys_given (duo a b xs nx ne bt cur c k0 k1 d g l) = g" "sys_late (duo a b xs nx ne bt cur c k0 k1 d g l) = l"
  "(duo a b xs nx ne bt cur c k0 k1 d g l)\<lparr>sys_sch := two a' b' xs' nx' ne' bt' cur'\<rparr> = duo a' b' xs' nx' ne' bt' cur' c k0 k1 d g l"
  "(duo a b xs nx ne bt cur c k0 k1 d g l)\<lparr>sys_check := two_flags x y\<rparr> = duo a b xs nx ne bt cur c x y d g l"
  "(duo a b xs nx ne bt cur c k0 k1 d g l)\<lparr>sys_carry := first z\<rparr> = duo a b xs nx ne bt cur z k0 k1 d g l"
  "(duo a b xs nx ne bt cur c k0 k1 d g l)\<lparr>sys_dtor := d'\<rparr> = duo a b xs nx ne bt cur c k0 k1 d' g l"
  "(duo a b xs nx ne bt cur c k0 k1 d g l)\<lparr>sys_given := g'\<rparr> = duo a b xs nx ne bt cur c k0 k1 d g' l"
  "(duo a b xs nx ne bt cur c k0 k1 d g l)\<lparr>sys_late := l'\<rparr> = duo a b xs nx ne bt cur c k0 k1 d g l'"
  by (simp_all add: duo_def)

lemma duo_start: "system_init (duo (plain 0 [] True False PStart []) (plain 1 [] True False PStart []) (replicate 8 (- 1)) 0x8000000 0
    (\<lambda>_. None) (\<lambda>_. None) None False False DtorNot [] [])"
proof -
  let ?c = "setWorkerThreadCount 2 config_default"
  have "scheduler_new None ?c = Inr (two (plain 0 [] True False PStart []) (plain 1 [] True False PStart []) (replicate 8 (- 1)) 0x8000000 0
      (\<lambda>_. None) (\<lambda>_. None))"
    by (simp add: scheduler_new_def setConfigDefaults_def setWorkerThreadCount_def
      config_default_def MaxWorkerThreads_def upt_rec Let_def two_def plain_start)
  moreover have "0 < cfg_count ?c" by (simp add: setWorkerThreadCount_def config_default_def)
  moreover have "duo (plain 0 [] True False PStart []) (plain 1 [] True False PStart []) (replicate 8 (- 1)) 0x8000000 0
      (\<lambda>_. None) (\<lambda>_. None) None False False DtorNot [] [] = system_start (two (plain 0 [] True False PStart [])
      (plain 1 [] True False PStart []) (replicate 8 (- 1)) 0x8000000 0 (\<lambda>_. None) (\<lambda>_. None))"
    by (simp add: system_start_def duo_def two_flags_def first_def fun_eq_iff)
  ultimately show ?thesis unfolding system_init_def by blast
qed

subsection \<open>Steps\<close>

lemma duo_begin0: "cur tid = None \<Longrightarrow> sstep sp (duo (plain i [] ar sd PStart ex) b xs nx ne bt cur c k0 k1 d g l)
    (Inr (duo (plain i [] ar sd PRun ex) b xs nx ne bt (cur(tid \<mapsto> WThread 0)) c k0 k1 d g l))"
  using sy_begin [of 0 "duo (plain i [] ar sd PStart ex) b xs nx ne bt cur c k0 k1 d g l" _ _ tid, OF _ _ plain_begin]
  by (simp add: put_worker_def worker_thread_begin_def)

lemma duo_begin1: "cur tid = None \<Longrightarrow> sstep sp (duo a (plain i [] ar sd PStart ex) xs nx ne bt cur c k0 k1 d g l)
    (Inr (duo a (plain i [] ar sd PRun ex) xs nx ne bt (cur(tid \<mapsto> WThread 1)) c k0 k1 d g l))"
  using sy_begin [of 1 "duo a (plain i [] ar sd PStart ex) xs nx ne bt cur c k0 k1 d g l" _ _ tid, OF _ _ plain_begin]
  by (simp add: put_worker_def worker_thread_begin_def)

text \<open>A step of a worker that starts no task; the start of a task.\<close>

lemma duo_effect:
  assumes "executed w' = executed w"
  shows "own_effect 0 w w' (duo a b xs nx ne bt cur c k0 k1 d g l) =
      duo w' b (if spins (wpc w') then xs[unat nx mod 8 := 0] else xs) (if spins (wpc w') then nx + 1 else nx) ne bt cur c
       (k0 \<or> in_work_wait (wpc w')) k1 d g l"
    "own_effect (Suc 0) w w' (duo a b xs nx ne bt cur c k0 k1 d g l) =
      duo a w' (if spins (wpc w') then xs[unat nx mod 8 := 1] else xs) (if spins (wpc w') then nx + 1 else nx) ne bt cur c
       k0 (k1 \<or> in_work_wait (wpc w')) d g l"
  using assms by (auto simp: own_effect_def put_worker_def Let_def)

lemma duo_own:
  assumes "tstep w (Inr w')" "executed w' = executed w"
  shows "may_move sp k0 c (wpc w) \<Longrightarrow> sstep sp (duo w b xs nx ne bt cur c k0 k1 d g l)
     (Inr (duo w' b (if spins (wpc w') then xs[unat nx mod 8 := 0] else xs) (if spins (wpc w') then nx + 1 else nx) ne bt cur c
       (k0 \<or> in_work_wait (wpc w')) k1 d g l))"
    "may_move sp k1 (None :: nat body task option) (wpc w) \<Longrightarrow> sstep sp (duo a w xs nx ne bt cur c k0 k1 d g l)
     (Inr (duo a w' (if spins (wpc w') then xs[unat nx mod 8 := 1] else xs) (if spins (wpc w') then nx + 1 else nx) ne bt cur c
       k0 (k1 \<or> in_work_wait (wpc w')) d g l))"
  using sy_own [of 0 "duo w b xs nx ne bt cur c k0 k1 d g l" w sp, OF _ _ assms(1)] duo_effect(1) [OF assms(2)]
    sy_own [of "Suc 0" "duo a w xs nx ne bt cur c k0 k1 d g l" w sp, OF _ _ assms(1)] duo_effect(2) [OF assms(2)] by (simp_all split del: if_split)

lemma duo_task:
  assumes "task_function t = Some (b :: nat body)"
  shows "sstep sp (duo (plain i [t] ar sd PIdle ex) v xs nx ne bt cur c k0 k1 d g l)
     (Inr ((duo (plain i [] ar (sd \<or> b = SetShutdown i) PTask (ex @ [b])) v xs nx ne bt cur c k0 k1 d g l)
        \<lparr>sys_sch := body_effect b (two (plain i [] ar (sd \<or> b = SetShutdown i) PTask (ex @ [b])) v xs nx ne bt cur)\<rparr>))"
    "sstep sp (duo u (plain i [t] ar sd PIdle ex) xs nx ne bt cur c k0 k1 d g l)
     (Inr ((duo u (plain i [] ar (sd \<or> b = SetShutdown i) PTask (ex @ [b])) xs nx ne bt cur c k0 k1 d g l)
        \<lparr>sys_sch := body_effect b (two u (plain i [] ar (sd \<or> b = SetShutdown i) PTask (ex @ [b])) xs nx ne bt cur)\<rparr>))"
  using sy_own [of 0 "duo (plain i [t] ar sd PIdle ex) v xs nx ne bt cur c k0 k1 d g l" _ sp, OF _ _ plain_task [OF assms]]
    sy_own [of "Suc 0" "duo u (plain i [t] ar sd PIdle ex) xs nx ne bt cur c k0 k1 d g l" _ sp, OF _ _ plain_task [OF assms]]
  by (simp_all add: own_effect_def put_worker_def Let_def)

lemma two_shutdown [simp]:
  "set_shutdown 0 (two a b xs nx ne bt cur) = two (a\<lparr>shutdown := True\<rparr>) b xs nx ne bt cur"
  "set_shutdown 1 (two a b xs nx ne bt cur) = two a (b\<lparr>shutdown := True\<rparr>) xs nx ne bt cur"
  by (simp_all add: set_shutdown_def)

lemma bodies_stop [simp]: "bodies [stop_task i] = [SetShutdown i]" "bodies [task_new b f] = [b]"
  by (simp_all add: bodies_def stop_task_def task_new_def)

lemma duo_recheck:
  "in_work_wait (wpc a) \<Longrightarrow> \<not> wait_cond (wpc a) a \<Longrightarrow> sstep sp (duo a b xs nx ne bt cur c k0 k1 d g l) (Inr (duo a b xs nx ne bt cur c False k1 d g l))"
  "in_work_wait (wpc b) \<Longrightarrow> \<not> wait_cond (wpc b) b \<Longrightarrow> sstep sp (duo a b xs nx ne bt cur c k0 k1 d g l) (Inr (duo a b xs nx ne bt cur c k0 False d g l))"
  using sy_recheck [of 0 "duo a b xs nx ne bt cur c k0 k1 d g l" a sp] sy_recheck [of "Suc 0" "duo a b xs nx ne bt cur c k0 k1 d g l" b sp]
  by simp_all

lemma plain_not_ready:
  "\<not> wait_cond (PRunWait None) (plain i [] ar False p ex)" "\<not> wait_cond (PWait SLoop None) (plain i [] ar False p ex)"
  by (simp_all add: run_ready_def waitForWork_ready_def plain_def wf_bool_def wf_new_def deadline_passed_def)

lemma mutex_free_not_exit: "mutex_free p \<Longrightarrow> p \<noteq> PExit"
  by auto

lemma duo_stop1:
  "sstep sp (duo a (plain i [] ar sd p ex) xs nx ne bt cur c k0 k1 (DtorStop (Suc 0 # is)) g l)
     (Inr (duo a (plain i [stop_task 1] ar sd p ex) xs nx ne bt cur c k0 (k1 \<or> ar) (DtorJoin 1 is) (g @ [SetShutdown 1]) l))"
    if p: "mutex_free p"
  using sy_stop [of "duo a (plain i [] ar sd p ex) xs nx ne bt cur c k0 k1 (DtorStop (Suc 0 # is)) g l" "Suc 0" "is" _ sp] p mutex_free_not_exit [OF p]
  by (simp add: plain_room give_task_def plain_enqueue task_given_def notify_worker_def lockable_def Let_def)

lemma duo_stop0:
  "sstep sp (duo (plain i [] ar sd p ex) b xs nx ne bt cur c k0 k1 (DtorStop (0 # is)) g l)
     (Inr (duo (plain i [stop_task 0] ar sd p ex) b xs nx ne bt cur c (k0 \<or> ar) k1 (DtorJoin 0 is) (g @ [SetShutdown 0]) l))"
    if p: "mutex_free p"
  using sy_stop [of "duo (plain i [] ar sd p ex) b xs nx ne bt cur c k0 k1 (DtorStop (0 # is)) g l" 0 "is" _ sp] p mutex_free_not_exit [OF p]
  by (simp add: plain_room give_task_def plain_enqueue task_given_def notify_worker_def lockable_def Let_def)

abbreviation nobody :: "nat \<Rightarrow> 'a option" where
  "nobody \<equiv> \<lambda>_. None"

abbreviation single :: "nat worker" where
  "single \<equiv> worker_start SingleThreaded (- 1)"

lemma two_bind: "cur tid = None \<Longrightarrow> bt tid = None \<Longrightarrow>
    sched_bind tid (two a b xs nx ne bt cur) = Inr (two a b xs nx ne (bt(tid \<mapsto> single)) (cur(tid \<mapsto> WSingle tid)))"
  by (simp add: sched_bind_def two_def)

lemma duo_bind: "cur tid = None \<Longrightarrow> bt tid = None \<Longrightarrow> sstep sp (duo a b xs nx ne bt cur c k0 k1 DtorNot g l)
    (Inr (duo a b xs nx ne (bt(tid \<mapsto> single)) (cur(tid \<mapsto> WSingle tid)) c k0 k1 DtorNot g l))"
  using sy_bind [of "duo a b xs nx ne bt cur c k0 k1 DtorNot g l" tid sp] by (simp add: two_bind may_bind_def)

lemma duo_unbind:
  assumes "cur tid = Some (WSingle tid)" "bt tid = Some w"
  shows "sstep sp (duo a b xs nx ne bt cur c k0 k1 d g l)
    (Inr (duo a b xs nx ne (bt(tid := None)) (cur(tid := None)) c k0 k1 d g l))"
proof -
  have "sched_unbind_stop tid (two a b xs nx ne bt cur) = Inr (WSingle tid, two a b xs nx ne (bt(tid \<mapsto> stop_single w)) cur)"
    using assms by (simp add: sched_unbind_stop_def worker_at_def set_worker_def two_def)
  moreover have "sched_unbind_finish [] tid (WSingle tid) (set_worker (WSingle tid) w (two a b xs nx ne (bt(tid \<mapsto> stop_single w)) cur)) =
      Inr (two a b xs nx ne (bt(tid := None)) (cur(tid := None)), True)"
    by (simp add: sched_unbind_finish_def set_worker_def two_def)
  ultimately have "sched_unbind [] tid w (two a b xs nx ne bt cur) = Inr (two a b xs nx ne (bt(tid := None)) (cur(tid := None)), True)"
    by (simp add: sched_unbind_def)
  then show ?thesis
    using sy_unbind [of tid "duo a b xs nx ne bt cur c k0 k1 d g l" sp "[]" w] assms(1) by (simp add: may_unbind_def)
qed

lemma two_choose:
  assumes "xs ! (unat (nx - 1) mod 8) = - 1"
  shows "choose_worker (two a b xs nx ne bt cur) = (int (unat ne mod 2), two a b xs (nx - 1) (ne + 1) bt cur)"
  using assms list_update_id [of xs "unat (nx - 1) mod 8"] two_count(1) [of a b xs nx ne bt cur]
  by (simp add: choose_worker_def Let_def two_def zmod_int)

lemma two_schedule:
  assumes "xs ! (unat (nx - 1) mod 8) = - 1" "\<not> task_is t SameThread" "cur tid \<noteq> None"
  shows "schedule tid [True] t (two a b xs nx ne bt cur) = Some (give_task t (WThread (unat ne mod 2)) (two a b xs (nx - 1) (ne + 1) bt cur))"
    "receiver tid [True] t (two a b xs nx ne bt cur) = Some (unat ne mod 2)"
proof -
  have "\<exists>w. worker_at (WThread (unat ne mod 2)) (two a b xs (nx - 1) (ne + 1) bt cur) = Inr w"
    using mod_less_divisor [of 2 "unat ne"] by (auto simp: less_2_cases_iff)
  then show "schedule tid [True] t (two a b xs nx ne bt cur) = Some (give_task t (WThread (unat ne mod 2)) (two a b xs (nx - 1) (ne + 1) bt cur))"
    using assms two_choose [OF assms(1)] by (auto simp: schedule_def scheduler_enqueue_def two_count)
  show "receiver tid [True] t (two a b xs nx ne bt cur) = Some (unat ne mod 2)"
    using assms two_choose [OF assms(1)] by (simp add: receiver_def)
qed

definition job :: "nat \<Rightarrow> nat body task" where
  "job n = task_new (User n) FlagNone"

lemma job_simps [simp]: "\<not> task_is (job n) SameThread" "user_task (job n)" "bodies [job n] = [User n]" "task_function (job n) = Some (User n)"
  "task_flags (job n) = FlagNone" "task_flags (stop_task i) = FlagNone" "\<not> task_is (stop_task i) SameThread" "task_function (stop_task i) = Some (SetShutdown i)"
  by (simp_all add: job_def task_is_def task_new_def user_task_def bodies_def stop_task_def)

lemma duo_schedule0:
  assumes "xs ! (unat (nx - 1) mod 8) = - 1" "unat ne mod 2 = 0" "cur tid = Some (WSingle tid)" "mutex_free p"
  shows "sstep sp (duo (plain i [] ar sd p ex) b xs nx ne bt cur c k0 k1 d g l)
    (Inr (duo (plain i [job n] ar sd p ex) b xs (nx - 1) (ne + 1) bt cur c (k0 \<or> ar) k1 d (g @ [User n]) l))"
  using sy_schedule [of tid "duo (plain i [] ar sd p ex) b xs nx ne bt cur c k0 k1 d g l" "job n" "[True]" 0
      "plain i [] ar sd p ex" "Inr (two (plain i [job n] ar sd p ex) b xs (nx - 1) (ne + 1) bt cur)" sp]
    two_schedule [OF assms(1), of "job n" cur tid] assms mutex_free_not_exit [OF assms(4)]
  by (simp add: caller_ok_def lockable_def plain_room give_task_def plain_enqueue task_given_def notify_worker_def Let_def)

lemma duo_schedule_late:
  assumes "xs ! (unat (nx - 1) mod 8) = - 1" "unat ne mod 2 = 1" "cur tid = Some (WThread 0)"
  shows "sstep sp (duo (plain j ts ar' sd' PTask ex') (plain i [] ar sd PExit ex) xs nx ne bt cur c k0 k1 d g l)
    (Inr (duo (plain j ts ar' sd' PTask ex') (plain i [job n] ar sd PExit ex) xs (nx - 1) (ne + 1) bt cur c k0 (k1 \<or> ar) d (g @ [User n]) (l @ [User n])))"
  using sy_schedule [of tid "duo (plain j ts ar' sd' PTask ex') (plain i [] ar sd PExit ex) xs nx ne bt cur c k0 k1 d g l" "job n" "[True]" "Suc 0"
      "plain i [] ar sd PExit ex" "Inr (two (plain j ts ar' sd' PTask ex') (plain i [job n] ar sd PExit ex) xs (nx - 1) (ne + 1) bt cur)" sp]
    two_schedule [OF assms(1), of "job n" cur tid] assms
  by (simp add: caller_ok_def lockable_def plain_room give_task_def plain_enqueue task_given_def notify_worker_def Let_def)

lemma duo_destruct: "sstep sp (duo a b xs nx ne nobody cur c k0 k1 DtorNot g l) (Inr (duo a b xs nx ne nobody cur c k0 k1 (DtorStop [1, 0]) g l))"
  using sy_destruct [of "duo a b xs nx ne nobody cur c k0 k1 DtorNot g l" sp] by (simp add: destruct_order_def two_count upt_rec)

lemma duo_steal:
  assumes "\<not> task_is t SameThread" "mutex_free p"
  shows "sstep sp (duo (plain j [] ar' sd' (PSpin SLoop False) ex') (plain i [t] ar sd p ex) xs nx ne bt cur None k0 k1 d g l)
    (Inr (duo (plain j [] ar' sd' (PSpin SLoop False) ex') (plain i [] ar sd p ex) xs nx ne bt cur (Some t) k0 k1 d g l))"
  using sy_steal [of 0 "duo (plain j [] ar' sd' (PSpin SLoop False) ex') (plain i [t] ar sd p ex) xs nx ne bt cur None k0 k1 d g l"
      "plain j [] ar' sd' (PSpin SLoop False) ex'" SLoop 1 "plain i [t] ar sd p ex" True sp]
    assms by (simp add: victim_def two_count stealWork_def lockable_def plain_steal)

lemma duo_stolen: "sstep sp (duo (plain j [] ar' sd' (PSpin SLoop False) ex') b xs nx ne bt cur (Some t) k0 k1 d g l)
    (Inr (duo (plain j [t] ar' sd' (PSpin SLoop True) ex') b xs nx ne bt cur None k0 k1 d g l))"
  using sy_stolen [of 0 "duo (plain j [] ar' sd' (PSpin SLoop False) ex') b xs nx ne bt cur (Some t) k0 k1 d g l" _ SLoop t sp]
  by (simp add: plain_room put_worker_def plain_stolen)

lemma duo_end:
  "wpc a = PExit \<Longrightarrow> cur tid = Some (WThread 0) \<Longrightarrow> sstep sp (duo a b xs nx ne bt cur c k0 k1 d g l) (Inr (duo a b xs nx ne bt (cur(tid := None)) c k0 k1 d g l))"
  "wpc b = PExit \<Longrightarrow> cur tid = Some (WThread 1) \<Longrightarrow> sstep sp (duo a b xs nx ne bt cur c k0 k1 d g l) (Inr (duo a b xs nx ne bt (cur(tid := None)) c k0 k1 d g l))"
  using sy_end [of 0 "duo a b xs nx ne bt cur c k0 k1 d g l" a tid sp] sy_end [of "Suc 0" "duo a b xs nx ne bt cur c k0 k1 d g l" b tid sp]
  by (simp_all add: worker_thread_end_def)

lemma duo_join:
  "wpc a = PExit \<Longrightarrow> (\<And>tid. cur tid \<noteq> Some (WThread 0)) \<Longrightarrow>
    sstep sp (duo a b xs nx ne bt cur c k0 k1 (DtorJoin 0 is) g l) (Inr (duo a b xs nx ne bt cur c k0 k1 (DtorStop is) g l))"
  "wpc b = PExit \<Longrightarrow> (\<And>tid. cur tid \<noteq> Some (WThread 1)) \<Longrightarrow>
    sstep sp (duo a b xs nx ne bt cur c k0 k1 (DtorJoin 1 is) g l) (Inr (duo a b xs nx ne bt cur c k0 k1 (DtorStop is) g l))"
  using sy_join [of "duo a b xs nx ne bt cur c k0 k1 (DtorJoin 0 is) g l" 0 "is" a sp]
    sy_join [of "duo a b xs nx ne bt cur c k0 k1 (DtorJoin 1 is) g l" 1 "is" b sp] by simp_all

lemma duo_destroyed: "sstep sp (duo a b xs nx ne bt cur c k0 k1 (DtorStop []) g l) (Inr (duo a b xs nx ne bt cur c k0 k1 DtorDone g l))"
  using sy_destroyed [of "duo a b xs nx ne bt cur c k0 k1 (DtorStop []) g l" sp] by simp

section \<open>The runs\<close>

abbreviation quiet8 :: "int list" where
  "quiet8 \<equiv> replicate 8 (- 1)"

text \<open>Worker 0 waits for its first work, worker 1 has not begun, and thread 9 is bound.\<close>

abbreviation idle_workers :: "nat body task list \<Rightarrow> 32 word \<Rightarrow> 32 word \<Rightarrow> nat body list \<Rightarrow> nat system" where
  "idle_workers ts nx ne g \<equiv> duo (plain 0 ts True False (PRunWait None) []) (plain 1 [] True False PStart []) quiet8 nx ne
     [9 \<mapsto> single] [9 \<mapsto> WSingle 9, 5 \<mapsto> WThread 0] None True False DtorNot g []"

lemma idle_workers_reach: "system_reach sp (idle_workers [] 0x8000000 0 [])"
proof -
  let ?b = "plain 1 [] True False PStart []"
  have 1: "system_reach sp (duo (plain 0 [] True False PStart []) ?b quiet8 0x8000000 0 nobody nobody None False False DtorNot [] [])"
    by (rule reach_init) (rule duo_start)
  have 2: "system_reach sp (duo (plain 0 [] True False PStart []) ?b quiet8 0x8000000 0 [9 \<mapsto> single] [9 \<mapsto> WSingle 9] None False False DtorNot [] [])"
    by (rule reach_step [OF 1 duo_bind]) simp_all
  have 3: "system_reach sp (duo (plain 0 [] True False PRun []) ?b quiet8 0x8000000 0 [9 \<mapsto> single] [9 \<mapsto> WSingle 9, 5 \<mapsto> WThread 0] None False False DtorNot [] [])"
    by (rule reach_step [OF 2 duo_begin0]) simp
  show ?thesis using reach_step [OF 3 duo_own(1) [OF plain_run]] by simp
qed

text \<open>Worker 0 executes a task of a thread that is no longer bound, worker 1 waits for its first work, and the destructor is about
  to stop worker 1.\<close>

definition stage :: "nat system" where
  "stage = duo (plain 0 [] False False PTask [User 1]) (plain 1 [] True False (PRunWait None) []) quiet8 0x7FFFFFF 1
     nobody [5 \<mapsto> WThread 0, 6 \<mapsto> WThread 1] None True True (DtorStop [1, 0]) [User 1] []"

lemma stage_reach: "system_reach sp stage"
proof -
  let ?b = "plain 1 [] True False PStart []" and ?cur = "[9 \<mapsto> WSingle 9, 5 \<mapsto> WThread 0]"
  have nx: "quiet8 ! (unat ((0x8000000 :: 32 word) - 1) mod 8) = - 1" by simp
  have 5: "system_reach sp (duo (plain 0 [job 1] True False (PRunWait None) []) ?b quiet8 0x7FFFFFF 1 [9 \<mapsto> single] ?cur None True False DtorNot [User 1] [])"
    using reach_step [OF idle_workers_reach duo_schedule0 [OF nx, where tid = 9 and n = 1]] by simp
  have 6: "system_reach sp (duo (plain 0 [job 1] False False PLoop []) ?b quiet8 0x7FFFFFF 1 [9 \<mapsto> single] ?cur None True False DtorNot [User 1] [])"
    using reach_step [OF 5 duo_own(1) [OF plain_wake]] by simp
  have 7: "system_reach sp (duo (plain 0 [job 1] False False PIdle []) ?b quiet8 0x7FFFFFF 1 [9 \<mapsto> single] ?cur None True False DtorNot [User 1] [])"
    using reach_step [OF 6 duo_own(1) [OF plain_work]] by simp
  have 8: "system_reach sp (duo (plain 0 [] False False PTask [User 1]) ?b quiet8 0x7FFFFFF 1 [9 \<mapsto> single] ?cur None True False DtorNot [User 1] [])"
    using reach_step [OF 7 duo_task(1) [where b = "User 1"]] by simp
  have 9: "system_reach sp (duo (plain 0 [] False False PTask [User 1]) ?b quiet8 0x7FFFFFF 1 nobody [5 \<mapsto> WThread 0] None True False DtorNot [User 1] [])"
    using reach_step [OF 8 duo_unbind [where tid = 9 and w = single]] by (simp add: fun_upd_twist)
  have 10: "system_reach sp (duo (plain 0 [] False False PTask [User 1]) (plain 1 [] True False PRun []) quiet8 0x7FFFFFF 1 nobody
      [5 \<mapsto> WThread 0, 6 \<mapsto> WThread 1] None True False (DtorStop [1, 0]) [User 1] [])"
    by (rule reach_step [OF reach_step [OF 9 duo_destruct] duo_begin1]) simp
  show ?thesis unfolding stage_def using reach_step [OF 10 duo_own(2) [OF plain_run]] by simp
qed

text \<open>The destructor has given worker 1 the task that stops it, worker 0 has stolen and executed this task, and both sleep.\<close>

definition hung :: "nat system" where
  "hung = duo (plain 0 [] True False (PWait SLoop None) [User 1, SetShutdown 1]) (plain 1 [] True True (PRunWait None) [])
     (quiet8[7 := 0, 0 := 0]) 0x8000001 1 nobody [5 \<mapsto> WThread 0, 6 \<mapsto> WThread 1] None False False (DtorJoin 1 [0]) [User 1, SetShutdown 1] []"

lemma hung_reach: "system_reach sp hung"
proof -
  let ?cur = "[5 \<mapsto> WThread 0, 6 \<mapsto> WThread 1]" and ?b = "plain 1 [] True False (PRunWait None) []" and ?g = "[User 1, SetShutdown 1]"
  let ?xs = "quiet8[7 := 0]"
  have 1: "system_reach sp (duo (plain 0 [] False False PIdle [User 1]) ?b quiet8 0x7FFFFFF 1 nobody ?cur None True True (DtorStop [1, 0]) [User 1] [])"
    using reach_step [OF stage_reach [unfolded stage_def] duo_own(1) [OF plain_done]] by simp
  have 2: "system_reach sp (duo (plain 0 [] False False PLoop [User 1]) ?b quiet8 0x7FFFFFF 1 nobody ?cur None True True (DtorStop [1, 0]) [User 1] [])"
    using reach_step [OF 1 duo_own(1) [OF plain_idle]] by simp
  have 3: "system_reach sp (duo (plain 0 [] False False (PSpin SLoop False) [User 1]) ?b ?xs 0x8000000 1 nobody ?cur None True True (DtorStop [1, 0]) [User 1] [])"
    using reach_step [OF 2 duo_own(1) [OF plain_spin]] by simp
  have 4: "system_reach sp (duo (plain 0 [] False False (PSpin SLoop False) [User 1]) (plain 1 [stop_task 1] True False (PRunWait None) [])
      ?xs 0x8000000 1 nobody ?cur None True True (DtorJoin 1 [0]) ?g [])"
    using reach_step [OF 3 [folded One_nat_def] duo_stop1 [folded One_nat_def]] by simp
  have 5: "system_reach sp (duo (plain 0 [] False False (PSpin SLoop False) [User 1]) ?b ?xs 0x8000000 1 nobody ?cur (Some (stop_task 1)) True True (DtorJoin 1 [0]) ?g [])"
    by (rule reach_step [OF 4 duo_steal]) simp_all
  have 6: "system_reach sp (duo (plain 0 [] False False (PSpin SLoop False) [User 1]) ?b ?xs 0x8000000 1 nobody ?cur (Some (stop_task 1)) True False (DtorJoin 1 [0]) ?g [])"
    by (rule reach_step [OF 5 duo_recheck(2)]) (simp_all add: plain_not_ready del: wait_cond.simps)
  have 7: "system_reach sp (duo (plain 0 [stop_task 1] False False (PSpin SLoop True) [User 1]) ?b ?xs 0x8000000 1 nobody ?cur None True False (DtorJoin 1 [0]) ?g [])"
    by (rule reach_step [OF 6 duo_stolen])
  have 8: "system_reach sp (duo (plain 0 [stop_task 1] True False (PWait SLoop None) [User 1]) ?b ?xs 0x8000000 1 nobody ?cur None True False (DtorJoin 1 [0]) ?g [])"
    using reach_step [OF 7 duo_own(1) [OF plain_wait]] by simp
  have 9: "system_reach sp (duo (plain 0 [stop_task 1] False False PIdle [User 1]) ?b ?xs 0x8000000 1 nobody ?cur None True False (DtorJoin 1 [0]) ?g [])"
    using reach_step [OF 8 duo_own(1) [OF plain_wake2]] by simp
  have 10: "system_reach sp (duo (plain 0 [] False False PTask ?g) (plain 1 [] True True (PRunWait None) []) ?xs 0x8000000 1 nobody ?cur None True False (DtorJoin 1 [0]) ?g [])"
    using reach_step [OF 9 duo_task(1) [where b = "SetShutdown 1"]] by simp
  have 11: "system_reach sp (duo (plain 0 [] False False PIdle ?g) (plain 1 [] True True (PRunWait None) []) ?xs 0x8000000 1 nobody ?cur None True False (DtorJoin 1 [0]) ?g [])"
    using reach_step [OF 10 duo_own(1) [OF plain_done]] by simp
  have 12: "system_reach sp (duo (plain 0 [] False False PLoop ?g) (plain 1 [] True True (PRunWait None) []) ?xs 0x8000000 1 nobody ?cur None True False (DtorJoin 1 [0]) ?g [])"
    using reach_step [OF 11 duo_own(1) [OF plain_idle]] by simp
  have 13: "system_reach sp (duo (plain 0 [] False False (PSpin SLoop False) ?g) (plain 1 [] True True (PRunWait None) []) (?xs[0 := 0]) 0x8000001 1 nobody ?cur None True False (DtorJoin 1 [0]) ?g [])"
    using reach_step [OF 12 duo_own(1) [OF plain_spin]] by simp
  have 14: "system_reach sp (duo (plain 0 [] True False (PWait SLoop None) ?g) (plain 1 [] True True (PRunWait None) []) (?xs[0 := 0]) 0x8000001 1 nobody ?cur None True False (DtorJoin 1 [0]) ?g [])"
    using reach_step [OF 13 duo_own(1) [OF plain_wait]] by simp
  show ?thesis unfolding hung_def by (rule reach_step [OF 14 duo_recheck(1)]) (simp_all add: plain_not_ready del: wait_cond.simps)
qed

lemma two_at_iff: "worker_at (WThread i) (two a b xs nx ne bt cur) = Inr w \<longleftrightarrow> i = 0 \<and> w = a \<or> i = 1 \<and> w = b"
proof -
  have "worker_at (WThread i) (two a b xs nx ne bt cur) \<noteq> Inr w" if "1 < i"
    using that by (auto simp: two_def worker_at_def nth_list_update split: option.splits)
  then show ?thesis by (cases "1 < i") (auto simp: less_Suc_eq not_less le_Suc_eq)
qed

lemma hung_stuck:
  assumes "sstep False hung r"
  shows "r = Inr hung"
proof -
  let ?a = "plain 0 [] True False (PWait SLoop None) [User 1, SetShutdown 1]" and ?b = "plain 1 [] True True (PRunWait None) []"
  have s: "sys_dtor hung = DtorJoin 1 [0]" "sys_carry hung = first None" "sys_check hung = two_flags False False"
    "sch_current (sys_sch hung) = [5 \<mapsto> WThread 0, 6 \<mapsto> WThread 1]" by (simp_all add: hung_def)
  have at: "worker_at (WThread i) (sys_sch hung) = Inr w \<longleftrightarrow> i = 0 \<and> w = ?a \<or> i = 1 \<and> w = ?b" for i w
    by (simp add: hung_def two_at_iff)
  from assms show ?thesis
  proof cases
    case (sy_recheck i w)
    then show ?thesis by (auto simp: at) (simp_all add: hung_def)
  next
    case (sy_notify i w f)
    then have "fiber_state w f = Running" by (auto simp: at)
    then show ?thesis using sy_notify by (auto simp: at enqueue_fiber_def) (simp_all add: hung_def put_worker_def notify_worker_def)
  next
    case (sy_schedule tid t locks j v r)
    then show ?thesis by (auto simp: caller_ok_def s at split: if_splits sum.splits)
  next
    case (sy_unbind tid tids w)
    then show ?thesis by (auto simp: may_unbind_def s split: if_splits)
  qed (auto simp: at s)
qed

text \<open>Worker 1 has ended and was joined; the task on worker 0 then schedules another one, which goes to worker 1.\<close>

definition lost :: "nat system" where
  "lost = duo (plain 0 [] False True PExit [User 1, SetShutdown 0]) (plain 1 [job 2] False True PExit [SetShutdown 1])
     quiet8 0x7FFFFFE 2 nobody nobody None True True DtorDone [User 1, SetShutdown 1, User 2, SetShutdown 0] [User 2]"

lemma lost_reach: "system_reach sp lost"
proof -
  let ?cur = "[5 \<mapsto> WThread 0, 6 \<mapsto> WThread 1]" and ?a = "plain 0 [] False False PTask [User 1]" and ?g = "[User 1, SetShutdown 1]"
  let ?b = "plain 1 [job 2] False True PExit [SetShutdown 1]" and ?g2 = "[User 1, SetShutdown 1, User 2, SetShutdown 0]"
  have 1: "system_reach sp (duo ?a (plain 1 [stop_task 1] True False (PRunWait None) []) quiet8 0x7FFFFFF 1 nobody ?cur None True True (DtorJoin 1 [0]) ?g [])"
    using reach_step [OF stage_reach [unfolded stage_def] duo_stop1 [folded One_nat_def]] by simp
  have 2: "system_reach sp (duo ?a (plain 1 [stop_task 1] False False PLoop []) quiet8 0x7FFFFFF 1 nobody ?cur None True True (DtorJoin 1 [0]) ?g [])"
    using reach_step [OF 1 duo_own(2) [OF plain_wake]] by simp
  have 3: "system_reach sp (duo ?a (plain 1 [stop_task 1] False False PIdle []) quiet8 0x7FFFFFF 1 nobody ?cur None True True (DtorJoin 1 [0]) ?g [])"
    using reach_step [OF 2 duo_own(2) [OF plain_work]] by simp
  have 4: "system_reach sp (duo ?a (plain 1 [] False True PTask [SetShutdown 1]) quiet8 0x7FFFFFF 1 nobody ?cur None True True (DtorJoin 1 [0]) ?g [])"
    using reach_step [OF 3 duo_task(2) [where b = "SetShutdown 1"]] by simp
  have 5: "system_reach sp (duo ?a (plain 1 [] False True PIdle [SetShutdown 1]) quiet8 0x7FFFFFF 1 nobody ?cur None True True (DtorJoin 1 [0]) ?g [])"
    using reach_step [OF 4 duo_own(2) [OF plain_done]] by simp
  have 6: "system_reach sp (duo ?a (plain 1 [] False True PLoop [SetShutdown 1]) quiet8 0x7FFFFFF 1 nobody ?cur None True True (DtorJoin 1 [0]) ?g [])"
    using reach_step [OF 5 duo_own(2) [OF plain_idle]] by simp
  have 7: "system_reach sp (duo ?a (plain 1 [] False True PExit [SetShutdown 1]) quiet8 0x7FFFFFF 1 nobody ?cur None True True (DtorJoin 1 [0]) ?g [])"
    using reach_step [OF 6 duo_own(2) [OF plain_exit]] by simp
  have 8: "system_reach sp (duo ?a (plain 1 [] False True PExit [SetShutdown 1]) quiet8 0x7FFFFFF 1 nobody [5 \<mapsto> WThread 0] None True True (DtorJoin 1 [0]) ?g [])"
    using reach_step [OF 7 duo_end(2) [where tid = 6]] by (simp add: fun_upd_twist)
  have 9: "system_reach sp (duo ?a (plain 1 [] False True PExit [SetShutdown 1]) quiet8 0x7FFFFFF 1 nobody [5 \<mapsto> WThread 0] None True True (DtorStop [0]) ?g [])"
    using reach_step [OF 8 duo_join(2)] by simp
  have 10: "system_reach sp (duo ?a ?b quiet8 0x7FFFFFE 2 nobody [5 \<mapsto> WThread 0] None True True (DtorStop [0]) [User 1, SetShutdown 1, User 2] [User 2])"
    using reach_step [OF 9 duo_schedule_late [where tid = 5 and n = 2]] by simp
  have 11: "system_reach sp (duo (plain 0 [stop_task 0] False False PTask [User 1]) ?b quiet8 0x7FFFFFE 2 nobody [5 \<mapsto> WThread 0] None True True (DtorJoin 0 []) ?g2 [User 2])"
    using reach_step [OF 10 duo_stop0] by simp
  have 12: "system_reach sp (duo (plain 0 [stop_task 0] False False PIdle [User 1]) ?b quiet8 0x7FFFFFE 2 nobody [5 \<mapsto> WThread 0] None True True (DtorJoin 0 []) ?g2 [User 2])"
    using reach_step [OF 11 duo_own(1) [OF plain_done]] by simp
  have 13: "system_reach sp (duo (plain 0 [] False True PTask [User 1, SetShutdown 0]) ?b quiet8 0x7FFFFFE 2 nobody [5 \<mapsto> WThread 0] None True True (DtorJoin 0 []) ?g2 [User 2])"
    using reach_step [OF 12 duo_task(1) [where b = "SetShutdown 0"]] by simp
  have 14: "system_reach sp (duo (plain 0 [] False True PIdle [User 1, SetShutdown 0]) ?b quiet8 0x7FFFFFE 2 nobody [5 \<mapsto> WThread 0] None True True (DtorJoin 0 []) ?g2 [User 2])"
    using reach_step [OF 13 duo_own(1) [OF plain_done]] by simp
  have 15: "system_reach sp (duo (plain 0 [] False True PLoop [User 1, SetShutdown 0]) ?b quiet8 0x7FFFFFE 2 nobody [5 \<mapsto> WThread 0] None True True (DtorJoin 0 []) ?g2 [User 2])"
    using reach_step [OF 14 duo_own(1) [OF plain_idle]] by simp
  have 16: "system_reach sp (duo (plain 0 [] False True PExit [User 1, SetShutdown 0]) ?b quiet8 0x7FFFFFE 2 nobody [5 \<mapsto> WThread 0] None True True (DtorJoin 0 []) ?g2 [User 2])"
    using reach_step [OF 15 duo_own(1) [OF plain_exit]] by simp
  have 17: "system_reach sp (duo (plain 0 [] False True PExit [User 1, SetShutdown 0]) ?b quiet8 0x7FFFFFE 2 nobody nobody None True True (DtorJoin 0 []) ?g2 [User 2])"
    using reach_step [OF 16 duo_end(1) [where tid = 5]] by simp
  show ?thesis unfolding lost_def by (rule reach_step [OF reach_step [OF 17 duo_join(1)] duo_destroyed]) simp_all
qed

end
