(* ===== verification/Containers_Take.thy ===== *)
theory Containers_Take
  imports Worker_Model
begin

text \<open>
  \<open>containers::take\<close> (\<open>containers.hpp\<close>) on a deque and on an unordered set, and its uses in the worker: \<open>Worker_Model\<close> takes the
  queues apart by their constructors; the lemmas say that this is \<open>take\<close>, and that it is called on nonempty containers only.
\<close>

text \<open>\<open>front()\<close> of an empty deque and \<open>*begin()\<close> of an empty set are undefined. The first element of an unordered set is any of its elements.\<close>

fun take_deque :: "'a list \<Rightarrow> ('a \<times> 'a list) result" where
  "take_deque [] = Inl BadAccess"
| "take_deque (x # xs) = Inr (x, xs)"

definition take_set :: "'a \<Rightarrow> 'a set \<Rightarrow> ('a \<times> 'a set) result" where
  "take_set first S = (if first \<in> S then Inr (first, S - {first}) else Inl BadAccess)"

lemma take_deque_all: "take_deque xs = Inr (x, ys) \<longleftrightarrow> xs = x # ys"
  by (cases xs) auto

lemma take_set_all: "take_set x S = Inr (y, T) \<longleftrightarrow> y = x \<and> x \<in> S \<and> T = S - {x}"
  by (auto simp: take_set_def)

lemma runUntilIdle_takes_fiber:
  assumes "work_fibers w \<noteq> []"
  shows "runUntilIdle w = rbind (take_deque (work_fibers w)) (\<lambda>(fiber, rest).
     let w1 = w\<lparr>work_num := work_num w - 1, work_fibers := rest\<rparr> in
     rbind (marl_assert (fiber \<notin> idle_fibers w1) ''dequeued fiber is idle'') (\<lambda>_.
     rbind (marl_assert (fiber \<noteq> current_fiber w1) ''dequeued fiber is currently running'') (\<lambda>_.
     rbind (marl_assert (fiber_state w1 fiber = Queued) ''fiber was in an unexpected state'') (\<lambda>_.
     rbind (changeFiberState (current_fiber w1) Running Idle w1) (\<lambda>w2.
     rbind (marl_assert (current_fiber w2 \<notin> idle_fibers w2) ''fiber already idle'') (\<lambda>_.
     switchToFiber Parked fiber (w2\<lparr>idle_fibers := insert (current_fiber w2) (idle_fibers w2)\<rparr>)))))))"
  using assms by (cases "work_fibers w") (simp_all add: runUntilIdle_def)

lemma runUntilIdle_takes_task:
  assumes "work_fibers w = []" "work_tasks w \<noteq> []"
  shows "runUntilIdle w = rbind (take_deque (work_tasks w)) (\<lambda>(task, rest).
     rbind (task_call task) (\<lambda>b. Inr (run_body b (w\<lparr>work_num := work_num w - 1, work_tasks := rest\<rparr>))))"
  using assms by (cases "work_tasks w") (simp_all add: runUntilIdle_def)

lemma steal_takes:
  assumes "work_num w \<noteq> 0"
  shows "steal True w =
     (if work_tasks w = [] \<or> task_is (hd (work_tasks w)) SameThread then (w, None)
      else case take_deque (work_tasks w) of
        Inr (out, rest) \<Rightarrow> (w\<lparr>work_num := work_num w - 1, work_tasks := rest\<rparr>, Some out)
      | Inl e \<Rightarrow> (w, None))"
  using assms by (cases "work_tasks w") (simp_all add: steal_def)

end
