(* ===== verification/Diagnostics.thy ===== *)
theory Diagnostics
  imports Scheduler_Model Fiber_Model
begin

text \<open>
  What the program prints before it stops: \<open>src/debug.cpp\<close> with the macros of \<open>debug.hpp\<close>, the message of \<open>ASSERT_FIBER_STATE\<close>
  (\<open>scheduler.cpp\<close> 26--29), and the names of threads (\<open>Thread::setName\<close>).

  The other theories keep of a failed assertion the value \<open>AssertFailed\<close> only. Here a process has the text of its standard error and whether it has
  been aborted, and the two readings agree (\<open>assert_agrees\<close>). Of the formats of \<open>printf\<close> those that the sources use are modelled.
\<close>

section \<open>Formatted text\<close>

datatype farg = FStr string | FInt int

definition digit_char :: "nat \<Rightarrow> char" where
  "digit_char d = ''0123456789'' ! d"

fun digits :: "nat \<Rightarrow> string" where
  "digits n = (if n < 10 then [digit_char n] else digits (n div 10) @ [digit_char (n mod 10)])"

declare digits.simps [simp del]

text \<open>\<open>%d\<close> with a precision, the least number of digits.\<close>

definition decimal :: "nat \<Rightarrow> int \<Rightarrow> string" where
  "decimal prec i =
     (let ds = digits (nat \<bar>i\<bar>)
      in (if i < 0 then ''-'' else []) @ replicate (prec - length ds) (CHR ''0'') @ ds)"

fun conversion :: "nat \<Rightarrow> farg list \<Rightarrow> string" where
  "conversion prec (FStr s # as) = s"
| "conversion prec (FInt i # as) = decimal prec i"
| "conversion prec [] = []"

function c_format :: "string \<Rightarrow> farg list \<Rightarrow> string" where
  "c_format [] as = []"
| "c_format (c # f) as =
     (if c \<noteq> CHR ''%'' then c # c_format f as
      else case f of
        [] \<Rightarrow> [c]
      | k # f1 \<Rightarrow>
          if k = CHR ''s'' \<or> k = CHR ''d'' then conversion 1 as @ c_format f1 (tl as)
          else if k = CHR ''.'' then
            (case f1 of
               p # _ # f2 \<Rightarrow> conversion (of_char p - 48) as @ c_format f2 (tl as)
             | _ \<Rightarrow> c # f)
          else k # c_format f1 as)"
  by pat_completeness auto
termination by (relation "measure (\<lambda>(f, as). length f)") auto

section \<open>The process\<close>

record process =
  stderr :: string
  aborted :: bool

definition fatal :: "string \<Rightarrow> farg list \<Rightarrow> process \<Rightarrow> process" where
  "fatal msg args p = p\<lparr>stderr := stderr p @ c_format msg args, aborted := True\<rparr>"

definition warn :: "string \<Rightarrow> farg list \<Rightarrow> process \<Rightarrow> process" where
  "warn msg args p = p\<lparr>stderr := stderr p @ c_format msg args\<rparr>"

definition MARL_FATAL :: "string \<Rightarrow> farg list \<Rightarrow> process \<Rightarrow> process" where
  "MARL_FATAL msg args = fatal (msg @ [CHR 0x0A]) args"

definition MARL_ASSERT :: "bool \<Rightarrow> string \<Rightarrow> farg list \<Rightarrow> process \<Rightarrow> process" where
  "MARL_ASSERT cond msg args p = (if cond then p else MARL_FATAL (''ASSERT: '' @ msg) args p)"

definition MARL_WARN :: "string \<Rightarrow> farg list \<Rightarrow> process \<Rightarrow> process" where
  "MARL_WARN msg args = warn (''WARNING: '' @ msg @ [CHR 0x0A]) args"

definition MARL_UNREACHABLE :: "process \<Rightarrow> process" where
  "MARL_UNREACHABLE = MARL_FATAL ''UNREACHABLE'' []"

text \<open>\<open>Scheduler::get() != nullptr\<close> on thread \<open>tid\<close>.\<close>

definition scheduler_get :: "nat \<Rightarrow> 'u scheduler \<Rightarrow> bool" where
  "scheduler_get tid s \<longleftrightarrow> sch_current s tid \<noteq> None"

definition assert_has_bound_scheduler :: "string \<Rightarrow> nat \<Rightarrow> 'u scheduler \<Rightarrow> process \<Rightarrow> process" where
  "assert_has_bound_scheduler feature tid s =
     MARL_ASSERT (scheduler_get tid s) ''%s requires a marl::Scheduler to be bound'' [FStr feature]"

definition state_name :: "fstate \<Rightarrow> string" where
  "state_name s = (case fiber_toString (state_value s) of Inr n \<Rightarrow> n | Inl e \<Rightarrow> [])"

definition ASSERT_FIBER_STATE :: "nat \<Rightarrow> fstate \<Rightarrow> fstate \<Rightarrow> process \<Rightarrow> process" where
  "ASSERT_FIBER_STATE fiber_id is_state expected =
     MARL_ASSERT (is_state = expected) ''fiber %d was in state %s, but expected %s''
       [FInt (int fiber_id), FStr (state_name is_state), FStr (state_name expected)]"

section \<open>Names of threads\<close>

text \<open>\<open>vsnprintf\<close> writes at most 1023 characters; \<open>pthread_setname_np\<close> refuses names of more than 15 and leaves the old name.\<close>

definition setName :: "string \<Rightarrow> farg list \<Rightarrow> string \<Rightarrow> string" where
  "setName fmt args old = (let name = take 1023 (c_format fmt args) in if length name \<le> 15 then name else old)"

definition worker_thread_name :: "nat \<Rightarrow> string \<Rightarrow> string" where
  "worker_thread_name worker_id = setName ''Thread<%.2d>'' [FInt (int worker_id)]"

section \<open>What is printed\<close>

lemma format_plain: "CHR ''%'' \<notin> set f \<Longrightarrow> c_format (f @ g) as = f @ c_format g as"
  by (induction f) auto

text \<open>The assertion of this model aborts the process exactly when that of the other theories returns a fault.\<close>

lemma assert_agrees: "aborted (MARL_ASSERT cond msg args p) \<longleftrightarrow> aborted p \<or> \<not> ok (marl_assert cond m)"
  by (cases cond) (auto simp: MARL_ASSERT_def MARL_FATAL_def fatal_def)

lemma assert_text:
  assumes "\<not> cond" "CHR ''%'' \<notin> set msg"
  shows "stderr (MARL_ASSERT cond msg args p) = stderr p @ ''ASSERT: '' @ msg @ [CHR 0x0A]"
  using assms format_plain [of msg "[CHR 0x0A]" args] by (simp add: MARL_ASSERT_def MARL_FATAL_def fatal_def)

text \<open>\<open>marl::schedule\<close> without a scheduler: the fault of \<open>schedule\<close> carries the message that is printed.\<close>

lemma schedule_unbound_text:
  assumes "\<not> scheduler_get tid s"
  shows "\<exists>m. schedule tid locks t s = Some (Inl (AssertFailed m)) \<and>
    stderr (assert_has_bound_scheduler ''marl::schedule'' tid s p) = stderr p @ ''ASSERT: '' @ m @ [CHR 0x0A]"
  using assms by (simp add: scheduler_get_def schedule_def assert_has_bound_scheduler_def MARL_ASSERT_def MARL_FATAL_def fatal_def)

lemma fiber_state_text:
  "stderr (ASSERT_FIBER_STATE 3 Waiting Queued p) = stderr p @ ''ASSERT: fiber 3 was in state Waiting, but expected Queued'' @ [CHR 0x0A]"
  by (simp add: ASSERT_FIBER_STATE_def MARL_ASSERT_def MARL_FATAL_def fatal_def state_name_def fiber_toString_def decimal_def digits.simps
      digit_char_def Let_def)

section \<open>Decimal numbers can be read back\<close>

definition digit_value :: "char \<Rightarrow> nat" where
  "digit_value c = of_char c - 48"

definition number_value :: "string \<Rightarrow> nat" where
  "number_value = foldl (\<lambda>n c. 10 * n + digit_value c) 0"

lemma digit_value_char: "d < 10 \<Longrightarrow> digit_value (digit_char d) = d"
  by (auto simp: digit_value_def digit_char_def eval_nat_numeral less_Suc_eq)

lemma digits_value: "number_value (digits n) = n"
proof (induction n rule: digits.induct)
  case (1 n)
  then show ?case
    by (cases "n < 10") (simp_all add: digits.simps [of n] number_value_def digit_value_char)
qed

lemma zeros_value: "number_value (replicate k (CHR ''0'') @ ds) = number_value ds"
proof -
  have "foldl (\<lambda>n c. 10 * n + digit_value c) 0 (replicate k (CHR ''0'')) = 0"
    by (induction k) (simp_all add: digit_value_def)
  then show ?thesis by (simp add: number_value_def)
qed

lemma decimal_value: "0 \<le> i \<Longrightarrow> number_value (decimal prec i) = nat i"
  by (simp add: decimal_def Let_def zeros_value digits_value)

lemma digits_length: "n < 10 ^ Suc k \<Longrightarrow> length (digits n) \<le> Suc k"
proof (induction k arbitrary: n)
  case 0
  then show ?case by (simp add: digits.simps)
next
  case (Suc k)
  then have "n div 10 < 10 ^ Suc k" by (simp add: less_mult_imp_div_less)
  then show ?case using Suc.IH [of "n div 10"] by (cases "n < 10") (simp_all add: digits.simps [of n])
qed

lemma worker_name: "worker_id < 10000000 \<Longrightarrow> worker_thread_name worker_id old = ''Thread<'' @ decimal 2 (int worker_id) @ ''>''"
proof -
  assume "worker_id < 10000000"
  then have "length (digits worker_id) \<le> 7" using digits_length [of worker_id 6] by simp
  then have "2 - length (digits worker_id) + length (digits worker_id) \<le> 7" by arith
  then show ?thesis by (simp add: worker_thread_name_def setName_def Let_def decimal_def)
qed

text \<open>The worker threads of a scheduler have different names.\<close>

lemma worker_names_differ:
  assumes "i < MaxWorkerThreads" "j < MaxWorkerThreads" "worker_thread_name i old = worker_thread_name j old'"
  shows "i = j"
proof -
  have "worker_thread_name i old = ''Thread<'' @ decimal 2 (int i) @ ''>''" "worker_thread_name j old' = ''Thread<'' @ decimal 2 (int j) @ ''>''"
    using assms(1,2) worker_name unfolding MaxWorkerThreads_def by auto
  then have "decimal 2 (int i) = decimal 2 (int j)" using assms(3) by (metis append_same_eq same_append_eq)
  then show ?thesis by (metis decimal_value nat_int of_nat_0_le_iff)
qed

end
