(* ===== verification/Event_Wait.thy ===== *)
theory Event_Wait
  imports Monitor_Proofs Event_Model
begin

text \<open>
  The shared state of one \<open>marl::Event\<close> (\<open>event.hpp\<close>) with its mutex and its condition variable, in every interleaving of calls of
  \<open>wait\<close>, \<open>wait_for\<close>, \<open>wait_until\<close>, \<open>signal\<close>, \<open>clear\<close> and \<open>test\<close> by fibers and threads.

  The calls are those of \<open>Monitor_Model\<close> with \<open>signalled\<close> as the predicate. An event with automatic reset notifies with
  \<open>ConditionVariable::notify_one\<close> (\<open>notify_one_next\<close>), a manual one with \<open>notify_all\<close>. A call \<open>t\<close> with \<open>deadline t\<close> is one of \<open>wait_for\<close> or
  \<open>wait_until\<close>; \<open>es_expired\<close> says whether the clock has passed its deadline. A fiber that runs again then leaves
  \<open>Worker::wait\<close> without a test of the predicate, a thread leaves the wait of the standard library with its value.

  \<open>signal\<close> passes the signal on to dependent events while it holds the mutex, at \<open>NUnlock\<close> here; this is \<open>Event_Model\<close>.

  \<open>es_raised\<close> and \<open>es_tests\<close> are not in the code: how often \<open>signalled\<close> became true, and how often \<open>test\<close> returned true.
\<close>

section \<open>State and steps\<close>

record ev_system =
  es_signalled :: bool
  es_mon :: monitor
  es_expired :: "nat \<Rightarrow> bool"
  es_raised :: nat
  es_tests :: nat

definition ev_system_new :: "bool \<Rightarrow> ev_system" where
  "ev_system_new initial_state = \<lparr>es_signalled = initial_state, es_mon = monitor_new, es_expired = (\<lambda>_. False),
     es_raised = of_bool initial_state, es_tests = 0\<rparr>"

text \<open>The end of a wait after its deadline: the lock is taken again, and a fiber returns false whatever the predicate is.\<close>

definition timeout_next :: "callers \<Rightarrow> bool \<Rightarrow> nat \<Rightarrow> monitor \<Rightarrow> monitor result option" where
  "timeout_next who pv t m =
     block_bind (wait_next who pv t m) (\<lambda>m'. cv_advance who (\<not> is_listed (cs_point (mo_cv m) t) \<and> pv) t m')"

text \<open>The test of the mode and the end of the block, once the condition variable has returned.\<close>

definition consumes :: "emode \<Rightarrow> nat \<Rightarrow> ev_system \<Rightarrow> bool" where
  "consumes mode t s \<longleftrightarrow> mode = Auto \<and> mo_wait (es_mon s) t = WCall \<and> cs_point (mo_cv (es_mon s)) t = CReturned True"

definition event_wait_next :: "callers \<Rightarrow> emode \<Rightarrow> bool \<Rightarrow> nat \<Rightarrow> ev_system \<Rightarrow> ev_system result option" where
  "event_wait_next who mode timed_out t s =
     (let m = es_mon s; pv = es_signalled s
      in block_bind (if mo_wait m t = WWoken \<and> timed_out then timeout_next who pv t m else wait_next who pv t m)
        (\<lambda>m'. Inr (s\<lparr>es_mon := m', es_signalled := pv \<and> \<not> consumes mode t s\<rparr>)))"

definition notify_one_next :: "callers \<Rightarrow> nat \<Rightarrow> nat \<Rightarrow> monitor \<Rightarrow> monitor result option" where
  "notify_one_next who pick d m =
     (let cv = cs_cv (mo_cv m)
      in case mo_notify m d of
        NLocked \<Rightarrow> Some (
          if cv_num_waiting cv = 0 then Inr (notify_at d NUnlock m)
          else if 0 < ml_size (cv_waiting cv)
          then rbind (front_fiber (cv_waiting cv)) (\<lambda>f. Inr (notify_at d (NFibers [f]) m))
          else Inr (notify_at d NThreads m))
      | NFibers fs \<Rightarrow>
          (case fs of
             [] \<Rightarrow> None
           | f # _ \<Rightarrow> if mo_work m (fst f) \<noteq> None then None
                      else Some (Inr (notify_at d NUnlock (wake (fiber_calls who f m) m))))
      | NThreads \<Rightarrow> Some (Inr (notify_at d NUnlock
          (if 0 < cv_num_waiting_on_condition cv then wake (\<lambda>t. t = pick \<and> thread_calls m t) m else m)))
      | _ \<Rightarrow> notify_next who d m)"

definition event_signal_next :: "callers \<Rightarrow> emode \<Rightarrow> nat \<Rightarrow> nat \<Rightarrow> ev_system \<Rightarrow> ev_system result option" where
  "event_signal_next who mode pick d s =
     (let m = es_mon s;
          notify = (if mode = Auto then notify_one_next who pick d m else notify_next who d m)
      in case mo_notify m d of
        NIdle \<Rightarrow> Some (Inr (s\<lparr>es_mon := notify_at d NLock m\<rparr>))
      | NLocked \<Rightarrow>
          if es_signalled s then Some (Inr (s\<lparr>es_mon := notify_at d NUnlock m\<rparr>))
          else block_bind notify (\<lambda>m'. Inr (s\<lparr>es_mon := m', es_signalled := True, es_raised := es_raised s + 1\<rparr>))
      | _ \<Rightarrow> block_bind notify (\<lambda>m'. Inr (s\<lparr>es_mon := m'\<rparr>)))"

definition event_clear_now :: "ev_system \<Rightarrow> ev_system" where
  "event_clear_now s = s\<lparr>es_signalled := False\<rparr>"

definition event_test_now :: "emode \<Rightarrow> ev_system \<Rightarrow> bool \<times> ev_system" where
  "event_test_now mode s =
     (if \<not> es_signalled s then (False, s)
      else (True, s\<lparr>es_signalled := mode \<noteq> Auto, es_tests := es_tests s + 1\<rparr>))"

text \<open>\<open>std::condition_variable::notify_one\<close> wakes one of the threads that are blocked, if there is one.\<close>

definition pick_thread :: "nat \<Rightarrow> monitor \<Rightarrow> bool" where
  "pick_thread pick m \<longleftrightarrow> (\<forall>t. thread_calls m t \<and> mo_wait m t = WBlocked \<longrightarrow> thread_calls m pick \<and> mo_wait m pick = WBlocked)"

text \<open>The worker of a fiber sees the deadline when it has its mutex.\<close>

definition worker_free :: "callers \<Rightarrow> nat \<Rightarrow> monitor \<Rightarrow> bool" where
  "worker_free who t m \<longleftrightarrow> (case who t of None \<Rightarrow> True | Some f \<Rightarrow> mo_work m (fst f) = None)"

inductive ev_step :: "callers \<Rightarrow> emode \<Rightarrow> (nat \<Rightarrow> bool) \<Rightarrow> ev_system \<Rightarrow> ev_system result \<Rightarrow> bool" for who mode deadline where
  evs_wait: "timed_out \<longrightarrow> es_expired s t \<Longrightarrow> who t \<noteq> None \<longrightarrow> timed_out = es_expired s t \<Longrightarrow>
    event_wait_next who mode timed_out t s = Some r \<Longrightarrow> ev_step who mode deadline s r"
| evs_signal: "pick_thread pick (es_mon s) \<Longrightarrow> event_signal_next who mode pick d s = Some r \<Longrightarrow> ev_step who mode deadline s r"
| evs_clear: "mo_mutex (es_mon s) = None \<Longrightarrow> ev_step who mode deadline s (Inr (event_clear_now s))"
| evs_test: "mo_mutex (es_mon s) = None \<Longrightarrow> ev_step who mode deadline s (Inr (snd (event_test_now mode s)))"
| evs_expire: "deadline t \<Longrightarrow> ev_step who mode deadline s (Inr (s\<lparr>es_expired := (es_expired s)(t := True)\<rparr>))"
| evs_timer: "es_expired s t \<Longrightarrow> worker_free who t (es_mon s) \<Longrightarrow>
    ev_step who mode deadline s (Inr (s\<lparr>es_mon := wake (\<lambda>u. u = t) (es_mon s)\<rparr>))"
| evs_spurious: "who t = None \<Longrightarrow>
    ev_step who mode deadline s (Inr (s\<lparr>es_mon := wake (\<lambda>u. u = t) (es_mon s)\<rparr>))"

definition ev_init :: "ev_system \<Rightarrow> bool" where
  "ev_init s \<longleftrightarrow> (\<exists>initial_state. s = ev_system_new initial_state)"

abbreviation ev_reach :: "callers \<Rightarrow> emode \<Rightarrow> (nat \<Rightarrow> bool) \<Rightarrow> ev_system \<Rightarrow> bool" where
  "ev_reach who mode deadline \<equiv> reach ev_init (ev_step who mode deadline)"

section \<open>Moves\<close>

text \<open>The steps of a call that waits: those of the monitor, and the return after the deadline.\<close>

inductive emove :: "bool \<Rightarrow> bool \<Rightarrow> wait_point \<Rightarrow> cv_point \<Rightarrow> wait_point \<Rightarrow> cv_point \<Rightarrow> bool" for pv timed_out where
  em_wait: "wmove pv p c p' c' \<Longrightarrow> emove pv timed_out p c p' c'"
| em_timeout: "timed_out \<Longrightarrow> is_listed c \<or> c = COnCondition \<Longrightarrow>
    emove pv timed_out WWoken c WCall (CLeaving (\<not> is_listed c \<and> pv))"

lemma cv_leaves:
  assumes "cv_wait_next w b c cv = Inr (p, cv')" "is_listed c \<or> c = COnCondition"
  shows "p = CLeaving b"
  using assms by (cases c) (auto simp: rbind_def split: sum.splits)

lemma timeout_next_move:
  assumes "mon_inv who m" "mo_wait m t = WWoken" "timeout_next who pv t m = Some r"
  shows "\<exists>m'. r = Inr m' \<and> mon_inv who m' \<and> mo_notify m' = mo_notify m \<and> mo_wait m' = (mo_wait m)(t := WCall) \<and>
    cs_point (mo_cv m') = (cs_point (mo_cv m))(t := CLeaving (\<not> is_listed (cs_point (mo_cv m) t) \<and> pv))"
proof -
  let ?c = "cs_point (mo_cv m) t"
  have c: "is_listed ?c \<or> ?c = COnCondition" using mon_invD(3) [OF assms(1), of t] assms(2) by simp
  obtain r1 where r1: "wait_next who pv t m = Some r1" "r = rbind r1 (cv_advance who (\<not> is_listed ?c \<and> pv) t)"
    using assms(3) by (auto simp: timeout_next_def block_bind_def)
  obtain m1 where m1: "r1 = Inr m1" "wait_trans who pv t m m1" using wait_next_trans [OF assms(1) r1(1)] by blast
  then have s1: "mon_inv who m1" "mo_notify m1 = mo_notify m" "mo_wait m1 = (mo_wait m)(t := WCall)"
    "cs_point (mo_cv m1) = cs_point (mo_cv m)"
    using assms(2) by (auto simp: wait_trans_def elim: wmove_elims)
  obtain p cv where n: "cv_wait_next (who t) (\<not> is_listed ?c \<and> pv) ?c (cs_cv (mo_cv m1)) = Inr (p, cv)"
    "r = Inr (m1\<lparr>mo_cv := (mo_cv m1)\<lparr>cs_cv := cv, cs_point := (cs_point (mo_cv m))(t := p)\<rparr>\<rparr>)"
    "mon_inv who (m1\<lparr>mo_cv := (mo_cv m1)\<lparr>cs_cv := cv, cs_point := (cs_point (mo_cv m))(t := p)\<rparr>\<rparr>)"
    using cv_advance_inv [OF s1(1), of t "\<not> is_listed ?c \<and> pv"] s1(3,4) r1(2) m1(1) by auto
  have "p = CLeaving (\<not> is_listed ?c \<and> pv)" by (rule cv_leaves [OF n(1) c])
  then show ?thesis using n(2,3) s1 by auto
qed

definition ev_wait_trans :: "callers \<Rightarrow> emode \<Rightarrow> bool \<Rightarrow> nat \<Rightarrow> ev_system \<Rightarrow> ev_system \<Rightarrow> bool" where
  "ev_wait_trans who mode timed_out t s s' \<longleftrightarrow> mon_inv who (es_mon s') \<and>
     s' = s\<lparr>es_mon := es_mon s', es_signalled := es_signalled s \<and> \<not> consumes mode t s\<rparr> \<and>
     mo_notify (es_mon s') = mo_notify (es_mon s) \<and>
     (\<exists>p c. mo_wait (es_mon s') = (mo_wait (es_mon s))(t := p) \<and>
        cs_point (mo_cv (es_mon s')) = (cs_point (mo_cv (es_mon s)))(t := c) \<and>
        emove (es_signalled s) timed_out (mo_wait (es_mon s) t) (cs_point (mo_cv (es_mon s)) t) p c)"

lemma ev_wait_transE:
  assumes "ev_wait_trans who mode timed_out t s s'"
  obtains p c where "mon_inv who (es_mon s')" "es_signalled s' = (es_signalled s \<and> \<not> consumes mode t s)"
    "es_expired s' = es_expired s" "es_raised s' = es_raised s" "es_tests s' = es_tests s"
    "mo_notify (es_mon s') = mo_notify (es_mon s)" "mo_wait (es_mon s') = (mo_wait (es_mon s))(t := p)"
    "cs_point (mo_cv (es_mon s')) = (cs_point (mo_cv (es_mon s)))(t := c)"
    "emove (es_signalled s) timed_out (mo_wait (es_mon s) t) (cs_point (mo_cv (es_mon s)) t) p c"
proof -
  have "s' = s\<lparr>es_mon := es_mon s', es_signalled := es_signalled s \<and> \<not> consumes mode t s\<rparr>"
    using assms by (simp add: ev_wait_trans_def)
  then have "es_signalled s' = (es_signalled s \<and> \<not> consumes mode t s)"
    "es_expired s' = es_expired s" "es_raised s' = es_raised s" "es_tests s' = es_tests s"
    by (metis ev_system.select_convs ev_system.surjective ev_system.update_convs)+
  then show thesis using assms that unfolding ev_wait_trans_def by blast
qed

lemma event_wait_next_trans:
  assumes "mon_inv who (es_mon s)" "event_wait_next who mode timed_out t s = Some r"
  shows "\<exists>s'. r = Inr s' \<and> ev_wait_trans who mode timed_out t s s'"
proof (cases "mo_wait (es_mon s) t = WWoken \<and> timed_out")
  case True
  then obtain r1 where r1: "timeout_next who (es_signalled s) t (es_mon s) = Some r1"
    "r = rbind r1 (\<lambda>m'. Inr (s\<lparr>es_mon := m', es_signalled := es_signalled s \<and> \<not> consumes mode t s\<rparr>))"
    using assms(2) by (auto simp: event_wait_next_def block_bind_def Let_def)
  let ?c = "cs_point (mo_cv (es_mon s)) t"
  obtain m' where m': "r1 = Inr m'" "mon_inv who m'" "mo_notify m' = mo_notify (es_mon s)" "mo_wait m' = (mo_wait (es_mon s))(t := WCall)"
    "cs_point (mo_cv m') = (cs_point (mo_cv (es_mon s)))(t := CLeaving (\<not> is_listed ?c \<and> es_signalled s))"
    using timeout_next_move [OF assms(1) _ r1(1)] True by blast
  have "is_listed ?c \<or> ?c = COnCondition" using True mon_invD(3) [OF assms(1), of t] by simp
  from em_timeout [OF _ this] True
  have "emove (es_signalled s) timed_out (mo_wait (es_mon s) t) ?c WCall (CLeaving (\<not> is_listed ?c \<and> es_signalled s))" by simp
  with m' r1(2) show ?thesis unfolding ev_wait_trans_def by auto
next
  case False
  then obtain r1 where r1: "wait_next who (es_signalled s) t (es_mon s) = Some r1"
    "r = rbind r1 (\<lambda>m'. Inr (s\<lparr>es_mon := m', es_signalled := es_signalled s \<and> \<not> consumes mode t s\<rparr>))"
    using assms(2) by (auto simp: event_wait_next_def block_bind_def Let_def)
  then show ?thesis using wait_next_trans [OF assms(1) r1(1)] em_wait unfolding ev_wait_trans_def wait_trans_def by fastforce
qed

text \<open>The steps of a call of \<open>notify_one\<close> between its places, with the calls it wakes.\<close>

inductive omove :: "callers \<Rightarrow> monitor \<Rightarrow> nat \<Rightarrow> notify_point \<Rightarrow> notify_point \<Rightarrow> (nat \<Rightarrow> bool) \<Rightarrow> bool" for who m pick where
  om_lock: "mo_mutex m = None \<Longrightarrow> omove who m pick NLock NLocked (\<lambda>_. False)"
| om_nobody: "waiters (mo_cv m) = {} \<Longrightarrow> omove who m pick NLocked NUnlock (\<lambda>_. False)"
| om_fiber: "fiber_calls who f m t \<Longrightarrow> omove who m pick NLocked (NFibers [f]) (\<lambda>_. False)"
| om_thread: "\<forall>t. \<not> is_listed (cs_point (mo_cv m) t) \<Longrightarrow> omove who m pick NLocked NThreads (\<lambda>_. False)"
| om_wake_fiber: "mo_work m (fst f) = None \<Longrightarrow> omove who m pick (NFibers (f # fs)) NUnlock (fiber_calls who f m)"
| om_wake_thread: "omove who m pick NThreads NUnlock (\<lambda>t. t = pick \<and> thread_calls m t)"
| om_unlock: "omove who m pick NUnlock NRet (\<lambda>_. False)"

definition one_trans :: "callers \<Rightarrow> nat \<Rightarrow> nat \<Rightarrow> monitor \<Rightarrow> monitor \<Rightarrow> bool" where
  "one_trans who pick d m m' \<longleftrightarrow> mon_inv who m' \<and> mo_cv m' = mo_cv m \<and>
     (\<exists>p sel. mo_notify m' = (mo_notify m)(d := p) \<and> mo_wait m' = mo_wait (wake sel m) \<and> omove who m pick (mo_notify m d) p sel)"

lemma one_transI:
  assumes "mon_inv who m" "omove who m pick (mo_notify m d) p sel"
    and "mo_notify m' = (mo_notify m)(d := p)" "mo_wait m' = mo_wait (wake sel m)" "mo_owns m' = mo_owns m"
    and "mo_mutex m' = (if notifying p then Some (Notifier d) else if notifying (mo_notify m d) then None else mo_mutex m)"
    and "notifying p \<Longrightarrow> notifying (mo_notify m d) \<or> mo_mutex m = None"
    and "mo_work m' = mo_work m" "mo_cv m' = mo_cv m"
  shows "one_trans who pick d m m'"
  using mon_inv_notify [OF assms(1,3-9)] assms(2-4,9) by (auto simp: one_trans_def)

lemma listed_in_wait: "is_listed c \<Longrightarrow> in_wait c"
  by (cases c) auto

lemma notify_one_locked:
  assumes "mon_inv who m" "mo_notify m d = NLocked" "notify_one_next who pick d m = Some r"
  shows "\<exists>m'. r = Inr m' \<and> one_trans who pick d m m'"
proof -
  note cv = cv_inv_facts [OF mon_invD(1) [OF assms(1)]]
  have own: "mo_mutex m = Some (Notifier d)" using mon_locks(3) [OF assms(1), of d] assms(2) by simp
  have tr: "one_trans who pick d m (notify_at d p m)" if "omove who m pick NLocked p (\<lambda>_. False)" "notifying p" for p
    by (rule one_transI [OF assms(1), where p = p and sel = "\<lambda>_. False"]) (use that assms(2) own in \<open>auto simp: notify_at_def\<close>)
  show ?thesis
  proof (cases "mlist_abs (cv_waiting (cs_cv (mo_cv m)))")
    case Nil
    then have "\<not> is_listed (cs_point (mo_cv m) t)" for t using listed_who [OF assms(1), of t] by fastforce
    then show ?thesis using assms(2,3) Nil inv_list_facts(2) [OF cv(1)] cv(6) tr [OF om_nobody] tr [OF om_thread]
      by (auto simp: notify_one_next_def Let_def split: if_splits)
  next
    case (Cons e rest)
    obtain h f where e: "e = (h, f)" by (cases e)
    have "waiting_fiber who (mo_cv m) f" using waiting_fiber_abs [OF cv(2), of f] Cons e by simp
    then obtain t where t: "fiber_calls who f m t" unfolding waiting_fiber_def fiber_calls_def by fastforce
    then have "waiters (mo_cv m) \<noteq> {}" by (auto simp: waiters_def fiber_calls_def dest: listed_in_wait)
    then have "r = Inr (notify_at d (NFibers [f]) m)"
      using assms(2,3) Cons e inv_list_facts(2) [OF cv(1)] front_fiber_abs [OF cv(1)] cv(6)
      by (auto simp: notify_one_next_def Let_def)
    then show ?thesis using tr [OF om_fiber [OF t]] by auto
  qed
qed

lemma notify_one_trans:
  assumes "mon_inv who m" "notify_one_next who pick d m = Some r"
  shows "\<exists>m'. r = Inr m' \<and> one_trans who pick d m m'"
proof -
  note cv = cv_inv_facts [OF mon_invD(1) [OF assms(1)]] and own = mon_locks(3) [OF assms(1), of d]
  note tr = one_transI [OF assms(1)]
  show ?thesis
  proof (cases "mo_notify m d")
    case NLock
    then have free: "mo_mutex m = None" and r: "r = Inr (notify_at d NLocked (m\<lparr>mo_mutex := Some (Notifier d)\<rparr>))"
      using assms(2) own by (auto simp: notify_one_next_def notify_next_def lock_simps Let_def split: option.splits if_splits)
    have "one_trans who pick d m (notify_at d NLocked (m\<lparr>mo_mutex := Some (Notifier d)\<rparr>))"
      by (rule tr [where p = NLocked and sel = "\<lambda>_. False"]) (use NLock free om_lock in \<open>auto simp: notify_at_def\<close>)
    with r show ?thesis by blast
  next
    case NLocked
    then show ?thesis using notify_one_locked [OF assms(1) NLocked assms(2)] by blast
  next
    case (NFibers fs)
    then obtain f gs where fs: "fs = f # gs" "mo_work m (fst f) = None"
      "r = Inr (notify_at d NUnlock (wake (fiber_calls who f m) m))"
      using assms(2) by (auto simp: notify_one_next_def Let_def split: list.splits if_splits)
    have "one_trans who pick d m (notify_at d NUnlock (wake (fiber_calls who f m) m))"
      by (rule tr [where p = NUnlock and sel = "fiber_calls who f m"])
        (use NFibers fs(1) om_wake_fiber [OF fs(2)] own in \<open>auto simp: notify_at_def wake_def\<close>)
    with fs(3) show ?thesis by blast
  next
    case NThreads
    let ?sel = "\<lambda>t. t = pick \<and> thread_calls m t"
    have "wake ?sel m = m" if "\<not> 0 < cv_num_waiting_on_condition (cs_cv (mo_cv m))"
      using that unfolding cv(7) by (simp add: wake_def thread_calls_def)
    then have r: "r = Inr (notify_at d NUnlock (wake ?sel m))"
      using assms(2) NThreads by (auto simp: notify_one_next_def Let_def split: if_splits)
    have "one_trans who pick d m (notify_at d NUnlock (wake ?sel m))"
      by (rule tr [where p = NUnlock and sel = ?sel]) (use NThreads om_wake_thread own in \<open>auto simp: notify_at_def wake_def\<close>)
    with r show ?thesis by blast
  next
    case NUnlock
    then have r: "r = Inr (notify_at d NRet (m\<lparr>mo_mutex := None\<rparr>))"
      using assms(2) own by (simp add: notify_one_next_def notify_next_def lock_simps Let_def)
    have "one_trans who pick d m (notify_at d NRet (m\<lparr>mo_mutex := None\<rparr>))"
      by (rule tr [where p = NRet and sel = "\<lambda>_. False"]) (use NUnlock om_unlock own in \<open>auto simp: notify_at_def\<close>)
    with r show ?thesis by blast
  qed (use assms(2) in \<open>simp_all add: notify_one_next_def notify_next_def Let_def\<close>)
qed

section \<open>The invariant\<close>

fun leaves_with :: "bool \<Rightarrow> cv_point \<Rightarrow> bool" where
  "leaves_with b (CLeaving c) = (b = c)"
| "leaves_with b (CReturned c) = (b = c)"
| "leaves_with b _ = False"

text \<open>The calls that have returned true.\<close>

definition returned_waits :: "ev_system \<Rightarrow> nat set" where
  "returned_waits s = {t. mo_wait (es_mon s) t = WRet \<and> cs_point (mo_cv (es_mon s)) t = CReturned True}"

text \<open>Between its test and its effect no other call changes \<open>signalled\<close>.\<close>

definition flag_ok :: "ev_system \<Rightarrow> nat \<Rightarrow> bool" where
  "flag_ok s t \<longleftrightarrow>
     (mo_wait (es_mon s) t = WCall \<and> leaves_with True (cs_point (mo_cv (es_mon s)) t) \<longrightarrow> es_signalled s) \<and>
     (mo_wait (es_mon s) t = WWork \<longrightarrow> \<not> es_signalled s)"

fun target_ok :: "callers \<Rightarrow> monitor \<Rightarrow> notify_point \<Rightarrow> bool" where
  "target_ok who m (NFibers fs) = (\<exists>f t. fs = [f] \<and> fiber_calls who f m t)"
| "target_ok who m NThreads = (\<forall>t. \<not> is_listed (cs_point (mo_cv m) t))"
| "target_ok who m _ = True"

fun on_its_way :: "notify_point \<Rightarrow> bool" where
  "on_its_way (NFibers fs) = True"
| "on_its_way NThreads = True"
| "on_its_way _ = False"

text \<open>With \<open>notify_all\<close> every sleeper is on the list of a notification; with \<open>notify_one\<close> somebody is awake who will take the signal, or
  about to be woken.\<close>

definition all_reached :: "callers \<Rightarrow> monitor \<Rightarrow> bool" where
  "all_reached who m \<longleftrightarrow> (\<forall>t. drowsy (mo_wait m t) \<longrightarrow>
     (\<exists>d. on_its_way (mo_notify m d) \<and> to_reach who t (cs_point (mo_cv m) t) (mo_notify m d)))"

definition one_served :: "monitor \<Rightarrow> bool" where
  "one_served m \<longleftrightarrow> (\<forall>u. drowsy (mo_wait m u) \<longrightarrow> (\<exists>t. mo_wait m t \<in> {WWoken, WCall}) \<or> (\<exists>d. on_its_way (mo_notify m d)))"

definition attended :: "callers \<Rightarrow> emode \<Rightarrow> (nat \<Rightarrow> bool) \<Rightarrow> ev_system \<Rightarrow> bool" where
  "attended who mode deadline s \<longleftrightarrow> (es_signalled s \<longrightarrow>
     (if mode = Auto then (\<exists>t. deadline t) \<or> one_served (es_mon s) else all_reached who (es_mon s)))"

definition counts_ok :: "emode \<Rightarrow> ev_system \<Rightarrow> bool" where
  "counts_ok mode s \<longleftrightarrow>
     (mode = Auto \<longrightarrow> card (returned_waits s) + es_tests s + of_bool (es_signalled s) \<le> es_raised s)"

definition ev_inv :: "callers \<Rightarrow> emode \<Rightarrow> (nat \<Rightarrow> bool) \<Rightarrow> ev_system \<Rightarrow> bool" where
  "ev_inv who mode deadline s \<longleftrightarrow> mon_inv who (es_mon s) \<and>
     finite {t. mo_wait (es_mon s) t \<noteq> WIdle} \<and> finite {d. mo_notify (es_mon s) d \<noteq> NIdle} \<and>
     (\<forall>t. es_expired s t \<longrightarrow> deadline t) \<and> (\<forall>t. flag_ok s t) \<and>
     (\<forall>t. leaves_with False (cs_point (mo_cv (es_mon s)) t) \<longrightarrow> deadline t) \<and>
     (mode = Auto \<longrightarrow> (\<forall>d. target_ok who (es_mon s) (mo_notify (es_mon s) d))) \<and>
     attended who mode deadline s \<and> counts_ok mode s"

lemma ev_invD:
  assumes "ev_inv who mode deadline s"
  shows "mon_inv who (es_mon s)" "finite {t. mo_wait (es_mon s) t \<noteq> WIdle}" "finite {d. mo_notify (es_mon s) d \<noteq> NIdle}"
    "es_expired s t \<Longrightarrow> deadline t" "flag_ok s t" "leaves_with False (cs_point (mo_cv (es_mon s)) t) \<Longrightarrow> deadline t"
    "mode = Auto \<Longrightarrow> target_ok who (es_mon s) (mo_notify (es_mon s) d)" "attended who mode deadline s" "counts_ok mode s"
  using assms unfolding ev_inv_def by blast+

lemma ev_invI:
  assumes "mon_inv who (es_mon s)" "finite {t. mo_wait (es_mon s) t \<noteq> WIdle}" "finite {d. mo_notify (es_mon s) d \<noteq> NIdle}"
    "\<And>t. es_expired s t \<Longrightarrow> deadline t" "\<And>t. flag_ok s t" "\<And>t. leaves_with False (cs_point (mo_cv (es_mon s)) t) \<Longrightarrow> deadline t"
    "\<And>d. mode = Auto \<Longrightarrow> target_ok who (es_mon s) (mo_notify (es_mon s) d)" "attended who mode deadline s" "counts_ok mode s"
  shows "ev_inv who mode deadline s"
  using assms unfolding ev_inv_def by blast

lemma finite_returned: "ev_inv who mode deadline s \<Longrightarrow> finite (returned_waits s)"
  by (rule finite_subset [OF _ ev_invD(2)]) (auto simp: returned_waits_def)

text \<open>The call that holds the mutex is the only one.\<close>

lemma lock_unique:
  assumes "mon_inv who m" "holds_lock (mo_wait m t)"
  shows "holds_lock (mo_wait m u) \<Longrightarrow> u = t" "\<not> notifying (mo_notify m d)"
  using mon_locks(1) [OF assms(1), of t] mon_locks(1) [OF assms(1), of u] mon_locks(3) [OF assms(1), of d] assms(2) by auto

lemma notify_unique:
  assumes "mon_inv who m" "notifying (mo_notify m d)"
  shows "notifying (mo_notify m e) \<Longrightarrow> e = d" "\<not> holds_lock (mo_wait m t)"
  using mon_locks(3) [OF assms(1), of d] mon_locks(3) [OF assms(1), of e] mon_locks(1) [OF assms(1), of t] assms(2) by auto

section \<open>Every step keeps the invariant\<close>

subsection \<open>Waiting\<close>

lemma listed_stays: "is_listed c \<Longrightarrow> \<not> leaves_with b c"
  by (cases c) auto

lemma emove_drowsy:
  assumes "emove pv timed_out p c p' c'" "drowsy p'"
  shows "drowsy p \<and> c' = c \<or> \<not> pv"
  using assms(1) by cases (use assms(2) in \<open>auto elim: wmove_elims\<close>)

lemma emove_flag:
  assumes "emove pv timed_out p c p' c'" "p = WCall \<and> leaves_with True c \<longrightarrow> pv" "p = WWork \<longrightarrow> \<not> pv" "point_ok p c"
  shows "p' = WCall \<and> leaves_with True c' \<longrightarrow> pv" "p' = WWork \<longrightarrow> \<not> pv"
  using assms by (auto elim!: emove.cases wmove_elims dest: listed_stays split: if_splits)

lemma emove_false:
  assumes "emove pv timed_out p c p' c'" "leaves_with False c'"
  shows "leaves_with False c \<or> timed_out"
  using assms by (auto elim!: emove.cases wmove_elims split: if_splits)

lemma emove_return:
  assumes "emove pv timed_out p c p' c'" "p' = WRet"
  shows "p = WCall \<and> c' = c \<and> (\<exists>b. c = CReturned b)"
  using assms by (auto elim!: emove.cases wmove_elims)

lemma emove_awake:
  assumes "emove pv timed_out p c p' c'" "p \<in> {WWoken, WCall}" pv
  shows "p' \<in> {WWoken, WCall} \<or> p = WCall \<and> (\<exists>b. c = CReturned b)"
  using assms by (auto elim!: emove.cases wmove_elims)

lemma emove_holds:
  assumes "emove pv timed_out p c p' c'" "c' \<noteq> c"
  shows "holds_lock p \<or> p = WWoken"
  using assms by (auto elim!: emove.cases wmove_elims)

lemma ev_wait_flag:
  assumes "ev_inv who mode deadline s" "ev_wait_trans who mode timed_out t s s'"
  shows "flag_ok s' u"
proof -
  note inv = ev_invD(1,5) [OF assms(1)]
  show ?thesis using assms(2)
  proof (rule ev_wait_transE, goal_cases)
    case (1 p c)
    have "p = WRet" if "consumes mode t s" using 1(9) that by (auto simp: consumes_def elim!: emove.cases wmove_elims)
    moreover have "\<not> holds_lock (mo_wait (es_mon s) u)" if "consumes mode t s" "u \<noteq> t"
      using lock_unique(1) [OF inv(1), of t u] that by (auto simp: consumes_def)
    ultimately show ?thesis
      using emove_flag [OF 1(9)] inv(2) [of t] inv(2) [of u] mon_invD(3) [OF inv(1), of t] 1(2,7,8) by (auto simp: flag_ok_def)
  qed
qed

lemma ev_wait_target:
  assumes "ev_inv who mode deadline s" "ev_wait_trans who mode timed_out t s s'" "mode = Auto"
  shows "target_ok who (es_mon s') (mo_notify (es_mon s') d)"
  using assms(2)
proof (rule ev_wait_transE, goal_cases)
  case (1 p c)
  note inv = ev_invD(1,7) [OF assms(1)]
  show ?thesis
  proof (cases "notifying (mo_notify (es_mon s) d)")
    case True
    then have "\<not> holds_lock p" "\<not> holds_lock (mo_wait (es_mon s) t)"
      using lock_unique(2) [OF inv(1), of t d] lock_unique(2) [OF 1(1), of t d] 1(6,7) by auto
    then have "c = cs_point (mo_cv (es_mon s)) t" using 1(9) by (auto elim!: emove.cases wmove_elims)
    then have "cs_point (mo_cv (es_mon s')) = cs_point (mo_cv (es_mon s))" using 1(8) by simp
    then show ?thesis using inv(2) [OF assms(3), of d] 1(6) by (cases "mo_notify (es_mon s) d") (auto simp: fiber_calls_def)
  next
    case False
    then show ?thesis using 1(6) by (cases "mo_notify (es_mon s) d") auto
  qed
qed

lemma ev_wait_served:
  assumes "ev_inv who Auto deadline s" "ev_wait_trans who Auto timed_out t s s'" "es_signalled s'" "\<forall>t. \<not> deadline t"
  shows "one_served (es_mon s')"
  using assms(2)
proof (rule ev_wait_transE, goal_cases)
  case (1 p c)
  note inv = ev_invD(6,8) [OF assms(1)]
  have sig: "es_signalled s" "\<not> consumes Auto t s" using 1(2) assms(3) by auto
  have "p \<in> {WWoken, WCall}" if a: "mo_wait (es_mon s) t \<in> {WWoken, WCall}"
  proof (rule ccontr)
    assume "p \<notin> {WWoken, WCall}"
    then obtain b where "mo_wait (es_mon s) t = WCall" "cs_point (mo_cv (es_mon s)) t = CReturned b"
      using emove_awake [OF 1(9) a sig(1)] by auto
    then show False using assms(4) sig(2) inv(1) [of t] by (cases b) (auto simp: consumes_def)
  qed
  then have awake: "(\<exists>v. mo_wait (es_mon s) v \<in> {WWoken, WCall}) \<Longrightarrow> (\<exists>v. mo_wait (es_mon s') v \<in> {WWoken, WCall})"
    using 1(7) by (metis fun_upd_apply)
  show ?thesis unfolding one_served_def
  proof (intro allI impI)
    fix u assume "drowsy (mo_wait (es_mon s') u)"
    then have "drowsy (mo_wait (es_mon s) u)" using emove_drowsy [OF 1(9)] sig(1) 1(7) by (auto split: if_splits)
    then have "(\<exists>v. mo_wait (es_mon s) v \<in> {WWoken, WCall}) \<or> (\<exists>d. on_its_way (mo_notify (es_mon s) d))"
      using sig(1) inv(2) assms(4) unfolding attended_def one_served_def by auto
    then show "(\<exists>v. mo_wait (es_mon s') v \<in> {WWoken, WCall}) \<or> (\<exists>d. on_its_way (mo_notify (es_mon s') d))"
      using awake 1(6) by auto
  qed
qed

lemma ev_wait_attended:
  assumes "ev_inv who mode deadline s" "ev_wait_trans who mode timed_out t s s'"
  shows "attended who mode deadline s'"
proof (cases mode)
  case Auto
  then show ?thesis using ev_wait_served [of who deadline s timed_out t s'] assms unfolding attended_def by auto
next
  case Manual
  show ?thesis using assms(2)
  proof (rule ev_wait_transE, goal_cases)
    case (1 p c)
    have "drowsy (mo_wait (es_mon s) u) \<and> cs_point (mo_cv (es_mon s')) u = cs_point (mo_cv (es_mon s)) u"
      if "drowsy (mo_wait (es_mon s') u)" "es_signalled s" for u
      using emove_drowsy [OF 1(9)] that 1(7,8) by (auto split: if_splits)
    then show ?thesis using 1(2,6) ev_invD(8) [OF assms(1)] Manual by (simp add: attended_def all_reached_def)
  qed
qed

lemma ev_wait_counts:
  assumes "ev_inv who mode deadline s" "ev_wait_trans who mode timed_out t s s'"
  shows "counts_ok mode s'"
proof (cases mode)
  case Auto
  note inv = ev_invD(5,9) [OF assms(1)]
  let ?c = "cs_point (mo_cv (es_mon s)) t" and ?p = "mo_wait (es_mon s) t"
  show ?thesis using assms(2)
  proof (rule ev_wait_transE, goal_cases)
    case (1 p c)
    show ?thesis
    proof (cases "p = WRet")
      case True
      obtain b where b: "?p = WCall" "?c = CReturned b" "c = ?c" using emove_return [OF 1(9) True] by auto
      have "returned_waits s' = (if b then insert t (returned_waits s) else returned_waits s)"
        using b True 1(7,8) by (auto simp: returned_waits_def)
      moreover have "t \<notin> returned_waits s" using b by (simp add: returned_waits_def)
      moreover have "b \<Longrightarrow> es_signalled s" using inv(1) [of t] b by (auto simp: flag_ok_def)
      moreover have "consumes mode t s = b" using Auto b by (simp add: consumes_def)
      ultimately show ?thesis using inv(2) 1(2,4,5) finite_returned [OF assms(1)] by (auto simp: counts_ok_def)
    next
      case False
      then have "?p \<noteq> WRet" "\<not> consumes mode t s" using 1(9) by (auto simp: consumes_def elim!: emove.cases wmove_elims)
      moreover from this(1) have "returned_waits s' = returned_waits s" using False 1(7,8) by (auto simp: returned_waits_def)
      ultimately show ?thesis using inv(2) 1(2,4,5) by (simp add: counts_ok_def)
    qed
  qed
qed (simp add: counts_ok_def)

lemma event_wait_inv:
  assumes "ev_inv who mode deadline s" "timed_out \<longrightarrow> es_expired s t" "event_wait_next who mode timed_out t s = Some r"
  shows "\<exists>s'. r = Inr s' \<and> ev_inv who mode deadline s'"
proof -
  note inv = ev_invD [OF assms(1)]
  obtain s' where s': "r = Inr s'" "ev_wait_trans who mode timed_out t s s'"
    using event_wait_next_trans [OF inv(1) assms(3)] by blast
  note parts = ev_wait_flag [OF assms(1) s'(2)] ev_wait_target [OF assms(1) s'(2)] ev_wait_attended [OF assms(1) s'(2)]
    ev_wait_counts [OF assms(1) s'(2)]
  from s'(2) have "ev_inv who mode deadline s'"
  proof (rule ev_wait_transE, goal_cases)
    case (1 p c)
    have "deadline u" if "leaves_with False (cs_point (mo_cv (es_mon s')) u)" for u
      using emove_false [OF 1(9)] that 1(8) inv(4,6) assms(2) by (auto split: if_splits)
    then show ?case by (intro ev_invI) (use 1(1,3,6,7) finite_update [OF inv(2)] inv(3,4) parts in auto)
  qed
  with s'(1) show ?thesis by blast
qed

subsection \<open>Signalling\<close>

text \<open>A step that moves no waiting call, except that it wakes some.\<close>

lemma ev_inv_wake:
  assumes "ev_inv who mode deadline s" "mon_inv who (es_mon s')"
    and cv: "mo_cv (es_mon s') = mo_cv (es_mon s)" and w: "mo_wait (es_mon s') = mo_wait (wake sel (es_mon s))"
    and "finite {d. mo_notify (es_mon s') d \<noteq> NIdle}" "\<And>t. es_expired s' t \<Longrightarrow> deadline t"
    and flag: "es_signalled s' = es_signalled s \<or> (\<forall>t. \<not> holds_lock (mo_wait (es_mon s) t))"
    and count: "mode = Auto \<Longrightarrow>
      es_tests s' + of_bool (es_signalled s') + es_raised s \<le> es_raised s' + es_tests s + of_bool (es_signalled s)"
    and "\<And>d. mode = Auto \<Longrightarrow> target_ok who (es_mon s') (mo_notify (es_mon s') d)" "attended who mode deadline s'"
  shows "ev_inv who mode deadline s'"
proof (rule ev_invI)
  note inv = ev_invD [OF assms(1)]
  show "finite {t. mo_wait (es_mon s') t \<noteq> WIdle}"
    by (rule finite_subset [OF _ inv(2)]) (auto simp: w wake_mo_wait split: if_splits)
  have same: "mo_wait (es_mon s') t = p \<longleftrightarrow> mo_wait (es_mon s) t = p" if "p \<noteq> WBlocked" "p \<noteq> WWoken" for p t
    using that by (auto simp: w wake_mo_wait)
  have changed: "es_signalled s' = es_signalled s \<or> mo_wait (es_mon s) t \<noteq> WCall \<and> mo_wait (es_mon s) t \<noteq> WWork" for t
    using flag by (metis holds_lock.simps(1,2))
  show "flag_ok s' t" for t
    using inv(5) [of t] changed [of t] unfolding flag_ok_def cv by (auto simp: same)
  have "returned_waits s' = returned_waits s" by (simp add: returned_waits_def same cv)
  then show "counts_ok mode s'" using inv(9) count by (auto simp: counts_ok_def)
qed (use assms ev_invD [OF assms(1)] in simp_all)

lemma wake_drowsy: "mo_wait m' = mo_wait (wake sel m) \<Longrightarrow> drowsy (mo_wait m' u) \<Longrightarrow> drowsy (mo_wait m u)"
  by (auto simp: wake_mo_wait split: if_splits)

lemma wake_awake:
  "mo_wait m' = mo_wait (wake sel m) \<Longrightarrow> mo_wait m v \<in> {WWoken, WCall} \<Longrightarrow> mo_wait m' v \<in> {WWoken, WCall}"
  by (auto simp: wake_mo_wait)

lemma all_reached_keeps:
  assumes "all_reached who m" "mo_cv m' = mo_cv m" "mo_wait m' = mo_wait (wake sel m)"
    and "\<And>d. on_its_way (mo_notify m d) \<Longrightarrow> mo_notify m' d = mo_notify m d"
  shows "all_reached who m'"
  using assms(1,2,4) wake_drowsy [OF assms(3)] unfolding all_reached_def by metis

lemma one_served_keeps:
  assumes "one_served m" "mo_wait m' = mo_wait (wake sel m)"
    and "\<And>d. on_its_way (mo_notify m d) \<Longrightarrow> mo_notify m' d = mo_notify m d"
  shows "one_served m'"
  using assms(1,3) wake_drowsy [OF assms(2)] wake_awake [OF assms(2)] unfolding one_served_def by metis

lemma attended_keeps:
  assumes "attended who mode deadline s" "es_signalled s' \<Longrightarrow> es_signalled s" "mo_cv (es_mon s') = mo_cv (es_mon s)"
    and "mo_wait (es_mon s') = mo_wait (wake sel (es_mon s))"
    and "\<And>d. on_its_way (mo_notify (es_mon s) d) \<Longrightarrow> mo_notify (es_mon s') d = mo_notify (es_mon s) d"
  shows "attended who mode deadline s'"
  using assms(1,2) all_reached_keeps [OF _ assms(3-5), of who] one_served_keeps [OF _ assms(4,5)] unfolding attended_def by auto

lemma target_keeps: "mo_cv m' = mo_cv m \<Longrightarrow> target_ok who m' n = target_ok who m n"
  by (cases n) (auto simp: fiber_calls_def)

lemma ev_woken_inv:
  assumes "ev_inv who mode deadline s"
  shows "ev_inv who mode deadline (s\<lparr>es_mon := wake sel (es_mon s)\<rparr>)"
proof -
  note inv = ev_invD [OF assms]
  have "mon_inv who (wake sel (es_mon s))"
    by (rule mon_inv_notify [OF inv(1), where d = 0 and p = "mo_notify (es_mon s) 0"])
      (use mon_locks(3) [OF inv(1), of 0] in auto)
  then show ?thesis
    by (intro ev_inv_wake [OF assms, where sel = sel] attended_keeps [OF inv(8), where sel = sel])
      (use inv target_keeps [of "wake sel (es_mon s)" "es_mon s"] in auto)
qed

lemma ev_cleared_inv:
  assumes "ev_inv who mode deadline s" "mo_mutex (es_mon s) = None"
  shows "ev_inv who mode deadline (event_clear_now s)" "ev_inv who mode deadline (snd (event_test_now mode s))"
proof -
  note inv = ev_invD [OF assms(1)]
  have h: "\<not> holds_lock (mo_wait (es_mon s) t)" for t using mon_locks(1) [OF inv(1), of t] assms(2) by simp
  note R = ev_inv_wake [OF assms(1), where sel = "\<lambda>_. False"]
  show "ev_inv who mode deadline (event_clear_now s)"
    by (rule R) (use inv h in \<open>auto simp: event_clear_now_def attended_def\<close>)
  show "ev_inv who mode deadline (snd (event_test_now mode s))"
    by (cases "es_signalled s"; rule R) (use inv h in \<open>auto simp: event_test_now_def attended_def\<close>)
qed

lemma reach_way: "to_reach who t c n \<Longrightarrow> n \<noteq> NLocked \<Longrightarrow> on_its_way n"
  by (cases n) auto

lemma way_notifying: "on_its_way n \<Longrightarrow> notifying n"
  by (cases n) auto

lemma drowsy_in_wait: "mon_inv who m \<Longrightarrow> drowsy (mo_wait m u) \<Longrightarrow> u \<in> waiters (mo_cv m)"
  using mon_invD(3) [of who m u] by (cases "mo_wait m u") (auto simp: waiters_def dest: listed_in_wait)

text \<open>\<open>notify_all\<close> of a manual event.\<close>

lemma notify_all_reached:
  assumes "mon_inv who m" "notify_trans who d m m'" "mo_notify m d = NLocked \<or> all_reached who m"
  shows "all_reached who m'"
  unfolding all_reached_def
proof (intro allI impI)
  fix u assume u: "drowsy (mo_wait m' u)"
  obtain p sel where m': "mon_inv who m'" "mo_cv m' = mo_cv m" "mo_notify m' = (mo_notify m)(d := p)" "nmove who m (mo_notify m d) p sel"
    using assms(2) by (auto simp: notify_trans_def)
  have dr: "drowsy (mo_wait m u)" by (rule notify_trans_drowsy(1) [OF assms(1,2) u])
  have way: "\<exists>e. on_its_way (mo_notify m e)" if "mo_notify m d \<noteq> NLocked" using that assms(3) dr by (auto simp: all_reached_def)
  have "will_wake who m u" using assms(3) dr by (auto simp: will_wake_def all_reached_def intro: exI [of _ d])
  then obtain e where e: "to_reach who u (cs_point (mo_cv m') u) (mo_notify m' e)"
    using notify_trans_drowsy(2) [OF assms(1,2) u] by (auto simp: will_wake_def)
  have "mo_notify m' e \<noteq> NLocked"
  proof
    assume l: "mo_notify m' e = NLocked"
    show False
    proof (cases "mo_notify m d = NLocked")
      case True
      then have "p \<noteq> NLocked" using m'(4) by (auto elim: nmove_elims)
      then have "e \<noteq> d" "mo_notify m e = NLocked" using l m'(3) by (auto split: if_splits)
      then show False using notify_unique(1) [OF assms(1), of d e] True by simp
    next
      case False
      then obtain g where g: "on_its_way (mo_notify m g)" using way by blast
      have "mo_notify m' g = (if g = d then p else mo_notify m g)" using m'(3) by simp
      then have "g = e \<or> g = d" using notify_unique(1) [OF m'(1), of e g] l g way_notifying by (auto split: if_splits)
      moreover have "mo_notify m e \<noteq> NLocked" using notify_unique(1) [OF assms(1), of g e] way_notifying [OF g] g by auto
      ultimately show False using g l m'(3,4) by (auto elim: nmove_elims split: if_splits)
    qed
  qed
  with e show "\<exists>d. on_its_way (mo_notify m' d) \<and> to_reach who u (cs_point (mo_cv m') u) (mo_notify m' d)"
    using reach_way by blast
qed

text \<open>\<open>notify_one\<close> of an event with automatic reset.\<close>

lemma notify_one_wakes:
  assumes "mon_inv who m" "one_trans who pick d m m'" "pick_thread pick m" "target_ok who m (mo_notify m d)"
    and "on_its_way (mo_notify m d)" "drowsy (mo_wait m u)"
  shows "\<exists>v. mo_wait m' v \<in> {WWoken, WCall}"
proof -
  obtain p sel where m': "mo_wait m' = mo_wait (wake sel m)" "omove who m pick (mo_notify m d) p sel"
    using assms(2) by (auto simp: one_trans_def)
  have lk: "\<not> holds_lock (mo_wait m v)" for v using notify_unique(2) [OF assms(1) way_notifying [OF assms(5)]] .
  from m'(2) show ?thesis
  proof cases
    case (om_wake_fiber f fs)
    then obtain v where v: "fiber_calls who f m v" using assms(4) by auto
    then have "is_listed (cs_point (mo_cv m) v)" "who v = Some f" by (simp_all add: fiber_calls_def)
    then have "mo_wait m v = WBlocked \<or> mo_wait m v = WWoken"
      using mon_invD(3) [OF assms(1), of v] lk [of v] mon_locks(4) [OF assms(1), of "fst f" v] om_wake_fiber
      by (cases "mo_wait m v"; cases f) auto
    then show ?thesis using v om_wake_fiber m'(1) by (auto simp: wake_mo_wait intro!: exI [of _ v])
  next
    case om_wake_thread
    then have "\<not> is_listed (cs_point (mo_cv m) u)" using assms(4) by auto
    then have "thread_calls m u \<and> mo_wait m u = WBlocked"
      using mon_invD(3) [OF assms(1), of u] assms(6) by (cases "mo_wait m u") (auto simp: thread_calls_def)
    then have "thread_calls m pick \<and> mo_wait m pick = WBlocked" using assms(3) by (auto simp: pick_thread_def)
    then show ?thesis using om_wake_thread m'(1) by (auto simp: wake_mo_wait intro!: exI [of _ pick])
  qed (use assms(5) in auto)
qed

lemma notify_one_served:
  assumes "mon_inv who m" "one_trans who pick d m m'" "pick_thread pick m" "target_ok who m (mo_notify m d)"
    and "mo_notify m d = NLocked \<or> one_served m"
  shows "one_served m'"
  unfolding one_served_def
proof (intro allI impI)
  fix u assume u: "drowsy (mo_wait m' u)"
  obtain p sel where m': "mo_notify m' = (mo_notify m)(d := p)" "mo_wait m' = mo_wait (wake sel m)"
    "omove who m pick (mo_notify m d) p sel"
    using assms(2) by (auto simp: one_trans_def)
  have dr: "drowsy (mo_wait m u)" by (rule wake_drowsy [OF m'(2) u])
  show "(\<exists>v. mo_wait m' v \<in> {WWoken, WCall}) \<or> (\<exists>d. on_its_way (mo_notify m' d))"
  proof (cases "mo_notify m d = NLocked")
    case True
    then have "on_its_way p" using m'(3) drowsy_in_wait [OF assms(1) dr] by (auto elim: omove.cases)
    then show ?thesis using m'(1) by auto
  next
    case False
    then consider v where "mo_wait m v \<in> {WWoken, WCall}" | e where "on_its_way (mo_notify m e)" "e \<noteq> d" | "on_its_way (mo_notify m d)"
      using assms(5) dr unfolding one_served_def by metis
    then show ?thesis
    proof cases
      case 1
      then show ?thesis using wake_awake [OF m'(2)] by blast
    next
      case 2
      then show ?thesis using m'(1) by (auto intro!: exI [of _ e])
    next
      case 3
      then show ?thesis using notify_one_wakes [OF assms(1-4) _ dr] by blast
    qed
  qed
qed

lemma notify_one_target:
  assumes "mon_inv who m" "one_trans who pick d m m'" "\<And>e. target_ok who m (mo_notify m e)"
  shows "target_ok who m' (mo_notify m' e)"
proof -
  obtain p sel where m': "mo_cv m' = mo_cv m" "mo_notify m' = (mo_notify m)(d := p)" "omove who m pick (mo_notify m d) p sel"
    using assms(2) by (auto simp: one_trans_def)
  have "target_ok who m p" using m'(3) by cases auto
  then show ?thesis using m'(2) assms(3) [of e] target_keeps [OF m'(1)] by simp
qed

text \<open>What a step of either kind of notification does to the monitor.\<close>

lemma notify_frame:
  assumes "notify_trans who d m m' \<or> one_trans who pick d m m'"
  obtains p sel where "mon_inv who m'" "mo_cv m' = mo_cv m" "mo_wait m' = mo_wait (wake sel m)" "mo_notify m' = (mo_notify m)(d := p)"
  using assms unfolding notify_trans_def one_trans_def by blast

lemma signal_notify_inv:
  assumes "ev_inv who mode deadline s" "pick_thread pick (es_mon s)" "notifying (mo_notify (es_mon s) d) \<or> mo_notify (es_mon s) d = NLock"
    and tr: "if mode = Auto then one_trans who pick d (es_mon s) m else notify_trans who d (es_mon s) m"
    and raise: "raise \<longrightarrow> mo_notify (es_mon s) d = NLocked \<and> \<not> es_signalled s" "mo_notify (es_mon s) d = NLocked \<longrightarrow> raise"
  shows "ev_inv who mode deadline
    (s\<lparr>es_mon := m, es_signalled := es_signalled s \<or> raise, es_raised := es_raised s + of_bool raise\<rparr>)"
    (is "ev_inv who mode deadline ?s")
proof -
  note inv = ev_invD [OF assms(1)]
  obtain p sel where m: "mon_inv who m" "mo_cv m = mo_cv (es_mon s)" "mo_wait m = mo_wait (wake sel (es_mon s))"
    "mo_notify m = (mo_notify (es_mon s))(d := p)"
    by (rule notify_frame [of who d "es_mon s" m pick]) (use tr in \<open>auto split: if_splits\<close>)
  have "all_reached who m" if "mode = Manual" "es_signalled ?s"
    using notify_all_reached [OF inv(1), of d m] tr that inv(8) raise by (auto simp: attended_def)
  moreover have "one_served m" if "mode = Auto" "es_signalled ?s" "\<forall>t. \<not> deadline t"
    using notify_one_served [OF inv(1) _ assms(2) inv(7), of d m] tr that inv(8) raise by (auto simp: attended_def)
  ultimately have att: "attended who mode deadline ?s" by (cases mode) (auto simp: attended_def)
  have "\<not> holds_lock (mo_wait (es_mon s) t)" if "raise" for t
    using notify_unique(2) [OF inv(1), of d] raise that by simp
  moreover have "target_ok who m (mo_notify m e)" if "mode = Auto" for e
    using notify_one_target [OF inv(1) _ inv(7)] tr that by auto
  ultimately show ?thesis
    by (intro ev_inv_wake [OF assms(1), where sel = sel])
      (use m inv(3,4) finite_update [OF inv(3), of d p] att raise(1) in auto)
qed

text \<open>The notification itself, in either mode.\<close>

abbreviation signal_notify :: "callers \<Rightarrow> emode \<Rightarrow> nat \<Rightarrow> nat \<Rightarrow> monitor \<Rightarrow> monitor result option" where
  "signal_notify who mode pick d m \<equiv> (if mode = Auto then notify_one_next who pick d m else notify_next who d m)"

lemma signal_notify_trans:
  assumes "mon_inv who m" "signal_notify who mode pick d m = Some r"
  shows "\<exists>m'. r = Inr m' \<and> (if mode = Auto then one_trans who pick d m m' else notify_trans who d m m')"
  using notify_one_trans [OF assms(1), of pick d r] notify_next_trans [OF assms(1), of d r] assms(2) by (auto split: if_splits)

text \<open>The steps of \<open>signal\<close> before and after the notification.\<close>

lemma signal_idle_inv:
  assumes "ev_inv who mode deadline s" "p = NLock \<and> mo_notify (es_mon s) d = NIdle \<or> p = NUnlock \<and> mo_notify (es_mon s) d = NLocked"
  shows "ev_inv who mode deadline (s\<lparr>es_mon := notify_at d p (es_mon s)\<rparr>)" (is "ev_inv who mode deadline ?s")
proof -
  note inv = ev_invD [OF assms(1)]
  have "mon_inv who (notify_at d p (es_mon s))"
    by (rule mon_inv_notify [OF inv(1), where sel = "\<lambda>_. False" and p = p and d = d])
      (use assms(2) mon_locks(3) [OF inv(1), of d] in \<open>auto simp: notify_at_def\<close>)
  moreover have "target_ok who (notify_at d p (es_mon s)) (mo_notify (notify_at d p (es_mon s)) e)" if "mode = Auto" for e
    using inv(7) [OF that, of e] assms(2) target_keeps [of "notify_at d p (es_mon s)" "es_mon s"] by (auto simp: notify_at_def)
  ultimately show ?thesis
    by (intro ev_inv_wake [OF assms(1), where sel = "\<lambda>_. False"] attended_keeps [OF inv(8), where sel = "\<lambda>_. False"])
      (use inv(3,4) finite_update [OF inv(3), of d p] assms(2) in \<open>auto simp: notify_at_def\<close>)
qed

lemma event_signal_inv:
  assumes "ev_inv who mode deadline s" "pick_thread pick (es_mon s)" "event_signal_next who mode pick d s = Some r"
  shows "\<exists>s'. r = Inr s' \<and> ev_inv who mode deadline s'"
proof -
  note inv = ev_invD(1) [OF assms(1)]
  have go: "\<exists>s'. r = Inr s' \<and> ev_inv who mode deadline s'"
    if n: "notifying (mo_notify (es_mon s) d) \<or> mo_notify (es_mon s) d = NLock"
      "raise \<longrightarrow> mo_notify (es_mon s) d = NLocked \<and> \<not> es_signalled s" "mo_notify (es_mon s) d = NLocked \<longrightarrow> raise"
    and r: "block_bind (signal_notify who mode pick d (es_mon s)) (\<lambda>m.
        Inr (s\<lparr>es_mon := m, es_signalled := es_signalled s \<or> raise, es_raised := es_raised s + of_bool raise\<rparr>)) = Some r" for raise
  proof -
    obtain r1 where r1: "signal_notify who mode pick d (es_mon s) = Some r1" "r = rbind r1 (\<lambda>m.
        Inr (s\<lparr>es_mon := m, es_signalled := es_signalled s \<or> raise, es_raised := es_raised s + of_bool raise\<rparr>))"
      using r by (auto simp: block_bind_def split: option.splits)
    obtain m where "r1 = Inr m" "if mode = Auto then one_trans who pick d (es_mon s) m else notify_trans who d (es_mon s) m"
      using signal_notify_trans [OF inv r1(1)] by blast
    then show ?thesis using signal_notify_inv [OF assms(1,2) n(1) _ n(2,3)] r1(2) by auto
  qed
  show ?thesis
  proof (cases "mo_notify (es_mon s) d = NIdle \<or> mo_notify (es_mon s) d = NLocked \<and> es_signalled s")
    case True
    then show ?thesis using signal_idle_inv [OF assms(1)] assms(3) by (auto simp: event_signal_next_def Let_def)
  next
    case False
    have "mo_notify (es_mon s) d \<noteq> NRet"
      using assms(3) by (auto simp: event_signal_next_def notify_one_next_def notify_next_def block_bind_def Let_def split: if_splits)
    then show ?thesis using go [of "mo_notify (es_mon s) d = NLocked"] False assms(3)
      by (cases "mo_notify (es_mon s) d") (simp_all add: event_signal_next_def Let_def split: if_splits)
  qed
qed

interpretation ev_system: invariant_system ev_init "ev_step who mode deadline" "ev_inv who mode deadline"
proof (unfold_locales, goal_cases)
  case (1 s)
  then obtain b where s: "s = ev_system_new b" by (auto simp: ev_init_def)
  have "\<not> drowsy (mo_wait monitor_new t)" for t by (simp add: monitor_new_def)
  then have "attended who mode deadline s" by (auto simp: s ev_system_new_def attended_def one_served_def all_reached_def)
  moreover have "returned_waits s = {}" by (simp add: s ev_system_new_def returned_waits_def monitor_new_def)
  ultimately show ?case
    by (intro ev_invI) (use s monitor_new_inv [of who] in
        \<open>auto simp: ev_system_new_def counts_ok_def flag_ok_def monitor_new_def\<close>)
next
  case (2 s r)
  from 2(2) show ?case
  proof cases
    case (evs_wait timed_out t)
    then show ?thesis using event_wait_inv [OF 2(1)] by blast
  next
    case (evs_signal pick d)
    then show ?thesis using event_signal_inv [OF 2(1)] by blast
  next
    case (evs_expire t)
    have "ev_inv who mode deadline (s\<lparr>es_expired := (es_expired s)(t := True)\<rparr>)"
      by (rule ev_inv_wake [OF 2(1), where sel = "\<lambda>_. False"])
        (use ev_invD [OF 2(1)] evs_expire in \<open>auto simp: attended_def split: if_splits\<close>)
    with evs_expire show ?thesis by blast
  qed (use ev_cleared_inv [OF 2(1)] ev_woken_inv [OF 2(1)] in auto)
qed

end
