(* ===== verification/Event_Progress.thy ===== *)
theory Event_Progress
  imports Event_Wait
begin

text \<open>
  What becomes of the calls on an event: if nobody starts a new one, they come to rest after finitely many steps, and nobody is left asleep
  while the event is signalled.
\<close>

section \<open>Calls that have begun\<close>

inductive ev_quiet :: "callers \<Rightarrow> emode \<Rightarrow> ev_system \<Rightarrow> ev_system \<Rightarrow> bool" for who mode where
  evq_wait: "mo_wait (es_mon s) t \<noteq> WIdle \<Longrightarrow> timed_out \<longrightarrow> es_expired s t \<Longrightarrow> who t \<noteq> None \<longrightarrow> timed_out = es_expired s t \<Longrightarrow>
    event_wait_next who mode timed_out t s = Some (Inr s') \<Longrightarrow> ev_quiet who mode s s'"
| evq_signal: "mo_notify (es_mon s) d \<noteq> NIdle \<Longrightarrow> pick_thread pick (es_mon s) \<Longrightarrow>
    event_signal_next who mode pick d s = Some (Inr s') \<Longrightarrow> ev_quiet who mode s s'"

lemma ev_quiet_step: "ev_quiet who mode s s' \<Longrightarrow> ev_step who mode deadline s (Inr s')"
proof (induction rule: ev_quiet.induct)
  case (evq_wait s t timed_out s')
  then show ?case by (intro evs_wait [of timed_out s t])
next
  case (evq_signal s d pick s')
  then show ?case by (intro evs_signal [of pick s])
qed

text \<open>A call that sleeps counts as at rest: to go on it needs a notification, which is a step of a call of \<open>signal\<close>.\<close>

fun rest_rank :: "wait_point \<Rightarrow> cv_point \<Rightarrow> nat" where
  "rest_rank WCall (CReturned b) = 1"
| "rest_rank WCall (CLeaving b) = 2"
| "rest_rank WCall (CListed h) = 3"
| "rest_rank WCall COnCondition = 3"
| "rest_rank WCall CCounted = 4"
| "rest_rank WCall CEnter = 5"
| "rest_rank WLock c = 6"
| "rest_rank WWoken c = 4"
| "rest_rank WWork c = 2"
| "rest_rank WReleased c = 1"
| "rest_rank _ c = 0"

definition begin_measure :: "ev_system \<Rightarrow> nat" where
  "begin_measure s = (\<Sum>d | mo_notify (es_mon s) d \<noteq> NIdle. lock_rank (mo_notify (es_mon s) d))"

definition notify_measure :: "ev_system \<Rightarrow> nat" where
  "notify_measure s = (\<Sum>d | mo_notify (es_mon s) d \<noteq> NIdle. notify_rank (mo_notify (es_mon s) d))"

definition rest_measure :: "ev_system \<Rightarrow> nat" where
  "rest_measure s = (\<Sum>t | mo_wait (es_mon s) t \<noteq> WIdle. rest_rank (mo_wait (es_mon s) t) (cs_point (mo_cv (es_mon s)) t))"

lemma emove_rank:
  assumes "emove pv timed_out p c p' c'" "p \<noteq> WIdle" "point_ok p c"
  shows "rest_rank p' c' < rest_rank p c \<and> p' \<noteq> WIdle"
  using assms(1)
proof cases
  case em_wait
  then show ?thesis by (cases rule: wmove.cases; cases c) (use assms(2,3) in auto)
qed (use assms(2,3) in \<open>cases c; auto\<close>)

lemma omove_rank:
  assumes "omove who m pick n n' sel"
  shows "lock_rank n' < lock_rank n \<or> lock_rank n' = lock_rank n \<and> notify_rank n' < notify_rank n" "n' \<noteq> NIdle"
  using assms by (cases rule: omove.cases; simp)+

lemma sum_update_less:
  fixes f :: "'a \<Rightarrow> nat"
  assumes "finite A" "t \<in> A" "g t < f t" "\<And>u. u \<in> A \<Longrightarrow> u \<noteq> t \<Longrightarrow> g u = f u"
  shows "sum g A < sum f A"
proof -
  have "sum g (A - {t}) = sum f (A - {t})" using assms(4) by (intro sum.cong) auto
  then show ?thesis using assms(1-3) by (simp add: sum.remove [of A t])
qed

lemma wait_rests:
  assumes "ev_inv who mode deadline s" "ev_wait_trans who mode timed_out t s s'" "mo_wait (es_mon s) t \<noteq> WIdle"
  shows "begin_measure s' = begin_measure s \<and> notify_measure s' = notify_measure s \<and> rest_measure s' < rest_measure s"
  using assms(2)
proof (rule ev_wait_transE, goal_cases)
  case (1 p c)
  note inv = ev_invD(1,2) [OF assms(1)]
  note rank = emove_rank [OF 1(9) assms(3) mon_invD(3) [OF inv(1)]]
  have "{u. mo_wait (es_mon s') u \<noteq> WIdle} = {u. mo_wait (es_mon s) u \<noteq> WIdle}" using rank assms(3) 1(7) by auto
  moreover have "(\<Sum>u | mo_wait (es_mon s) u \<noteq> WIdle. rest_rank (mo_wait (es_mon s') u) (cs_point (mo_cv (es_mon s')) u)) < rest_measure s"
    unfolding rest_measure_def by (rule sum_update_less [OF inv(2), of t]) (use rank assms(3) 1(7,8) in auto)
  ultimately show ?thesis using 1(6) by (simp add: begin_measure_def notify_measure_def rest_measure_def)
qed

text \<open>A step of \<open>signal\<close>.\<close>

definition quiet_less :: "(ev_system \<times> ev_system) set" where
  "quiet_less = measures [begin_measure, notify_measure, rest_measure]"

lemma signal_less:
  assumes "finite {d. mo_notify (es_mon s) d \<noteq> NIdle}" "mo_notify (es_mon s') = (mo_notify (es_mon s))(d := p)"
    and n: "mo_notify (es_mon s) d \<noteq> NIdle" "p \<noteq> NIdle"
    and r: "lock_rank p < lock_rank (mo_notify (es_mon s) d) \<or>
      lock_rank p = lock_rank (mo_notify (es_mon s) d) \<and> notify_rank p < notify_rank (mo_notify (es_mon s) d)"
  shows "(s', s) \<in> quiet_less"
proof -
  let ?A = "{e. mo_notify (es_mon s) e \<noteq> NIdle}"
  have A: "{e. mo_notify (es_mon s') e \<noteq> NIdle} = ?A" using assms(2) n by auto
  have d: "d \<in> ?A" using n(1) by simp
  have less: "(\<Sum>e \<in> ?A. f (mo_notify (es_mon s') e)) < (\<Sum>e \<in> ?A. f (mo_notify (es_mon s) e))"
    if "f p < f (mo_notify (es_mon s) d)" for f :: "notify_point \<Rightarrow> nat"
    by (rule sum_update_less [OF assms(1) d]) (use assms(2) that in auto)
  have "(\<Sum>e \<in> ?A. f (mo_notify (es_mon s') e)) = (\<Sum>e \<in> ?A. f (mo_notify (es_mon s) e))"
    if "f p = f (mo_notify (es_mon s) d)" for f :: "notify_point \<Rightarrow> nat"
    by (rule sum.cong) (use assms(2) that in auto)
  then show ?thesis using r less [of lock_rank] less [of notify_rank]
    by (auto simp: quiet_less_def measures_def begin_measure_def notify_measure_def A)
qed

lemma signal_rests:
  assumes "ev_inv who mode deadline s" "mo_notify (es_mon s) d \<noteq> NIdle" "event_signal_next who mode pick d s = Some (Inr s')"
  shows "(s', s) \<in> quiet_less"
proof -
  note inv = ev_invD(1,3) [OF assms(1)]
  have go: "(s', s) \<in> quiet_less" if n: "signal_notify who mode pick d (es_mon s) = Some (Inr (es_mon s'))"
  proof -
    have "\<exists>p. mo_notify (es_mon s') = (mo_notify (es_mon s))(d := p) \<and> p \<noteq> NIdle \<and> (lock_rank p < lock_rank (mo_notify (es_mon s) d) \<or>
      lock_rank p = lock_rank (mo_notify (es_mon s) d) \<and> notify_rank p < notify_rank (mo_notify (es_mon s) d))"
      using signal_notify_trans [OF inv(1) n] nmove_rank omove_rank
      by (fastforce simp: one_trans_def notify_trans_def split: if_splits)
    then show ?thesis using signal_less [OF inv(2) _ assms(2)] by blast
  qed
  show ?thesis
  proof (cases "mo_notify (es_mon s) d = NLocked \<and> es_signalled s")
    case True
    then have "s' = s\<lparr>es_mon := notify_at d NUnlock (es_mon s)\<rparr>" using assms(3) by (simp add: event_signal_next_def Let_def)
    then show ?thesis using signal_less [OF inv(2) _ assms(2), of s' NUnlock] True by (simp add: notify_at_def)
  next
    case False
    then have "\<exists>r1. signal_notify who mode pick d (es_mon s) = Some r1 \<and> (\<exists>m. r1 = Inr m \<and> es_mon s' = m)"
      using assms(2,3) signal_notify_trans [OF inv(1), of mode pick d]
      by (cases "mo_notify (es_mon s) d"; cases "signal_notify who mode pick d (es_mon s)")
        (fastforce simp: event_signal_next_def Let_def block_bind_def)+
    then show ?thesis using go by auto
  qed
qed

lemma ev_quiet_less:
  assumes "ev_inv who mode deadline s" "ev_quiet who mode s s'"
  shows "ev_inv who mode deadline s'" "(s', s) \<in> quiet_less"
proof -
  show "ev_inv who mode deadline s'"
    using ev_system.inv_step [OF assms(1) ev_quiet_step [OF assms(2)]] by auto
  from assms(2) show "(s', s) \<in> quiet_less"
  proof cases
    case (evq_wait t timed_out)
    then show ?thesis using event_wait_next_trans [OF ev_invD(1) [OF assms(1)] evq_wait(4)] wait_rests [OF assms(1) _ evq_wait(1)]
      by (auto simp: quiet_less_def measures_def)
  next
    case (evq_signal d pick)
    then show ?thesis using signal_rests [OF assms(1)] by blast
  qed
qed

section \<open>Who can go on\<close>

lemma ev_wait_goes_on:
  assumes "ev_inv who mode deadline s" "mo_wait (es_mon s) t \<noteq> WIdle" "wait_next who (es_signalled s) t (es_mon s) \<noteq> None"
  shows "\<exists>s'. ev_quiet who mode s s'"
proof -
  have "event_wait_next who mode (es_expired s t) t s \<noteq> None"
    using assms(3) by (auto simp: event_wait_next_def timeout_next_def block_bind_def Let_def)
  then obtain r where r: "event_wait_next who mode (es_expired s t) t s = Some r" by blast
  then show ?thesis using event_wait_next_trans [OF ev_invD(1) [OF assms(1)] r] evq_wait [OF assms(2), of "es_expired s t"] by blast
qed

lemma pick_exists: "\<exists>pick. pick_thread pick m"
  unfolding pick_thread_def by blast

lemma signal_goes_on:
  assumes "ev_inv who mode deadline s" "mo_notify (es_mon s) d \<noteq> NIdle"
    and "\<And>pick. mo_notify (es_mon s) d = NLocked \<and> es_signalled s \<or> signal_notify who mode pick d (es_mon s) \<noteq> None"
  shows "\<exists>s'. ev_quiet who mode s s'"
proof -
  obtain pick where p: "pick_thread pick (es_mon s)" using pick_exists by blast
  have "event_signal_next who mode pick d s \<noteq> None"
    using assms(2) assms(3) [of pick] by (cases "mo_notify (es_mon s) d") (auto simp: event_signal_next_def block_bind_def Let_def split: if_splits)
  then obtain r where r: "event_signal_next who mode pick d s = Some r" by blast
  then show ?thesis using event_signal_inv [OF assms(1) p r] evq_signal [OF assms(2) p] by blast
qed

lemma notify_one_ready:
  assumes "mon_inv who m" "notifying (mo_notify m d)" "target_ok who m (mo_notify m d)"
  shows "notify_one_next who pick d m \<noteq> None \<or> (\<exists>t. mo_wait m t = WReleased)"
proof (cases "\<exists>f fs. mo_notify m d = NFibers (f # fs) \<and> mo_work m (fst f) \<noteq> None")
  case True
  then show ?thesis using notify_ready [OF assms(1,2)] by (auto simp: notify_next_def)
next
  case False
  then show ?thesis using assms(2,3)
    by (cases "mo_notify m d") (auto simp: notify_one_next_def notify_next_def Let_def split: list.split)
qed

lemma notifier_goes_on:
  assumes "ev_inv who mode deadline s" "notifying (mo_notify (es_mon s) d)"
  shows "\<exists>s'. ev_quiet who mode s s'"
proof (cases "\<exists>t. mo_wait (es_mon s) t = WReleased")
  case True
  then obtain t where "mo_wait (es_mon s) t = WReleased" by blast
  then show ?thesis using ev_wait_goes_on [OF assms(1), of t] by (simp add: wait_next_def)
next
  case False
  note inv = ev_invD(1,7) [OF assms(1)]
  have "signal_notify who mode pick d (es_mon s) \<noteq> None" for pick
    using False notify_ready [OF inv(1) assms(2)] notify_one_ready [OF inv(1) assms(2) inv(2), of pick] by auto
  moreover have "mo_notify (es_mon s) d \<noteq> NIdle" using assms(2) by auto
  ultimately show ?thesis using signal_goes_on [OF assms(1)] by blast
qed

text \<open>When nobody can go on, the mutex is free, and the calls have not begun, have returned or sleep.\<close>

lemma at_rest:
  assumes "ev_inv who mode deadline s" "\<nexists>s'. ev_quiet who mode s s'" "es_signalled s"
  shows "mo_wait (es_mon s) t \<in> {WIdle, WBlocked, WRet}" "mo_notify (es_mon s) d \<in> {NIdle, NRet}"
proof -
  note inv = ev_invD(1) [OF assms(1)] and stuck = ev_wait_goes_on [OF assms(1)]
  have n: "\<not> notifying (mo_notify (es_mon s) e)" for e using notifier_goes_on [OF assms(1)] assms(2) by blast
  have w: "\<not> holds_lock (mo_wait (es_mon s) u)" for u
    using stuck [of u] assms(2,3) wait_ready [of "es_mon s" u "es_signalled s" who]
    by (cases "mo_wait (es_mon s) u") auto
  have free: "mo_mutex (es_mon s) = None"
  proof (cases "mo_mutex (es_mon s)")
    case (Some a)
    then show ?thesis using n w mon_locks(1,3) [OF inv] by (cases a) auto
  qed
  show "mo_wait (es_mon s) t \<in> {WIdle, WBlocked, WRet}"
    using stuck [of t] assms(2,3) wait_ready [of "es_mon s" t "es_signalled s" who] free by (cases "mo_wait (es_mon s) t") auto
  have "mo_notify (es_mon s) d \<noteq> NLock"
  proof
    assume l: "mo_notify (es_mon s) d = NLock"
    then have "signal_notify who mode pick d (es_mon s) \<noteq> None" for pick
      using free by (auto simp: notify_one_next_def notify_next_def lock_simps Let_def)
    then show False using signal_goes_on [OF assms(1), of d] l assms(2) by auto
  qed
  then show "mo_notify (es_mon s) d \<in> {NIdle, NRet}" using n [of d] by (cases "mo_notify (es_mon s) d") auto
qed

lemma at_rest_awake:
  assumes "ev_inv who mode deadline s" "\<nexists>s'. ev_quiet who mode s s'" "es_signalled s" "mode = Auto \<Longrightarrow> \<forall>t. \<not> deadline t"
  shows "mo_wait (es_mon s) t \<in> {WIdle, WRet}"
proof (rule ccontr)
  note rest = at_rest [OF assms(1-3)]
  assume "mo_wait (es_mon s) t \<notin> {WIdle, WRet}"
  then have d: "drowsy (mo_wait (es_mon s) t)" using rest(1) [of t] by auto
  have "\<not> on_its_way (mo_notify (es_mon s) e)" for e using rest(2) [of e] by auto
  moreover have "mo_wait (es_mon s) u \<notin> {WWoken, WCall}" for u using rest(1) [of u] by auto
  ultimately show False using ev_invD(8) [OF assms(1)] assms(3,4) d
    unfolding attended_def all_reached_def one_served_def by (cases "mode = Auto") (simp; blast?)+
qed

end
