(* ===== verification/Event_Properties.thy ===== *)
theory Event_Properties
  imports Event_Progress
begin

text \<open>
  The theorems on the calls of an event, and the run in which a signal wakes nobody.
\<close>

section \<open>A fiber with a deadline and a thread without\<close>

definition one_each :: callers where
  "one_each t = (if t = 0 then Some (0, 2) else None)"

definition ex_state :: "cv_point \<Rightarrow> wait_point \<Rightarrow> cv_point \<Rightarrow> wait_point \<Rightarrow> agent std_mutex \<Rightarrow> condvar \<Rightarrow> bool \<Rightarrow> bool \<Rightarrow> notify_point \<Rightarrow> nat \<Rightarrow> ev_system" where
  "ex_state c0 p0 c1 p1 mx cv sg ex n rz =
     \<lparr>es_signalled = sg,
      es_mon = \<lparr>mo_cv = \<lparr>cs_cv = cv, cs_point = (\<lambda>t. if t = 0 then c0 else if t = 1 then c1 else CEnter)\<rparr>, mo_mutex = mx,
        mo_owns = (\<lambda>t. mx = Some (Waiter t)), mo_work = (\<lambda>w. if w = 0 \<and> holds_work p0 then Some 0 else None),
        mo_wait = (\<lambda>t. if t = 0 then p0 else if t = 1 then p1 else WIdle),
        mo_notify = (\<lambda>d. if d = 0 then n else NIdle)\<rparr>,
      es_expired = (\<lambda>t. ex \<and> t = 0), es_raised = rz, es_tests = 0\<rparr>"

definition ex_cv :: "(nat \<times> nat) mlist \<Rightarrow> int \<Rightarrow> int \<Rightarrow> condvar" where
  "ex_cv l nw nc = \<lparr>cv_waiting = l, cv_num_waiting = nw, cv_num_waiting_on_condition = nc\<rparr>"

lemmas ex_defs = ex_state_def ex_cv_def event_wait_next_def event_signal_next_def notify_one_next_def notify_next_def timeout_next_def
  consumes_def wait_next_def call_next_def cv_advance_def wait_at_def put_lock_def notify_at_def thread_sleep_def fiber_sleep_def
  switch_away_def wake_def fiber_calls_def thread_calls_def lock_simps one_each_def fun_eq_iff Let_def

abbreviation ex_reach :: "(nat \<Rightarrow> bool) \<Rightarrow> ev_system \<Rightarrow> bool" where
  "ex_reach dl \<equiv> ev_reach one_each Auto dl"

lemma ex_wait0:
  assumes "ex_reach dl s" "event_wait_next one_each Auto (es_expired s 0) 0 s = Some (Inr s')"
  shows "ex_reach dl s'"
  by (rule reach_step [OF assms(1) evs_wait [of "es_expired s 0" s 0]]) (use assms(2) in auto)

lemma ex_wait1:
  assumes "ex_reach dl s" "event_wait_next one_each Auto False 1 s = Some (Inr s')"
  shows "ex_reach dl s'"
proof -
  have "one_each 1 = None" by (simp add: one_each_def)
  then show ?thesis using reach_step [OF assms(1) evs_wait [of False s 1]] assms(2) by auto
qed

lemma ex_signal:
  assumes "ex_reach dl s" "event_signal_next one_each Auto 1 0 s = Some (Inr s')" "pick_thread 1 (es_mon s)"
  shows "ex_reach dl s'"
  by (rule reach_step [OF assms(1) evs_signal [OF assms(3,2)]])

lemma ex_time:
  assumes "ex_reach dl s" "dl 0" "worker_free one_each 0 (es_mon s)"
    and "s' = s\<lparr>es_expired := (es_expired s)(0 := True), es_mon := wake (\<lambda>u. u = 0) (es_mon s)\<rparr>"
  shows "ex_reach dl s'"
proof -
  have "ex_reach dl (s\<lparr>es_expired := (es_expired s)(0 := True)\<rparr>)" by (rule reach_step [OF assms(1)], rule evs_expire, rule assms(2))
  from reach_step [OF this evs_timer [of _ 0]] assms(3,4) show ?thesis by simp
qed

text \<open>The thread waits first.\<close>

lemma ex_thread: "ex_reach dl (ex_state CEnter WIdle COnCondition WBlocked None (ex_cv mlist_new 1 1) False False NIdle 0)"
proof -
  let ?s = "\<lambda>c p mx nw nc. ex_state CEnter WIdle c p mx (ex_cv mlist_new nw nc) False False NIdle 0"
  let ?w = "Some (Waiter 1)"
  have "ex_reach dl (?s CEnter WIdle None 0 0)"
    by (rule reach_init) (auto simp: ev_init_def ev_system_new_def monitor_new_def condvar_new_def ex_state_def ex_cv_def fun_eq_iff)
  then have "ex_reach dl (?s CEnter WLock None 0 0)" by (rule ex_wait1) (simp add: ex_defs)
  then have "ex_reach dl (?s CEnter WCall ?w 0 0)" by (rule ex_wait1) (simp add: ex_defs)
  then have "ex_reach dl (?s CCounted WCall ?w 1 0)" by (rule ex_wait1) (simp add: ex_defs)
  then have "ex_reach dl (?s COnCondition WCall ?w 1 1)" by (rule ex_wait1) (simp add: ex_defs)
  then show ?thesis by (rule ex_wait1) (simp add: ex_defs)
qed

text \<open>The entry of the fiber in the list of the condition variable.\<close>

lemma ex_list:
  obtains h l l' where "emplace_front (0, 2) mlist_new = Inr (h, l)" "front_fiber l = Inr (0, 2)" "ml_size l = 1" "mlist_erase h l = Inr l'"
proof -
  have new: "mlist_inv (mlist_new :: (nat \<times> nat) mlist)" "mlist_abs (mlist_new :: (nat \<times> nat) mlist) = []"
    by (rule mlist.inv_empty, rule mlist.abs_empty)
  obtain h l where e: "emplace_front (0, 2) mlist_new = Inr (h, l)" "mlist_inv l" "mlist_abs l = [(h, 0 :: nat, 2 :: nat)]"
    using mlist.emplace_law [OF new(1), of "(0, 2)"] new(2) by auto
  have "\<exists>l'. mlist_erase h l = Inr l'" using mlist.erase_law [OF e(2), of h] e(3) by auto
  moreover have "ml_size l = 1" using inv_list_facts(2) [OF e(2)] e(3) by simp
  ultimately show thesis using that [OF e(1) front_fiber_abs [OF e(2,3)]] by blast
qed

text \<open>Then the fiber; its deadline passes, and its worker queues it. The signal finds it in front of the list.\<close>

lemma ex_lost: "\<exists>l. ex_reach (\<lambda>t. t = 0) (ex_state (CReturned False) WRet COnCondition WBlocked None (ex_cv l 1 1) True True NRet 1)"
proof -
  obtain h l l' where l: "emplace_front (0, 2) mlist_new = Inr (h, l)" "front_fiber l = Inr (0, 2)" "ml_size l = 1" "mlist_erase h l = Inr l'"
    by (rule ex_list)
  let ?f = "\<lambda>c p mx. ex_state c p COnCondition WBlocked mx"
  let ?w = "Some (Waiter 0)" and ?n = "Some (Notifier 0)"
  have "ex_reach (\<lambda>t. t = 0) (?f CEnter WLock None (ex_cv mlist_new 1 1) False False NIdle 0)" by (rule ex_wait0 [OF ex_thread]) (simp add: ex_defs)
  then have "ex_reach (\<lambda>t. t = 0) (?f CEnter WCall ?w (ex_cv mlist_new 1 1) False False NIdle 0)" by (rule ex_wait0) (simp add: ex_defs)
  then have "ex_reach (\<lambda>t. t = 0) (?f CCounted WCall ?w (ex_cv mlist_new 2 1) False False NIdle 0)" by (rule ex_wait0) (simp add: ex_defs)
  then have "ex_reach (\<lambda>t. t = 0) (?f (CListed h) WCall ?w (ex_cv l 2 1) False False NIdle 0)" by (rule ex_wait0) (simp add: ex_defs l)
  then have "ex_reach (\<lambda>t. t = 0) (?f (CListed h) WWork ?w (ex_cv l 2 1) False False NIdle 0)" by (rule ex_wait0) (simp add: ex_defs)
  then have "ex_reach (\<lambda>t. t = 0) (?f (CListed h) WReleased None (ex_cv l 2 1) False False NIdle 0)" by (rule ex_wait0) (simp add: ex_defs)
  then have "ex_reach (\<lambda>t. t = 0) (?f (CListed h) WBlocked None (ex_cv l 2 1) False False NIdle 0)" by (rule ex_wait0) (simp add: ex_defs)
  then have "ex_reach (\<lambda>t. t = 0) (?f (CListed h) WWoken None (ex_cv l 2 1) False True NIdle 0)"
    by (rule ex_time) (simp_all add: ex_defs worker_free_def)
  then have "ex_reach (\<lambda>t. t = 0) (?f (CListed h) WWoken None (ex_cv l 2 1) False True NLock 0)" by (rule ex_signal) (simp_all add: ex_defs pick_thread_def)
  then have "ex_reach (\<lambda>t. t = 0) (?f (CListed h) WWoken ?n (ex_cv l 2 1) False True NLocked 0)" by (rule ex_signal) (simp_all add: ex_defs pick_thread_def)
  then have "ex_reach (\<lambda>t. t = 0) (?f (CListed h) WWoken ?n (ex_cv l 2 1) True True (NFibers [(0, 2)]) 1)" by (rule ex_signal) (simp_all add: ex_defs pick_thread_def l)
  then have "ex_reach (\<lambda>t. t = 0) (?f (CListed h) WWoken ?n (ex_cv l 2 1) True True NUnlock 1)" by (rule ex_signal) (simp_all add: ex_defs pick_thread_def)
  then have "ex_reach (\<lambda>t. t = 0) (?f (CListed h) WWoken None (ex_cv l 2 1) True True NRet 1)" by (rule ex_signal) (simp_all add: ex_defs pick_thread_def)
  then have "ex_reach (\<lambda>t. t = 0) (?f (CLeaving False) WCall ?w (ex_cv l' 2 1) True True NRet 1)" by (rule ex_wait0) (simp add: ex_defs l)
  then have "ex_reach (\<lambda>t. t = 0) (?f (CReturned False) WCall ?w (ex_cv l' 1 1) True True NRet 1)" by (rule ex_wait0) (simp add: ex_defs)
  then have "ex_reach (\<lambda>t. t = 0) (?f (CReturned False) WRet None (ex_cv l' 1 1) True True NRet 1)" by (rule ex_wait0) (simp add: ex_defs)
  then show ?thesis by blast
qed

text \<open>Without deadlines the thread takes the signal.\<close>

definition ex_raised :: ev_system where
  "ex_raised = ex_state CEnter WIdle COnCondition WBlocked (Some (Notifier 0)) (ex_cv mlist_new 1 1) True False NThreads 1"

lemma ex_raised_reach: "ex_reach dl ex_raised"
proof -
  let ?s = "ex_state CEnter WIdle COnCondition WBlocked"
  have "ex_reach dl (?s None (ex_cv mlist_new 1 1) False False NLock 0)" by (rule ex_signal [OF ex_thread]) (simp_all add: ex_defs pick_thread_def)
  then have "ex_reach dl (?s (Some (Notifier 0)) (ex_cv mlist_new 1 1) False False NLocked 0)" by (rule ex_signal) (simp_all add: ex_defs pick_thread_def)
  then show ?thesis by (rule ex_signal) (simp_all add: ex_raised_def ex_defs pick_thread_def mlist_new_def)
qed

definition ex_taken :: ev_system where
  "ex_taken = ex_state CEnter WIdle (CReturned True) WRet None (ex_cv mlist_new 0 0) False False NRet 1"

lemma ex_taken_reach: "ex_reach dl ex_taken"
proof -
  let ?s = "\<lambda>c p mx. ex_state CEnter WIdle c p mx" and ?n = "Some (Notifier 0)" and ?w = "Some (Waiter 1)"
  have "ex_reach dl (?s COnCondition WWoken ?n (ex_cv mlist_new 1 1) True False NUnlock 1)"
    by (rule ex_signal [OF ex_raised_reach]) (simp_all add: ex_raised_def ex_defs pick_thread_def)
  then have "ex_reach dl (?s COnCondition WWoken None (ex_cv mlist_new 1 1) True False NRet 1)"
    by (rule ex_signal) (simp_all add: ex_defs pick_thread_def)
  then have "ex_reach dl (?s COnCondition WCall ?w (ex_cv mlist_new 1 1) True False NRet 1)" by (rule ex_wait1) (simp add: ex_defs)
  then have "ex_reach dl (?s (CLeaving True) WCall ?w (ex_cv mlist_new 1 0) True False NRet 1)" by (rule ex_wait1) (simp add: ex_defs)
  then have "ex_reach dl (?s (CReturned True) WCall ?w (ex_cv mlist_new 0 0) True False NRet 1)" by (rule ex_wait1) (simp add: ex_defs)
  then show ?thesis unfolding ex_taken_def by (rule ex_wait1) (simp add: ex_defs)
qed

section \<open>Properties\<close>

lemma ev_run_inv:
  assumes "ev_inv who mode deadline s" "(ev_quiet who mode)\<^sup>*\<^sup>* s s'"
  shows "ev_inv who mode deadline s'"
  using assms(2) by induction (use assms(1) ev_quiet_less(1) in blast)+

lemma ev_run_ends:
  assumes "ev_inv who mode deadline (run 0)" "\<forall>i. ev_quiet who mode (run i) (run (Suc i))"
  shows False
proof -
  have "ev_inv who mode deadline (run i)" for i by (induction i) (use assms ev_quiet_less(1) in blast)+
  then have "\<forall>i. (run (Suc i), run i) \<in> quiet_less" using assms(2) ev_quiet_less(2) by blast
  moreover have "wf quiet_less" by (simp add: quiet_less_def)
  ultimately show False by (auto simp: wf_iff_no_infinite_down_chain)
qed

text \<open>C15. The calls on an event come to rest: no step fails, the steps of the calls that have begun end after finitely many, whoever of them
  goes on; and when none of them can go on while the event is signalled, every call has returned. For an event with automatic
  reset this needs that no call has a deadline.\<close>

theorem event_calls_settle:
  assumes "ev_reach who mode deadline s" "mode = Auto \<Longrightarrow> \<forall>t. \<not> deadline t"
  shows "(\<forall>r. ev_step who mode deadline s r \<longrightarrow> ok r) \<and>
    \<not> (\<exists>run. run 0 = s \<and> (\<forall>i. ev_quiet who mode (run i) (run (Suc i)))) \<and>
    (\<forall>s'. (ev_quiet who mode)\<^sup>*\<^sup>* s s' \<and> (\<nexists>s''. ev_quiet who mode s' s'') \<and> es_signalled s' \<longrightarrow>
       (\<forall>t. mo_wait (es_mon s') t \<in> {WIdle, WRet}))"
proof (intro conjI allI impI)
  note inv = ev_system.reach_inv [OF assms(1)]
  show "ok r" if "ev_step who mode deadline s r" for r using ev_system.reach_no_fault [OF assms(1) that] .
  show "\<not> (\<exists>run. run 0 = s \<and> (\<forall>i. ev_quiet who mode (run i) (run (Suc i))))" using ev_run_ends inv by blast
  show "mo_wait (es_mon s') t \<in> {WIdle, WRet}"
    if "(ev_quiet who mode)\<^sup>*\<^sup>* s s' \<and> (\<nexists>s''. ev_quiet who mode s' s'') \<and> es_signalled s'" for s' t
    using at_rest_awake [OF ev_run_inv [OF inv]] that assms(2) by blast
qed

theorem event_calls_settle_witness:
  "es_signalled ex_raised \<and> mo_wait (es_mon ex_raised) 1 = WBlocked \<and> (\<exists>s'. ev_quiet one_each Auto ex_raised s')"
proof -
  have "es_signalled ex_raised" "mo_wait (es_mon ex_raised) 1 = WBlocked" by (simp_all add: ex_raised_def ex_state_def)
  moreover have "\<exists>s'. ev_quiet one_each Auto ex_raised s'"
  proof (rule ccontr)
    assume "\<not> ?thesis"
    then have "mo_wait (es_mon ex_raised) 1 \<in> {WIdle, WRet}"
      using event_calls_settle [OF ex_raised_reach [of "\<lambda>_. False"]] calculation(1) by blast
    with calculation(2) show False by simp
  qed
  ultimately show ?thesis by blast
qed

text \<open>C16. A signal of an event with automatic reset releases at most one wait: the calls of \<open>wait\<close>, \<open>wait_for\<close> and \<open>wait_until\<close> that have
  returned true, the calls of \<open>test\<close> that did, and the signal that is still pending are together not more than the signals that were raised.\<close>

theorem event_auto_releases_one:
  assumes "ev_reach who Auto deadline s"
  shows "card {t. mo_wait (es_mon s) t = WRet \<and> cs_point (mo_cv (es_mon s)) t = CReturned True} + es_tests s +
    of_bool (es_signalled s) \<le> es_raised s"
  using ev_invD(9) [OF ev_system.reach_inv [OF assms]] by (simp add: counts_ok_def returned_waits_def)

theorem event_auto_releases_one_witness:
  "card {1 :: nat} + es_tests ex_taken + of_bool (es_signalled ex_taken) \<le> (1 :: nat)"
proof -
  have "{t. mo_wait (es_mon ex_taken) t = WRet \<and> cs_point (mo_cv (es_mon ex_taken)) t = CReturned True} = {1}" "es_raised ex_taken = 1"
    by (auto simp: ex_taken_def ex_state_def)
  then show ?thesis using event_auto_releases_one [OF ex_taken_reach [of "\<lambda>_. False"]] by simp
qed

text \<open>C17. With a deadline a signal of an event with automatic reset may wake nobody: there is a run in which a fiber has returned false after
  its deadline, the event is signalled, a thread that waits without a deadline sleeps, and no call can go on.\<close>

theorem event_signal_lost:
  "\<exists>s. ev_reach one_each Auto (\<lambda>t. t = 0) s \<and> es_signalled s \<and>
     mo_wait (es_mon s) 0 = WRet \<and> cs_point (mo_cv (es_mon s)) 0 = CReturned False \<and>
     mo_wait (es_mon s) 1 = WBlocked \<and> {s'. ev_quiet one_each Auto s s'} = {}"
proof -
  obtain l where l: "ex_reach (\<lambda>t. t = 0) (ex_state (CReturned False) WRet COnCondition WBlocked None (ex_cv l 1 1) True True NRet 1)"
    (is "ex_reach _ ?s") using ex_lost by blast
  have "\<not> ev_quiet one_each Auto ?s s'" for s'
  proof
    assume "ev_quiet one_each Auto ?s s'"
    then show False
      by cases (auto simp: ex_state_def event_wait_next_def wait_next_def event_signal_next_def notify_one_next_def notify_next_def
          block_bind_def Let_def split: if_splits)
  qed
  then show ?thesis using l by (intro exI [of _ ?s]) (simp add: ex_state_def)
qed

end
