(* ===== verification/Fiber_Contexts.thy ===== *)
theory Fiber_Contexts
  imports Worker_Moves Os_Fiber
begin

text \<open>
  The fibers of a worker on the machine: where \<open>Worker_Model\<close> records the place at which a fiber has called \<open>switchToFiber\<close>, the program
  has the registers that \<open>marl_fiber_swap\<close> stored in the context of the fiber (\<open>Os_Fiber\<close>). Here both run side by side.
\<close>

section \<open>A worker on the machine\<close>

text \<open>
  \<open>ho_ctx\<close> gives the address of the context of each fiber of the worker, \<open>ho_machine\<close> the registers of its thread and the memory.
  \<open>ho_left\<close> is not in the program: the registers with which a fiber called \<open>switchTo\<close> last, with the return address of that call,
  and its place in the code.
\<close>

record 'u hosted =
  ho_worker :: "'u worker"
  ho_machine :: machine
  ho_ctx :: "nat \<Rightarrow> addr"
  ho_left :: "nat \<Rightarrow> (reg \<Rightarrow> 64 word) \<times> cont"

abbreviation ho_fibers :: "'u hosted \<Rightarrow> nat set" where
  "ho_fibers s \<equiv> {..worker_fibers (ho_worker s)}"

text \<open>
  Code that runs on a fiber, of the library or of the user, may write to the memory, but not to the contexts of the other
  fibers, which stay allocated. A switch needs the eight bytes below the stack pointer for the return address.
\<close>

definition contexts_kept :: "64 word \<Rightarrow> nat set \<Rightarrow> (nat \<Rightarrow> addr) \<Rightarrow> heap \<Rightarrow> heap \<Rightarrow> nat set \<Rightarrow> bool" where
  "contexts_kept ps fs ctx h h' others \<longleftrightarrow> (\<forall>f \<in> fs. context_ok ps (ctx f) h') \<and>
     (\<forall>f \<in> others. \<forall>r \<in> saved_regs. ctx_get (ctx f) h' r = ctx_get (ctx f) h r)"

definition stack_room :: "64 word \<Rightarrow> nat set \<Rightarrow> (nat \<Rightarrow> addr) \<Rightarrow> machine \<Rightarrow> bool" where
  "stack_room ps fs ctx m \<longleftrightarrow> accessible ps (m_mem m) (m_reg m RSP - 8) 8 \<and>
     (\<forall>f \<in> fs. apart (m_reg m RSP - 8) 8 (ctx f) context_size)"

text \<open>\<open>from->switchTo(to)\<close> in a step that leads the worker to \<open>w'\<close>.\<close>

definition host_switch :: "64 word \<Rightarrow> addr \<Rightarrow> 'u worker \<Rightarrow> 'u hosted \<Rightarrow> 'u hosted result" where
  "host_switch ps ret w' s =
     (let from = current_fiber (ho_worker s); to = current_fiber w'; m = ho_machine s in
      rbind (switchTo ps (ho_ctx s from) (ho_ctx s to) ret m) (\<lambda>m'.
      Inr (s\<lparr>ho_worker := w', ho_machine := m',
             ho_left := (ho_left s)(from := ((m_reg m)(RIP := ret), fiber_cont w' from))\<rparr>)))"

inductive host_step :: "64 word \<Rightarrow> addr \<Rightarrow> addr \<Rightarrow> 'u hosted \<Rightarrow> 'u hosted result \<Rightarrow> bool" for ps trampoline run where
  host_code: "wstep (ho_worker s) (Inr w') \<Longrightarrow> current_fiber w' = current_fiber (ho_worker s) \<Longrightarrow>
    contexts_kept ps (ho_fibers s) (ho_ctx s) (m_mem (ho_machine s)) (m_mem m') (ho_fibers s - {current_fiber w'}) \<Longrightarrow>
    host_step ps trampoline run s (Inr (s\<lparr>ho_worker := w', ho_machine := m'\<rparr>))"
| host_go: "wstep (ho_worker s) (Inr w') \<Longrightarrow> current_fiber w' \<noteq> current_fiber (ho_worker s) \<Longrightarrow>
    worker_fibers w' = worker_fibers (ho_worker s) \<Longrightarrow> stack_room ps (ho_fibers s) (ho_ctx s) (ho_machine s) \<Longrightarrow>
    host_step ps trampoline run s (host_switch ps ret w' s)"
| host_new: "wstep (ho_worker s) (Inr w') \<Longrightarrow> worker_fibers w' = Suc (worker_fibers (ho_worker s)) \<Longrightarrow>
    createFiber A1 A2 ps trampoline run sz al stack_size func (m_mem (ho_machine s)) = Inr (f, h) \<Longrightarrow>
    s1 = s\<lparr>ho_machine := (ho_machine s)\<lparr>m_mem := h\<rparr>, ho_ctx := (ho_ctx s)(current_fiber w' := context_addr f)\<rparr> \<Longrightarrow>
    contexts_kept ps (insert (current_fiber w') (ho_fibers s)) (ho_ctx s1) (m_mem (ho_machine s)) h (ho_fibers s) \<Longrightarrow>
    \<forall>g \<in> ho_fibers s. apart (ho_ctx s g) context_size (context_addr f) context_size \<Longrightarrow>
    stack_room ps (insert (current_fiber w') (ho_fibers s)) (ho_ctx s1) (ho_machine s1) \<Longrightarrow>
    host_step ps trampoline run s (host_switch ps ret w' s1)"

definition host_init :: "64 word \<Rightarrow> 'u hosted \<Rightarrow> bool" where
  "host_init ps s \<longleftrightarrow> worker_init (ho_worker s) \<and> context_ok ps (ho_ctx s main_fiber) (m_mem (ho_machine s))"

section \<open>Invariant\<close>

definition left_ok :: "'u hosted \<Rightarrow> nat \<Rightarrow> bool" where
  "left_ok s f \<longleftrightarrow> fiber_cont (ho_worker s) f = snd (ho_left s f) \<and>
     (\<forall>r \<in> saved_regs. ctx_get (ho_ctx s f) (m_mem (ho_machine s)) r = fst (ho_left s f) r)"

definition host_inv :: "64 word \<Rightarrow> 'u hosted \<Rightarrow> bool" where
  "host_inv ps s \<longleftrightarrow> winv (ho_worker s) \<and> (\<forall>f \<in> ho_fibers s. context_ok ps (ho_ctx s f) (m_mem (ho_machine s))) \<and>
     (\<forall>f \<in> ho_fibers s. \<forall>g \<in> ho_fibers s. f \<noteq> g \<longrightarrow> apart (ho_ctx s f) context_size (ho_ctx s g) context_size) \<and>
     (\<forall>f \<in> ho_fibers s. f \<noteq> current_fiber (ho_worker s) \<longrightarrow> left_ok s f)"

lemma saved_context_regs: "r \<in> saved_regs \<Longrightarrow> r \<in> set context_regs"
  by (auto simp: saved_regs_def context_regs_def)

text \<open>The swap, seen from all contexts: the one that is left gets the registers, the others keep theirs, and those of the target are in the
  registers afterwards.\<close>

lemma swap_contexts:
  assumes ok: "\<forall>f \<in> fs. context_ok ps (ctx f) (m_mem m)"
    and apart: "\<forall>f \<in> fs. \<forall>g \<in> fs. f \<noteq> g \<longrightarrow> apart (ctx f) context_size (ctx g) context_size"
    and room: "stack_room ps fs ctx m" and ft: "from \<in> fs" "to \<in> fs" "from \<noteq> to"
  obtains m' where "switchTo ps (ctx from) (ctx to) ret m = Inr m'" "\<forall>f \<in> fs. context_ok ps (ctx f) (m_mem m')"
    "\<And>r. r \<in> saved_regs \<Longrightarrow> ctx_get (ctx from) (m_mem m') r = ((m_reg m)(RIP := ret)) r"
    "\<And>f r. f \<in> fs \<Longrightarrow> f \<noteq> from \<Longrightarrow> r \<in> saved_regs \<Longrightarrow> ctx_get (ctx f) (m_mem m') r = ctx_get (ctx f) (m_mem m) r"
    "\<And>r. r \<in> saved_regs \<Longrightarrow> m_reg m' r = ctx_get (ctx to) (m_mem m) r"
proof -
  have "switch_ok ps (ctx from) (ctx to) m" using assms by (simp add: switch_ok_def stack_room_def)
  from switchTo_run [OF this, of ret] obtain m' where m': "switchTo ps (ctx from) (ctx to) ret m = Inr m'"
    "m_mem m' = save_context (ctx from) (m_reg m) ret (m_reg m RSP) (poke (m_reg m RSP - 8) ret (m_mem m))"
    "\<forall>r \<in> set context_regs. m_reg m' r = ctx_get (ctx to) (m_mem m) r" by blast
  show thesis
  proof (rule that)
    show "ctx_get (ctx from) (m_mem m') r = ((m_reg m)(RIP := ret)) r" if "r \<in> saved_regs" for r
      using that saved_context_regs [OF that] by (auto simp: m'(2) save_context_get saved_regs_def)
    show "ctx_get (ctx f) (m_mem m') r = ctx_get (ctx f) (m_mem m) r" if f: "f \<in> fs" "f \<noteq> from" and r: "r \<in> saved_regs" for f r
    proof -
      have "apart (ctx f) context_size (ctx from) context_size" "apart (ctx f) context_size (m_reg m RSP - 8) 8"
        using apart room ft(1) f by (auto simp: stack_room_def apart_sym)
      then show ?thesis using saved_context_regs [OF r] by (simp add: m'(2) save_context_other ctx_get_poke_outside)
    qed
  qed (use m' ok saved_context_regs in simp_all)
qed

text \<open>A switch from a state in which all but the fiber that is left have their contexts in order.\<close>

lemma host_switch_inv:
  assumes w: "winv w'" "fs = {..worker_fibers w'}" "current_fiber w' \<in> fs" "current_fiber w' \<noteq> current_fiber (ho_worker s)"
    and "current_fiber (ho_worker s) \<in> fs"
    and ok: "\<forall>f \<in> fs. context_ok ps (ho_ctx s f) (m_mem (ho_machine s))"
    and apart: "\<forall>f \<in> fs. \<forall>g \<in> fs. f \<noteq> g \<longrightarrow> apart (ho_ctx s f) context_size (ho_ctx s g) context_size"
    and room: "stack_room ps fs (ho_ctx s) (ho_machine s)"
    and left: "\<And>f. f \<in> fs \<Longrightarrow> f \<noteq> current_fiber (ho_worker s) \<Longrightarrow> f \<noteq> current_fiber w' \<Longrightarrow>
      left_ok s f \<and> fiber_cont w' f = fiber_cont (ho_worker s) f"
  shows "\<exists>t. host_switch ps ret w' s = Inr t \<and> host_inv ps t"
proof -
  let ?from = "current_fiber (ho_worker s)" and ?m = "ho_machine s"
  obtain m' where m': "switchTo ps (ho_ctx s ?from) (ho_ctx s (current_fiber w')) ret ?m = Inr m'"
    "\<forall>f \<in> fs. context_ok ps (ho_ctx s f) (m_mem m')"
    "\<And>r. r \<in> saved_regs \<Longrightarrow> ctx_get (ho_ctx s ?from) (m_mem m') r = ((m_reg ?m)(RIP := ret)) r"
    "\<And>f r. f \<in> fs \<Longrightarrow> f \<noteq> ?from \<Longrightarrow> r \<in> saved_regs \<Longrightarrow> ctx_get (ho_ctx s f) (m_mem m') r = ctx_get (ho_ctx s f) (m_mem ?m) r"
    by (rule swap_contexts [OF ok apart room assms(5) w(3), of ret]) (use w(4) in auto)
  let ?t = "s\<lparr>ho_worker := w', ho_machine := m', ho_left := (ho_left s)(?from := ((m_reg ?m)(RIP := ret), fiber_cont w' ?from))\<rparr>"
  have "left_ok ?t f" if "f \<in> fs" "f \<noteq> current_fiber w'" for f
    using left [of f] m'(3,4) that by (cases "f = ?from") (auto simp: left_ok_def)
  then have "host_inv ps ?t" using w m'(2) apart by (simp add: host_inv_def)
  then show ?thesis using m'(1) by (simp add: host_switch_def Let_def)
qed

lemma host_invD:
  assumes "host_inv ps s"
  shows "winv (ho_worker s)" "\<forall>f \<in> ho_fibers s. context_ok ps (ho_ctx s f) (m_mem (ho_machine s))"
    "\<forall>f \<in> ho_fibers s. \<forall>g \<in> ho_fibers s. f \<noteq> g \<longrightarrow> apart (ho_ctx s f) context_size (ho_ctx s g) context_size"
    "\<And>f. f \<in> ho_fibers s \<Longrightarrow> f \<noteq> current_fiber (ho_worker s) \<Longrightarrow> left_ok s f"
    "current_fiber (ho_worker s) \<in> ho_fibers s"
  using assms fibers_exist(2) [of "ho_worker s"] unfolding host_inv_def by auto

lemma host_step_inv:
  assumes inv: "host_inv ps s" and "host_step ps trampoline run s r"
  shows "\<exists>t. r = Inr t \<and> host_inv ps t"
proof -
  note D = host_invD [OF inv]
  have next_ok: "winv w' \<and> moves (ho_worker s) w' \<and> current_fiber w' \<le> worker_fibers w'" if "wstep (ho_worker s) (Inr w')" for w'
    using worker_system.inv_step [OF D(1) that] wstep_moves [OF that] fibers_exist(2) by auto
  from assms(2) show ?thesis
  proof cases
    case (host_code w' m')
    note N = next_ok [OF host_code(2)]
    have "worker_fibers w' = worker_fibers (ho_worker s)" using moves_cont(2) [of "ho_worker s" w'] N D(5) host_code(3) by auto
    moreover have "left_ok (s\<lparr>ho_worker := w', ho_machine := m'\<rparr>) f" if "f \<in> ho_fibers s" "f \<noteq> current_fiber w'" for f
      using D(4) [of f] moves_cont(1) [of "ho_worker s" w' f] N D(5) host_code(3,4) that by (auto simp: left_ok_def contexts_kept_def)
    ultimately show ?thesis using host_code N D(3) by (auto simp: host_inv_def contexts_kept_def)
  next
    case (host_go w' ret)
    note N = next_ok [OF host_go(2)]
    show ?thesis unfolding host_go(1)
      by (rule host_switch_inv [OF _ refl]) (use N D host_go moves_cont(1) [of "ho_worker s" w'] in auto)
  next
    case (host_new w' A1 A2 sz al stack_size func f h s1 ret)
    note N = next_ok [OF host_new(2)]
    have cur: "current_fiber w' = Suc (worker_fibers (ho_worker s))" using moves_cont(2) [of "ho_worker s" w'] N D(5) host_new(3) by auto
    have fs: "{..worker_fibers w'} = insert (current_fiber w') (ho_fibers s)" using cur host_new(3) by auto
    have s1: "ho_worker s1 = ho_worker s" "m_mem (ho_machine s1) = h" "ho_left s1 = ho_left s"
      "ho_ctx s1 (current_fiber w') = context_addr f" "\<And>g. g \<in> ho_fibers s \<Longrightarrow> ho_ctx s1 g = ho_ctx s g"
      using cur by (auto simp: host_new(5))
    show ?thesis unfolding host_new(1)
    proof (rule host_switch_inv [OF _ fs [symmetric]])
      show "\<forall>f \<in> insert (current_fiber w') (ho_fibers s). \<forall>g \<in> insert (current_fiber w') (ho_fibers s). f \<noteq> g \<longrightarrow>
          apart (ho_ctx s1 f) context_size (ho_ctx s1 g) context_size"
        using D(3) host_new(7) s1(4,5) by (auto simp: apart_sym)
      show "left_ok s1 g \<and> fiber_cont w' g = fiber_cont (ho_worker s1) g"
        if "g \<in> insert (current_fiber w') (ho_fibers s)" "g \<noteq> current_fiber (ho_worker s1)" "g \<noteq> current_fiber w'" for g
        using D(4) [of g] moves_cont(1) [of "ho_worker s" w' g] N D(5) host_new(6) s1 that
        by (auto simp: left_ok_def contexts_kept_def)
    qed (use N D cur host_new s1 in \<open>auto simp: contexts_kept_def\<close>)
  qed
qed

interpretation hosted: invariant_system "host_init ps" "host_step ps trampoline run" "host_inv ps"
  for ps trampoline run
proof (unfold_locales, goal_cases)
  case (1 s)
  then have "winv (ho_worker s)" by (simp add: host_init_def worker_system.inv_init)
  moreover have "worker_fibers (ho_worker s) = 0" "current_fiber (ho_worker s) = 0"
    using 1 by (auto simp: host_init_def worker_init_def worker_start_def main_fiber_def)
  ultimately show ?case using 1 by (simp add: host_inv_def host_init_def main_fiber_def)
next
  case (2 s r)
  then show ?case by (rule host_step_inv)
qed

section \<open>Property\<close>

text \<open>C23. The places of the worker model are in the saved contexts: whenever a worker switches to one of its fibers, after any run in which code
  on a fiber does not write to the contexts of the others, the swap succeeds, and the fiber goes on with exactly the registers it must be
  able to rely on, the stack pointer and the return address with which it itself called \<open>switchTo\<close> last, at the
  place in the code where it was then.\<close>

theorem fiber_resumes_where_it_left:
  assumes "reach (host_init ps) (host_step ps trampoline run) s" and "wstep (ho_worker s) (Inr w')"
    and "current_fiber w' \<noteq> current_fiber (ho_worker s)" "worker_fibers w' = worker_fibers (ho_worker s)"
    and "stack_room ps (ho_fibers s) (ho_ctx s) (ho_machine s)"
  shows "\<exists>t. host_switch ps ret w' s = Inr t \<and> ho_worker t = w' \<and>
    (\<forall>r \<in> saved_regs. m_reg (ho_machine t) r = fst (ho_left s (current_fiber w')) r) \<and>
    wpc w' = resume_pc (snd (ho_left s (current_fiber w')))"
proof -
  note D = host_invD [OF hosted.reach_inv [OF assms(1)]]
  let ?to = "current_fiber w'"
  have mv: "moves (ho_worker s) w'" "?to \<in> ho_fibers s"
    using assms(2,4) worker_system.inv_step [OF D(1) assms(2)] wstep_moves fibers_exist(2) [of w'] by auto
  obtain m' where m': "switchTo ps (ho_ctx s (current_fiber (ho_worker s))) (ho_ctx s ?to) ret (ho_machine s) = Inr m'"
    "\<And>r. r \<in> saved_regs \<Longrightarrow> m_reg m' r = ctx_get (ho_ctx s ?to) (m_mem (ho_machine s)) r"
    by (rule swap_contexts [OF D(2,3) assms(5) D(5) mv(2), of ret]) (use assms(3) in auto)
  have "left_ok s ?to" using D(4) mv(2) assms(3) by blast
  moreover have "wpc w' = resume_pc (fiber_cont (ho_worker s) ?to)"
    using moves_cont(1,3) [OF mv(1)] mv(2) D(5) assms(3) by auto
  ultimately show ?thesis using m' by (simp add: host_switch_def left_ok_def Let_def)
qed

section \<open>Example\<close>

text \<open>The run of the example of \<open>Worker_Moves\<close>: the thread waits, a new fiber runs the task and goes idle, the thread continues.
  The memory: the object of the main fiber at 8192 and the stack of the thread at 262144.\<close>

definition run_heap :: heap where
  "run_heap = \<lparr>hp_blocks = [(8192, 128)], hp_maps = [(262144, 65536)], hp_guarded = [], hp_bytes = (\<lambda>_. 0)\<rparr>"

definition run_machine :: machine where
  "run_machine = \<lparr>m_reg = (\<lambda>_. 7)(RSP := 266240), m_mem = run_heap\<rparr>"

definition run_host :: "unit hosted" where
  "run_host = \<lparr>ho_worker = worker_start SingleThreaded 0, ho_machine = run_machine, ho_ctx = (\<lambda>_. 8192), ho_left = (\<lambda>_. ((\<lambda>_. 0), Finished))\<rparr>"

abbreviation host_reach :: "unit hosted \<Rightarrow> bool" where
  "host_reach \<equiv> reach (host_init 4096) (host_step 4096 11 22)"

text \<open>Steps that leave the machine alone.\<close>

lemma host_reach_code:
  assumes "host_reach s" "wstep (ho_worker s) (Inr w')" "current_fiber w' = current_fiber (ho_worker s)"
  shows "host_reach (s\<lparr>ho_worker := w'\<rparr>)"
proof -
  have "contexts_kept 4096 (ho_fibers s) (ho_ctx s) (m_mem (ho_machine s)) (m_mem (ho_machine s)) (ho_fibers s - {current_fiber w'})"
    using host_invD(2) [OF hosted.reach_inv [OF assms(1)]] by (simp add: contexts_kept_def)
  from host_code [OF assms(2,3) this, of 11 22] show ?thesis by (intro reach_step [OF assms(1)]) simp
qed

lemma run_queued_reach: "host_reach (run_host\<lparr>ho_worker := run_queued\<rparr>)"
proof -
  have "host_reach run_host"
    by (rule reach_init) (auto simp: host_init_def run_host_def run_machine_def run_heap_def worker_init_def context_ok_def
        context_regs_def accessible_def valid_range_def)
  from host_reach_code [OF this, of run_waiting] have "host_reach (run_host\<lparr>ho_worker := run_waiting\<rparr>)"
    using run_steps(1) by (simp add: run_host_def run_waiting_def)
  from host_reach_code [OF this, of run_queued] show ?thesis using run_steps(2) by (simp add: run_queued_def)
qed

lemma run_create:
  "\<exists>f h. createFiber (default_ops 4096 stack_os) (default_ops 4096 stack_os) 4096 11 22 160 1 65536 7 run_heap = Inr (f, h) \<and>
    context_addr f = 4104 \<and> hp_blocks h = [(4096, 160), (8192, 128)] \<and> hp_maps h = [(65536, 73728), (262144, 65536)] \<and>
    hp_guarded h = [135168, 65536] \<and> (\<forall>r \<in> saved_regs. ctx_get 8192 h r = ctx_get 8192 run_heap r) \<and>
    ctx_get 4104 h RSP = 135144"
proof -
  have other: "ctx_get 8192 (poke a v h) r = ctx_get 8192 h r" if "apart 8192 context_size a 8" "r \<in> saved_regs" for a v h r
    using that by (simp add: ctx_get_poke_outside saved_context_regs)
  have bytes: "ctx_get p (h\<lparr>hp_maps := m, hp_guarded := g\<rparr>) r = ctx_get p h r"
    "ctx_get p \<lparr>hp_blocks = b, hp_maps = m, hp_guarded = g, hp_bytes = x\<rparr> r =
      ptr_of_bytes (map (\<lambda>i. x (p + marl_reg r + of_nat i)) [0..<8])" for p h b m g r x
    by (simp_all add: ctx_get_def peek_def)
  have rsp: "ctx_get 4104 (poke 135152 v (poke 4168 u h)) RSP = u" for u v h
    by (simp add: ctx_get_def peek_poke_other apart_def)
  show ?thesis
    by (simp add: createFiber_def make_unique_def make_unique_n_def default_ops_def default_allocate_def create_request_def
        request_default_def c_malloc_def stack_os_def stack_request_def pagedMalloc_def allocatePages_def protectPage_def
        num_total_pages_def num_requested_pages_def Let_def run_heap_def context_regs_def mem_store_def accessible_def
        valid_range_def mapped_range_def set_target_def context_addr_def other bytes rsp apart_def context_size_def)
qed

text \<open>The state in which the new fiber has finished its work: the main fiber has left with the registers of the thread.\<close>

lemma run_notified_reach:
  "\<exists>s. host_reach s \<and> ho_worker s = run_notified\<lparr>wpc := PIdle\<rparr> \<and> ho_left s 0 = ((m_reg run_machine)(RIP := 77), Suspended Outside WaitPlain None) \<and>
     stack_room 4096 {..1} (ho_ctx s) (ho_machine s)"
proof -
  let ?s = "run_host\<lparr>ho_worker := run_queued\<rparr>"
  obtain f h where c: "createFiber (default_ops 4096 stack_os) (default_ops 4096 stack_os) 4096 11 22 160 1 65536 7 run_heap = Inr (f, h)"
    "context_addr f = 4104" "hp_blocks h = [(4096, 160), (8192, 128)]" "hp_maps h = [(65536, 73728), (262144, 65536)]"
    "hp_guarded h = [135168, 65536]" "\<forall>r \<in> saved_regs. ctx_get 8192 h r = ctx_get 8192 run_heap r" "ctx_get 4104 h RSP = 135144"
    using run_create by blast
  let ?m = "run_machine\<lparr>m_mem := h\<rparr>" and ?ctx = "(\<lambda>_. 8192)(1 := 4104)"
  let ?s1 = "?s\<lparr>ho_machine := ?m, ho_ctx := ?ctx\<rparr>"
  have acc: "context_ok 4096 8192 h" "context_ok 4096 4104 h" "accessible 4096 h 266232 8" "accessible 4096 h 135136 8"
    by (simp_all add: c context_ok_def context_regs_def accessible_def valid_range_def mapped_range_def)
  have "switch_ok 4096 8192 4104 ?m"
    using acc by (simp add: switch_ok_def run_machine_def apart_def context_size_def)
  from switchTo_run [OF this, of 77] obtain m' where m': "switchTo 4096 8192 4104 77 ?m = Inr m'"
    "m_mem m' = save_context 8192 (m_reg ?m) 77 (m_reg ?m RSP) (poke (m_reg ?m RSP - 8) 77 h)"
    "m_reg m' RSP = 135144" using c(7) by (auto simp: context_regs_def)
  let ?s2 = "?s1\<lparr>ho_worker := run_created, ho_machine := m',
    ho_left := (ho_left run_host)(0 := ((m_reg run_machine)(RIP := 77), Suspended Outside WaitPlain None))\<rparr>"
  have "host_step 4096 11 22 ?s (host_switch 4096 77 run_created ?s1)"
    by (rule host_new [OF _ _ _ _ _ _, of ?s run_created "default_ops 4096 stack_os" "default_ops 4096 stack_os" 4096 11 22 160 1 65536 7 f h])
      (use run_steps(3) c acc in \<open>simp_all add: run_host_def run_machine_def run_defs contexts_kept_def stack_room_def apart_def context_size_def\<close>)
  moreover have "host_switch 4096 77 run_created ?s1 = Inr ?s2"
    using m'(1) by (simp add: host_switch_def run_host_def run_defs run_machine_def)
  ultimately have r2: "host_reach ?s2" using reach_step [OF run_queued_reach] by metis
  have next_code: "host_reach (?s2\<lparr>ho_worker := w'\<rparr>)"
    if "host_reach (?s2\<lparr>ho_worker := w\<rparr>)" "wstep w (Inr w')" "current_fiber w' = current_fiber w" for w w'
    using host_reach_code [OF that(1), of w'] that(2,3) by simp
  have "host_reach (?s2\<lparr>ho_worker := run_created\<rparr>)" using r2 by (simp add: run_host_def)
  from next_code [OF next_code [OF next_code [OF next_code [OF next_code [OF this run_steps(4)] run_steps(5)] run_steps(6)] run_steps(7)] run_steps(8)]
  have "host_reach (?s2\<lparr>ho_worker := run_notified\<lparr>wpc := PIdle\<rparr>\<rparr>)" by (simp add: run_started_def run_notified_def)
  moreover have "stack_room 4096 {..1} ?ctx m'"
    using acc m'(2,3) by (simp add: stack_room_def apart_def context_size_def)
  ultimately show ?thesis by (intro exI [of _ "?s2\<lparr>ho_worker := run_notified\<lparr>wpc := PIdle\<rparr>\<rparr>"]) simp
qed

theorem fiber_resumes_where_it_left_witness:
  "\<exists>s t. host_reach s \<and> current_fiber (ho_worker s) = 1 \<and> host_switch 4096 99 run_back s = Inr t \<and>
     m_reg (ho_machine t) RIP = 77 \<and> m_reg (ho_machine t) RSP = 266240 \<and> m_reg (ho_machine t) RBX = 7 \<and>
     wpc (ho_worker t) = PWaitRet Outside WaitPlain None"
proof -
  obtain s where s: "host_reach s" "ho_worker s = run_notified\<lparr>wpc := PIdle\<rparr>"
    "ho_left s 0 = ((m_reg run_machine)(RIP := 77), Suspended Outside WaitPlain None)" "stack_room 4096 {..1} (ho_ctx s) (ho_machine s)"
    using run_notified_reach by blast
  have "\<exists>t. host_switch 4096 99 run_back s = Inr t \<and> ho_worker t = run_back \<and>
    (\<forall>r \<in> saved_regs. m_reg (ho_machine t) r = fst (ho_left s (current_fiber run_back)) r) \<and>
    wpc run_back = resume_pc (snd (ho_left s (current_fiber run_back)))"
    by (rule fiber_resumes_where_it_left [OF s(1)]) (use s run_steps(9) in \<open>simp_all add: run_defs\<close>)
  then show ?thesis using s(1-3) by (auto simp: run_defs saved_regs_def run_machine_def)
qed

end
