(* ===== verification/Trace_Model.thy ===== *)
theory Trace_Model
  imports Diagnostics
begin

text \<open>
  Scoped trace events: the part of \<open>include/marl/trace.hpp\<close> that has code. The member functions of \<open>Trace\<close> have no bodies in the sources, so a
  trace is the list of the calls it gets, \<open>None\<close> when \<open>Trace::get()\<close> is null. Tracing is off in the header (\<open>MARL_TRACE_ENABLED\<close>), in which case
  all macros are empty.
\<close>

section \<open>Types of events\<close>

datatype event_type = TBegin | TEnd | TComplete | TInstant | TCounter | TAsyncStart | TAsyncInstant | TAsyncEnd | TFlowStart | TFlowStep
  | TFlowEnd | TSample | TObjectCreated | TObjectSnapshot | TObjectDestroyed | TMetadata | TGlobalMemoryDump | TProcessMemoryDump
  | TMark | TClockSync | TContextEnter | TContextLeave | TShutdown

fun type_code :: "event_type \<Rightarrow> char" where
  "type_code TBegin = CHR ''B''" | "type_code TEnd = CHR ''E''" | "type_code TComplete = CHR ''X''"
| "type_code TInstant = CHR ''i''" | "type_code TCounter = CHR ''C''" | "type_code TAsyncStart = CHR ''b''"
| "type_code TAsyncInstant = CHR ''n''" | "type_code TAsyncEnd = CHR ''e''" | "type_code TFlowStart = CHR ''s''"
| "type_code TFlowStep = CHR ''t''" | "type_code TFlowEnd = CHR ''f''" | "type_code TSample = CHR ''P''"
| "type_code TObjectCreated = CHR ''N''" | "type_code TObjectSnapshot = CHR ''O''" | "type_code TObjectDestroyed = CHR ''D''"
| "type_code TMetadata = CHR ''M''" | "type_code TGlobalMemoryDump = CHR ''V''" | "type_code TProcessMemoryDump = CHR ''v''"
| "type_code TMark = CHR ''R''" | "type_code TClockSync = CHR ''c''" | "type_code TContextEnter = CHR ''(''"
| "type_code TContextLeave = CHR '')''" | "type_code TShutdown = CHR ''S''"

text \<open>The classes of events and their \<open>type()\<close>.\<close>

datatype event_class = BeginEventClass | EndEventClass | MetadataEventClass | ShutdownClass | AsyncStartEventClass | AsyncEndEventClass
  | NameThreadEventClass

fun class_type :: "event_class \<Rightarrow> event_type" where
  "class_type BeginEventClass = TBegin"
| "class_type EndEventClass = TEnd"
| "class_type MetadataEventClass = TMetadata"
| "class_type ShutdownClass = TShutdown"
| "class_type AsyncStartEventClass = TAsyncStart"
| "class_type AsyncEndEventClass = TAsyncEnd"
| "class_type NameThreadEventClass = TMetadata"

section \<open>Scoped events\<close>

datatype trace_call =
    NameThread string "farg list"
  | BeginEvent string "farg list"
  | EndEvent
  | BeginAsyncEvent "32 word" string "farg list"
  | EndAsyncEvent "32 word" string "farg list"

type_synonym trace = "trace_call list option"

definition MaxEventNameLength :: nat where
  "MaxEventNameLength = 64"

definition vsnprintf :: "nat \<Rightarrow> string \<Rightarrow> farg list \<Rightarrow> string" where
  "vsnprintf n fmt args = take (n - 1) (c_format fmt args)"

definition trace_put :: "trace_call \<Rightarrow> trace \<Rightarrow> trace" where
  "trace_put c t = map_option (\<lambda>l. l @ [c]) t"

text \<open>\<open>ScopedEvent\<close> hands the finished name to \<open>beginEvent\<close> as a format.\<close>

definition ScopedEvent :: "string \<Rightarrow> farg list \<Rightarrow> trace \<Rightarrow> trace" where
  "ScopedEvent fmt args t = trace_put (BeginEvent (vsnprintf MaxEventNameLength fmt args) []) t"

definition ScopedEvent_end :: "trace \<Rightarrow> trace" where
  "ScopedEvent_end t = trace_put EndEvent t"

text \<open>The name in the object stays empty if there is no trace.\<close>

definition ScopedAsyncEvent :: "32 word \<Rightarrow> string \<Rightarrow> farg list \<Rightarrow> trace \<Rightarrow> string \<times> trace" where
  "ScopedAsyncEvent eid fmt args t =
     (case t of
        None \<Rightarrow> ([], None)
      | Some l \<Rightarrow> let buf = vsnprintf MaxEventNameLength fmt args in (buf, trace_put (BeginAsyncEvent eid ''%s'' [FStr buf]) t))"

definition ScopedAsyncEvent_end :: "32 word \<Rightarrow> string \<Rightarrow> trace \<Rightarrow> trace" where
  "ScopedAsyncEvent_end eid name t = trace_put (EndAsyncEvent eid ''%s'' [FStr name]) t"

text \<open>The macros, with tracing on or off.\<close>

definition MARL_NAME_THREAD :: "bool \<Rightarrow> string \<Rightarrow> farg list \<Rightarrow> trace \<Rightarrow> trace" where
  "MARL_NAME_THREAD enabled fmt args t = (if enabled then trace_put (NameThread fmt args) t else t)"

definition MARL_BEGIN_ASYNC_EVENT :: "bool \<Rightarrow> 32 word \<Rightarrow> string \<Rightarrow> farg list \<Rightarrow> trace \<Rightarrow> trace" where
  "MARL_BEGIN_ASYNC_EVENT enabled eid fmt args t = (if enabled then trace_put (BeginAsyncEvent eid fmt args) t else t)"

definition MARL_END_ASYNC_EVENT :: "bool \<Rightarrow> 32 word \<Rightarrow> string \<Rightarrow> farg list \<Rightarrow> trace \<Rightarrow> trace" where
  "MARL_END_ASYNC_EVENT enabled eid fmt args t = (if enabled then trace_put (EndAsyncEvent eid fmt args) t else t)"

text \<open>Blocks of code with scoped events, which the destructors end in the opposite order.\<close>

datatype block =
    BlockEnd
  | Scoped string "farg list" block block           \<comment> \<open>a block with \<open>MARL_SCOPED_EVENT\<close> and what follows it\<close>
  | AsyncScoped "32 word" string "farg list" block block

fun run_block :: "bool \<Rightarrow> block \<Rightarrow> trace \<Rightarrow> trace" where
  "run_block enabled BlockEnd t = t"
| "run_block enabled (Scoped fmt args b rest) t =
     run_block enabled rest
       (if enabled then ScopedEvent_end (run_block enabled b (ScopedEvent fmt args t)) else run_block enabled b t)"
| "run_block enabled (AsyncScoped eid fmt args b rest) t =
     run_block enabled rest
       (if enabled then (case ScopedAsyncEvent eid fmt args t of (name, t1) \<Rightarrow> ScopedAsyncEvent_end eid name (run_block enabled b t1))
        else run_block enabled b t)"

section \<open>Properties\<close>

lemma type_code_inj: "type_code a = type_code b \<Longrightarrow> a = b"
  by (cases a; cases b) simp_all

lemma trace_put_simps [simp]: "trace_put c None = None" "trace_put c (Some l) = Some (l @ [c])"
  by (simp_all add: trace_put_def)

text \<open>Well-nested calls: \<open>open_events\<close> is the stack of what is open, \<open>None\<close> if a call closes what is not the innermost open event.\<close>

fun open_events :: "trace_call list \<Rightarrow> trace_call list \<Rightarrow> trace_call list option" where
  "open_events st [] = Some st"
| "open_events st (EndEvent # cs) = (case st of BeginEvent f a # st' \<Rightarrow> open_events st' cs | _ \<Rightarrow> None)"
| "open_events st (EndAsyncEvent i f a # cs) = (case st of x # st' \<Rightarrow> if x = BeginAsyncEvent i f a then open_events st' cs else None | _ \<Rightarrow> None)"
| "open_events st (NameThread f a # cs) = open_events st cs"
| "open_events st (c # cs) = open_events (c # st) cs"

lemma open_events_append: "open_events st cs = Some st' \<Longrightarrow> open_events st (cs @ ds) = open_events st' ds"
  by (induction st cs rule: open_events.induct) (auto split: list.splits trace_call.splits if_splits)

text \<open>Without a trace nothing happens; with one, and whatever it has got before, the calls of a block are well nested, and the end of an asynchronous event has
  the identifier and the name of its beginning.\<close>

lemma run_block_silent: "run_block enabled b None = None" "run_block False b t = t"
  by (induction b) (cases enabled; simp add: ScopedEvent_def ScopedEvent_end_def ScopedAsyncEvent_def ScopedAsyncEvent_end_def)+

lemma run_block_nested: "\<exists>cs. run_block enabled b (Some l) = Some (l @ cs) \<and> open_events st cs = Some st"
proof (induction b arbitrary: l st)
  case (Scoped fmt args b rest)
  let ?c = "BeginEvent (vsnprintf MaxEventNameLength fmt args) []"
  show ?case
  proof (cases enabled)
    case True
    obtain cs where cs: "run_block enabled b (Some (l @ [?c])) = Some ((l @ [?c]) @ cs)" "open_events (?c # st) cs = Some (?c # st)"
      using Scoped.IH(1) by blast
    obtain ds where "run_block enabled rest (Some ((l @ [?c]) @ cs @ [EndEvent])) = Some (((l @ [?c]) @ cs @ [EndEvent]) @ ds)" "open_events st ds = Some st"
      using Scoped.IH(2) by blast
    then show ?thesis
      using cs True open_events_append [OF cs(2), of "EndEvent # ds"]
      by (intro exI [of _ "?c # cs @ EndEvent # ds"]) (simp add: ScopedEvent_def ScopedEvent_end_def)
  next
    case False
    then show ?thesis by (intro exI [of _ "[]"]) (simp add: run_block_silent)
  qed
next
  case (AsyncScoped eid fmt args b rest)
  let ?n = "vsnprintf MaxEventNameLength fmt args"
  let ?c = "BeginAsyncEvent eid ''%s'' [FStr ?n]" and ?e = "EndAsyncEvent eid ''%s'' [FStr ?n]"
  show ?case
  proof (cases enabled)
    case True
    obtain cs where cs: "run_block enabled b (Some (l @ [?c])) = Some ((l @ [?c]) @ cs)" "open_events (?c # st) cs = Some (?c # st)"
      using AsyncScoped.IH(1) by blast
    obtain ds where "run_block enabled rest (Some ((l @ [?c]) @ cs @ [?e])) = Some (((l @ [?c]) @ cs @ [?e]) @ ds)" "open_events st ds = Some st"
      using AsyncScoped.IH(2) by blast
    then show ?thesis
      using cs True open_events_append [OF cs(2), of "?e # ds"]
      by (intro exI [of _ "?c # cs @ ?e # ds"]) (simp add: ScopedAsyncEvent_def ScopedAsyncEvent_end_def Let_def)
  next
    case False
    then show ?thesis by (intro exI [of _ "[]"]) (simp add: run_block_silent)
  qed
qed simp

text \<open>
  The name that the trace sees. That of an asynchronous event is the formatted one; that of a scoped event is formatted a second time, which is harmless only if the
  name has no percent sign: the event \<open>100%d\<close> is taken for a format whose argument is missing.
\<close>

fun call_name :: "trace_call \<Rightarrow> string" where
  "call_name (NameThread f as) = vsnprintf MaxEventNameLength f as"
| "call_name (BeginEvent f as) = vsnprintf MaxEventNameLength f as"
| "call_name EndEvent = []"
| "call_name (BeginAsyncEvent i f as) = vsnprintf MaxEventNameLength f as"
| "call_name (EndAsyncEvent i f as) = vsnprintf MaxEventNameLength f as"

lemma vsnprintf_string: "vsnprintf n ''%s'' [FStr s] = take (n - 1) s"
  by (simp add: vsnprintf_def)

lemma async_name: "snd (ScopedAsyncEvent eid fmt args (Some l)) = Some (l @ [c]) \<Longrightarrow> call_name c = vsnprintf MaxEventNameLength fmt args"
  by (auto simp: ScopedAsyncEvent_def vsnprintf_string Let_def) (simp add: vsnprintf_def)

lemma scoped_name:
  assumes "ScopedEvent fmt args (Some l) = Some (l @ [c])" "CHR ''%'' \<notin> set (vsnprintf MaxEventNameLength fmt args)"
  shows "call_name c = vsnprintf MaxEventNameLength fmt args"
proof -
  have "c_format (vsnprintf MaxEventNameLength fmt args) [] = vsnprintf MaxEventNameLength fmt args"
    using format_plain [OF assms(2), of "[]" "[]"] by simp
  then have "vsnprintf MaxEventNameLength (vsnprintf MaxEventNameLength fmt args) [] = vsnprintf MaxEventNameLength fmt args"
    by (simp add: vsnprintf_def)
  with assms(1) show ?thesis by (auto simp: ScopedEvent_def)
qed

lemma scoped_name_percent:
  "ScopedEvent ''%s'' [FStr ''100%d''] (Some []) = Some [BeginEvent ''100%d'' []] \<and> call_name (BeginEvent ''100%d'' []) = ''100''"
  by (simp add: ScopedEvent_def MaxEventNameLength_def vsnprintf_def)

end
