(* ===== verification/Dag_Scheduler.thy ===== *)
theory Dag_Scheduler
  imports System_Runs Dag_Properties
begin

text \<open>
  A task graph on a scheduler: the tasks that \<open>invoke\<close> schedules are tasks of the workers of \<open>Scheduler_System\<close>. A thread of the run of a graph that is such a task
  can begin only when a worker has taken the task from a queue, its own or that of another worker, and executes it;
  \<open>schedule\<close> in \<open>invoke\<close> is a step of the scheduler. The scheduler may have run before, and may be used by others at the same time.
\<close>

section \<open>The composed system\<close>

text \<open>\<open>node n\<close> is the closure of the task that invokes node \<open>n\<close>.\<close>

record 'u graph_run =
  gr_sys :: "'u system"
  gr_run :: dag_run

text \<open>The node whose task a step of the run has scheduled.\<close>

definition spawned :: "dag_run \<Rightarrow> dag_run \<Rightarrow> nat option" where
  "spawned r r' =
     (if length (dr_threads r) < length (dr_threads r')
      then case snd (last (dr_threads r')) of TInvoke n \<Rightarrow> Some n | _ \<Rightarrow> None
      else None)"

definition ran :: "'u system \<Rightarrow> 'u body \<Rightarrow> bool" where
  "ran s b \<longleftrightarrow> (\<exists>k < wcount (sys_sch s). b \<in> set (executed (wk (sys_sch s) k)))"

text \<open>A thread can go on unless it is a task that no worker has taken yet.\<close>

definition can_go :: "(nat \<Rightarrow> 'u) \<Rightarrow> 'u system \<Rightarrow> dag_thread \<Rightarrow> bool" where
  "can_go node s t =
     (case t of TInvoke n \<Rightarrow> User (node n) \<in> set (sys_given s) \<longrightarrow> ran s (User (node n)) | _ \<Rightarrow> True)"

inductive graph_step :: "bool \<Rightarrow> (nat \<Rightarrow> 'u) \<Rightarrow> 'w dag \<Rightarrow> 'u graph_run \<Rightarrow> 'u graph_run result \<Rightarrow> bool" for spurious node d where
  gr_scheduler: "sstep spurious (gr_sys s) r \<Longrightarrow>
    (\<And>s' n. r = Inr s' \<Longrightarrow> count_list (sys_given s') (User (node n)) = count_list (sys_given (gr_sys s)) (User (node n))) \<Longrightarrow>
    graph_step spurious node d s (rbind r (\<lambda>s'. Inr (s\<lparr>gr_sys := s'\<rparr>)))"
| gr_thread: "k < length (dr_threads (gr_run s)) \<Longrightarrow> can_go node (gr_sys s) (snd (dr_threads (gr_run s) ! k)) \<Longrightarrow>
    (\<And>r'. invoke_next d k (gr_run s) = Inr r' \<Longrightarrow> spawned (gr_run s) r' = None) \<Longrightarrow>
    graph_step spurious node d s (rbind (invoke_next d k (gr_run s)) (\<lambda>r'. Inr (s\<lparr>gr_run := r'\<rparr>)))"
| gr_schedule: "k < length (dr_threads (gr_run s)) \<Longrightarrow> invoke_next d k (gr_run s) = Inr r' \<Longrightarrow>
    spawned (gr_run s) r' = Some n \<Longrightarrow> sstep spurious (gr_sys s) r \<Longrightarrow>
    (\<And>s'. r = Inr s' \<Longrightarrow> sys_given s' = sys_given (gr_sys s) @ [User (node n)]) \<Longrightarrow>
    graph_step spurious node d s (rbind r (\<lambda>s'. Inr (s\<lparr>gr_sys := s', gr_run := r'\<rparr>)))"

definition graph_init :: "bool \<Rightarrow> (nat \<Rightarrow> 'u) \<Rightarrow> 'w dag \<Rightarrow> 'u graph_run \<Rightarrow> bool" where
  "graph_init spurious node d s \<longleftrightarrow> system_reach spurious (gr_sys s) \<and> gr_run s = run_start d \<and>
     (\<forall>n. User (node n) \<notin> set (sys_given (gr_sys s)))"

abbreviation graph_reach :: "bool \<Rightarrow> (nat \<Rightarrow> 'u) \<Rightarrow> 'w dag \<Rightarrow> 'u graph_run \<Rightarrow> bool" where
  "graph_reach spurious node d \<equiv> reach (graph_init spurious node d) (graph_step spurious node d)"

section \<open>The two sides\<close>

lemma graph_step_cases:
  assumes "graph_step sp node d s (Inr t)"
  obtains (scheduler) "sstep sp (gr_sys s) (Inr (gr_sys t))" "gr_run t = gr_run s"
      "\<And>n. count_list (sys_given (gr_sys t)) (User (node n)) = count_list (sys_given (gr_sys s)) (User (node n))"
    | (thread) k where "k < length (dr_threads (gr_run s))" "can_go node (gr_sys s) (snd (dr_threads (gr_run s) ! k))"
      "invoke_next d k (gr_run s) = Inr (gr_run t)" "spawned (gr_run s) (gr_run t) = None" "gr_sys t = gr_sys s"
    | (schedule) k n where "k < length (dr_threads (gr_run s))" "invoke_next d k (gr_run s) = Inr (gr_run t)"
      "spawned (gr_run s) (gr_run t) = Some n" "sstep sp (gr_sys s) (Inr (gr_sys t))"
      "sys_given (gr_sys t) = sys_given (gr_sys s) @ [User (node n)]"
  using assms by cases (fastforce simp: rbind_def split: sum.splits)+

interpretation graph_sys: simulation "graph_init sp node d" "graph_step sp node d" "system_reach sp" "sstep sp" gr_sys
  for sp node d
  by unfold_locales (auto simp: graph_init_def elim: graph_step_cases)

interpretation graph_dag: simulation "graph_init sp node d" "graph_step sp node d" "dag_init d" "dag_step d" gr_run
  for sp node d
proof (unfold_locales, goal_cases)
  case (2 s t)
  then show ?case
  proof (cases rule: graph_step_cases)
    case (thread k)
    then show ?thesis using ds_thread [OF thread(1), of d] by simp
  next
    case (schedule k n)
    then show ?thesis using ds_thread [OF schedule(1), of d] by simp
  qed simp
qed (simp add: graph_init_def dag_init_def)

lemma graph_reach_sides:
  assumes "graph_reach sp node d s"
  shows "system_reach sp (gr_sys s)" "dag_reach d (gr_run s)"
  by (rule reach_reach, rule graph_sys.reach_abs, rule assms) (rule graph_dag.reach_abs, rule assms)

section \<open>Steps of the run\<close>

lemma trig_once:
  assumes "dag_inv d r" "k < length (dr_threads r)" "n \<in># th_pending (snd (dr_threads r ! k))"
  shows "n \<notin> set (dr_started r)" "\<And>j. j < length (dr_threads r) \<Longrightarrow> j \<noteq> k \<Longrightarrow> n \<notin># th_pending (snd (dr_threads r ! j))"
proof -
  have "count (trig r) n \<le> 1" using dag_invD(3) [OF assms(1), of n] by simp
  moreover have "0 < count (th_pending (snd (dr_threads r ! k))) n" using assms(3) by (simp only: count_greater_zero_iff)
  ultimately have none: "count (mset (dr_started r)) n = 0" "count (others th_pending k r) n = 0"
    unfolding trig_def tsum_split [OF assms(2)] count_union by linarith+
  then show "n \<notin> set (dr_started r)" by (simp add: count_mset_0_iff)
  fix j assume j: "j < length (dr_threads r)" "j \<noteq> k"
  then have "dr_threads r ! j \<in># mset (remove_nth k (dr_threads r))" using nth_in_remove by simp
  then have "th_pending (snd (dr_threads r ! j)) \<subseteq># others th_pending k r"
    unfolding others_def by (metis (no_types, lifting) image_mset_add_mset insert_DiffM mset_subset_eq_add_left sum_mset.insert)
  then show "n \<notin># th_pending (snd (dr_threads r ! j))" using none(2) by (metis mset_subset_eqD count_eq_zero_iff)
qed

text \<open>A scheduled task that has not been started is a thread of the run.\<close>

definition known :: "dag_run \<Rightarrow> nat \<Rightarrow> bool" where
  "known r n \<longleftrightarrow> n \<in> set (dr_started r) \<or> (True, TInvoke n) \<in> set (dr_threads r)"

lemma known_keeps:
  assumes "k < length (dr_threads r)" "known r n" "snd (dr_threads r ! k) \<noteq> TInvoke n" "set (dr_started r) \<subseteq> set (dr_started r')"
    "set (remove_nth k (dr_threads r)) \<subseteq> set (dr_threads r')"
  shows "known r' n"
proof (cases "n \<in> set (dr_started r)")
  case False
  then obtain j where "j < length (dr_threads r)" "dr_threads r ! j = (True, TInvoke n)"
    using assms(2) by (auto simp: known_def in_set_conv_nth)
  then have "(True, TInvoke n) \<in> set (remove_nth k (dr_threads r))"
    using assms(3) nth_in_remove [of j "dr_threads r" k] by (cases "j = k") auto
  then show ?thesis using assms(5) by (auto simp: known_def)
qed (use assms(4) in \<open>auto simp: known_def\<close>)

lemma known_next:
  assumes "k < length (dr_threads r)" "invoke_next d k r = Inr r'" "known r n"
  shows "known r' n"
proof (cases "snd (dr_threads r ! k) = TInvoke n")
  case True
  then have "n \<in> set (dr_started r')"
    using assms(2) by (auto simp: invoke_next_def invoke_enter_def Let_def split: option.splits)
  then show ?thesis by (simp add: known_def)
next
  case False
  have "set (dr_started r) \<subseteq> set (dr_started r')" "set (remove_nth k (dr_threads r)) \<subseteq> set (dr_threads r')"
    using assms(2)
    by (auto simp: invoke_next_def invoke_enter_def invoke_work_done_def invoke_notify_def invoke_leave_def set_thread_def Let_def
        intro: remove_nth_update split: dag_thread.splits list.splits option.splits if_splits)
  then show ?thesis by (rule known_keeps [OF assms(1,3) False])
qed

lemma started_next:
  assumes "invoke_next d k r = Inr r'" "n \<in> set (dr_started r')" "n \<notin> set (dr_started r)"
  shows "snd (dr_threads r ! k) = TInvoke n"
  using assms
  by (auto simp: invoke_next_def invoke_enter_def invoke_work_done_def invoke_notify_def invoke_leave_def Let_def
      split: dag_thread.splits list.splits option.splits if_splits)

lemma spawned_next:
  assumes "k < length (dr_threads r)" "invoke_next d k r = Inr r'" "spawned r r' = Some n"
  shows "\<exists>m idx rest. snd (dr_threads r ! k) = TNotify m (idx # rest) n \<and> n \<noteq> InvalidIndex" "(True, TInvoke n) \<in> set (dr_threads r')"
proof -
  have len: "length (dr_threads r) < length (dr_threads r')" using assms(3) by (simp add: spawned_def split: if_splits)
  then obtain m idx rest v where th: "snd (dr_threads r ! k) = TNotify m (idx # rest) v" "v \<noteq> InvalidIndex"
      "\<exists>ts. dr_threads r' = ts @ [(True, TInvoke v)]"
    using assms(1,2)
    by (fastforce simp: invoke_next_def invoke_enter_def invoke_work_done_def invoke_notify_def invoke_leave_def Let_def length_remove_nth
        split: dag_thread.splits list.splits option.splits if_splits)
  then have "v = n" using assms(3) len by (auto simp: spawned_def)
  then show "\<exists>m idx rest. snd (dr_threads r ! k) = TNotify m (idx # rest) n \<and> n \<noteq> InvalidIndex" "(True, TInvoke n) \<in> set (dr_threads r')"
    using th by auto
qed

section \<open>Executed tasks\<close>

lemma ran_mono:
  assumes inv: "sys_inv s" and "sstep sp s (Inr s')" "ran s b" and refs: "refs_ok (sys_sch s)"
  shows "ran s' b"
proof -
  note arr = sys_invD(2) [OF inv]
  have same: "ran s' b" if v: "view (at_worker i w) (sys_sch s) (sys_sch s')" "executed w = executed (wk (sys_sch s) i)" for i w
    using assms(3) view_wcount [OF v(1)] view_wk [OF v(1) arr] v(2) unfolding ran_def by (metis at_worker_def)
  have "executed (fst (steal True v)) = executed v" "executed (spinForWork_stolen st t v) = executed v"
    "executed (fst (enqueueAndUnlock t v)) = executed v" for v :: "'a worker" and st t
    by (simp_all add: steal_def spinForWork_stolen_def enqueueAndUnlock_def split: list.split)
  note same_log = this
  consider (own) i w' where "own_move s i w' s'" | (quiet) "quiet_move s s'" | (theft) i v t where "theft s i v t s'"
    | (adds) i t w' where "adds_stolen s i t w' s'" | (gives) j t w' where "gives s j t w' s'"
    | (notifies) i f w' n where "notifies s i f w' n s'"
    using sstep_shape [OF sys_invD(1) [OF inv] assms(2) refs] by auto
  then show ?thesis
  proof cases
    case own
    obtain bs where "executed w' = executed (wk (sys_sch s) i) @ bs" by (rule own_move_log [OF own])
    then have "set (executed (wk (sys_sch s) k)) \<subseteq> set (executed (wk (sys_sch s') k))" if "k < wcount (sys_sch s)" for k
      using own_move_workers [OF own arr that] by auto
    moreover have "wcount (sys_sch s') = wcount (sys_sch s)" using own view_wcount by (auto simp: own_move_def)
    ultimately show ?thesis using assms(3) unfolding ran_def by auto
  next
    case quiet
    then show ?thesis using assms(3) view_wk [OF _ arr] view_wcount unfolding ran_def quiet_move_def by metis
  qed (use same same_log in \<open>auto simp: theft_def adds_stolen_def gives_def notifies_def task_frame_def\<close>)
qed

section \<open>Tasks and threads\<close>

text \<open>A task of the graph is scheduled once; it is a thread of the run until it begins, and begins only when a worker executes it.\<close>

definition graph_tasks :: "(nat \<Rightarrow> 'u) \<Rightarrow> 'u graph_run \<Rightarrow> bool" where
  "graph_tasks node s \<longleftrightarrow> (\<forall>n. count_list (sys_given (gr_sys s)) (User (node n)) \<le> 1 \<and>
     (User (node n) \<in> set (sys_given (gr_sys s)) \<longrightarrow> known (gr_run s) n \<and>
        (n \<in> set (dr_started (gr_run s)) \<longrightarrow> ran (gr_sys s) (User (node n)))))"

lemma graph_tasksD:
  assumes "graph_tasks node s"
  shows "count_list (sys_given (gr_sys s)) (User (node n)) \<le> 1"
    "User (node n) \<in> set (sys_given (gr_sys s)) \<Longrightarrow> known (gr_run s) n"
    "User (node n) \<in> set (sys_given (gr_sys s)) \<Longrightarrow> n \<in> set (dr_started (gr_run s)) \<Longrightarrow> ran (gr_sys s) (User (node n))"
  using assms by (simp_all add: graph_tasks_def)

lemma graph_step_tasks:
  assumes step: "graph_step sp node d s (Inr t)" and inj: "inj node" and ok: "dag_ok d"
    and sys: "system_reach sp (gr_sys s)" and dag: "dag_reach d (gr_run s)" and tasks: "graph_tasks node s"
  shows "graph_tasks node t"
proof -
  note inv = dag_reach_inv [OF ok dag] and mono = ran_mono [OF system_reach_inv(1) [OF sys] _ _ system_reach_inv(2) [OF sys]]
  from step show ?thesis
  proof (cases rule: graph_step_cases)
    case scheduler
    have "User (node n) \<in> set (sys_given (gr_sys t)) \<longleftrightarrow> User (node n) \<in> set (sys_given (gr_sys s))" for n
      using scheduler(3) [of n] by (metis count_list_0_iff)
    then show ?thesis using tasks scheduler mono unfolding graph_tasks_def by metis
  next
    case (thread k)
    show ?thesis
      unfolding graph_tasks_def
    proof (intro allI conjI impI)
      fix n assume g: "User (node n) \<in> set (sys_given (gr_sys t))"
      show "known (gr_run t) n" using known_next [OF thread(1,3)] tasks g thread(5) by (auto simp: graph_tasks_def)
      assume "n \<in> set (dr_started (gr_run t))"
      then show "ran (gr_sys t) (User (node n))"
        using tasks g thread started_next [OF thread(3), of n]
        by (cases "n \<in> set (dr_started (gr_run s))") (auto simp: graph_tasks_def can_go_def)
    qed (use tasks thread(5) in \<open>auto simp: graph_tasks_def\<close>)
  next
    case (schedule k n)
    obtain m idx rest where th: "snd (dr_threads (gr_run s) ! k) = TNotify m (idx # rest) n" "n \<noteq> InvalidIndex"
      using spawned_next(1) [OF schedule(1-3)] by blast
    then have p: "n \<in># th_pending (snd (dr_threads (gr_run s) ! k))" by simp
    have new: "\<not> known (gr_run s) n"
    proof
      assume "known (gr_run s) n"
      then obtain j where j: "j < length (dr_threads (gr_run s))" "dr_threads (gr_run s) ! j = (True, TInvoke n)"
        using trig_once(1) [OF inv schedule(1) p] by (auto simp: known_def in_set_conv_nth)
      then have "j \<noteq> k" "n \<in># th_pending (snd (dr_threads (gr_run s) ! j))" using th(1) by auto
      then show False using trig_once(2) [OF inv schedule(1) p j(1)] by blast
    qed
    then have notgiven: "User (node n) \<notin> set (sys_given (gr_sys s))" using tasks by (auto simp: graph_tasks_def)
    have started: "i \<in> set (dr_started (gr_run s))" if "i \<in> set (dr_started (gr_run t))" for i
      using started_next [OF schedule(2) that] th(1) by auto
    show ?thesis
      unfolding graph_tasks_def
    proof (intro allI conjI impI)
      fix i
      have at: "sys_given (gr_sys t) = sys_given (gr_sys s) @ [User (node n)]" by (rule schedule(5))
      have neq: "i \<noteq> n \<Longrightarrow> User (node i) \<noteq> User (node n)" using injD [OF inj, of i n] by auto
      show "count_list (sys_given (gr_sys t)) (User (node i)) \<le> 1"
        using graph_tasksD(1) [OF tasks, of i] notgiven neq by (cases "i = n") (simp_all add: at count_list_0_iff)
      assume g: "User (node i) \<in> set (sys_given (gr_sys t))"
      then have old: "i \<noteq> n \<Longrightarrow> User (node i) \<in> set (sys_given (gr_sys s))" using neq by (simp add: at)
      then show "known (gr_run t) i"
        using known_next [OF schedule(1,2)] graph_tasksD(2) [OF tasks, of i] spawned_next(2) [OF schedule(1-3)]
        by (cases "i = n") (simp_all add: known_def)
      assume "i \<in> set (dr_started (gr_run t))"
      then have i: "i \<in> set (dr_started (gr_run s))" by (rule started)
      then have "i \<noteq> n" using new by (auto simp: known_def)
      then show "ran (gr_sys t) (User (node i))" using graph_tasksD(3) [OF tasks old i] mono [OF schedule(4)] by blast
    qed
  qed
qed

lemma graph_reach_tasks:
  assumes "graph_reach sp node d s" "inj node" "dag_ok d"
  shows "graph_tasks node s"
  using assms
proof (induction rule: reach.induct)
  case (reach_init s)
  then show ?case by (auto simp: graph_init_def graph_tasks_def count_list_0_iff [THEN iffD2])
next
  case (reach_step s t)
  show ?case
    by (rule graph_step_tasks [OF reach_step.hyps(2) reach_step.prems graph_reach_sides [OF reach_step.hyps(1)]])
      (rule reach_step.IH [OF reach_step.prems])
qed

text \<open>Where the task of a node is: in the queue of a worker or in the hands of a thief.\<close>

definition waits_for_worker :: "'u system \<Rightarrow> 'u body \<Rightarrow> bool" where
  "waits_for_worker s b \<longleftrightarrow> (\<exists>k < wcount (sys_sch s). b \<in> set (bodies (work_tasks (wk (sys_sch s) k))) \<or>
     b \<in># in_flight (sys_carry s k))"

lemma given_count:
  assumes "system_reach sp s"
  shows "count_list (sys_given s) b = (\<Sum>k < wcount (sys_sch s). count_list (executed (wk (sys_sch s) k)) b) +
    (\<Sum>k < wcount (sys_sch s). count_list (bodies (work_tasks (wk (sys_sch s) k))) b + count (in_flight (sys_carry s k)) b)"
proof -
  have "mset (sys_given s) = all_load s + all_flight s" using sys_invD(4) [OF system_reach_inv(1) [OF assms]] by (simp add: tally_ok_def)
  then show ?thesis
    by (simp add: all_load_def all_flight_def load_def count_sum sum.distrib flip: count_mset_list)
qed

lemma waits_count:
  "waits_for_worker s b \<longleftrightarrow> 0 < (\<Sum>k < wcount (sys_sch s).
     count_list (bodies (work_tasks (wk (sys_sch s) k))) b + count (in_flight (sys_carry s k)) b)"
  unfolding sum_pos_iff waits_for_worker_def by (simp add: count_list_0_iff count_eq_zero_iff flip: neq0_conv)

lemma ran_count: "ran s b \<longleftrightarrow> 0 < (\<Sum>k < wcount (sys_sch s). count_list (executed (wk (sys_sch s) k)) b)"
  unfolding sum_pos_iff ran_def by (simp add: count_list_0_iff flip: neq0_conv)

section \<open>Property\<close>

text \<open>C25. A graph runs on the workers of a scheduler as on threads of its own: while other threads use the scheduler and workers steal tasks from each other, no step
  of either side aborts; no worker or two workers together execute a task of the graph twice; a thread of the run that cannot go on is a task in the queue of a
  worker or in the hands of a thief; and when \<open>run\<close> returns every node has been run to its end exactly once and no task of the graph is left in the scheduler.\<close>

theorem graph_on_scheduler:
  assumes "inj node" "dag_ok d" "dag_connected d" "graph_reach sp node d s"
  shows "(\<forall>r. graph_step sp node d s r \<longrightarrow> ok r) \<and>
    (\<forall>n. (\<Sum>k < wcount (sys_sch (gr_sys s)). count_list (executed (wk (sys_sch (gr_sys s)) k)) (User (node n))) \<le> 1) \<and>
    (\<forall>t \<in> set (dr_threads (gr_run s)). can_go node (gr_sys s) (snd t) \<or>
       (\<exists>n. snd t = TInvoke n \<and> waits_for_worker (gr_sys s) (User (node n)))) \<and>
    (if run_returned (gr_run s)
     then mset (dr_finished (gr_run s)) = mset [0..<dag_size d] \<and> (\<forall>n. \<not> waits_for_worker (gr_sys s) (User (node n)))
     else dr_threads (gr_run s) \<noteq> [])"
proof (intro conjI allI impI ballI)
  note sides = graph_reach_sides [OF assms(4)] and tasks = graph_reach_tasks [OF assms(4,1,2)]
  note inv = dag_reach_inv [OF assms(2) sides(2)]
  let ?S = "gr_sys s" and ?R = "gr_run s"
  have count: "(\<Sum>k < wcount (sys_sch ?S). count_list (executed (wk (sys_sch ?S) k)) (User (node n))) \<le> 1"
    "ran ?S (User (node n)) \<Longrightarrow> \<not> waits_for_worker ?S (User (node n))"
    "User (node n) \<in> set (sys_given ?S) \<Longrightarrow> ran ?S (User (node n)) \<or> waits_for_worker ?S (User (node n))"
    "waits_for_worker ?S (User (node n)) \<Longrightarrow> User (node n) \<in> set (sys_given ?S)" for n
    using given_count [OF sides(1), of "User (node n)"] graph_tasksD(1) [OF tasks, of n] count_list_0_iff [of "sys_given ?S" "User (node n)"]
    unfolding waits_count ran_count by linarith+
  show "(\<Sum>k < wcount (sys_sch ?S). count_list (executed (wk (sys_sch ?S) k)) (User (node n))) \<le> 1" for n by (rule count(1))
  show "ok r" if "graph_step sp node d s r" for r
    using that
  proof cases
    case (gr_scheduler r')
    then show ?thesis using system.reach_no_fault [OF sides(1), of r'] by (auto simp: ok_iff)
  next
    case (gr_thread k)
    then show ?thesis using next_inv [OF assms(2) inv gr_thread(2)] by (auto simp: ok_iff)
  next
    case (gr_schedule k r' n r'')
    then show ?thesis using system.reach_no_fault [OF sides(1), of r''] by (auto simp: ok_iff)
  qed
  show "can_go node ?S (snd t) \<or> (\<exists>n. snd t = TInvoke n \<and> waits_for_worker ?S (User (node n)))" for t
    using count(3) by (auto simp: can_go_def split: dag_thread.split)
  show "if run_returned ?R then mset (dr_finished ?R) = mset [0..<dag_size d] \<and> (\<forall>n. \<not> waits_for_worker ?S (User (node n)))
     else dr_threads ?R \<noteq> []"
  proof (cases "run_returned ?R")
    case True
    note c = run_complete [OF assms(2,3) inv True]
    have "\<not> waits_for_worker ?S (User (node n))" for n
    proof
      assume w: "waits_for_worker ?S (User (node n))"
      then have g: "User (node n) \<in> set (sys_given ?S)" by (rule count(4))
      then have "n \<in> set (dr_started ?R)" using graph_tasksD(2) [OF tasks] c(3) by (simp add: known_def)
      then show False using graph_tasksD(3) [OF tasks g] count(2) w by blast
    qed
    then show ?thesis using True c(1) by simp
  next
    case False
    then show ?thesis using no_threads_returned [OF inv] by auto
  qed
qed

section \<open>Example\<close>

text \<open>A bound thread runs the diamond of \<open>Dag_Properties\<close> on a scheduler with two workers: when it has notified the two nodes below the root, one of them is a
  task of worker 0.\<close>

definition diamond_at :: "(bool \<times> dag_thread) list \<Rightarrow> wait_group \<Rightarrow> nat multiset \<Rightarrow> nat list \<Rightarrow> nat list \<Rightarrow> dag_run" where
  "diamond_at ts g ns started finished =
     \<lparr>dr_counters = [2], dr_wg = g, dr_threads = ts, dr_started = started, dr_finished = finished, dr_notified = ns\<rparr>"

definition two_ready :: "nat graph_run" where
  "two_ready = \<lparr>gr_sys = idle_workers [job 1] 0x7FFFFFF 1 [User 1],
     gr_run = diamond_at [(False, TNotify 0 [] 2), (True, TInvoke 1)] (wg_add 1 (wg_new 0)) {#2, 1#} [0] [0]\<rparr>"

lemma two_ready_reach: "graph_reach sp (\<lambda>n. n) diamond two_ready"
proof -
  let ?S = "idle_workers [] 0x8000000 0 []"
  let ?s = "\<lambda>r. \<lparr>gr_sys = ?S, gr_run = r\<rparr>"
  let ?r1 = "diamond_at [(False, TNotify 0 [1, 2] InvalidIndex)] (wg_new 0) {#} [0] [0]"
  let ?r2 = "diamond_at [(False, TNotify 0 [2] 1)] (wg_new 0) {#1#} [0] [0]"
  have 0: "graph_reach sp (\<lambda>n. n) diamond (?s (run_start diamond))"
    by (rule reach_init) (simp add: graph_init_def idle_workers_reach)
  have next1: "invoke_next diamond 0 (run_start diamond) = Inr ?r1" "invoke_next diamond 0 ?r1 = Inr ?r2"
    "invoke_next diamond 0 ?r2 = Inr (gr_run two_ready)"
    by (simp_all add: diamond_eq run_start_def initCounters_def invoke_next_def invoke_enter_def invoke_notify_def dag_notify_def
        set_thread_def diamond_at_def two_ready_def RootIndex_def Let_def)
  have 1: "graph_reach sp (\<lambda>n. n) diamond (?s ?r1)"
    using reach_step [OF 0, of "?s ?r1"] gr_thread [of 0 "?s (run_start diamond)" "\<lambda>n. n" diamond sp] next1(1)
    by (simp add: run_start_def diamond_at_def can_go_def spawned_def)
  have 2: "graph_reach sp (\<lambda>n. n) diamond (?s ?r2)"
    using reach_step [OF 1, of "?s ?r2"] gr_thread [of 0 "?s ?r1" "\<lambda>n. n" diamond sp] next1(2)
    by (simp add: diamond_at_def can_go_def spawned_def)
  have "sstep sp ?S (Inr (idle_workers [job 1] 0x7FFFFFF 1 [User 1]))"
    using duo_schedule0 [where nx = "0x8000000" and ne = 0 and tid = 9 and n = 1 and xs = quiet8 and p = "PRunWait None" and ?k0.0 = True and ar = True and i = 0 and g = "[]" and
        cur = "[9 \<mapsto> WSingle 9, 5 \<mapsto> WThread 0]"] by simp
  then have "graph_step sp (\<lambda>n. n) diamond (?s ?r2) (Inr two_ready)"
    using gr_schedule [of 0 "?s ?r2" diamond "gr_run two_ready" 1 sp "Inr (idle_workers [job 1] 0x7FFFFFF 1 [User 1])" "\<lambda>n. n"] next1(3)
    by (simp add: diamond_at_def spawned_def two_ready_def)
  then show ?thesis by (rule reach_step [OF 2])
qed

theorem graph_on_scheduler_witness:
  "graph_reach False (\<lambda>n. n) diamond two_ready \<and> \<not> can_go (\<lambda>n. n) (gr_sys two_ready) (TInvoke 1) \<and>
   waits_for_worker (gr_sys two_ready) (User 1)"
proof -
  have "executed (wk (sys_sch (gr_sys two_ready)) k) = []" if "k < 2" for k
    using less_2_cases [OF that] by (auto simp: two_ready_def)
  then have "\<not> can_go (\<lambda>n. n) (gr_sys two_ready) (TInvoke 1)"
    by (simp add: can_go_def ran_def) (simp add: two_ready_def two_count)
  moreover have "(True, TInvoke 1) \<in> set (dr_threads (gr_run two_ready))" by (simp add: two_ready_def diamond_at_def)
  ultimately show ?thesis
    using graph_on_scheduler [OF _ diamond_wf two_ready_reach, of False] two_ready_reach by fastforce
qed

end
