(* ===== verification/Event_Chain.thy ===== *)
theory Event_Chain
  imports Event_Model
begin

text \<open>
  Linked events used by many threads at the same time (\<open>event.hpp\<close>). \<open>Shared::signal\<close> holds the mutex of an event while it signals the events that depend on it,
  and \<open>Event::any\<close> holds the mutex of an event while it signals the new one, so a thread may hold many mutexes and wait for another one. Here the calls of
  \<open>signal\<close> and \<open>any\<close> are interleaved at every point where a mutex is taken or released, together with constructors, calls of \<open>clear\<close> and \<open>test\<close>, and waits that end.

  A run starts without events, so that all links are made by \<open>any\<close>. \<open>st_frames\<close> are the calls on the stack of a thread that hold a mutex, the innermost first: a
  call of \<open>signal\<close> with the dependents that are still to be signalled, or the body of the loop of \<open>any\<close> for one event of its range. \<open>st_want\<close> is the event whose
  \<open>signal\<close> has been called and is about to take its mutex; \<open>st_rest\<close> are the iterations of the loop of \<open>any\<close> that are left, each with the new event.
\<close>

section \<open>The system\<close>

datatype sig_frame = Passing nat "nat list" | Linking nat nat

record sig_thread =
  st_want :: "nat option"
  st_frames :: "sig_frame list"
  st_rest :: "(nat \<times> nat) list"

text \<open>Not in the code: \<open>ch_initial\<close>, the states with which the events were made, and \<open>ch_taken\<close>, whether a signal has been taken back.\<close>

record chain =
  ch_events :: "event list"
  ch_lock :: "nat \<Rightarrow> nat option"
  ch_threads :: "sig_thread list"
  ch_initial :: "bool list"
  ch_taken :: bool

definition thread_at :: "nat \<Rightarrow> sig_thread \<Rightarrow> chain \<Rightarrow> chain" where
  "thread_at t th s = s\<lparr>ch_threads := (ch_threads s)[t := th]\<rparr>"

text \<open>The end of the body of the loop of \<open>any\<close>.\<close>

definition add_dep :: "nat \<Rightarrow> nat \<Rightarrow> event list \<Rightarrow> event list" where
  "add_dep p a es = es[p := (es ! p)\<lparr>ev_deps := ev_deps (es ! p) @ [a]\<rparr>]"

text \<open>A thread takes the mutex of event \<open>e\<close> and goes on with \<open>f\<close>; \<open>None\<close> if it has to wait.\<close>

definition with_mutex :: "nat \<Rightarrow> nat \<Rightarrow> chain \<Rightarrow> chain \<Rightarrow> chain result option" where
  "with_mutex t e s s' =
     (if \<not> e < length (ch_events s) then Some (Inl BadAccess)
      else (case ch_lock s e of
              Some u \<Rightarrow> if u = t then Some (Inl (Fatal ''mutex is already held'')) else None
            | None \<Rightarrow> Some (Inr s')))"

text \<open>\<open>Shared::signal\<close> on event \<open>e\<close> up to the loop, and the begin of an iteration of \<open>any\<close>.\<close>

definition signal_begin :: "nat \<Rightarrow> nat \<Rightarrow> chain \<Rightarrow> chain result option" where
  "signal_begin t e s =
     (let th = ch_threads s ! t; es = ch_events s in
      with_mutex t e s
        (if ev_signalled (es ! e) then thread_at t (th\<lparr>st_want := None\<rparr>) s
         else thread_at t (th\<lparr>st_want := None, st_frames := Passing e (ev_deps (es ! e)) # st_frames th\<rparr>)
                (s\<lparr>ch_lock := (ch_lock s)(e \<mapsto> t), ch_events := ev_raise e es\<rparr>)))"

definition any_begin :: "nat \<Rightarrow> nat \<Rightarrow> nat \<Rightarrow> (nat \<times> nat) list \<Rightarrow> chain \<Rightarrow> chain result option" where
  "any_begin t p a ls s =
     with_mutex t p s
       (thread_at t \<lparr>st_want = (if ev_signalled (ch_events s ! p) then Some a else None), st_frames = [Linking p a], st_rest = ls\<rparr>
          (s\<lparr>ch_lock := (ch_lock s)(p \<mapsto> t)\<rparr>))"

text \<open>The next step of thread \<open>t\<close>; \<open>None\<close> if it has to wait for a mutex or has returned.\<close>

definition chain_next :: "nat \<Rightarrow> chain \<Rightarrow> chain result option" where
  "chain_next t s =
     (let th = ch_threads s ! t in
      case st_want th of
        Some e \<Rightarrow> signal_begin t e s
      | None \<Rightarrow>
          (case st_frames th of
             [] \<Rightarrow> (case st_rest th of [] \<Rightarrow> None | (p, a) # ls \<Rightarrow> any_begin t p a ls s)
           | Passing e [] # gs \<Rightarrow> Some (Inr (thread_at t (th\<lparr>st_frames := gs\<rparr>) (s\<lparr>ch_lock := (ch_lock s)(e := None)\<rparr>)))
           | Passing e (d # ds) # gs \<Rightarrow> Some (Inr (thread_at t (th\<lparr>st_want := Some d, st_frames := Passing e ds # gs\<rparr>) s))
           | Linking p a # gs \<Rightarrow>
               Some (Inr (thread_at t (th\<lparr>st_frames := gs\<rparr>) (s\<lparr>ch_lock := (ch_lock s)(p := None), ch_events := add_dep p a (ch_events s)\<rparr>)))))"

lemmas chain_next_defs = chain_next_def signal_begin_def any_begin_def

definition returned :: "sig_thread \<Rightarrow> bool" where
  "returned th \<longleftrightarrow> st_want th = None \<and> st_frames th = [] \<and> st_rest th = []"

text \<open>A new thread with its call: a constructor, \<open>signal\<close>, or \<open>any\<close>, whose new event no other thread knows yet.\<close>

datatype chain_call = EventCall emode bool | SignalCall nat | AnyCall emode "nat list"

definition new_event :: "emode \<Rightarrow> bool \<Rightarrow> chain \<Rightarrow> chain" where
  "new_event m b s = s\<lparr>ch_events := ch_events s @ [event_new m b], ch_initial := ch_initial s @ [b]\<rparr>"

definition new_thread :: "nat option \<Rightarrow> (nat \<times> nat) list \<Rightarrow> chain \<Rightarrow> chain" where
  "new_thread w ls s = s\<lparr>ch_threads := ch_threads s @ [\<lparr>st_want = w, st_frames = [], st_rest = ls\<rparr>]\<rparr>"

fun begin_call :: "chain_call \<Rightarrow> chain \<Rightarrow> chain" where
  "begin_call (EventCall m b) s = new_thread None [] (new_event m b s)"
| "begin_call (SignalCall e) s = new_thread (Some e) [] s"
| "begin_call (AnyCall m ps) s = new_thread None (map (\<lambda>p. (p, length (ch_events s))) ps) (new_event m False s)"

text \<open>A call is made on events that exist.\<close>

fun call_ok :: "chain_call \<Rightarrow> chain \<Rightarrow> bool" where
  "call_ok (EventCall m b) s \<longleftrightarrow> True"
| "call_ok (SignalCall e) s \<longleftrightarrow> e < length (ch_events s)"
| "call_ok (AnyCall m ps) s \<longleftrightarrow> (\<forall>p \<in> set ps. p < length (ch_events s))"

text \<open>What the other operations do under the mutex of event \<open>e\<close>.\<close>

datatype other_call = OpClear | OpTest | OpWaitEnds

definition chain_op :: "other_call \<Rightarrow> nat \<Rightarrow> chain \<Rightarrow> chain" where
  "chain_op x e s =
     (let es = ch_events s;
          es' = (case x of OpClear \<Rightarrow> event_clear e es | OpTest \<Rightarrow> snd (event_test e es) | OpWaitEnds \<Rightarrow> snd (ev_wait_return (ev_ready e es) e es))
      in s\<lparr>ch_events := es', ch_taken := ch_taken s \<or> ev_signalled (es' ! e) \<noteq> ev_signalled (es ! e)\<rparr>)"

inductive chain_step :: "chain \<Rightarrow> chain result \<Rightarrow> bool" where
  chain_thread: "t < length (ch_threads s) \<Longrightarrow> chain_next t s = Some r \<Longrightarrow> chain_step s r"
| chain_call: "call_ok c s \<Longrightarrow> chain_step s (Inr (begin_call c s))"
| chain_other: "e < length (ch_events s) \<Longrightarrow> ch_lock s e = None \<Longrightarrow> chain_step s (Inr (chain_op x e s))"

definition chain_start :: chain where
  "chain_start = \<lparr>ch_events = [], ch_lock = (\<lambda>_. None), ch_threads = [], ch_initial = [], ch_taken = False\<rparr>"

text \<open>A state of a run, with the calls that have been made and the number of steps they have taken.\<close>

inductive chain_run :: "chain_call list \<Rightarrow> nat \<Rightarrow> chain \<Rightarrow> bool" where
  run_start: "chain_run [] 0 chain_start"
| run_call: "chain_run calls k s \<Longrightarrow> call_ok c s \<Longrightarrow> chain_run (calls @ [c]) k (begin_call c s)"
| run_thread: "chain_run calls k s \<Longrightarrow> t < length (ch_threads s) \<Longrightarrow> chain_next t s = Some (Inr s') \<Longrightarrow> chain_run calls (Suc k) s'"
| run_other: "chain_run calls k s \<Longrightarrow> e < length (ch_events s) \<Longrightarrow> ch_lock s e = None \<Longrightarrow> chain_run calls k (chain_op x e s)"

section \<open>Steps\<close>

lemma thread_at_simps [simp]:
  "ch_events (thread_at t th s) = ch_events s" "ch_lock (thread_at t th s) = ch_lock s" "ch_taken (thread_at t th s) = ch_taken s"
  "ch_initial (thread_at t th s) = ch_initial s" "ch_threads (thread_at t th s) = (ch_threads s)[t := th]"
  by (simp_all add: thread_at_def)

lemma new_simps [simp]:
  "ch_events (new_thread w ls s) = ch_events s" "ch_lock (new_thread w ls s) = ch_lock s" "ch_taken (new_thread w ls s) = ch_taken s"
  "ch_initial (new_thread w ls s) = ch_initial s" "ch_threads (new_thread w ls s) = ch_threads s @ [\<lparr>st_want = w, st_frames = [], st_rest = ls\<rparr>]"
  "ch_events (new_event m b s) = ch_events s @ [event_new m b]" "ch_lock (new_event m b s) = ch_lock s" "ch_taken (new_event m b s) = ch_taken s"
  "ch_initial (new_event m b s) = ch_initial s @ [b]" "ch_threads (new_event m b s) = ch_threads s"
  by (simp_all add: new_thread_def new_event_def)

lemma with_mutex_Inr [simp]:
  "with_mutex t e s s' = Some (Inr s2) \<longleftrightarrow> e < length (ch_events s) \<and> ch_lock s e = None \<and> s2 = s'"
  "with_mutex t e s s' = None \<longleftrightarrow> e < length (ch_events s) \<and> (\<exists>u. u \<noteq> t \<and> ch_lock s e = Some u)"
  by (auto simp: with_mutex_def split: option.splits)

text \<open>The kinds of steps of a call.\<close>

lemma chain_next_cases:
  assumes "chain_next t s = Some (Inr s')"
  obtains (already) e where "st_want (ch_threads s ! t) = Some e" "e < length (ch_events s)" "ch_lock s e = None" "ev_signalled (ch_events s ! e)"
      "s' = thread_at t ((ch_threads s ! t)\<lparr>st_want := None\<rparr>) s"
    | (raise) e where "st_want (ch_threads s ! t) = Some e" "e < length (ch_events s)" "ch_lock s e = None" "\<not> ev_signalled (ch_events s ! e)"
      "s' = thread_at t ((ch_threads s ! t)\<lparr>st_want := None, st_frames := Passing e (ev_deps (ch_events s ! e)) # st_frames (ch_threads s ! t)\<rparr>)
         (s\<lparr>ch_lock := (ch_lock s)(e \<mapsto> t), ch_events := ev_raise e (ch_events s)\<rparr>)"
    | (enter) p a ls where "st_want (ch_threads s ! t) = None" "st_frames (ch_threads s ! t) = []" "st_rest (ch_threads s ! t) = (p, a) # ls"
      "p < length (ch_events s)" "ch_lock s p = None"
      "s' = thread_at t \<lparr>st_want = (if ev_signalled (ch_events s ! p) then Some a else None), st_frames = [Linking p a], st_rest = ls\<rparr>
         (s\<lparr>ch_lock := (ch_lock s)(p \<mapsto> t)\<rparr>)"
    | (leave) e gs where "st_want (ch_threads s ! t) = None" "st_frames (ch_threads s ! t) = Passing e [] # gs"
      "s' = thread_at t ((ch_threads s ! t)\<lparr>st_frames := gs\<rparr>) (s\<lparr>ch_lock := (ch_lock s)(e := None)\<rparr>)"
    | (pass_on) e d ds gs where "st_want (ch_threads s ! t) = None" "st_frames (ch_threads s ! t) = Passing e (d # ds) # gs"
      "s' = thread_at t ((ch_threads s ! t)\<lparr>st_want := Some d, st_frames := Passing e ds # gs\<rparr>) s"
    | (link) p a gs where "st_want (ch_threads s ! t) = None" "st_frames (ch_threads s ! t) = Linking p a # gs"
      "s' = thread_at t ((ch_threads s ! t)\<lparr>st_frames := gs\<rparr>) (s\<lparr>ch_lock := (ch_lock s)(p := None), ch_events := add_dep p a (ch_events s)\<rparr>)"
proof (cases "st_want (ch_threads s ! t)")
  case None
  show thesis
  proof (cases "st_frames (ch_threads s ! t)")
    case Nil
    then obtain p a ls where "st_rest (ch_threads s ! t) = (p, a) # ls"
      using assms None by (auto simp: chain_next_defs Let_def split: list.splits prod.splits)
    then show thesis using assms None Nil enter by (simp add: chain_next_defs Let_def)
  next
    case (Cons f gs)
    show thesis
    proof (cases f)
      case (Passing e ds)
      then show thesis using assms None Cons leave pass_on by (cases ds) (simp_all add: chain_next_defs Let_def)
    next
      case (Linking p a)
      then show thesis using assms None Cons link by (simp add: chain_next_defs Let_def)
    qed
  qed
next
  case (Some e)
  then show thesis using assms already [of e] raise [of e] by (simp add: chain_next_defs Let_def split: if_splits)
qed

section \<open>The order of the mutexes\<close>

text \<open>A thread that holds the mutex of an event waits only for those of events that were created later.\<close>

fun fr_event :: "sig_frame \<Rightarrow> nat" where
  "fr_event (Passing e ds) = e"
| "fr_event (Linking p a) = p"

fun fr_ok :: "event list \<Rightarrow> sig_frame \<Rightarrow> bool" where
  "fr_ok es (Passing e ds) \<longleftrightarrow> e < length es \<and> set ds \<subseteq> set (ev_deps (es ! e))"
| "fr_ok es (Linking p a) \<longleftrightarrow> p < a \<and> a < length es"

definition thread_ok :: "event list \<Rightarrow> sig_thread \<Rightarrow> bool" where
  "thread_ok es th \<longleftrightarrow> sorted_wrt (>) (map fr_event (st_frames th)) \<and> (\<forall>f \<in> set (st_frames th). fr_ok es f) \<and>
     (\<forall>d. st_want th = Some d \<longrightarrow> d < length es \<and> (\<forall>f \<in> set (st_frames th). fr_event f < d)) \<and>
     (\<forall>(p, a) \<in> set (st_rest th). p < a \<and> a < length es)"

definition holds :: "sig_thread \<Rightarrow> nat set" where
  "holds th = fr_event ` set (st_frames th)"

definition chain_locks_ok :: "chain \<Rightarrow> bool" where
  "chain_locks_ok s \<longleftrightarrow> (\<forall>e t. ch_lock s e = Some t \<longleftrightarrow> t < length (ch_threads s) \<and> e \<in> holds (ch_threads s ! t))"

definition order_ok :: "chain \<Rightarrow> bool" where
  "order_ok s \<longleftrightarrow> events_wf (ch_events s) \<and> chain_locks_ok s \<and> (\<forall>t < length (ch_threads s). thread_ok (ch_events s) (ch_threads s ! t))"

text \<open>Events are never removed, and links neither.\<close>

definition grows :: "event list \<Rightarrow> event list \<Rightarrow> bool" where
  "grows es es' \<longleftrightarrow> length es \<le> length es' \<and>
     (\<forall>i < length es. set (ev_deps (es ! i)) \<subseteq> set (ev_deps (es' ! i)) \<and> ev_mode (es' ! i) = ev_mode (es ! i))"

lemma grows_refl [simp]: "grows es es"
  by (simp add: grows_def)

lemma thread_ok_grows: "thread_ok es th \<Longrightarrow> grows es es' \<Longrightarrow> thread_ok es' th"
proof -
  assume th: "thread_ok es th" and g: "grows es es'"
  have "fr_ok es' f" if "fr_ok es f" for f using that g by (cases f) (force simp: grows_def)+
  then show ?thesis using th g unfolding thread_ok_def grows_def by fastforce
qed

lemma same_deps_grows: "same_deps es es' \<Longrightarrow> grows es es'"
  by (simp add: same_deps_def grows_def)

lemma same_deps_length: "same_deps es es' \<Longrightarrow> length es' = length es"
  by (simp add: same_deps_def)

lemma same_deps_raise: "same_deps es (ev_raise e es)"
  by (cases "e < length es") (auto simp: same_deps_def ev_raise_def nth_list_update)

lemma same_deps_op: "same_deps (ch_events s) (ch_events (chain_op x e s))"
  by (cases "e < length (ch_events s)"; cases x)
    (auto simp: same_deps_def chain_op_def event_clear_def event_test_def ev_wait_return_def set_signalled_def Let_def nth_list_update)

lemma chain_op_simps [simp]: "ch_threads (chain_op x e s) = ch_threads s" "ch_lock (chain_op x e s) = ch_lock s" "ch_initial (chain_op x e s) = ch_initial s"
  by (simp_all add: chain_op_def Let_def)

lemma add_dep_nth: "add_dep p a es ! j = (if j = p \<and> p < length es then (es ! p)\<lparr>ev_deps := ev_deps (es ! p) @ [a]\<rparr> else es ! j)"
  by (cases "p < length es") (auto simp: add_dep_def not_less list_update_beyond)

lemma add_dep_simps [simp]:
  "length (add_dep p a es) = length es"
  "ev_signalled (add_dep p a es ! j) = ev_signalled (es ! j)" "ev_mode (add_dep p a es ! j) = ev_mode (es ! j)"
  "ev_notified (add_dep p a es ! j) = ev_notified (es ! j)"
  "p < length es \<Longrightarrow> ev_deps (add_dep p a es ! j) = ev_deps (es ! j) @ (if j = p then [a] else [])"
  by (simp add: add_dep_def) (simp_all add: add_dep_nth)

lemma grows_dep: "p < length es \<Longrightarrow> grows es (add_dep p a es)"
  by (simp add: grows_def)

lemma wf_dep: "events_wf es \<Longrightarrow> p < a \<Longrightarrow> a < length es \<Longrightarrow> events_wf (add_dep p a es)"
  by (rule events_wfI) (auto split: if_splits dest: events_wfD)

lemma grows_new: "grows es (es @ [event_new m b])"
  by (simp add: grows_def nth_append)

lemma events_wf_new: "events_wf es \<Longrightarrow> events_wf (es @ [event_new m b])"
  by (rule events_wfI) (auto simp: nth_append event_new_def split: if_splits dest: events_wfD)

lemma order_okD:
  assumes "order_ok s"
  shows "events_wf (ch_events s)"
    "\<And>e t. ch_lock s e = Some t \<longleftrightarrow> t < length (ch_threads s) \<and> e \<in> fr_event ` set (st_frames (ch_threads s ! t))"
    "\<And>t. t < length (ch_threads s) \<Longrightarrow> thread_ok (ch_events s) (ch_threads s ! t)"
  using assms by (auto simp: order_ok_def chain_locks_ok_def holds_def)

lemma thread_okD:
  assumes "thread_ok es th"
  shows "sorted_wrt (>) (map fr_event (st_frames th))"
    "\<And>f. f \<in> set (st_frames th) \<Longrightarrow> fr_ok es f"
    "\<And>d. st_want th = Some d \<Longrightarrow> d < length es"
    "\<And>d f. st_want th = Some d \<Longrightarrow> f \<in> set (st_frames th) \<Longrightarrow> fr_event f < d"
    "\<And>p a. (p, a) \<in> set (st_rest th) \<Longrightarrow> p < a \<and> a < length es"
  using assms by (auto simp: thread_ok_def)

lemma order_thread:
  assumes ok: "order_ok s" and t: "t < length (ch_threads s)" and ths: "ch_threads s' = (ch_threads s)[t := th]"
    and g: "grows (ch_events s) (ch_events s')" and wf: "events_wf (ch_events s')" and th: "thread_ok (ch_events s') th"
    and l: "\<And>e u. ch_lock s' e = Some u \<longleftrightarrow> (if u = t then e \<in> fr_event ` set (st_frames th) else ch_lock s e = Some u)"
  shows "order_ok s'"
proof -
  have "chain_locks_ok s'"
    using ok t l unfolding chain_locks_ok_def order_ok_def by (auto simp: ths holds_def nth_list_update)
  moreover have "thread_ok (ch_events s') (ch_threads s' ! u)" if "u < length (ch_threads s')" for u
    using that th t thread_ok_grows [OF order_okD(3) [OF ok] g] by (cases "u = t") (auto simp: ths)
  ultimately show ?thesis using wf by (simp add: order_ok_def)
qed

lemma order_next:
  assumes ok: "order_ok s" and t: "t < length (ch_threads s)" and n: "chain_next t s = Some (Inr s')"
  shows "order_ok s'"
proof -
  note D = order_okD [OF ok] and T = thread_okD [OF order_okD(3) [OF ok t]]
  let ?es = "ch_events s" and ?th = "ch_threads s ! t"
  have mine: "ch_lock s e = Some t \<longleftrightarrow> e \<in> fr_event ` set (st_frames ?th)" for e using D(2) t by simp
  have lock_one: "((ch_lock s)(e \<mapsto> t)) c = Some u \<longleftrightarrow> (if u = t then c \<in> insert e (fr_event ` set (st_frames ?th)) else ch_lock s c = Some u)"
    if "ch_lock s e = None" for e c u using mine that by auto
  have unlock: "((ch_lock s)(fr_event f := None)) c = Some u \<longleftrightarrow> (if u = t then c \<in> fr_event ` set gs else ch_lock s c = Some u)"
    if "st_frames ?th = f # gs" for f gs c u
  proof -
    have "fr_event f \<notin> fr_event ` set gs" using T(1) that by (auto simp: sorted_wrt_map)
    moreover have "ch_lock s (fr_event f) = Some t" using mine [of "fr_event f"] that by simp
    ultimately show ?thesis using mine [of c] that by (cases "c = fr_event f") auto
  qed
  from n show ?thesis
  proof (cases rule: chain_next_cases)
    case (already e)
    have "thread_ok ?es (?th\<lparr>st_want := None\<rparr>)" using T by (auto simp: thread_ok_def)
    then show ?thesis unfolding already(5)
      by (intro order_thread [OF ok t, where th = "?th\<lparr>st_want := None\<rparr>"]) (use D(1) mine in auto)
  next
    case (raise e)
    have "thread_ok ?es (?th\<lparr>st_want := None, st_frames := Passing e (ev_deps (?es ! e)) # st_frames ?th\<rparr>)"
      using T raise(1,2) by (auto simp: thread_ok_def)
    moreover note same_deps_raise [of ?es e]
    ultimately show ?thesis unfolding raise(5)
      by (intro order_thread [OF ok t]) (use D(1) lock_one [OF raise(3)] same_deps_wf same_deps_grows thread_ok_grows in auto)
  next
    case (enter p a ls)
    have "p < a \<and> a < length ?es" by (rule T(5)) (simp add: enter(3))
    then have "thread_ok ?es \<lparr>st_want = (if ev_signalled (?es ! p) then Some a else None), st_frames = [Linking p a], st_rest = ls\<rparr>"
      using T(5) enter(3) by (auto simp: thread_ok_def)
    then show ?thesis unfolding enter(6) by (intro order_thread [OF ok t]) (use D(1) lock_one [OF enter(5)] enter(2) in auto)
  next
    case (leave e gs)
    have "thread_ok ?es (?th\<lparr>st_frames := gs\<rparr>)" using T leave(1,2) by (auto simp: thread_ok_def)
    then show ?thesis unfolding leave(3) by (intro order_thread [OF ok t]) (use D(1) unlock [OF leave(2)] in auto)
  next
    case (pass_on e d ds gs)
    have "fr_ok ?es (Passing e (d # ds))" by (rule T(2)) (simp add: pass_on(2))
    then have e: "e < length ?es" "d \<in> set (ev_deps (?es ! e))" "set ds \<subseteq> set (ev_deps (?es ! e))" by auto
    have "e < d" "d < length ?es" using events_wfD [OF D(1) e(1,2)] by blast+
    moreover have gs: "\<forall>f \<in> set gs. fr_event f < e" using T(1) pass_on(2) by (simp add: sorted_wrt_map)
    ultimately have "thread_ok ?es (?th\<lparr>st_want := Some d, st_frames := Passing e ds # gs\<rparr>)"
      using T e pass_on(2) unfolding thread_ok_def by (auto intro: less_trans)
    then show ?thesis unfolding pass_on(3) by (intro order_thread [OF ok t]) (use D(1) mine pass_on(2) in auto)
  next
    case (link p a gs)
    have p: "p < a" "a < length ?es" using T(2) [of "Linking p a"] link(2) by simp_all
    have "thread_ok ?es (?th\<lparr>st_frames := gs\<rparr>)" using T link(1,2) by (auto simp: thread_ok_def)
    then show ?thesis unfolding link(3)
      by (intro order_thread [OF ok t]) (use wf_dep [OF D(1) p] unlock [OF link(2)] grows_dep [of p ?es a] p thread_ok_grows in auto)
  qed
qed

lemma order_op: "order_ok s \<Longrightarrow> order_ok (chain_op x e s)"
  using same_deps_op [of s x e] same_deps_wf same_deps_grows thread_ok_grows by (simp add: order_ok_def chain_locks_ok_def) blast

lemma order_new_thread:
  assumes "order_ok s" "thread_ok (ch_events s) \<lparr>st_want = w, st_frames = [], st_rest = ls\<rparr>"
  shows "order_ok (new_thread w ls s)"
proof -
  have "chain_locks_ok (new_thread w ls s)"
    using assms(1) unfolding order_ok_def chain_locks_ok_def by (auto simp: holds_def nth_append less_Suc_eq)
  then show ?thesis using assms by (auto simp: order_ok_def nth_append less_Suc_eq)
qed

lemma order_new_event: "order_ok s \<Longrightarrow> order_ok (new_event m b s)"
  using events_wf_new thread_ok_grows [OF _ grows_new] by (simp add: order_ok_def chain_locks_ok_def)

lemma order_call:
  assumes "order_ok s" "call_ok c s"
  shows "order_ok (begin_call c s)"
proof (cases c)
  case (AnyCall m ps)
  have "thread_ok (ch_events (new_event m False s)) \<lparr>st_want = None, st_frames = [], st_rest = map (\<lambda>p. (p, length (ch_events s))) ps\<rparr>"
    using assms(2) AnyCall by (auto simp: thread_ok_def)
  then show ?thesis using AnyCall order_new_thread [OF order_new_event [OF assms(1)]] by simp
qed (use assms in \<open>auto intro!: order_new_thread order_new_event simp: thread_ok_def\<close>)

lemma order_start: "order_ok chain_start"
  by (simp add: order_ok_def chain_start_def chain_locks_ok_def events_wf_def)

lemma chain_no_fault:
  assumes ok: "order_ok s" and "chain_step s r"
  shows "ok r"
  using assms(2)
proof cases
  case (chain_thread t)
  note D = order_okD [OF ok] and T = thread_okD [OF order_okD(3) [OF ok chain_thread(1)]]
  have take: "ok r'" if "with_mutex t e s s' = Some r'" "e < length (ch_events s)" "e \<notin> fr_event ` set (st_frames (ch_threads s ! t))" for e s' r'
    using that D(2) [of e t] by (auto simp: with_mutex_def split: option.splits if_splits)
  have "e \<notin> fr_event ` set (st_frames (ch_threads s ! t))" if "st_want (ch_threads s ! t) = Some e" for e using T(4) [OF that] by auto
  then show ?thesis
    using chain_thread(2) T(3) T(5) take
    by (fastforce simp: chain_next_defs Let_def split: option.splits list.splits prod.splits sig_frame.splits)
qed simp_all

text \<open>Some call can go on unless all have returned: of the threads that wait, the owner of the mutex of the youngest event cannot wait itself.\<close>

definition waits_for :: "sig_thread \<Rightarrow> nat \<Rightarrow> bool" where
  "waits_for th e \<longleftrightarrow> st_want th = Some e \<or> st_want th = None \<and> st_frames th = [] \<and> (\<exists>a ls. st_rest th = (e, a) # ls)"

lemma stuck_waits:
  assumes "chain_next t s = None" "\<not> returned (ch_threads s ! t)"
  shows "\<exists>e u. waits_for (ch_threads s ! t) e \<and> e < length (ch_events s) \<and> ch_lock s e = Some u"
  using assms by (auto simp: chain_next_defs returned_def waits_for_def Let_def split: option.splits list.splits prod.splits sig_frame.splits)

lemma chain_progress:
  assumes ok: "order_ok s" and t: "t < length (ch_threads s)" "\<not> returned (ch_threads s ! t)"
  shows "\<exists>u < length (ch_threads s). chain_next u s \<noteq> None"
proof (rule ccontr)
  assume "\<not> ?thesis"
  then have stuck: "chain_next u s = None" if "u < length (ch_threads s)" for u using that by blast
  note D = order_okD [OF ok]
  define W where "W = {e. e < length (ch_events s) \<and> (\<exists>v. ch_lock s e = Some v) \<and> (\<exists>u < length (ch_threads s). waits_for (ch_threads s ! u) e)}"
  have inW: "\<exists>e \<in> W. waits_for (ch_threads s ! u) e" if "u < length (ch_threads s)" "\<not> returned (ch_threads s ! u)" for u
    using stuck_waits [OF stuck that(2)] that(1) unfolding W_def by blast
  have fin: "finite W" by (rule finite_subset [of _ "{..<length (ch_events s)}"]) (auto simp: W_def)
  have "W \<noteq> {}" using inW [OF t] by blast
  then have "Max W \<in> W" using fin by (rule Max_in [rotated])
  then obtain v where "ch_lock s (Max W) = Some v" unfolding W_def by blast
  then have v: "v < length (ch_threads s)" "Max W \<in> fr_event ` set (st_frames (ch_threads s ! v))" using D(2) by blast+
  then have fr: "st_frames (ch_threads s ! v) \<noteq> []" by auto
  then obtain e where e: "e \<in> W" "waits_for (ch_threads s ! v) e" using inW [OF v(1)] by (auto simp: returned_def)
  then have "Max W < e" using thread_okD(4) [OF D(3) [OF v(1)]] v(2) fr by (auto simp: waits_for_def)
  then show False using Max_ge [OF fin e(1)] by simp
qed

section \<open>The number of steps\<close>

text \<open>A call of \<open>signal\<close> on an event that has at most \<open>k\<close> younger ones, none of them with more than \<open>L\<close> dependents.\<close>

primrec sig_cost :: "nat \<Rightarrow> nat \<Rightarrow> nat" where
  "sig_cost L 0 = 2"
| "sig_cost L (Suc k) = 2 + L * Suc (sig_cost L k)"

fun call_cost :: "nat \<Rightarrow> nat \<Rightarrow> chain_call \<Rightarrow> nat" where
  "call_cost L n (EventCall m b) = 0"
| "call_cost L n (SignalCall e) = sig_cost L n"
| "call_cost L n (AnyCall m ps) = length ps * (2 + sig_cost L n)"

fun call_links :: "chain_call \<Rightarrow> nat" where
  "call_links (AnyCall m ps) = length ps"
| "call_links _ = 0"

text \<open>A bound for the steps of a list of calls: there are at most as many events as calls, and a link for every event given to \<open>any\<close>.\<close>

definition chain_bound :: "chain_call list \<Rightarrow> nat" where
  "chain_bound calls = (let L = (\<Sum>c \<leftarrow> calls. call_links c) in \<Sum>c \<leftarrow> calls. call_cost L (length calls) c)"

fun fr_weight :: "nat \<Rightarrow> nat \<Rightarrow> sig_frame \<Rightarrow> nat" where
  "fr_weight L n (Passing e ds) = Suc (\<Sum>d \<leftarrow> ds. Suc (sig_cost L (n - d)))"
| "fr_weight L n (Linking p a) = 1"

definition thread_weight :: "nat \<Rightarrow> nat \<Rightarrow> sig_thread \<Rightarrow> nat" where
  "thread_weight L n th = (case st_want th of None \<Rightarrow> 0 | Some e \<Rightarrow> sig_cost L (n - e)) + (\<Sum>f \<leftarrow> st_frames th. fr_weight L n f) +
     (\<Sum>x \<leftarrow> st_rest th. 2 + sig_cost L (n - snd x))"

definition chain_weight :: "nat \<Rightarrow> nat \<Rightarrow> chain \<Rightarrow> nat" where
  "chain_weight L n s = (\<Sum>th \<leftarrow> ch_threads s. thread_weight L n th)"

definition to_link :: "sig_thread \<Rightarrow> nat" where
  "to_link th = length (st_rest th) + (\<Sum>f \<leftarrow> st_frames th. case f of Passing e ds \<Rightarrow> 0 | Linking p a \<Rightarrow> 1)"

definition all_links :: "chain \<Rightarrow> nat" where
  "all_links s = (\<Sum>ev \<leftarrow> ch_events s. length (ev_deps ev)) + (\<Sum>th \<leftarrow> ch_threads s. to_link th)"

lemma sig_cost_ge: "2 \<le> sig_cost L k"
  by (cases k) simp_all

lemma sig_cost_mono: "j \<le> k \<Longrightarrow> sig_cost L j \<le> sig_cost L k"
proof (induction k arbitrary: j)
  case (Suc k)
  show ?case
  proof (cases j)
    case 0
    then show ?thesis using sig_cost_ge [of L "Suc k"] by simp
  next
    case j: (Suc i)
    then show ?thesis using Suc by simp
  qed
qed simp

lemma sum_map_update:
  fixes f :: "'a \<Rightarrow> nat"
  assumes "t < length xs"
  shows "(\<Sum>x \<leftarrow> xs[t := y]. f x) + f (xs ! t) = (\<Sum>x \<leftarrow> xs. f x) + f y"
  using assms
proof (induction xs arbitrary: t)
  case (Cons x xs)
  then show ?case by (cases t) auto
qed simp

lemma cost_of_deps:
  assumes "\<And>d. d \<in> set ds \<Longrightarrow> e < d \<and> d < n" "length ds \<le> L" "e < n"
  shows "Suc (\<Sum>d \<leftarrow> ds. Suc (sig_cost L (n - d))) < sig_cost L (n - e)"
proof -
  obtain k where k: "n - e = Suc k" using assms(3) by (cases "n - e") auto
  have "sig_cost L (n - d) \<le> sig_cost L k" if "d \<in> set ds" for d using assms(1) [OF that] k by (intro sig_cost_mono) linarith
  then have "(\<Sum>d \<leftarrow> ds. Suc (sig_cost L (n - d))) \<le> (\<Sum>d \<leftarrow> ds. Suc (sig_cost L k))" by (intro sum_list_mono) simp
  also have "\<dots> \<le> L * Suc (sig_cost L k)" using mult_le_mono1 [OF assms(2)] by (simp only: sum_list_triv of_nat_id)
  finally show ?thesis by (simp add: k)
qed

lemma weight_at:
  assumes "t < length (ch_threads s)" "ch_threads s' = (ch_threads s)[t := th]" "thread_weight L n th < thread_weight L n (ch_threads s ! t)"
  shows "chain_weight L n s' < chain_weight L n s"
  using sum_map_update [OF assms(1), where y = th and f = "thread_weight L n"] assms(2,3) by (simp add: chain_weight_def)

lemma deps_le_links: "e < length (ch_events s) \<Longrightarrow> length (ev_deps (ch_events s ! e)) \<le> all_links s"
  unfolding all_links_def by (rule trans_le_add1, rule member_le_sum_list) auto

lemma weight_next:
  assumes ok: "order_ok s" and t: "t < length (ch_threads s)" and n: "chain_next t s = Some (Inr s')"
    and L: "all_links s \<le> L" "length (ch_events s) \<le> n"
  shows "chain_weight L n s' < chain_weight L n s"
  using n
proof (cases rule: chain_next_cases)
  case (already e)
  then show ?thesis using sig_cost_ge [of L "n - e"] by (intro weight_at [OF t]) (auto simp: thread_weight_def)
next
  case (raise e)
  have "Suc (\<Sum>d \<leftarrow> ev_deps (ch_events s ! e). Suc (sig_cost L (n - d))) < sig_cost L (n - e)"
    using events_wfD [OF order_okD(1) [OF ok] raise(2)] deps_le_links [OF raise(2)] L raise(2) by (intro cost_of_deps) force+
  then show ?thesis using raise(1,5) by (intro weight_at [OF t]) (auto simp: thread_weight_def)
next
  case (enter p a ls)
  then show ?thesis by (intro weight_at [OF t]) (auto simp: thread_weight_def)
next
  case (leave e gs)
  then show ?thesis by (intro weight_at [OF t]) (auto simp: thread_weight_def)
next
  case (pass_on e d ds gs)
  then show ?thesis by (intro weight_at [OF t]) (auto simp: thread_weight_def)
next
  case (link p a gs)
  then show ?thesis by (intro weight_at [OF t]) (auto simp: thread_weight_def)
qed

lemma links_same: "same_deps es es' \<Longrightarrow> (\<Sum>ev \<leftarrow> es'. length (ev_deps ev)) = (\<Sum>ev \<leftarrow> es. length (ev_deps ev))"
proof -
  assume "same_deps es es'"
  then have "map (\<lambda>ev. length (ev_deps ev)) es' = map (\<lambda>ev. length (ev_deps ev)) es" by (intro nth_equalityI) (auto simp: same_deps_def)
  then show ?thesis by simp
qed

lemma links_at:
  assumes "t < length (ch_threads s)" "ch_threads s' = (ch_threads s)[t := th]"
    "(\<Sum>ev \<leftarrow> ch_events s'. length (ev_deps ev)) + to_link th = (\<Sum>ev \<leftarrow> ch_events s. length (ev_deps ev)) + to_link (ch_threads s ! t)"
  shows "all_links s' = all_links s"
  using sum_map_update [OF assms(1), where y = th and f = to_link] assms(2,3) by (simp add: all_links_def)

lemma links_next:
  assumes ok: "order_ok s" and t: "t < length (ch_threads s)" and n: "chain_next t s = Some (Inr s')"
  shows "all_links s' = all_links s \<and> length (ch_events s') = length (ch_events s)"
  using n
proof (cases rule: chain_next_cases)
  case (already e)
  then show ?thesis by (auto intro!: links_at [OF t] simp: to_link_def)
next
  case (raise e)
  then show ?thesis using same_deps_raise [of "ch_events s" e] by (auto intro!: links_at [OF t] simp: to_link_def links_same dest: same_deps_length)
next
  case (enter p a ls)
  then show ?thesis by (auto intro!: links_at [OF t] simp: to_link_def)
next
  case (leave e gs)
  then show ?thesis by (auto intro!: links_at [OF t] simp: to_link_def)
next
  case (pass_on e d ds gs)
  then show ?thesis by (auto intro!: links_at [OF t] simp: to_link_def)
next
  case (link p a gs)
  have "p < length (ch_events s)" using thread_okD(2) [OF order_okD(3) [OF ok t], of "Linking p a"] link(2) by simp
  then have "(\<Sum>ev \<leftarrow> add_dep p a (ch_events s). length (ev_deps ev)) = Suc (\<Sum>ev \<leftarrow> ch_events s. length (ev_deps ev))"
    using sum_map_update [of p "ch_events s" "\<lambda>ev. length (ev_deps ev)" "(ch_events s ! p)\<lparr>ev_deps := ev_deps (ch_events s ! p) @ [a]\<rparr>"]
    by (simp add: add_dep_def)
  then show ?thesis using link by (auto intro!: links_at [OF t] simp: to_link_def)
qed

lemma links_call: "all_links (begin_call c s) = all_links s + call_links c \<and> length (ch_events (begin_call c s)) \<le> Suc (length (ch_events s))"
  by (cases c) (simp_all add: all_links_def to_link_def event_new_def)

lemma weight_call:
  "chain_weight L n (begin_call c s) \<le> chain_weight L n s + call_cost L n c"
proof (cases c)
  case (AnyCall m ps)
  then show ?thesis using sig_cost_mono [of "n - length (ch_events s)" n L]
    by (simp add: chain_weight_def thread_weight_def comp_def sum_list_triv)
qed (use sig_cost_mono [of _ n L] in \<open>simp_all add: chain_weight_def thread_weight_def\<close>)

section \<open>What has been passed on\<close>

text \<open>As long as no signal has been taken back, an event that is signalled has been passed on to each of its dependents, or a thread is about to do so; the
  thread that links a signalled event has signalled the new event or is about to; and a call of \<open>signal\<close> has not begun or its event is signalled.\<close>

definition passing :: "sig_thread \<Rightarrow> nat \<Rightarrow> nat \<Rightarrow> bool" where
  "passing th j d \<longleftrightarrow> (\<exists>ds. Passing j ds \<in> set (st_frames th) \<and> d \<in> set ds) \<or> st_want th = Some d \<and> (\<exists>ds gs. st_frames th = Passing j ds # gs)"

definition notified_ok :: "event list \<Rightarrow> bool list \<Rightarrow> bool" where
  "notified_ok es bs \<longleftrightarrow> length bs = length es \<and> (\<forall>j < length es. (bs ! j \<longrightarrow> ev_signalled (es ! j)) \<and>
     ev_notified (es ! j) = (if ev_signalled (es ! j) \<and> \<not> bs ! j then [signal_call (ev_mode (es ! j))] else []))"

definition link_told :: "event list \<Rightarrow> sig_thread \<Rightarrow> bool" where
  "link_told es th \<longleftrightarrow> (\<forall>p a. Linking p a \<in> set (st_frames th) \<longrightarrow> sig es p \<longrightarrow> sig es a \<or> st_want th = Some a)"

definition called_ok :: "event list \<Rightarrow> chain_call \<Rightarrow> sig_thread \<Rightarrow> bool" where
  "called_ok es c th \<longleftrightarrow> (\<forall>e. c = SignalCall e \<longrightarrow> sig es e \<or> th = \<lparr>st_want = Some e, st_frames = [], st_rest = []\<rparr>)"

definition spread_ok :: "chain_call list \<Rightarrow> chain \<Rightarrow> bool" where
  "spread_ok calls s \<longleftrightarrow> length (ch_threads s) = length calls \<and> (\<not> ch_taken s \<longrightarrow> notified_ok (ch_events s) (ch_initial s) \<and>
     (\<forall>j d. sig (ch_events s) j \<and> d \<in> set (ev_deps (ch_events s ! j)) \<longrightarrow>
        sig (ch_events s) d \<or> (\<exists>t < length (ch_threads s). passing (ch_threads s ! t) j d)) \<and>
     (\<forall>t < length (ch_threads s). link_told (ch_events s) (ch_threads s ! t) \<and> called_ok (ch_events s) (calls ! t) (ch_threads s ! t)))"

lemma sig_raise: "e < length es \<Longrightarrow> sig (ev_raise e es) j \<longleftrightarrow> j = e \<or> sig es j"
  by (auto simp: sig_def ev_raise_def nth_list_update)

lemma sig_dep [simp]: "sig (add_dep p a es) j \<longleftrightarrow> sig es j"
  by (simp add: sig_def)

lemma spreadI:
  assumes "length (ch_threads s) = length calls" "notified_ok (ch_events s) (ch_initial s)"
    "\<And>j d. sig (ch_events s) j \<Longrightarrow> d \<in> set (ev_deps (ch_events s ! j)) \<Longrightarrow> \<not> sig (ch_events s) d \<Longrightarrow>
        \<exists>t < length (ch_threads s). passing (ch_threads s ! t) j d"
    "\<And>t. t < length (ch_threads s) \<Longrightarrow> link_told (ch_events s) (ch_threads s ! t)"
    "\<And>t. t < length (ch_threads s) \<Longrightarrow> called_ok (ch_events s) (calls ! t) (ch_threads s ! t)"
  shows "spread_ok calls s"
  using assms unfolding spread_ok_def by blast

lemma spreadD:
  assumes "spread_ok calls s" "\<not> ch_taken s"
  shows "length (ch_threads s) = length calls" "notified_ok (ch_events s) (ch_initial s)"
    "\<And>j d. sig (ch_events s) j \<Longrightarrow> d \<in> set (ev_deps (ch_events s ! j)) \<Longrightarrow> \<not> sig (ch_events s) d \<Longrightarrow>
        \<exists>t < length (ch_threads s). passing (ch_threads s ! t) j d"
    "\<And>t. t < length (ch_threads s) \<Longrightarrow> link_told (ch_events s) (ch_threads s ! t)"
    "\<And>t. t < length (ch_threads s) \<Longrightarrow> called_ok (ch_events s) (calls ! t) (ch_threads s ! t)"
  using assms unfolding spread_ok_def by blast+

text \<open>A step of thread \<open>t\<close>: what it was passing on, it still passes on, or the dependent is signalled.\<close>

lemma spread_thread:
  assumes sp: "spread_ok calls s" "\<not> ch_taken s" and t: "t < length (ch_threads s)"
    and ths: "ch_threads s' = (ch_threads s)[t := th]"
    and once: "notified_ok (ch_events s') (ch_initial s')"
    and mono: "\<And>j. sig (ch_events s) j \<Longrightarrow> sig (ch_events s') j"
    and pass: "\<And>j d. passing (ch_threads s ! t) j d \<Longrightarrow> passing th j d \<or> sig (ch_events s') d"
    and new: "\<And>j d. sig (ch_events s') j \<Longrightarrow> d \<in> set (ev_deps (ch_events s' ! j)) \<Longrightarrow> \<not> sig (ch_events s') d \<Longrightarrow>
        sig (ch_events s) j \<and> d \<in> set (ev_deps (ch_events s ! j)) \<or> passing th j d"
    and told: "link_told (ch_events s') th"
    and others: "\<And>u p a. u < length (ch_threads s) \<Longrightarrow> u \<noteq> t \<Longrightarrow> Linking p a \<in> set (st_frames (ch_threads s ! u)) \<Longrightarrow> sig (ch_events s') p \<Longrightarrow> sig (ch_events s) p"
    and called: "\<And>e. ch_threads s ! t = \<lparr>st_want = Some e, st_frames = [], st_rest = []\<rparr> \<Longrightarrow> sig (ch_events s') e"
  shows "spread_ok calls s'"
proof (rule spreadI)
  note D = spreadD [OF sp]
  show "length (ch_threads s') = length calls" using D(1) ths by simp
  show "notified_ok (ch_events s') (ch_initial s')" by (rule once)
  show "link_told (ch_events s') (ch_threads s' ! u)" if u: "u < length (ch_threads s')" for u
  proof (cases "u = t")
    case False
    then have u: "u < length (ch_threads s)" "u \<noteq> t" "ch_threads s' ! u = ch_threads s ! u" using u by (simp_all add: ths)
    show ?thesis unfolding u(3) link_told_def
      using D(4) [OF u(1), unfolded link_told_def] others [OF u(1,2)] mono by blast
  qed (use told t in \<open>simp add: ths\<close>)
  show "called_ok (ch_events s') (calls ! u) (ch_threads s' ! u)" if "u < length (ch_threads s')" for u
    using D(5) [of u] called mono that t by (cases "u = t") (auto simp: called_ok_def ths)
  show "\<exists>u < length (ch_threads s'). passing (ch_threads s' ! u) j d"
    if j: "sig (ch_events s') j" "d \<in> set (ev_deps (ch_events s' ! j))" "\<not> sig (ch_events s') d" for j d
  proof (cases "passing th j d")
    case True
    then show ?thesis using t by (intro exI [of _ t]) (simp add: ths)
  next
    case False
    have "\<not> sig (ch_events s) d" using j(3) mono by blast
    then obtain u where u: "u < length (ch_threads s)" "passing (ch_threads s ! u) j d" using D(3) [of j d] new [OF j] False by blast
    then have "passing (ch_threads s' ! u) j d" using pass [of j d] j(3) t False by (cases "u = t") (auto simp: ths)
    then show ?thesis using u(1) ths by auto
  qed
qed

lemma notified_raise:
  assumes "notified_ok es bs" "e < length es" "\<not> ev_signalled (es ! e)"
  shows "notified_ok (ev_raise e es) bs"
  using assms by (auto simp: notified_ok_def ev_raise_def nth_list_update)

lemma notified_dep: "notified_ok es bs \<Longrightarrow> notified_ok (add_dep p a es) bs"
  by (simp add: notified_ok_def)

lemma spread_next:
  assumes ok: "order_ok s" and sp: "spread_ok calls s" and t: "t < length (ch_threads s)" and n: "chain_next t s = Some (Inr s')"
  shows "spread_ok calls s'"
proof (cases "ch_taken s")
  case True
  have "ch_taken s'" "length (ch_threads s') = length (ch_threads s)" using n True by (cases rule: chain_next_cases; simp)+
  then show ?thesis using sp by (simp add: spread_ok_def)
next
  case taken: False
  note D = order_okD [OF ok] and T = thread_okD [OF order_okD(3) [OF ok t]] and S = spreadD [OF sp taken]
  note told = S(4) [OF t]
  from n show ?thesis
  proof (cases rule: chain_next_cases)
    case (already e)
    then have e: "sig (ch_events s) e" by (simp add: sig_def)
    have "link_told (ch_events s) ((ch_threads s ! t)\<lparr>st_want := None\<rparr>)" using told e already(1) unfolding link_told_def by fastforce
    then show ?thesis unfolding already(5)
      by (intro spread_thread [OF sp taken t]) (use S(2) e already(1) in \<open>auto simp: passing_def\<close>)
  next
    case (raise e)
    note sg = sig_raise [OF raise(2)]
    have deps: "ev_deps (ev_raise e (ch_events s) ! j) = ev_deps (ch_events s ! j)" for j
      by (cases "j = e"; cases "e < length (ch_events s)") (simp_all add: ev_raise_def list_update_beyond)
    have other: "p \<noteq> e" if "u < length (ch_threads s)" "Linking p a \<in> set (st_frames (ch_threads s ! u))" for u p a
      using D(2) [of e u] that raise(3) by force
    have "link_told (ev_raise e (ch_events s))
        ((ch_threads s ! t)\<lparr>st_want := None, st_frames := Passing e (ev_deps (ch_events s ! e)) # st_frames (ch_threads s ! t)\<rparr>)"
      using told other [OF t] raise(1) unfolding link_told_def sg by fastforce
    then show ?thesis unfolding raise(5)
      by (intro spread_thread [OF sp taken t])
        (use notified_raise [OF S(2) raise(2,4)] raise(1) sg deps other t in \<open>auto simp: passing_def\<close>)
  next
    case (enter p a ls)
    then show ?thesis unfolding enter(6)
      by (intro spread_thread [OF sp taken t]) (use S(2) enter(1,2) in \<open>auto simp: passing_def link_told_def sig_def\<close>)
  next
    case (leave e gs)
    then show ?thesis unfolding leave(3)
      by (intro spread_thread [OF sp taken t]) (use S(2) told leave(1,2) in \<open>auto simp: passing_def link_told_def\<close>)
  next
    case (pass_on e d ds gs)
    have "\<not> passing (ch_threads s ! t) j c \<or> passing ((ch_threads s ! t)\<lparr>st_want := Some d, st_frames := Passing e ds # gs\<rparr>) j c" for j c
      using pass_on(1,2) by (auto simp: passing_def)
    then show ?thesis unfolding pass_on(3)
      by (intro spread_thread [OF sp taken t]) (use S(2) told pass_on(1,2) in \<open>auto simp: link_told_def\<close>)
  next
    case (link p a gs)
    have p: "p < length (ch_events s)" using T(2) [of "Linking p a"] link(2) by simp
    have "sig (ch_events s) a" if "sig (ch_events s) p" using told that link(1,2) by (auto simp: link_told_def)
    then show ?thesis unfolding link(3)
      by (intro spread_thread [OF sp taken t])
        (use notified_dep [OF S(2)] told link(1,2) p in \<open>auto simp: passing_def link_told_def split: if_splits\<close>)
  qed
qed

lemma chain_op_same:
  assumes "\<not> ch_taken (chain_op x e s)" "e < length (ch_events s)"
  shows "\<not> ch_taken s" "\<And>j. sig (ch_events (chain_op x e s)) j = sig (ch_events s) j"
    "\<And>j. ev_signalled (ch_events (chain_op x e s) ! j) = ev_signalled (ch_events s ! j)"
    "\<And>j. ev_notified (ch_events (chain_op x e s) ! j) = ev_notified (ch_events s ! j)"
  using assms
  by (cases x; auto simp: chain_op_def Let_def sig_def event_clear_def event_test_def ev_wait_return_def set_signalled_def nth_list_update
      split: if_splits)+

lemma op_deps: "ev_deps (ch_events (chain_op x e s) ! j) = ev_deps (ch_events s ! j)" "ev_mode (ch_events (chain_op x e s) ! j) = ev_mode (ch_events s ! j)"
  by (cases "e < length (ch_events s)"; cases x;
      simp add: chain_op_def Let_def event_clear_def event_test_def ev_wait_return_def set_signalled_def nth_list_update list_update_beyond not_less)+

lemma spread_op:
  assumes "spread_ok calls s" "e < length (ch_events s)"
  shows "spread_ok calls (chain_op x e s)"
proof (cases "ch_taken (chain_op x e s)")
  case True
  then show ?thesis using assms(1) by (simp add: spread_ok_def)
next
  case False
  note same = chain_op_same [OF False assms(2)] and len = same_deps_length [OF same_deps_op [of s x e]]
  note S = spreadD [OF assms(1) same(1)]
  show ?thesis
    by (rule spreadI) (use S in \<open>simp_all add: notified_ok_def link_told_def called_ok_def same len op_deps\<close>)
qed

lemma sig_new: "sig (es @ [event_new m b]) j \<longleftrightarrow> sig es j \<or> j = length es \<and> b"
  by (auto simp: sig_def nth_append event_new_def)

lemma spread_new_event:
  assumes sp: "spread_ok calls s" and ok: "order_ok s"
  shows "spread_ok calls (new_event m b s)"
proof (cases "ch_taken s")
  case True
  then show ?thesis using sp by (simp add: spread_ok_def)
next
  case False
  note S = spreadD [OF sp False] and D = order_okD [OF ok]
  let ?es = "ch_events s"
  show ?thesis
  proof (rule spreadI)
    show "notified_ok (ch_events (new_event m b s)) (ch_initial (new_event m b s))"
      using S(2) by (auto simp: notified_ok_def nth_append less_Suc_eq event_new_def)
    show "link_told (ch_events (new_event m b s)) (ch_threads (new_event m b s) ! t)" if "t < length (ch_threads (new_event m b s))" for t
    proof -
      have t: "t < length (ch_threads s)" using that by simp
      have "p < length ?es" if "Linking p a \<in> set (st_frames (ch_threads s ! t))" for p a using thread_okD(2) [OF D(3) [OF t] that] by simp
      then show ?thesis using S(4) [OF t] by (auto simp: link_told_def sig_new)
    qed
    show "called_ok (ch_events (new_event m b s)) (calls ! t) (ch_threads (new_event m b s) ! t)" if "t < length (ch_threads (new_event m b s))" for t
      using S(5) [of t] that by (auto simp: called_ok_def sig_new)
    show "\<exists>t < length (ch_threads (new_event m b s)). passing (ch_threads (new_event m b s) ! t) j d"
      if "sig (ch_events (new_event m b s)) j" "d \<in> set (ev_deps (ch_events (new_event m b s) ! j))" "\<not> sig (ch_events (new_event m b s)) d" for j d
    proof -
      have "sig ?es j" "d \<in> set (ev_deps (?es ! j))" "\<not> sig ?es d"
        using that by (auto simp: sig_def nth_append event_new_def less_Suc_eq split: if_splits)
      then show ?thesis using S(3) by simp
    qed
  qed (use S(1) in simp)
qed

lemma spread_new_thread:
  assumes sp: "spread_ok calls s" and c: "\<not> ch_taken s \<Longrightarrow> called_ok (ch_events s) c \<lparr>st_want = w, st_frames = [], st_rest = ls\<rparr>"
  shows "spread_ok (calls @ [c]) (new_thread w ls s)"
proof (cases "ch_taken s")
  case True
  then show ?thesis using sp by (simp add: spread_ok_def)
next
  case False
  note S = spreadD [OF sp False]
  show ?thesis
  proof (rule spreadI)
    show "\<exists>t < length (ch_threads (new_thread w ls s)). passing (ch_threads (new_thread w ls s) ! t) j d"
      if j: "sig (ch_events (new_thread w ls s)) j" "d \<in> set (ev_deps (ch_events (new_thread w ls s) ! j))" "\<not> sig (ch_events (new_thread w ls s)) d" for j d
    proof -
      obtain t where "t < length (ch_threads s)" "passing (ch_threads s ! t) j d" using S(3) [of j d] j by auto
      then show ?thesis by (intro exI [of _ t]) (simp add: nth_append)
    qed
  qed (use S c False in \<open>auto simp: nth_append less_Suc_eq link_told_def\<close>)
qed

lemma spread_call:
  assumes "spread_ok calls s" "order_ok s"
  shows "spread_ok (calls @ [c]) (begin_call c s)"
proof (cases c)
  case (SignalCall e)
  then show ?thesis using spread_new_thread [OF assms(1)] by (simp add: called_ok_def)
qed (use spread_new_thread [OF spread_new_event [OF assms]] in \<open>simp_all add: called_ok_def\<close>)

section \<open>Links and causes\<close>

text \<open>Every event in the range of a call of \<open>any\<close> is linked to the new event, or the call will do so.\<close>

definition todo :: "sig_thread \<Rightarrow> (nat \<times> nat) set" where
  "todo th = set (st_rest th) \<union> {(p, a). Linking p a \<in> set (st_frames th)}"

definition any_ok :: "event list \<Rightarrow> chain_call \<Rightarrow> sig_thread \<Rightarrow> bool" where
  "any_ok es c th \<longleftrightarrow> (\<forall>m ps. c = AnyCall m ps \<longrightarrow>
     (\<exists>a < length es. ev_mode (es ! a) = m \<and> (\<forall>p \<in> set ps. p < length es \<and> (a \<in> set (ev_deps (es ! p)) \<or> (p, a) \<in> todo th))))"

text \<open>An event is signalled only if it was made so, or \<open>signal\<close> was called on it or on one from which the links lead to it.\<close>

definition all_deps :: "chain \<Rightarrow> (nat \<times> nat) set" where
  "all_deps s = dep_rel (ch_events s) \<union> {(p, a). \<exists>th \<in> set (ch_threads s). Linking p a \<in> set (st_frames th)}"

definition root :: "chain_call list \<Rightarrow> bool list \<Rightarrow> nat \<Rightarrow> bool" where
  "root calls bs i \<longleftrightarrow> i < length bs \<and> bs ! i \<or> SignalCall i \<in> set calls"

definition caused :: "chain_call list \<Rightarrow> chain \<Rightarrow> nat \<Rightarrow> bool" where
  "caused calls s j \<longleftrightarrow> (\<exists>i. root calls (ch_initial s) i \<and> (i, j) \<in> (all_deps s)\<^sup>*)"

definition cause_ok :: "chain_call list \<Rightarrow> chain \<Rightarrow> bool" where
  "cause_ok calls s \<longleftrightarrow> (\<forall>j. sig (ch_events s) j \<longrightarrow> caused calls s j) \<and>
     (\<forall>th \<in> set (ch_threads s). (\<forall>d. st_want th = Some d \<longrightarrow> caused calls s d) \<and> (\<forall>e ds. Passing e ds \<in> set (st_frames th) \<longrightarrow> caused calls s e))"

definition cause_state :: "chain_call list \<Rightarrow> chain \<Rightarrow> bool" where
  "cause_state calls s \<longleftrightarrow> length (ch_threads s) = length calls \<and> (\<forall>t < length calls. any_ok (ch_events s) (calls ! t) (ch_threads s ! t)) \<and> cause_ok calls s"

lemma any_grows:
  assumes "any_ok es c th" "grows es es'" "\<And>p a. (p, a) \<in> todo th \<Longrightarrow> (p, a) \<in> todo th' \<or> a \<in> set (ev_deps (es' ! p))"
  shows "any_ok es' c th'"
  unfolding any_ok_def
proof (intro allI impI)
  fix m ps assume "c = AnyCall m ps"
  then obtain a where a: "a < length es" "ev_mode (es ! a) = m" "\<forall>p \<in> set ps. p < length es \<and> (a \<in> set (ev_deps (es ! p)) \<or> (p, a) \<in> todo th)"
    using assms(1) by (auto simp: any_ok_def)
  have "p < length es' \<and> (a \<in> set (ev_deps (es' ! p)) \<or> (p, a) \<in> todo th')" if "p \<in> set ps" for p
  proof -
    have p: "p < length es" "a \<in> set (ev_deps (es ! p)) \<or> (p, a) \<in> todo th" using a(3) that by blast+
    then show ?thesis using assms(2) assms(3) [of p a] by (auto simp: grows_def)
  qed
  then show "\<exists>a < length es'. ev_mode (es' ! a) = m \<and> (\<forall>p \<in> set ps. p < length es' \<and> (a \<in> set (ev_deps (es' ! p)) \<or> (p, a) \<in> todo th'))"
    using a(1,2) assms(2) by (intro exI [of _ a]) (auto simp: grows_def)
qed

lemma caused_mono:
  assumes "caused calls s j" "all_deps s \<subseteq> all_deps s'" "\<And>i. root calls (ch_initial s) i \<Longrightarrow> root calls' (ch_initial s') i"
  shows "caused calls' s' j"
  using assms rtrancl_mono [OF assms(2)] unfolding caused_def by blast

lemma caused_next: "caused calls s p \<Longrightarrow> (p, a) \<in> all_deps s \<Longrightarrow> caused calls s a"
  unfolding caused_def by (meson rtrancl.rtrancl_into_rtrancl)

lemma dep_rel_grows: "grows es es' \<Longrightarrow> dep_rel es \<subseteq> dep_rel es'"
  by (auto simp: grows_def dep_rel_def)

lemma cause_thread:
  assumes ca: "cause_state calls s" and t: "t < length (ch_threads s)" and ths: "ch_threads s' = (ch_threads s)[t := th]"
    and g: "grows (ch_events s) (ch_events s')" and ini: "ch_initial s' = ch_initial s"
    and todo: "\<And>p a. (p, a) \<in> todo (ch_threads s ! t) \<Longrightarrow> (p, a) \<in> todo th \<or> a \<in> set (ev_deps (ch_events s' ! p))"
    and lnk: "\<And>p a. Linking p a \<in> set (st_frames (ch_threads s ! t)) \<Longrightarrow> Linking p a \<in> set (st_frames th) \<or> (p, a) \<in> dep_rel (ch_events s')"
    and sg: "\<And>j. sig (ch_events s') j \<Longrightarrow> sig (ch_events s) j \<or> st_want (ch_threads s ! t) = Some j"
    and want: "\<And>d. st_want th = Some d \<Longrightarrow> st_want (ch_threads s ! t) = Some d \<or>
        (\<exists>p. (p, d) \<in> all_deps s' \<and> (sig (ch_events s) p \<or> (\<exists>ds. Passing p ds \<in> set (st_frames (ch_threads s ! t)))))"
    and fr: "\<And>e ds. Passing e ds \<in> set (st_frames th) \<Longrightarrow> (\<exists>ds'. Passing e ds' \<in> set (st_frames (ch_threads s ! t))) \<or> st_want (ch_threads s ! t) = Some e"
  shows "cause_state calls s'"
proof -
  have len: "length (ch_threads s) = length calls" and any: "\<And>u. u < length calls \<Longrightarrow> any_ok (ch_events s) (calls ! u) (ch_threads s ! u)"
    and C: "\<And>j. sig (ch_events s) j \<Longrightarrow> caused calls s j" "\<And>u d. u \<in> set (ch_threads s) \<Longrightarrow> st_want u = Some d \<Longrightarrow> caused calls s d"
      "\<And>u e ds. u \<in> set (ch_threads s) \<Longrightarrow> Passing e ds \<in> set (st_frames u) \<Longrightarrow> caused calls s e"
    using ca unfolding cause_state_def cause_ok_def by blast+
  have mine: "ch_threads s ! t \<in> set (ch_threads s)" using t by simp
  have "(p, a) \<in> all_deps s'" if pa: "(p, a) \<in> all_deps s" for p a
  proof (cases "(p, a) \<in> dep_rel (ch_events s)")
    case False
    then obtain x where x: "x \<in> set (ch_threads s)" "Linking p a \<in> set (st_frames x)" using pa by (auto simp: all_deps_def)
    obtain u where u: "u < length (ch_threads s)" "Linking p a \<in> set (st_frames (ch_threads s ! u))"
      using x by (metis in_set_conv_nth)
    then have "Linking p a \<in> set (st_frames (ch_threads s' ! u)) \<or> (p, a) \<in> dep_rel (ch_events s')"
      using lnk [of p a] t by (cases "u = t") (auto simp: ths)
    moreover have "ch_threads s' ! u \<in> set (ch_threads s')" using u(1) by (simp add: ths)
    ultimately show ?thesis unfolding all_deps_def by blast
  qed (use dep_rel_grows [OF g] in \<open>auto simp: all_deps_def\<close>)
  then have sub: "all_deps s \<subseteq> all_deps s'" by auto
  have up: "caused calls s' j" if "caused calls s j" for j using caused_mono [OF that sub] ini by simp
  have "caused calls s' d" if "st_want th = Some d" for d
    using want [OF that] C(1) C(2,3) [OF mine] up caused_next by blast
  moreover have "caused calls s' e" if "Passing e ds \<in> set (st_frames th)" for e ds using fr [OF that] C(2,3) [OF mine] up by blast
  moreover have "x = th \<or> x \<in> set (ch_threads s)" if "x \<in> set (ch_threads s')" for x
    using that set_update_subset_insert [of "ch_threads s" t th] by (auto simp: ths)
  moreover have "caused calls s' j" if "sig (ch_events s') j" for j using sg [OF that] C(1) C(2) [OF mine] up by blast
  ultimately have "cause_ok calls s'" unfolding cause_ok_def using C(2,3) up by metis
  moreover have "any_ok (ch_events s') (calls ! u) (ch_threads s' ! u)" if "u < length calls" for u
    using any_grows [OF any [OF that] g, of "ch_threads s' ! u"] todo t len that by (cases "u = t") (auto simp: ths)
  ultimately show ?thesis using len by (simp add: cause_state_def ths)
qed

lemma cause_next:
  assumes ok: "order_ok s" and ca: "cause_state calls s" and t: "t < length (ch_threads s)" and n: "chain_next t s = Some (Inr s')"
  shows "cause_state calls s'"
proof -
  note T = thread_okD [OF order_okD(3) [OF ok t]]
  from n show ?thesis
  proof (cases rule: chain_next_cases)
    case (already e)
    show ?thesis unfolding already(5) by (intro cause_thread [OF ca t]) (auto simp: todo_def)
  next
    case (raise e)
    show ?thesis unfolding raise(5)
      by (intro cause_thread [OF ca t]) (use raise(1) same_deps_grows [OF same_deps_raise] sig_raise [OF raise(2)] in \<open>auto simp: todo_def\<close>)
  next
    case (enter p a ls)
    have "(p, a) \<in> all_deps s'" using t enter(6) set_update_memI [OF t] by (force simp: all_deps_def)
    then show ?thesis unfolding enter(6)
      by (intro cause_thread [OF ca t]) (use enter(2,3,4) in \<open>auto simp: todo_def sig_def split: if_splits\<close>)
  next
    case (leave e gs)
    show ?thesis unfolding leave(3) by (intro cause_thread [OF ca t]) (use leave(2) in \<open>auto simp: todo_def\<close>)
  next
    case (pass_on e d ds gs)
    have "fr_ok (ch_events s) (Passing e (d # ds))" by (rule T(2)) (simp add: pass_on(2))
    then have "(e, d) \<in> dep_rel (ch_events s)" by (simp add: dep_rel_def)
    then show ?thesis unfolding pass_on(3) by (intro cause_thread [OF ca t]) (use pass_on(2) in \<open>auto simp: todo_def all_deps_def\<close>)
  next
    case (link p a gs)
    have p: "p < length (ch_events s)" using T(2) [of "Linking p a"] link(2) by simp
    then show ?thesis unfolding link(3)
      by (intro cause_thread [OF ca t]) (use link(1,2) grows_dep [OF p] in \<open>auto simp: todo_def dep_rel_def\<close>)
  qed
qed

lemma cause_op:
  assumes "cause_state calls s" "e < length (ch_events s)"
  shows "cause_state calls (chain_op x e s)"
proof -
  let ?s = "chain_op x e s"
  note d = same_deps_op [of s x e]
  have deps: "all_deps ?s = all_deps s" using same_deps_rel [OF d] by (simp add: all_deps_def)
  have "sig (ch_events s) j" if "sig (ch_events ?s) j" for j
    using that assms(2) by (cases x; cases "j = e")
      (auto simp: chain_op_def Let_def sig_def event_clear_def event_test_def ev_wait_return_def set_signalled_def split: if_splits)
  moreover have "caused calls ?s j \<longleftrightarrow> caused calls s j" for j using deps by (simp add: caused_def)
  ultimately have "cause_ok calls ?s" using assms(1) by (simp add: cause_state_def cause_ok_def)
  moreover have "any_ok (ch_events ?s) c th" if "any_ok (ch_events s) c th" for c th
    using any_grows [OF that same_deps_grows [OF d]] by blast
  ultimately show ?thesis using assms(1) by (simp add: cause_state_def)
qed

lemma cause_new_event: "cause_state calls s \<Longrightarrow> length (ch_initial s) = length (ch_events s) \<Longrightarrow> cause_state calls (new_event m b s)"
proof -
  assume ca: "cause_state calls s" and len: "length (ch_initial s) = length (ch_events s)"
  let ?s = "new_event m b s"
  have sub: "all_deps s \<subseteq> all_deps ?s" using dep_rel_grows [OF grows_new [of "ch_events s" m b]] by (auto simp: all_deps_def)
  have "caused calls ?s j" if "caused calls s j" for j by (rule caused_mono [OF that sub]) (auto simp: root_def nth_append)
  moreover have "caused calls ?s (length (ch_events s))" if b unfolding caused_def
    by (rule exI [of _ "length (ch_events s)"]) (simp add: root_def nth_append len that)
  ultimately have "cause_ok calls ?s" using ca by (auto simp: cause_state_def cause_ok_def sig_new)
  moreover have "any_ok (ch_events ?s) c th" if "any_ok (ch_events s) c th" for c th using any_grows [OF that grows_new] by simp
  ultimately show ?thesis using ca by (simp add: cause_state_def)
qed

lemma cause_new_thread:
  assumes ca: "cause_state calls s" and c: "any_ok (ch_events s) c \<lparr>st_want = w, st_frames = [], st_rest = ls\<rparr>"
    and w: "\<And>e. w = Some e \<Longrightarrow> c = SignalCall e"
  shows "cause_state (calls @ [c]) (new_thread w ls s)"
proof -
  let ?s = "new_thread w ls s"
  have deps: "all_deps ?s = all_deps s" by (auto simp: all_deps_def)
  have "caused (calls @ [c]) ?s j" if "caused calls s j" for j by (rule caused_mono [OF that]) (auto simp: root_def deps)
  moreover have "caused (calls @ [c]) ?s e" if "w = Some e" for e using w [OF that] by (auto simp: caused_def root_def)
  ultimately have "cause_ok (calls @ [c]) ?s" using ca by (auto simp: cause_state_def cause_ok_def)
  then show ?thesis using ca c by (auto simp: cause_state_def nth_append less_Suc_eq)
qed

lemma cause_call:
  assumes "cause_state calls s" "length (ch_initial s) = length (ch_events s)" "call_ok c s"
  shows "cause_state (calls @ [c]) (begin_call c s)"
proof (cases c)
  case (SignalCall e)
  then show ?thesis using cause_new_thread [OF assms(1), where c = c and w = "Some e" and ls = "[]"] by (simp add: any_ok_def)
next
  case (EventCall m b)
  then show ?thesis using cause_new_thread [OF cause_new_event [OF assms(1,2)], where c = c and w = None and ls = "[]"] by (simp add: any_ok_def)
next
  case (AnyCall m ps)
  have "any_ok (ch_events (new_event m False s)) c \<lparr>st_want = None, st_frames = [], st_rest = map (\<lambda>p. (p, length (ch_events s))) ps\<rparr>"
    unfolding any_ok_def using assms(3) AnyCall
    by (auto simp: todo_def event_new_def nth_append less_Suc_eq intro!: exI [of _ "length (ch_events s)"])
  then have "cause_state (calls @ [c]) (new_thread None (map (\<lambda>p. (p, length (ch_events s))) ps) (new_event m False s))"
    by (rule cause_new_thread [OF cause_new_event [OF assms(1,2)]]) simp
  then show ?thesis using AnyCall by simp
qed

section \<open>Property\<close>

definition chain_inv :: "chain_call list \<Rightarrow> nat \<Rightarrow> chain \<Rightarrow> bool" where
  "chain_inv calls k s \<longleftrightarrow> order_ok s \<and> spread_ok calls s \<and> cause_state calls s \<and> length (ch_initial s) = length (ch_events s) \<and>
     all_links s = (\<Sum>c \<leftarrow> calls. call_links c) \<and> length (ch_events s) \<le> length calls \<and>
     (\<forall>L n. (\<Sum>c \<leftarrow> calls. call_links c) \<le> L \<longrightarrow> length calls \<le> n \<longrightarrow> k + chain_weight L n s \<le> (\<Sum>c \<leftarrow> calls. call_cost L n c))"

lemma initial_next:
  assumes "chain_next t s = Some (Inr s')"
  shows "ch_initial s' = ch_initial s"
  using assms by (cases rule: chain_next_cases) simp_all

lemma chain_run_inv: "chain_run calls k s \<Longrightarrow> chain_inv calls k s"
proof (induction rule: chain_run.induct)
  case run_start
  show ?case unfolding chain_inv_def
    using order_start
    by (simp add: chain_start_def spread_ok_def notified_ok_def sig_def cause_state_def cause_ok_def all_links_def chain_weight_def)
next
  case (run_call calls k s c)
  note I = run_call.IH [unfolded chain_inv_def]
  have "length (ch_initial (begin_call c s)) = length (ch_events (begin_call c s))" using I by (cases c) simp_all
  moreover have "k + chain_weight L n (begin_call c s) \<le> (\<Sum>c \<leftarrow> calls @ [c]. call_cost L n c)"
    if "(\<Sum>c \<leftarrow> calls @ [c]. call_links c) \<le> L" "length (calls @ [c]) \<le> n" for L n
  proof -
    have "k + chain_weight L n s \<le> (\<Sum>c \<leftarrow> calls. call_cost L n c)" using I that by simp
    then show ?thesis using weight_call [of L n c s] by simp
  qed
  ultimately show ?case unfolding chain_inv_def
    using I order_call [OF _ run_call.hyps(2)] spread_call cause_call [OF _ _ run_call.hyps(2)] links_call [of c s] by simp
next
  case (run_thread calls k s t s')
  note I = run_thread.IH [unfolded chain_inv_def] and n = run_thread.hyps(2,3)
  have ok: "order_ok s" using I by blast
  have "Suc k + chain_weight L m s' \<le> (\<Sum>c \<leftarrow> calls. call_cost L m c)" if L: "(\<Sum>c \<leftarrow> calls. call_links c) \<le> L" "length calls \<le> m" for L m
  proof -
    have "chain_weight L m s' < chain_weight L m s" using I L by (intro weight_next [OF ok n]) simp_all
    moreover have "k + chain_weight L m s \<le> (\<Sum>c \<leftarrow> calls. call_cost L m c)" using I L by blast
    ultimately show ?thesis by simp
  qed
  then show ?case unfolding chain_inv_def
    using I order_next [OF ok n] spread_next [OF ok _ n] cause_next [OF ok _ n] links_next [OF ok n] initial_next [OF n(2)] by simp
next
  case (run_other calls k s e x)
  note I = run_other.IH [unfolded chain_inv_def]
  show ?case unfolding chain_inv_def
    using I order_op spread_op [OF _ run_other.hyps(2)] cause_op [OF _ run_other.hyps(2)] links_same [OF same_deps_op [of s x e]]
      same_deps_length [OF same_deps_op [of s x e]] by (simp add: all_links_def chain_weight_def)
qed

lemma returned_all:
  assumes "\<forall>th \<in> set (ch_threads s). returned th"
  shows "all_deps s = dep_rel (ch_events s)" "\<And>t. t < length (ch_threads s) \<Longrightarrow> todo (ch_threads s ! t) = {}"
    "\<And>t j d. t < length (ch_threads s) \<Longrightarrow> \<not> passing (ch_threads s ! t) j d"
  using assms by (auto simp: all_deps_def returned_def todo_def passing_def)

lemma chain_progress_returned:
  assumes "order_ok s" "th \<in> set (ch_threads s)" "\<not> returned th"
  shows "\<exists>t s'. t < length (ch_threads s) \<and> chain_next t s = Some (Inr s')"
proof -
  obtain t where "t < length (ch_threads s)" "\<not> returned (ch_threads s ! t)" using assms(2,3) by (auto simp: in_set_conv_nth)
  then obtain u r where u: "u < length (ch_threads s)" "chain_next u s = Some r" using chain_progress [OF assms(1)] by blast
  then obtain s' where "r = Inr s'" using chain_no_fault [OF assms(1) chain_thread [OF u]] ok_iff by metis
  then show ?thesis using u by blast
qed

lemma signalled_exactly:
  assumes inv: "chain_inv calls k s" and ret: "\<forall>th \<in> set (ch_threads s). returned th" and nt: "\<not> ch_taken s"
  shows "sig (ch_events s) j \<longleftrightarrow> (\<exists>i. root calls (ch_initial s) i \<and> (i, j) \<in> (dep_rel (ch_events s))\<^sup>*)"
proof
  have "cause_ok calls s" using inv by (simp add: chain_inv_def cause_state_def)
  then show "\<exists>i. root calls (ch_initial s) i \<and> (i, j) \<in> (dep_rel (ch_events s))\<^sup>*" if "sig (ch_events s) j"
    using that returned_all(1) [OF ret] by (auto simp: cause_ok_def caused_def)
  have S: "spread_ok calls s" using inv by (simp add: chain_inv_def)
  note S = spreadD [OF S nt] and R = returned_all [OF ret]
  have start: "sig (ch_events s) i" if "root calls (ch_initial s) i" for i
    using that unfolding root_def
  proof
    assume "i < length (ch_initial s) \<and> ch_initial s ! i"
    then show ?thesis using S(2) by (simp add: notified_ok_def sig_def)
  next
    assume "SignalCall i \<in> set calls"
    then obtain t where t: "t < length calls" "calls ! t = SignalCall i" by (auto simp: in_set_conv_nth)
    then have "returned (ch_threads s ! t)" using S(1) ret by simp
    then show ?thesis using t S(1) S(5) [of t] by (auto simp: called_ok_def returned_def)
  qed
  assume "\<exists>i. root calls (ch_initial s) i \<and> (i, j) \<in> (dep_rel (ch_events s))\<^sup>*"
  then obtain i where i: "root calls (ch_initial s) i" "(i, j) \<in> (dep_rel (ch_events s))\<^sup>*" by blast
  from i(2) show "sig (ch_events s) j"
  proof (induction rule: rtrancl_induct)
    case (step x y)
    then show ?case using S(3) [of x y] R(3) by (auto simp: dep_rel_def)
  qed (rule start [OF i(1)])
qed

text \<open>C40. Any number of threads may make events, link them by \<open>any\<close> and call \<open>signal\<close> on them at the same time, although these calls keep the mutexes of all
  events on their way while they wait for another one. With every interleaving, and with \<open>clear\<close>, \<open>test\<close> and waits that end in between, no call
  faults or takes a mutex twice, the threads do not deadlock (unless all calls have returned one of them can make its next step), and the
  calls make a bounded number of steps. When they have returned, each call of \<open>any\<close> has linked its new event to all events of its range. If no signal was taken
  back, then exactly those events are signalled that were made so, on which \<open>signal\<close> was called, or to which links lead from one of these, and each event that became
  signalled has called its condition variable exactly once, \<open>notify_one\<close> in automatic and \<open>notify_all\<close> in manual mode.\<close>

theorem event_chain_concurrent:
  assumes "chain_run calls k s"
  shows "(\<forall>r. chain_step s r \<longrightarrow> ok r) \<and>
    ((\<forall>th \<in> set (ch_threads s). returned th) \<or> (\<exists>t s'. t < length (ch_threads s) \<and> chain_next t s = Some (Inr s'))) \<and>
    k \<le> chain_bound calls \<and>
    ((\<forall>th \<in> set (ch_threads s). returned th) \<longrightarrow>
       (\<forall>m ps. AnyCall m ps \<in> set calls \<longrightarrow>
          (\<exists>a < length (ch_events s). ev_mode (ch_events s ! a) = m \<and> (\<forall>p \<in> set ps. a \<in> set (ev_deps (ch_events s ! p))))) \<and>
       (\<not> ch_taken s \<longrightarrow>
          (\<forall>j. sig (ch_events s) j \<longleftrightarrow>
             (\<exists>i. (i < length (ch_initial s) \<and> ch_initial s ! i \<or> SignalCall i \<in> set calls) \<and> (i, j) \<in> (dep_rel (ch_events s))\<^sup>*)) \<and>
          (\<forall>j < length (ch_events s). ev_notified (ch_events s ! j) =
             (if ev_signalled (ch_events s ! j) \<and> \<not> ch_initial s ! j
              then [case ev_mode (ch_events s ! j) of Auto \<Rightarrow> NotifyOne | Manual \<Rightarrow> NotifyAll] else []))))"
proof (intro conjI impI allI)
  note inv = chain_run_inv [OF assms]
  have ok: "order_ok s" and sp: "spread_ok calls s" and ca: "cause_state calls s" using inv by (simp_all add: chain_inv_def)
  show "ok r" if "chain_step s r" for r using chain_no_fault [OF ok that] .
  show "(\<forall>th \<in> set (ch_threads s). returned th) \<or> (\<exists>t s'. t < length (ch_threads s) \<and> chain_next t s = Some (Inr s'))"
    using chain_progress_returned [OF ok] by blast
  show "k \<le> chain_bound calls"
    using inv by (auto simp: chain_inv_def chain_bound_def Let_def intro: add_leD1)
  show "\<exists>a < length (ch_events s). ev_mode (ch_events s ! a) = m \<and> (\<forall>p \<in> set ps. a \<in> set (ev_deps (ch_events s ! p)))"
    if ret: "\<forall>th \<in> set (ch_threads s). returned th" and any: "AnyCall m ps \<in> set calls" for m ps
  proof -
    obtain t where t: "t < length calls" "calls ! t = AnyCall m ps" using any by (auto simp: in_set_conv_nth)
    then show ?thesis using ca returned_all(2) [OF ret, of t] by (fastforce simp: cause_state_def any_ok_def)
  qed
  assume ret: "\<forall>th \<in> set (ch_threads s). returned th" and nt: "\<not> ch_taken s"
  show "sig (ch_events s) j \<longleftrightarrow>
      (\<exists>i. (i < length (ch_initial s) \<and> ch_initial s ! i \<or> SignalCall i \<in> set calls) \<and> (i, j) \<in> (dep_rel (ch_events s))\<^sup>*)" for j
    using signalled_exactly [OF inv ret nt] by (simp add: root_def)
  show "ev_notified (ch_events s ! j) = (if ev_signalled (ch_events s ! j) \<and> \<not> ch_initial s ! j
        then [case ev_mode (ch_events s ! j) of Auto \<Rightarrow> NotifyOne | Manual \<Rightarrow> NotifyAll] else [])" if "j < length (ch_events s)" for j
    using spreadD(2) [OF sp nt] that by (cases "ev_mode (ch_events s ! j)") (simp_all add: notified_ok_def signal_call_def)
qed

text \<open>The state after the threads of a list have made their next steps one after the other.\<close>

fun chain_exec :: "nat list \<Rightarrow> chain \<Rightarrow> chain option" where
  "chain_exec [] s = Some s"
| "chain_exec (t # ts) s = (if \<not> t < length (ch_threads s) then None
     else case chain_next t s of Some (Inr s') \<Rightarrow> chain_exec ts s' | _ \<Rightarrow> None)"

lemma chain_exec_run: "chain_exec ts s = Some s' \<Longrightarrow> chain_run calls k s \<Longrightarrow> chain_run calls (k + length ts) s'"
proof (induction ts s arbitrary: k rule: chain_exec.induct)
  case (2 t ts s)
  then obtain s1 where "t < length (ch_threads s)" "chain_next t s = Some (Inr s1)" "chain_exec ts s1 = Some s'"
    by (auto split: if_splits option.splits sum.splits)
  then show ?case using 2 run_thread [OF "2.prems"(2)] by fastforce
qed simp

text \<open>Two events are linked by \<open>any\<close> while another thread signals the second one.\<close>

definition chain_example :: "chain_call list" where
  "chain_example = [EventCall Auto False, EventCall Auto False, AnyCall Manual [0, 1], SignalCall 1]"

lemma chain_example_run: "chain_run chain_example 0 (fold begin_call chain_example chain_start)"
proof -
  have "chain_run ((([] @ [EventCall Auto False]) @ [EventCall Auto False]) @ [AnyCall Manual [0, 1]]) 0
      (begin_call (AnyCall Manual [0, 1]) (begin_call (EventCall Auto False) (begin_call (EventCall Auto False) chain_start)))"
    by (intro run_call run_start) (simp_all add: chain_start_def)
  then show ?thesis using run_call [of _ _ _ "SignalCall 1"] by (fastforce simp: chain_example_def chain_start_def)
qed

theorem event_chain_concurrent_witness:
  "\<exists>s s'. chain_exec [2, 3, 2] (fold begin_call chain_example chain_start) = Some s \<and> chain_next 2 s = None \<and>
     (\<exists>t s1. t < 4 \<and> chain_next t s = Some (Inr s1)) \<and>
     chain_exec [2, 3, 2, 3, 2, 2, 2, 2] (fold begin_call chain_example chain_start) = Some s' \<and> sig (ch_events s') 2 \<and> \<not> sig (ch_events s') 0"
proof -
  note ev = chain_example_def chain_start_def chain_next_defs with_mutex_def thread_at_def ev_raise_def Let_def signal_call_def returned_def
    new_thread_def new_event_def event_new_def add_dep_def numeral_2_eq_2 numeral_3_eq_3
  obtain s where s: "chain_exec [2, 3, 2] (fold begin_call chain_example chain_start) = Some s" "chain_next 2 s = None"
      "\<not> returned (ch_threads s ! 2)" "length (ch_threads s) = 4"
    by (simp add: ev)
  obtain s' where s': "chain_exec [2, 3, 2, 3, 2, 2, 2, 2] (fold begin_call chain_example chain_start) = Some s'" "\<not> ch_taken s'"
      "\<forall>th \<in> set (ch_threads s'). returned th" "ch_initial s' = [False, False, False]" "map ev_deps (ch_events s') = [[2], [2], []]"
    by (simp add: ev)
  have "length (ch_events s') = 3" "ev_deps (ch_events s' ! 0) = [2]" "ev_deps (ch_events s' ! 1) = [2]" "ev_deps (ch_events s' ! 2) = []"
    using s'(5) by auto
  then have dep: "dep_rel (ch_events s') = {(0, 2), (1, 2)}"
    by (auto simp: dep_rel_def numeral_3_eq_3 numeral_2_eq_2 less_Suc_eq)
  note thm1 = event_chain_concurrent [OF chain_exec_run [OF s(1) chain_example_run]]
  note thm2 = event_chain_concurrent [OF chain_exec_run [OF s'(1) chain_example_run]]
  have "ch_threads s ! 2 \<in> set (ch_threads s)" using s(4) by simp
  then have "\<exists>t s1. t < 4 \<and> chain_next t s = Some (Inr s1)" using thm1 s(3,4) by metis
  moreover have sg: "sig (ch_events s') j \<longleftrightarrow>
      (\<exists>i. (i < length (ch_initial s') \<and> ch_initial s' ! i \<or> SignalCall i \<in> set chain_example) \<and> (i, j) \<in> (dep_rel (ch_events s'))\<^sup>*)" for j
    using thm2 s'(2,3) by blast
  have "sig (ch_events s') 2" unfolding sg dep by (rule exI [of _ 1]) (auto simp: chain_example_def)
  moreover have "\<not> sig (ch_events s') 0"
    unfolding sg s'(4) dep by (auto simp: chain_example_def less_Suc_eq elim: rtranclE)
  ultimately show ?thesis using s(1,2) s'(1) by blast
qed

end
