(* ===== verification/Worker_Suspended.thy ===== *)
theory Worker_Suspended
  imports Worker_Moves
begin

text \<open>
  What the steps of a worker do to a fiber that sits in \<open>Worker::wait(lock, timeout, pred)\<close> without a deadline: it stays there until \<open>Fiber::notify\<close> queues it, and
  then until the worker switches to it.
\<close>

section \<open>The states of suspended fibers\<close>

definition sleeps :: "fstate \<Rightarrow> bool" where
  "sleeps st \<longleftrightarrow> st = Yielded \<or> st = Queued"

text \<open>A step keeps the state of such a fiber or resumes it, which it does with queued ones only.\<close>

definition same_sleep :: "'u worker \<Rightarrow> 'u worker \<Rightarrow> bool" where
  "same_sleep w w' \<longleftrightarrow> worker_fibers w' = worker_fibers w \<and> (\<forall>f. sleeps (fiber_state w f) \<longrightarrow> fiber_state w' f = fiber_state w f)"

definition resumes :: "'u worker \<Rightarrow> 'u worker \<Rightarrow> bool" where
  "resumes w w' \<longleftrightarrow> (\<forall>f \<le> worker_fibers w. sleeps (fiber_state w f) \<longrightarrow>
     fiber_state w' f = fiber_state w f \<or> current_fiber w' = f \<and> fiber_state w f = Queued)"

lemma same_sleep_refl [simp]: "same_sleep w w"
  by (simp add: same_sleep_def)

lemma same_sleep_upd [simp]:
  "same_sleep u (w\<lparr>wpc := p\<rparr>) = same_sleep u w" "same_sleep u (w\<lparr>work_num := n\<rparr>) = same_sleep u w"
  "same_sleep u (w\<lparr>work_num_blocked_fibers := n\<rparr>) = same_sleep u w" "same_sleep u (w\<lparr>work_fibers := fs\<rparr>) = same_sleep u w"
  "same_sleep u (w\<lparr>work_waiting := q\<rparr>) = same_sleep u w" "same_sleep u (w\<lparr>work_notify_added := b\<rparr>) = same_sleep u w"
  "same_sleep u (w\<lparr>idle_fibers := i\<rparr>) = same_sleep u w" "same_sleep u (w\<lparr>wait_result := x\<rparr>) = same_sleep u w"
  "same_sleep u (w\<lparr>shutdown := y\<rparr>) = same_sleep u w" "same_sleep u (w\<lparr>work_tasks := ts\<rparr>) = same_sleep u w"
  "same_sleep u (w\<lparr>executed := z\<rparr>) = same_sleep u w"
  by (simp_all add: same_sleep_def)

lemma same_then_resumes: "same_sleep u v \<Longrightarrow> resumes v w \<Longrightarrow> resumes u w"
  by (auto simp: same_sleep_def resumes_def)

lemma same_sleep_trans: "same_sleep u v \<Longrightarrow> same_sleep v w \<Longrightarrow> same_sleep u w"
  by (auto simp: same_sleep_def)

lemma same_resumes [intro]: "same_sleep w w' \<Longrightarrow> resumes w w'"
  by (simp add: same_sleep_def resumes_def)

lemma change_sleep: "changeFiberState f from to w = Inr w' \<Longrightarrow> \<not> sleeps from \<Longrightarrow> same_sleep w w'"
  by (auto simp: changeFiberState_def same_sleep_def)

lemma resume_states: "resume w = Inr w' \<Longrightarrow> f \<noteq> current_fiber w \<Longrightarrow> fiber_state w' f = fiber_state w f"
  by (auto simp: resume_def Let_def changeFiberState_def setFiberState_def split: cont.splits if_splits)

lemma switchToFiber_states: "switchToFiber here to w = Inr w' \<Longrightarrow> (\<forall>f. f \<noteq> to \<longrightarrow> fiber_state w' f = fiber_state w f) \<and> current_fiber w' = to"
  using resume_states [of "w\<lparr>fiber_cont := (fiber_cont w)(current_fiber w := here), current_fiber := to\<rparr>" w'] switchToFiber_queue [of here to w w']
  by (auto simp: switchToFiber_def)

text \<open>A switch resumes the fiber to which it goes, which must not be fiber_asleep unless it is queued.\<close>

lemma switchToFiber_resumes:
  assumes "switchToFiber here to w = Inr w'" "\<And>f. f \<le> worker_fibers u \<Longrightarrow> sleeps (fiber_state u f) \<Longrightarrow> fiber_state w f = fiber_state u f"
    "to \<le> worker_fibers u \<Longrightarrow> fiber_state u to \<noteq> Yielded"
  shows "resumes u w'"
  unfolding resumes_def
proof (intro allI impI)
  fix f assume f: "f \<le> worker_fibers u" "sleeps (fiber_state u f)"
  note s = switchToFiber_states [OF assms(1)]
  show "fiber_state w' f = fiber_state u f \<or> current_fiber w' = f \<and> fiber_state u f = Queued"
  proof (cases "f = to")
    case True
    then show ?thesis using s assms(3) f by (auto simp: sleeps_def)
  next
    case False
    then show ?thesis using s assms(2) [OF f] by simp
  qed
qed

lemma enqueueFiberTimeouts_sleep: "enqueueFiberTimeouts now w = Inr w' \<Longrightarrow> same_sleep w w'"
proof (induction now w arbitrary: w' rule: enqueueFiberTimeouts.induct)
  case (1 now w)
  show ?case
  proof (cases "wf_take now (work_waiting w)")
    case (Inl e)
    then show ?thesis using 1(2) by (subst (asm) enqueueFiberTimeouts.simps) simp
  next
    case (Inr rq)
    show ?thesis
    proof (cases "fst rq")
      case None
      then show ?thesis using 1(2) Inr by (subst (asm) enqueueFiberTimeouts.simps) auto
    next
      case (Some f)
      obtain w1 where w1: "changeFiberState f Waiting Queued (w\<lparr>work_waiting := snd rq\<rparr>) = Inr w1"
        "enqueueFiberTimeouts now (w1\<lparr>work_fibers := work_fibers w1 @ [f], work_num := work_num w1 + 1\<rparr>) = Inr w'"
        using 1(2) Inr Some by (subst (asm) enqueueFiberTimeouts.simps) auto
      have "same_sleep w w1" using change_sleep [OF w1(1)] by (simp add: sleeps_def same_sleep_def)
      moreover have "same_sleep (w1\<lparr>work_fibers := work_fibers w1 @ [f], work_num := work_num w1 + 1\<rparr>) w'"
        using 1(1) Inr Some w1 by blast
      ultimately show ?thesis by (auto simp: same_sleep_def)
    qed
  qed
qed

lemma suspend_switch_resumes:
  assumes "suspend_switch c k t pick w = Inr w'"
  shows "resumes w w'"
proof -
  let ?w1 = "w\<lparr>work_num_blocked_fibers := work_num_blocked_fibers w + 1\<rparr>"
  consider (queued) f fs where "work_fibers w = f # fs" | (idle) "work_fibers w = []" "idle_fibers w \<noteq> {}"
    | (new) "work_fibers w = []" "idle_fibers w = {}" by (cases "work_fibers w") auto
  then show ?thesis
  proof cases
    case queued
    then have "switchToFiber (Suspended c k t) f (?w1\<lparr>work_num := work_num w - 1, work_fibers := fs\<rparr>) = Inr w'" "fiber_state w f = Queued"
      using assms by (simp_all add: suspend_switch_def Let_def)
    then show ?thesis by (elim switchToFiber_resumes) simp_all
  next
    case idle
    then have "switchToFiber (Suspended c k t) pick (?w1\<lparr>idle_fibers := idle_fibers w - {pick}\<rparr>) = Inr w'" "fiber_state w pick = Idle"
      using assms by (simp_all add: suspend_switch_def Let_def)
    then show ?thesis by (elim switchToFiber_resumes) simp_all
  next
    case new
    then have "switchToFiber (Suspended c k t) (worker_fibers w + 1) (snd (createWorkerFiber ?w1)) = Inr w'"
      using assms by (simp add: suspend_switch_def createWorkerFiber_def Let_def)
    then show ?thesis by (rule switchToFiber_resumes) (simp_all add: createWorkerFiber_def Let_def)
  qed
qed

lemma work_wait_sleep: "work_wait to w = Inr w' \<Longrightarrow> same_sleep w w'"
  by (auto simp: work_wait_def split: if_splits)

lemma after_waitForWork_resumes: "after_waitForWork s pick w = Inr w' \<Longrightarrow> resumes w w'"
  by (auto simp: after_waitForWork_def runUntilIdle_begin_def intro: suspend_switch_resumes split: site.splits)

lemma waitForWork_resumes: "waitForWork s pick w = Inr w' \<Longrightarrow> resumes w w'"
  by (auto simp: waitForWork_def intro: after_waitForWork_resumes work_wait_sleep split: if_splits mode.splits)

lemma wake_timeouts:
  assumes "waitForWork_wake s now pick w = Inr w'"
  obtains w2 where "same_sleep w w2" "stays w w2" "after_waitForWork s pick w2 = Inr w'"
proof -
  let ?w1 = "w\<lparr>work_notify_added := False\<rparr>"
  obtain w2 where w2: "(if wf_bool (work_waiting ?w1) then enqueueFiberTimeouts now ?w1 else Inr ?w1) = Inr w2"
    "after_waitForWork s pick w2 = Inr w'"
    using assms by (auto simp: waitForWork_wake_def Let_def split: if_splits)
  have "same_sleep ?w1 w2" "stays ?w1 w2" using w2(1) by (auto intro: enqueueFiberTimeouts_stays enqueueFiberTimeouts_sleep split: if_splits)
  then have "same_sleep w w2" "stays w w2" by (simp_all add: same_sleep_def stays_def)
  then show thesis by (rule that) (rule w2(2))
qed

lemma suspend_begin:
  assumes "suspend c k t pick w = Inr w'"
  obtains w2 where "same_sleep w w2" "stays w w2" "fiber_state w (current_fiber w) = Running"
    "fiber_state w2 (current_fiber w) = (if t = None then Yielded else Waiting)" "waitForWork (SSuspend c k t) pick w2 = Inr w'"
proof (cases t)
  case None
  then obtain w2 where w2: "changeFiberState (current_fiber w) Running Yielded w = Inr w2" "waitForWork (SSuspend c k t) pick w2 = Inr w'"
    using assms by (auto simp: suspend_def)
  show thesis
    by (rule that [of w2]) (use w2 None change_sleep [OF w2(1)] in \<open>auto simp: changeFiberState_def sleeps_def\<close>)
next
  case (Some d)
  then obtain w1 q where w1: "changeFiberState (current_fiber w) Running Waiting w = Inr w1"
    "waitForWork (SSuspend c k t) pick (w1\<lparr>work_waiting := q\<rparr>) = Inr w'"
    using assms by (auto simp: suspend_def)
  show thesis
    by (rule that [of "w1\<lparr>work_waiting := q\<rparr>"]) (use w1 Some change_sleep [OF w1(1)] in \<open>auto simp: changeFiberState_def sleeps_def\<close>)
qed

lemma suspend_resumes: "suspend c k t pick w = Inr w' \<Longrightarrow> resumes w w'"
  by (elim suspend_begin) (rule same_then_resumes, assumption, rule waitForWork_resumes)

lemma wait_pred_resumes: "wait_pred c t pv pick w = Inr w' \<Longrightarrow> resumes w w'"
  by (auto simp: wait_pred_def intro: suspend_resumes split: if_splits)

lemma wait_after_suspend_resumes: "wait_after_suspend c k t now pv pick w = Inr w' \<Longrightarrow> resumes w w'"
  by (auto simp: wait_after_suspend_def intro: wait_pred_resumes split: wait_kind.splits if_splits)

lemma run_body_sleep: "same_sleep w (run_body b (w\<lparr>work_num := n, work_tasks := ts\<rparr>))"
  by (simp add: run_body_def split: body.split)

lemma runUntilIdle_resumes:
  assumes "runUntilIdle w = Inr w'"
  shows "resumes w w'"
proof (cases "work_fibers w")
  case Nil
  then show ?thesis using assms by (auto simp: runUntilIdle_def run_body_sleep split: list.splits)
next
  case (Cons f fs)
  let ?w2 = "w\<lparr>work_num := work_num w - 1, work_fibers := fs, fiber_state := (fiber_state w)(current_fiber w := Idle),
    idle_fibers := insert (current_fiber w) (idle_fibers w)\<rparr>"
  have "switchToFiber Parked f ?w2 = Inr w'" "fiber_state w f = Queued" "fiber_state w (current_fiber w) = Running"
    using assms Cons by (auto simp: runUntilIdle_def Let_def changeFiberState_def)
  then show ?thesis by (elim switchToFiber_resumes) (auto simp: sleeps_def)
qed

text \<open>The switch to the main fiber at the end of \<open>run\<close> is made when no fiber is suspended.\<close>

lemma runUntilShutdown_resumes:
  assumes "runUntilShutdown pick w = Inr w'" "ginv RActive w"
  shows "resumes w w'"
proof (cases "\<not> shutdown w \<or> 0 < work_num w \<or> 0 < work_num_blocked_fibers w")
  case True
  then show ?thesis using assms(1) waitForWork_resumes by (simp add: runUntilShutdown_def)
next
  case False
  then have B: "blocked_fibers w = {}" using ginv_blocked_zero [OF assms(2)] by (auto simp: word_neq_0_conv [symmetric])
  have "\<not> sleeps (fiber_state w f)" if "f \<le> worker_fibers w" for f
    using ginvD(4) [OF assms(2)] ginvD(5) [OF assms(2), of f] B that
    by (cases "f = current_fiber w"; cases "fiber_cont w f") (auto simp: sleeps_def blocked_fibers_def)
  then show ?thesis by (simp add: resumes_def)
qed

section \<open>Fibers in a wait with a predicate\<close>

text \<open>The fiber has called \<open>suspend\<close> from \<open>Worker::wait(lock, pred)\<close> and has not come back; and it has come back.\<close>

definition fiber_asleep :: "'u worker \<Rightarrow> nat \<Rightarrow> bool" where
  "fiber_asleep w f \<longleftrightarrow> f \<le> worker_fibers w \<and> sleeps (fiber_state w f) \<and> (\<exists>c.
     f \<noteq> current_fiber w \<and> fiber_cont w f = Suspended c WaitPred None \<or>
     f = current_fiber w \<and> (\<exists>b d. wpc w = PSpin (SSuspend c WaitPred None) b \<or> wpc w = PWait (SSuspend c WaitPred None) d))"

definition came_back :: "'u worker \<Rightarrow> nat \<Rightarrow> bool" where
  "came_back w f \<longleftrightarrow> f = current_fiber w \<and> (\<exists>c. wpc w = PWaitRet c WaitPred None)"

lemma suspend_switch_place:
  assumes s: "suspend_switch c k t pick w = Inr w'" and le: "current_fiber w \<le> worker_fibers w"
  shows "worker_fibers w \<le> worker_fibers w' \<and> (current_fiber w' \<noteq> current_fiber w \<and> fiber_cont w' (current_fiber w) = Suspended c k t \<or>
    current_fiber w' = current_fiber w \<and> wpc w' = PWaitRet c k t \<and> fiber_state w' (current_fiber w) = Running)"
proof -
  have sw: "worker_fibers v = worker_fibers w' \<and> (current_fiber w' \<noteq> current_fiber v \<and> fiber_cont w' (current_fiber v) = Suspended c k t \<or>
      current_fiber w' = current_fiber v \<and> wpc w' = PWaitRet c k t \<and> fiber_state w' (current_fiber v) = Running)" if "switchToFiber (Suspended c k t) to v = Inr w'" for to v
    using that resume_place [of "v\<lparr>fiber_cont := (fiber_cont v)(current_fiber v := Suspended c k t), current_fiber := to\<rparr>" w']
    by (cases "to = current_fiber v") (auto simp: switchToFiber_def stays_def resume_def setFiberState_def Let_def)
  show ?thesis
    using s by (auto simp: suspend_switch_def Let_def createWorkerFiber_def split: list.splits if_splits dest!: sw)
qed

lemma tstep_resumes:
  assumes "tstep w (Inr w')" "live_inv w"
  shows "resumes w w'"
  using assms(1)
proof cases
  case ts_run
  then have "run_begin w = Inr w'" by simp
  then show ?thesis by (auto simp: run_begin_def intro: work_wait_sleep split: mode.splits)
next
  case ts_run_wake
  then have "run_wake w = Inr w'" by simp
  then show ?thesis by (auto simp: run_wake_def)
next
  case (ts_loop pick)
  then show ?thesis using runUntilShutdown_resumes [of pick w w'] assms(2) by (simp add: live_inv_def)
next
  case ts_spin_return
  then show ?thesis by (metis work_wait_sleep same_resumes)
next
  case (ts_wake s d now pick now')
  then have "waitForWork_wake s now' pick w = Inr w'" by simp
  then show ?thesis by (rule wake_timeouts) (blast intro: same_then_resumes after_waitForWork_resumes)
qed (auto simp: wait_plain_def stop_single_def
    intro: runUntilIdle_resumes suspend_resumes wait_pred_resumes wait_after_suspend_resumes)

lemma asleep_blocked: "fiber_asleep w f \<Longrightarrow> wpc w = PLoop \<Longrightarrow> blocked_fibers w \<noteq> {}"
  by (auto simp: fiber_asleep_def blocked_fibers_def)

text \<open>A step of the worker leaves a sleeping fiber alone or, if it is queued, goes on with it.\<close>

lemma tstep_asleep:
  assumes live: "live_inv w" and st: "tstep w (Inr w')" and sl: "fiber_asleep w f"
  shows "live_inv w'" "fiber_asleep w' f \<and> fiber_state w' f = fiber_state w f \<or> fiber_state w f = Queued \<and> came_back w' f"
proof -
  show live': "live_inv w'" using live_inv_tstep [OF live st] asleep_blocked [OF sl] by auto
  have f: "f \<le> worker_fibers w" "sleeps (fiber_state w f)" using sl by (simp_all add: fiber_asleep_def)
  have le: "current_fiber w \<le> worker_fibers w" using live by (simp add: live_inv_def ginv_def)
  have res: "fiber_state w' f = fiber_state w f \<or> current_fiber w' = f \<and> fiber_state w f = Queued"
    using tstep_resumes [OF st live] f by (auto simp: resumes_def)
  have bk: "fiber_state w f = Queued" if "came_back w' f"
  proof -
    have "fiber_state w' f = Running" using live' that by (auto simp: came_back_def live_inv_def ginv_def)
    then show ?thesis using res f(2) by (auto simp: sleeps_def)
  qed
  consider (away) c where "f \<noteq> current_fiber w" "fiber_cont w f = Suspended c WaitPred None"
    | (spin) c b where "f = current_fiber w" "wpc w = PSpin (SSuspend c WaitPred None) b"
    | (wait) c d where "f = current_fiber w" "wpc w = PWait (SSuspend c WaitPred None) d"
    using sl by (auto simp: fiber_asleep_def)
  then show "fiber_asleep w' f \<and> fiber_state w' f = fiber_state w f \<or> fiber_state w f = Queued \<and> came_back w' f"
  proof cases
    case away
    note mv = tstep_moves [OF st]
    have "fiber_cont w' f = Suspended c WaitPred None" using moves_cont(1) [OF mv le f(1) away(1)] away(2) by simp
    moreover have "worker_fibers w \<le> worker_fibers w'" using mv by (auto simp: moves_def stays_def hops_def Let_def)
    moreover have "wpc w' = PWaitRet c WaitPred None" if "current_fiber w' = f"
      using mv that away(1) calculation(1) by (auto simp: moves_def stays_def hops_def Let_def)
    ultimately show ?thesis using res f bk by (cases "current_fiber w' = f") (auto simp: fiber_asleep_def came_back_def)
  next
    case spin
    from st have "work_wait (PWait (SSuspend c WaitPred None)) w = Inr w'"
      by cases (use spin in auto)
    then show ?thesis using sl spin by (auto simp: work_wait_def fiber_asleep_def split: if_splits)
  next
    case wait
    from st obtain now pick where "waitForWork_wake (SSuspend c WaitPred None) now pick w = Inr w'"
      by cases (use wait in auto)
    then obtain w2 where w2: "same_sleep w w2" "stays w w2" "suspend_switch c WaitPred None pick w2 = Inr w'"
      by (rule wake_timeouts) (auto simp: after_waitForWork_def)
    have "worker_fibers w \<le> worker_fibers w' \<and> (current_fiber w' \<noteq> f \<and> fiber_cont w' f = Suspended c WaitPred None \<or>
        current_fiber w' = f \<and> wpc w' = PWaitRet c WaitPred None)"
      using suspend_switch_place [OF w2(3)] w2(2) le wait(1) by (auto simp: stays_def)
    then show ?thesis using res f bk by (auto simp: fiber_asleep_def came_back_def)
  qed
qed

text \<open>\<open>Worker::wait\<close> that finds its predicate false puts the running fiber to sleep.\<close>

lemma suspend_asleep:
  assumes "suspend c WaitPred None pick w = Inr w'" "current_fiber w \<le> worker_fibers w"
  shows "fiber_asleep w' (current_fiber w) \<and> fiber_state w' (current_fiber w) = Yielded"
proof -
  obtain w2 where w2: "stays w w2" "fiber_state w2 (current_fiber w) = Yielded" "waitForWork (SSuspend c WaitPred None) pick w2 = Inr w'"
    using assms(1) by (rule suspend_begin) simp
  note cur = w2(1) [unfolded stays_def]
  have res: "fiber_state w' (current_fiber w) = Yielded"
    using waitForWork_resumes [OF w2(3)] w2(2) cur assms(2) by (auto simp: resumes_def sleeps_def)
  show ?thesis
  proof (cases "suspend_switch c WaitPred None pick w2 = Inr w'")
    case True
    then show ?thesis using suspend_switch_place [OF True] cur assms(2) res by (auto simp: fiber_asleep_def sleeps_def)
  next
    case False
    then have "wpc w' = PSpin (SSuspend c WaitPred None) False \<or> (\<exists>d. wpc w' = PWait (SSuspend c WaitPred None) d)" "stays w2 w'"
      using w2(3) by (auto simp: waitForWork_def after_waitForWork_def work_wait_def split: if_splits mode.splits)
    then show ?thesis using res cur assms(2) by (auto simp: fiber_asleep_def sleeps_def stays_def)
  qed
qed

end
