(* ===== verification/Wait_Group_Fibers.thy ===== *)
theory Wait_Group_Fibers
  imports Worker_Suspended Wait_Group_Wait
begin

text \<open>
  A wait group together with one of the workers whose fibers wait in it: the composition of \<open>Wait_Group_Wait\<close> with \<open>Worker_Model\<close>. There, a call that has been woken
  may go on at any time; here a fiber of worker \<open>i\<close> makes its steps only while the worker runs it. The two models meet in \<open>Worker::wait(lock, pred)\<close>, where the
  fiber gives up its worker (\<open>suspend\<close>) and where it comes back, and in \<open>Fiber::notify\<close>, by which \<open>notify_all\<close> puts a fiber into the queue of its worker.

  Fibers of other workers, threads without a worker and calls of \<open>done\<close> and \<open>add\<close> are as before. The other code that runs on worker \<open>i\<close>, and what other threads do
  to it, is as in \<open>Worker_Model\<close>; only fibers that are in a call on this wait group take part in it by this call alone.
\<close>

section \<open>The composition\<close>

record 'u group_run =
  gr_worker :: "'u worker"
  gr_group :: wg_system

abbreviation gr_mon :: "'u group_run \<Rightarrow> monitor" where
  "gr_mon s \<equiv> wgs_mon (gr_group s)"

definition active :: "wait_point \<Rightarrow> bool" where
  "active p \<longleftrightarrow> p \<noteq> WIdle \<and> p \<noteq> WRet"

definition in_call :: "nat \<Rightarrow> callers \<Rightarrow> wg_system \<Rightarrow> nat \<Rightarrow> bool" where
  "in_call i who g f \<longleftrightarrow> (\<exists>t. who t = Some (i, f) \<and> active (mo_wait (wgs_mon g) t))"

text \<open>The thread of the worker is in code of its current fiber: in a task or the bound thread, or behind \<open>suspend\<close> in \<open>Worker::wait\<close>.\<close>

definition in_user_code :: "'u worker \<Rightarrow> bool" where
  "in_user_code w \<longleftrightarrow> user_ctx (wpc w) \<noteq> None \<or> (\<exists>c k t. wpc w = PWaitRet c k t)"

text \<open>What a test of the predicate in \<open>Worker::wait\<close> does to the worker, with the result of the test.\<close>

definition pred_tested :: "bool \<Rightarrow> int \<Rightarrow> nat \<Rightarrow> 'u worker \<Rightarrow> 'u worker result" where
  "pred_tested b now pick w =
     (case wpc w of
        PWaitRet c k t \<Rightarrow> wait_after_suspend c k t now b pick w
      | p \<Rightarrow> (case user_ctx p of Some c \<Rightarrow> wait_pred c None b pick w | None \<Rightarrow> Inl BadAccess))"

text \<open>The part of the worker in a step of a waiting call at point \<open>p\<close> of \<open>wait\<close> and \<open>c\<close> of the condition variable: when the predicate is true the call of
  \<open>Worker::wait\<close> returns, and when it was false the fiber is suspended at the moment when the mutex of the worker is released.\<close>

definition wait_effect :: "bool \<Rightarrow> int \<Rightarrow> nat \<Rightarrow> wait_point \<Rightarrow> cv_point \<Rightarrow> 'u worker \<Rightarrow> 'u worker result" where
  "wait_effect pv now pick p c w =
     (if p = WReleased then pred_tested False now pick w
      else if p = WCall \<and> is_listed c \<and> pv then pred_tested True now pick w
      else Inr w)"

text \<open>\<open>Fiber::notify\<close> in the loop of \<open>notify_all\<close>, if the fiber belongs to worker \<open>i\<close>.\<close>

fun notify_effect :: "nat \<Rightarrow> notify_point \<Rightarrow> 'u worker \<Rightarrow> 'u worker result" where
  "notify_effect i (NFibers (f # fs)) w = (if fst f = i then rbind (enqueue_fiber (snd f) w) (\<lambda>r. Inr (fst r)) else Inr w)"
| "notify_effect i _ w = Inr w"

definition both :: "wg_system result \<Rightarrow> 'u worker result \<Rightarrow> 'u group_run result" where
  "both rg rw = rbind rg (\<lambda>g. rbind rw (\<lambda>w. Inr \<lparr>gr_worker = w, gr_group = g\<rparr>))"

inductive group_step :: "nat \<Rightarrow> callers \<Rightarrow> 'u group_run \<Rightarrow> 'u group_run result \<Rightarrow> bool" for i who where
  gs_call: "who t = Some (i, current_fiber (gr_worker s)) \<Longrightarrow> in_user_code (gr_worker s) \<Longrightarrow>
    mo_wait (gr_mon s) t = WIdle \<longrightarrow>
      user_ctx (wpc (gr_worker s)) \<noteq> None \<and> \<not> in_call i who (gr_group s) (current_fiber (gr_worker s)) \<Longrightarrow>
    pick_ok pick (gr_worker s) \<Longrightarrow> fiber_room (gr_worker s) \<Longrightarrow> queue_room (gr_worker s) \<Longrightarrow>
    wg_wait_next who t (gr_group s) = Some r \<Longrightarrow>
    group_step i who s (both r (wait_effect (wg_open (wgs_group (gr_group s))) now pick (mo_wait (gr_mon s) t)
      (cs_point (mo_cv (gr_mon s)) t) (gr_worker s)))"
| gs_other_call: "\<nexists>f. who t = Some (i, f) \<Longrightarrow> wg_wait_next who t (gr_group s) = Some r \<Longrightarrow>
    group_step i who s (both r (Inr (gr_worker s)))"
| gs_done: "wg_done_next who d (gr_group s) = Some r \<Longrightarrow>
    wgs_done (gr_group s) d = DIdle \<longrightarrow> card (pending (gr_group s)) < wg_outstanding (wgs_group (gr_group s)) \<Longrightarrow>
    (\<forall>f fs. mo_notify (gr_mon s) d = NFibers (f # fs) \<and> fst f = i \<longrightarrow> mutex_free (wpc (gr_worker s)) \<and> queue_room (gr_worker s)) \<Longrightarrow>
    group_step i who s (both r (if wgs_done (gr_group s) d = DNotify then notify_effect i (mo_notify (gr_mon s) d) (gr_worker s)
      else Inr (gr_worker s)))"
| gs_add: "wg_outstanding (wgs_group (gr_group s)) + unat n < 2 ^ 32 \<Longrightarrow>
    group_step i who s (Inr (s\<lparr>gr_group := (gr_group s)\<lparr>wgs_group := wg_add n (wgs_group (gr_group s))\<rparr>\<rparr>))"
| gs_spurious: "\<forall>t. sel t \<longrightarrow> (\<nexists>f. who t = Some (i, f)) \<Longrightarrow>
    group_step i who s (Inr (s\<lparr>gr_group := (gr_group s)\<lparr>wgs_mon := wake sel (gr_mon s)\<rparr>\<rparr>))"
| gs_worker: "tstep (gr_worker s) r \<Longrightarrow>
    in_user_code (gr_worker s) \<longrightarrow> \<not> in_call i who (gr_group s) (current_fiber (gr_worker s)) \<Longrightarrow>
    group_step i who s (both (Inr (gr_group s)) r)"
| gs_stolen: "wpc (gr_worker s) = PSpin site False \<Longrightarrow> task_bool task \<Longrightarrow> queue_room (gr_worker s) \<Longrightarrow>
    group_step i who s (both (Inr (gr_group s)) (Inr (spinForWork_stolen site task (gr_worker s))))"
| gs_task: "mutex_free (wpc (gr_worker s)) \<Longrightarrow> mo_work (gr_mon s) i = None \<Longrightarrow> task_bool task \<Longrightarrow> queue_room (gr_worker s) \<Longrightarrow>
    group_step i who s (both (Inr (gr_group s)) (Inr (fst (enqueue_task task (gr_worker s)))))"
| gs_notify: "mutex_free (wpc (gr_worker s)) \<Longrightarrow> mo_work (gr_mon s) i = None \<Longrightarrow> f \<le> worker_fibers (gr_worker s) \<Longrightarrow>
    fiber_state (gr_worker s) f \<noteq> Idle \<Longrightarrow> queue_room (gr_worker s) \<Longrightarrow> \<not> in_call i who (gr_group s) f \<Longrightarrow>
    group_step i who s (both (Inr (gr_group s)) (rbind (enqueue_fiber f (gr_worker s)) (\<lambda>r. Inr (fst r))))"
| gs_steal: "mutex_free (wpc (gr_worker s)) \<Longrightarrow> locked \<longrightarrow> mo_work (gr_mon s) i = None \<Longrightarrow>
    group_step i who s (both (Inr (gr_group s)) (Inr (fst (steal locked (gr_worker s)))))"
| gs_shutdown: "wmode (gr_worker s) = MultiThreaded \<Longrightarrow>
    group_step i who s (both (Inr (gr_group s)) (Inr ((gr_worker s)\<lparr>shutdown := True\<rparr>)))"

definition group_init :: "'u group_run \<Rightarrow> bool" where
  "group_init s \<longleftrightarrow> worker_init (gr_worker s) \<and> wg_init (gr_group s)"

section \<open>Where the fibers are\<close>

fun call_place :: "wait_point \<Rightarrow> cv_point \<Rightarrow> 'u worker \<Rightarrow> nat \<Rightarrow> bool" where
  "call_place WIdle c w f \<longleftrightarrow> True"
| "call_place WRet c w f \<longleftrightarrow> True"
| "call_place WBlocked c w f \<longleftrightarrow> fiber_asleep w f \<and> fiber_state w f = Yielded"
| "call_place WWoken c w f \<longleftrightarrow> fiber_asleep w f \<and> fiber_state w f = Queued \<or> came_back w f"
| "call_place p c w f \<longleftrightarrow> f = current_fiber w \<and> (user_ctx (wpc w) \<noteq> None \<or> is_listed c \<and> came_back w f)"

definition placed :: "nat \<Rightarrow> callers \<Rightarrow> 'u worker \<Rightarrow> monitor \<Rightarrow> nat \<Rightarrow> bool" where
  "placed i who w m t \<longleftrightarrow> (\<forall>f. who t = Some (i, f) \<longrightarrow> cs_point (mo_cv m) t \<noteq> COnCondition \<and>
     (active (mo_wait m t) \<longrightarrow> live_inv w \<and> call_place (mo_wait m t) (cs_point (mo_cv m) t) w f))"

definition one_call :: "nat \<Rightarrow> callers \<Rightarrow> monitor \<Rightarrow> bool" where
  "one_call i who m \<longleftrightarrow> (\<forall>t u f. who t = Some (i, f) \<and> who u = Some (i, f) \<and> active (mo_wait m t) \<and> active (mo_wait m u) \<longrightarrow> t = u)"

definition told_listed :: "nat \<Rightarrow> callers \<Rightarrow> monitor \<Rightarrow> bool" where
  "told_listed i who m \<longleftrightarrow> (\<forall>d fs f. mo_notify m d = NFibers fs \<and> (i, f) \<in> set fs \<longrightarrow>
     (\<exists>t. who t = Some (i, f) \<and> is_listed (cs_point (mo_cv m) t)))"

definition group_inv :: "nat \<Rightarrow> callers \<Rightarrow> 'u group_run \<Rightarrow> bool" where
  "group_inv i who s \<longleftrightarrow> worker_reach (gr_worker s) \<and> reach wg_init (wg_step who) (gr_group s) \<and>
     (\<forall>t. placed i who (gr_worker s) (gr_mon s) t) \<and> one_call i who (gr_mon s) \<and> told_listed i who (gr_mon s)"

lemma group_invD:
  assumes "group_inv i who s"
  shows "worker_reach (gr_worker s)" "reach wg_init (wg_step who) (gr_group s)" "placed i who (gr_worker s) (gr_mon s) t"
    "one_call i who (gr_mon s)" "told_listed i who (gr_mon s)" "wg_inv who (gr_group s)" "mon_inv who (gr_mon s)" "winv (gr_worker s)"
  using assms wg_system.reach_inv wg_invD(1) worker_system.reach_inv unfolding group_inv_def by blast+

lemma group_invI:
  assumes "worker_reach w" "reach wg_init (wg_step who) g" "\<And>t. placed i who w (wgs_mon g) t" "one_call i who (wgs_mon g)" "told_listed i who (wgs_mon g)"
  shows "group_inv i who \<lparr>gr_worker = w, gr_group = g\<rparr>"
  using assms by (simp add: group_inv_def)

lemma placedD:
  assumes "placed i who w m t" "who t = Some (i, f)"
  shows "cs_point (mo_cv m) t \<noteq> COnCondition" "active (mo_wait m t) \<Longrightarrow> live_inv w"
    "active (mo_wait m t) \<Longrightarrow> call_place (mo_wait m t) (cs_point (mo_cv m) t) w f"
  using assms by (simp_all add: placed_def)

text \<open>A fiber that is in a call but not the one the worker runs sleeps; so does the current one outside the code of users.\<close>

lemma call_asleep:
  assumes "call_place p c w f" "active p" "f \<noteq> current_fiber w \<or> \<not> in_user_code w"
  shows "p = WBlocked \<and> fiber_asleep w f \<and> fiber_state w f = Yielded \<or> p = WWoken \<and> fiber_asleep w f \<and> fiber_state w f = Queued"
  using assms by (cases p) (auto simp: active_def came_back_def in_user_code_def)

text \<open>Its place does not change, or it comes back, in a step of the worker.\<close>

lemma placed_tstep:
  assumes "placed i who w m t" "tstep w (Inr w')" "\<And>f. who t = Some (i, f) \<Longrightarrow> active (mo_wait m t) \<Longrightarrow> f \<noteq> current_fiber w \<or> \<not> in_user_code w"
  shows "placed i who w' m t"
  unfolding placed_def
proof (intro allI impI conjI)
  fix f assume f: "who t = Some (i, f)"
  show "cs_point (mo_cv m) t \<noteq> COnCondition" by (rule placedD(1) [OF assms(1) f])
  assume a: "active (mo_wait m t)"
  note p = placedD(2,3) [OF assms(1) f a] and sl = call_asleep [OF placedD(3) [OF assms(1) f a] a assms(3) [OF f a]]
  then have "fiber_asleep w f" by auto
  note st = tstep_asleep [OF p(1) assms(2) this]
  show "live_inv w'" by (rule st(1))
  show "call_place (mo_wait m t) (cs_point (mo_cv m) t) w' f" using sl st(2) by auto
qed

text \<open>What other threads do to the worker leaves the fibers where they are.\<close>

lemma call_place_keep:
  assumes "call_place p c w f" "stays w w'" "fiber_state w' f = fiber_state w f"
    "wpc w' = wpc w \<or> (\<exists>site b b'. wpc w = PSpin site b \<and> wpc w' = PSpin site b')"
  shows "call_place p c w' f"
proof -
  have "fiber_asleep w' f" if "fiber_asleep w f" using that assms(2-4) by (auto simp: fiber_asleep_def stays_def)
  moreover have "came_back w' f" if "came_back w f" using that assms(2,4) by (auto simp: came_back_def stays_def)
  moreover have "user_ctx (wpc w') \<noteq> None" if "user_ctx (wpc w) \<noteq> None" using that assms(4) by auto
  ultimately show ?thesis using assms(1-3) by (cases p) (auto simp: stays_def)
qed

lemma winv_mutex_free: "winv w \<Longrightarrow> mutex_free (wpc w) \<Longrightarrow> live_inv w"
  by (auto simp: winv_def exit_inv_def)

lemma placed_keep:
  assumes "placed i who w m t" "live_inv w \<Longrightarrow> live_inv w'" "stays w w'" "\<And>f. who t = Some (i, f) \<Longrightarrow> active (mo_wait m t) \<Longrightarrow> fiber_state w' f = fiber_state w f"
    "wpc w' = wpc w \<or> (\<exists>site b b'. wpc w = PSpin site b \<and> wpc w' = PSpin site b')"
  shows "placed i who w' m t"
  unfolding placed_def using placedD [OF assms(1)] call_place_keep [OF _ assms(3) assms(4) assms(5)] assms(2) by blast

lemma enqueue_fiber_effect:
  assumes "enqueue_fiber f w = Inr (w', b)"
  shows "stays w w'" "wpc w' = wpc w" "\<And>g. g \<noteq> f \<Longrightarrow> fiber_state w' g = fiber_state w g"
    "fiber_state w' f = (if fiber_state w f = Running then Running else Queued)"
  using assms enqueue_fiber_stays [OF assms]
  by (auto simp: enqueue_fiber_def Let_def setFiberState_def split: fstate.splits if_splits)

text \<open>A step of a waiting call as seen by the others.\<close>

lemma placed_other:
  assumes "placed i who w m u" "mo_wait m' u = mo_wait m u" "cs_point (mo_cv m') u = cs_point (mo_cv m) u"
  shows "placed i who w m' u"
  using assms by (simp add: placed_def)

lemma wait_next_condition:
  assumes "wait_next who pv t m = Some (Inr m')" "who t = Some x" "cs_point (mo_cv m) t \<noteq> COnCondition"
  shows "cs_point (mo_cv m') t \<noteq> COnCondition"
proof (cases "mo_wait m t = WCall")
  case True
  have adv: "cs_point (mo_cv m') t \<noteq> COnCondition" if "cv_advance who b t m = Inr m'" for b
    using that assms(2,3) by (cases "cs_point (mo_cv m) t") (auto simp: cv_advance_def split: if_splits)
  show ?thesis
    using assms True by (cases "cs_point (mo_cv m) t")
      (auto simp: wait_next_def call_next_def fiber_sleep_def wait_at_def put_lock_def block_bind_def split: if_splits option.splits dest: adv)
next
  case False
  have "mo_cv m' = mo_cv m"
    using assms(1) False
    by (cases "mo_wait m t") (auto simp: wait_next_def switch_away_def wait_at_def put_lock_def block_bind_def split: option.splits)
  then show ?thesis using assms(3) by simp
qed

lemma wg_wait_next_cases:
  assumes "wg_inv who g" "wg_wait_next who t g = Some r"
  obtains m where "r = Inr (g\<lparr>wgs_mon := m\<rparr>)" "wait_next who (wg_open (wgs_group g)) t (wgs_mon g) = Some (Inr m)"
    "wait_trans who (wg_open (wgs_group g)) t (wgs_mon g) m"
proof -
  obtain r' where r': "wait_next who (wg_open (wgs_group g)) t (wgs_mon g) = Some r'" "r = rbind r' (\<lambda>m. Inr (g\<lparr>wgs_mon := m\<rparr>))"
    using assms(2) by (auto simp: wg_wait_next_def block_bind_def)
  obtain m where "r' = Inr m" "wait_trans who (wg_open (wgs_group g)) t (wgs_mon g) m"
    using wait_next_trans [OF wg_invD(1) [OF assms(1)] r'(1)] by blast
  then show thesis using r' that by auto
qed

lemma told_wait:
  assumes inv: "mon_inv who m" and tr: "wait_trans who pv t m m'" and l: "told_listed i who m"
  shows "told_listed i who m'"
  unfolding told_listed_def
proof (intro allI impI)
  fix d fs f assume n: "mo_notify m' d = NFibers fs \<and> (i, f) \<in> set fs"
  obtain p c where s': "mo_notify m' = mo_notify m" "cs_point (mo_cv m') = (cs_point (mo_cv m))(t := c)"
    "wmove pv (mo_wait m t) (cs_point (mo_cv m) t) p c"
    using tr by (auto simp: wait_trans_def)
  have "mo_mutex m = Some (Notifier d)" using mon_locks(3) [OF inv, of d] n s'(1) by simp
  then have "\<not> holds_lock (mo_wait m t)" using mon_locks(1) [OF inv, of t] by simp
  then have "c = cs_point (mo_cv m) t" using s'(3) by (auto elim: wmove_elims)
  then show "\<exists>u. who u = Some (i, f) \<and> is_listed (cs_point (mo_cv m') u)" using l n s'(1,2) by (simp add: told_listed_def)
qed

section \<open>A call of a fiber of the worker\<close>

lemma pred_tested_tstep:
  assumes "in_user_code w" "pick_ok pick w" "fiber_room w" "queue_room w"
  shows "tstep w (pred_tested b now pick w)"
proof (cases "\<exists>c k t. wpc w = PWaitRet c k t")
  case True
  then show ?thesis using ts_wait_return assms by (auto simp: pred_tested_def)
next
  case False
  then obtain c where c: "user_ctx (wpc w) = Some c" using assms(1) by (auto simp: in_user_code_def)
  then have "pred_tested b now pick w = wait_pred c None b pick w" by (cases "wpc w") (auto simp: pred_tested_def)
  then show ?thesis using ts_wait_pred [OF c assms(2-4)] by simp
qed

lemma user_code_free: "in_user_code w \<Longrightarrow> mutex_free (wpc w)"
  by (cases "wpc w") (auto simp: in_user_code_def)

lemma pred_tested_live:
  assumes "in_user_code w" "pick_ok pick w" "fiber_room w" "queue_room w" "live_inv w" "pred_tested b now pick w = Inr w'"
  shows "live_inv w'"
  using live_inv_tstep [OF assms(5) pred_tested_tstep [OF assms(1-4), of b now]] assms(6) user_code_free [OF assms(1)] by auto

text \<open>The predicate is true: the call of \<open>Worker::wait\<close> is over. It was false: the fiber sleeps.\<close>

lemma pred_tested_True:
  assumes "user_ctx (wpc w) \<noteq> None \<or> came_back w f" "pred_tested True now pick w = Inr w'"
  shows "current_fiber w' = current_fiber w \<and> user_ctx (wpc w') \<noteq> None"
proof -
  have "user_ctx (ctx_pc c) \<noteq> None" for c by (cases c) simp_all
  then show ?thesis using assms
    by (cases "wpc w") (auto simp: pred_tested_def came_back_def wait_pred_def wait_after_suspend_def deadline_passed_def split: option.splits)
qed

lemma pred_tested_False:
  assumes "user_ctx (wpc w) \<noteq> None \<or> came_back w f" "pred_tested False now pick w = Inr w'" "current_fiber w \<le> worker_fibers w"
  shows "fiber_asleep w' (current_fiber w) \<and> fiber_state w' (current_fiber w) = Yielded"
proof -
  obtain c where "suspend c WaitPred None pick w = Inr w'" using assms(1,2)
    by (cases "wpc w") (auto simp: pred_tested_def came_back_def wait_pred_def wait_after_suspend_def deadline_passed_def split: option.splits)
  then show ?thesis using suspend_asleep assms(3) by blast
qed

lemma call_step_place:
  assumes mv: "wmove pv p c p' c'" and eff: "wait_effect pv now pick p c w = Inr w'"
    and pl: "if p = WIdle then user_ctx (wpc w) \<noteq> None else call_place p c w (current_fiber w)"
    and user: "in_user_code w" and c: "c \<noteq> COnCondition" "c' \<noteq> COnCondition" and pt: "point_ok p c" and a: "active p'"
    and le: "current_fiber w \<le> worker_fibers w"
  shows "call_place p' c' w' (current_fiber w)"
proof -
  have run: "user_ctx (wpc w) \<noteq> None \<or> is_listed c \<and> came_back w (current_fiber w)" if "p \<noteq> WIdle" "p \<noteq> WBlocked" "p \<noteq> WRet" "p \<noteq> WWoken"
    using pl that by (cases p) auto
  from mv show ?thesis
  proof cases
    case wm_leave
    then have "pred_tested True now pick w = Inr w'" using eff c by (auto simp: wait_effect_def)
    then show ?thesis using pred_tested_True [of w "current_fiber w" now pick w'] run wm_leave by auto
  next
    case wm_switch
    then have "pred_tested False now pick w = Inr w'" using eff by (simp add: wait_effect_def)
    then show ?thesis using pred_tested_False [of w "current_fiber w" now pick w'] run wm_switch le by auto
  next
    case wm_relock
    then have "is_listed c" using pt c by simp
    moreover have "came_back w (current_fiber w)" using pl wm_relock user by (auto simp: fiber_asleep_def in_user_code_def)
    ultimately show ?thesis using wm_relock eff by (simp add: wait_effect_def)
  qed (use eff pl run c a in \<open>auto simp: wait_effect_def active_def split: if_splits\<close>)
qed

section \<open>The steps keep the fibers in their places\<close>

lemma both_Inr [simp]: "both (Inr g) (Inr w) = Inr \<lparr>gr_worker = w, gr_group = g\<rparr>"
  by (simp add: both_def)

lemma wait_effect_step:
  assumes "in_user_code w" "pick_ok pick w" "fiber_room w" "queue_room w" "live_inv w"
  obtains w' where "wait_effect pv now pick p c w = Inr w'" "w' = w \<or> tstep w (Inr w')" "live_inv w'"
proof (cases "wait_effect pv now pick p c w = Inr w")
  case True
  then show thesis using that [of w] assms(5) by simp
next
  case False
  then obtain b where b: "wait_effect pv now pick p c w = pred_tested b now pick w" by (auto simp: wait_effect_def split: if_splits)
  note st = pred_tested_tstep [OF assms(1-4), of b now]
  obtain w' where w': "pred_tested b now pick w = Inr w'" using live_inv_tstep [OF assms(5) st] by blast
  show thesis by (rule that [of w']) (use b w' st pred_tested_live [OF assms w'] in simp_all)
qed

lemma group_call:
  assumes inv: "group_inv i who s" and t: "who t = Some (i, current_fiber (gr_worker s))" and user: "in_user_code (gr_worker s)"
    and first: "mo_wait (gr_mon s) t = WIdle \<longrightarrow>
      user_ctx (wpc (gr_worker s)) \<noteq> None \<and> \<not> in_call i who (gr_group s) (current_fiber (gr_worker s))"
    and room: "pick_ok pick (gr_worker s)" "fiber_room (gr_worker s)" "queue_room (gr_worker s)"
    and n: "wg_wait_next who t (gr_group s) = Some r"
  shows "\<exists>s'. both r (wait_effect (wg_open (wgs_group (gr_group s))) now pick (mo_wait (gr_mon s) t)
      (cs_point (mo_cv (gr_mon s)) t) (gr_worker s)) = Inr s' \<and> group_inv i who s'"
proof -
  let ?w = "gr_worker s" and ?g = "gr_group s" and ?m = "gr_mon s" and ?pv = "wg_open (wgs_group (gr_group s))"
  let ?f = "current_fiber ?w"
  note I = group_invD [OF inv]
  obtain m where m: "r = Inr (?g\<lparr>wgs_mon := m\<rparr>)" "wait_next who ?pv t ?m = Some (Inr m)" "wait_trans who ?pv t ?m m"
    by (rule wg_wait_next_cases [OF I(6) n])
  obtain p c where pc: "mo_wait m = (mo_wait ?m)(t := p)" "cs_point (mo_cv m) = (cs_point (mo_cv ?m))(t := c)"
    "wmove ?pv (mo_wait ?m t) (cs_point (mo_cv ?m) t) p c" using m(3) by (auto simp: wait_trans_def)
  have live: "live_inv ?w" by (rule winv_mutex_free [OF I(8) user_code_free [OF user]])
  have le: "?f \<le> worker_fibers ?w" using live by (simp add: live_inv_def ginv_def)
  obtain w' where w': "wait_effect ?pv now pick (mo_wait ?m t) (cs_point (mo_cv ?m) t) ?w = Inr w'" "w' = ?w \<or> tstep ?w (Inr w')" "live_inv w'"
    by (rule wait_effect_step [OF user room live])
  have not_ret: "mo_wait ?m t \<noteq> WRet" using pc(3) by cases auto
  have alone: "f \<noteq> ?f" if "u \<noteq> t" "who u = Some (i, f)" "active (mo_wait ?m u)" for u f
  proof (cases "mo_wait ?m t = WIdle")
    case True
    then show ?thesis using first that(2,3) by (auto simp: in_call_def)
  next
    case False
    then have "active (mo_wait ?m t)" using not_ret by (simp add: active_def)
    then show ?thesis using I(4) t that unfolding one_call_def by blast
  qed
  have "worker_reach w'" using w'(2)
  proof
    assume "tstep ?w (Inr w')"
    then show ?thesis by (rule reach_step [OF I(1) ws_thread])
  qed (use I(1) in simp)
  moreover have "reach wg_init (wg_step who) (?g\<lparr>wgs_mon := m\<rparr>)" 
    by (rule reach_step [OF I(2)]) (use wgs_wait [OF n] m(1) in simp)
  moreover have "placed i who w' m u" for u
  proof (cases "u = t")
    case True
    have cond: "cs_point (mo_cv ?m) t \<noteq> COnCondition" "c \<noteq> COnCondition"
      using placedD(1) [OF I(3) t] wait_next_condition [OF m(2) t] pc(2) by simp_all
    have pl: "if mo_wait ?m t = WIdle then user_ctx (wpc ?w) \<noteq> None else call_place (mo_wait ?m t) (cs_point (mo_cv ?m) t) ?w ?f"
      using first not_ret placedD(3) [OF I(3) t] by (auto simp: active_def)
    show ?thesis using True t w'(3) pc(1,2) cond call_step_place [OF pc(3) w'(1) pl user cond mon_invD(3) [OF I(7)] _ le]
      by (auto simp: placed_def)
  next
    case False
    then have "placed i who ?w m u" using placed_other [OF I(3)] pc(1,2) by simp
    then show ?thesis using w'(2) placed_tstep alone [OF False] pc(1) False by (metis fun_upd_other)
  qed
  moreover have "one_call i who m"
    using I(4) alone t not_ret first pc(1) unfolding one_call_def in_call_def by (auto simp: active_def)
  moreover have "told_listed i who m" by (rule told_wait [OF I(7) m(3) I(5)])
  ultimately have "group_inv i who \<lparr>gr_worker = w', gr_group = ?g\<lparr>wgs_mon := m\<rparr>\<rparr>" by (intro group_invI) simp_all
  then show ?thesis using m(1) w'(1) by simp
qed

lemma active_wake [simp]: "active (mo_wait (wake sel m) t) = active (mo_wait m t)"
  by (simp add: wake_mo_wait active_def)

text \<open>A fiber on the list of a notification is in a call, so that it may be notified.\<close>

lemma told_fiber:
  assumes inv: "group_inv i who s" and n: "mo_notify (gr_mon s) d = NFibers ((i, f) # fs)"
  shows "f \<le> worker_fibers (gr_worker s)" "fiber_state (gr_worker s) f \<noteq> Idle" "live_inv (gr_worker s)"
proof -
  note I = group_invD [OF inv]
  have "(i, f) \<in> set ((i, f) # fs)" by simp
  then obtain t where t: "who t = Some (i, f)" "is_listed (cs_point (mo_cv (gr_mon s)) t)" using I(5) n unfolding told_listed_def by blast
  have a: "active (mo_wait (gr_mon s) t)" using mon_invD(3) [OF I(7), of t] t(2) by (auto simp: active_def)
  show live: "live_inv (gr_worker s)" by (rule placedD(2) [OF I(3) t(1) a])
  note pl = placedD(3) [OF I(3) t(1) a]
  have "fiber_asleep (gr_worker s) f \<or> f = current_fiber (gr_worker s) \<and> in_user_code (gr_worker s)"
    using pl a by (cases "mo_wait (gr_mon s) t") (auto simp: active_def came_back_def in_user_code_def)
  then show "f \<le> worker_fibers (gr_worker s)" "fiber_state (gr_worker s) f \<noteq> Idle"
  proof (atomize (full), elim disjE conjE)
    assume "f = current_fiber (gr_worker s)" "in_user_code (gr_worker s)"
    moreover from this have "pc_role (wpc (gr_worker s)) = RActive" by (cases "wpc (gr_worker s)") (auto simp: in_user_code_def)
    ultimately show "f \<le> worker_fibers (gr_worker s) \<and> fiber_state (gr_worker s) f \<noteq> Idle" using live by (simp add: live_inv_def ginv_def)
  qed (auto simp: fiber_asleep_def sleeps_def)
qed

lemma placed_notified:
  assumes pl: "placed i who w m t" and pt: "point_ok (mo_wait m t) (cs_point (mo_cv m) t)" and e: "enqueue_fiber f w = Inr (w', b)" and live: "live_inv w'"
    and m': "mo_cv m' = mo_cv m" "mo_wait m' = mo_wait (wake (fiber_calls who (i, f) m) m)"
  shows "placed i who w' m' t"
  unfolding placed_def
proof (intro allI impI conjI)
  fix g assume g: "who t = Some (i, g)"
  note E = enqueue_fiber_effect [OF e] and cond = placedD(1) [OF pl g]
  show "cs_point (mo_cv m') t \<noteq> COnCondition" using cond m'(1) by simp
  assume "active (mo_wait m' t)"
  then have a: "active (mo_wait m t)" using m'(2) by simp
  note p = placedD(3) [OF pl g a]
  show "call_place (mo_wait m' t) (cs_point (mo_cv m') t) w' g"
  proof (cases "g = f")
    case False
    then have "mo_wait m' t = mo_wait m t" using m'(2) g by (auto simp: wake_mo_wait fiber_calls_def)
    then show ?thesis using call_place_keep [OF p E(1) E(3) [OF False]] E(2) m'(1) by simp
  next
    case True
    show ?thesis
    proof (cases "mo_wait m t = WBlocked")
      case True
      have "fiber_calls who (i, f) m t" using True pt cond g \<open>g = f\<close> by (simp add: fiber_calls_def)
      moreover have "fiber_asleep w' f" "fiber_state w' f = Queued" using True p E \<open>g = f\<close> by (auto simp: fiber_asleep_def sleeps_def stays_def)
      ultimately show ?thesis using True m'(2) \<open>g = f\<close> by (simp add: wake_mo_wait)
    next
      case False
      have "fiber_asleep w' f" "fiber_state w' f = Queued" if "fiber_asleep w f" "fiber_state w f = Queued"
        using that E by (auto simp: fiber_asleep_def sleeps_def stays_def)
      moreover have "came_back w' f = came_back w f" "current_fiber w' = current_fiber w" using E(1,2) by (auto simp: came_back_def stays_def)
      ultimately show ?thesis using False p m' E(2) \<open>g = f\<close> by (cases "mo_wait m t") (auto simp: wake_mo_wait)
    qed
  qed
qed (rule live)

lemma told_notify:
  assumes l: "told_listed i who m" and m': "mo_notify m' = (mo_notify m)(d := p)" "mo_cv m' = mo_cv m" "nmove who m (mo_notify m d) p sel"
  shows "told_listed i who m'"
  unfolding told_listed_def
proof (intro allI impI)
  fix e fs f assume n: "mo_notify m' e = NFibers fs \<and> (i, f) \<in> set fs"
  show "\<exists>t. who t = Some (i, f) \<and> is_listed (cs_point (mo_cv m') t)"
  proof (cases "e = d")
    case False
    then show ?thesis using l n m'(1,2) by (auto simp: told_listed_def)
  next
    case True
    then have p: "p = NFibers fs" using n m'(1) by simp
    from m'(3) show ?thesis
    proof cases
      case (nm_begin gs)
      then show ?thesis using p n m'(2) by auto
    next
      case (nm_fiber g gs)
      then have "(i, f) \<in> set (g # gs)" using p n by simp
      then show ?thesis using l nm_fiber(1) m'(2) unfolding told_listed_def by metis
    qed (use p in simp_all)
  qed
qed

lemma group_notify:
  assumes inv: "group_inv i who s" and d: "wgs_done (gr_group s) d = DNotify" "mo_notify (gr_mon s) d \<noteq> NRet"
    and n: "wg_done_next who d (gr_group s) = Some r"
    and free: "\<forall>f fs. mo_notify (gr_mon s) d = NFibers (f # fs) \<and> fst f = i \<longrightarrow> mutex_free (wpc (gr_worker s)) \<and> queue_room (gr_worker s)"
  shows "\<exists>s'. both r (notify_effect i (mo_notify (gr_mon s) d) (gr_worker s)) = Inr s' \<and> group_inv i who s'"
proof -
  let ?w = "gr_worker s" and ?g = "gr_group s" and ?m = "gr_mon s"
  note I = group_invD [OF inv]
  obtain m where m: "r = Inr (?g\<lparr>wgs_mon := m\<rparr>)" "notify_trans who d ?m m" by (rule done_notify_step [OF I(6) d n])
  obtain p sel where ps: "mo_cv m = mo_cv ?m" "mo_notify m = (mo_notify ?m)(d := p)" "mo_wait m = mo_wait (wake sel ?m)"
    "nmove who ?m (mo_notify ?m d) p sel" using m(2) by (auto simp: notify_trans_def)
  have g: "reach wg_init (wg_step who) (?g\<lparr>wgs_mon := m\<rparr>)"
    by (rule reach_step [OF I(2)]) (use wgs_done [OF n] d m(1) in simp)
  have "one_call i who m" using I(4) ps(3) by (simp add: one_call_def)
  moreover have "told_listed i who m" by (rule told_notify [OF I(5) ps(2,1,4)])
  ultimately have keeps: "group_inv i who \<lparr>gr_worker = w', gr_group = ?g\<lparr>wgs_mon := m\<rparr>\<rparr>"
    if "worker_reach w'" "\<And>t. placed i who w' m t" for w' using that g by (intro group_invI) simp_all
  show ?thesis
  proof (cases "\<exists>f fs. mo_notify ?m d = NFibers ((i, f) # fs)")
    case True
    then obtain f fs where f: "mo_notify ?m d = NFibers ((i, f) # fs)" by blast
    note told = told_fiber [OF inv f]
    have mf: "mutex_free (wpc ?w)" "queue_room ?w" using free f by auto
    have st: "wstep ?w (rbind (enqueue_fiber f ?w) (\<lambda>r. Inr (fst r)))" using told(1,2) mf by (intro ws_enqueue_fiber)
    obtain w' where w': "rbind (enqueue_fiber f ?w) (\<lambda>r. Inr (fst r)) = Inr w'" "winv w'" using worker_system.inv_step [OF I(8) st] by blast
    then obtain b where e: "enqueue_fiber f ?w = Inr (w', b)" by (cases "enqueue_fiber f ?w") auto
    have live: "live_inv w'" using winv_mutex_free [OF w'(2)] mf(1) enqueue_fiber_effect(2) [OF e] by simp
    have "sel = fiber_calls who (i, f) ?m" using ps(4) f by (auto elim: nmove_elims)
    then have "placed i who w' m t" for t
      using placed_notified [OF I(3) mon_invD(3) [OF I(7)] e live ps(1)] ps(3) by simp
    moreover have "worker_reach w'" using reach_step [OF I(1)] st w'(1) by simp
    ultimately have "group_inv i who \<lparr>gr_worker = w', gr_group = ?g\<lparr>wgs_mon := m\<rparr>\<rparr>" by (intro keeps)
    then show ?thesis using m(1) f e by simp
  next
    case False
    then have "notify_effect i (mo_notify ?m d) ?w = Inr ?w" by (cases "(i, mo_notify ?m d, ?w)" rule: notify_effect.cases) auto
    moreover have "placed i who ?w m t" for t
    proof (cases "\<exists>f. who t = Some (i, f)")
      case True
      then obtain f where t: "who t = Some (i, f)" by blast
      have "\<not> sel t" using ps(4) False t placedD(1) [OF I(3) t] by cases (auto simp: fiber_calls_def thread_calls_def)
      then show ?thesis using placed_other [OF I(3)] ps(1,3) by (simp add: wake_mo_wait)
    qed (simp add: placed_def)
    ultimately show ?thesis using keeps [OF I(1)] m(1) by simp
  qed
qed

lemma group_done_step:
  assumes inv: "group_inv i who s" and n: "wg_done_next who d (gr_group s) = Some r"
    and c: "wgs_done (gr_group s) d = DIdle \<longrightarrow> card (pending (gr_group s)) < wg_outstanding (wgs_group (gr_group s))"
    and free: "\<forall>f fs. mo_notify (gr_mon s) d = NFibers (f # fs) \<and> fst f = i \<longrightarrow> mutex_free (wpc (gr_worker s)) \<and> queue_room (gr_worker s)"
  shows "\<exists>s'. both r (if wgs_done (gr_group s) d = DNotify then notify_effect i (mo_notify (gr_mon s) d) (gr_worker s)
      else Inr (gr_worker s)) = Inr s' \<and> group_inv i who s'"
proof (cases "wgs_done (gr_group s) d = DNotify \<and> mo_notify (gr_mon s) d \<noteq> NRet")
  case True
  then show ?thesis using group_notify [OF inv _ _ n free] by simp
next
  case False
  note I = group_invD [OF inv]
  obtain g where g: "r = Inr g" using done_inv [OF I(6) n c] by blast
  have same: "mo_wait (wgs_mon g) = mo_wait (gr_mon s) \<and> mo_cv (wgs_mon g) = mo_cv (gr_mon s) \<and>
      (\<forall>e fs. mo_notify (wgs_mon g) e = NFibers fs \<longrightarrow> mo_notify (gr_mon s) e = NFibers fs)"
    using n g False by (cases "wgs_done (gr_group s) d")
      (auto simp: wg_done_next_def done_at_def notify_at_def Let_def marl_assert_def split: if_splits)
  then have "placed i who (gr_worker s) (wgs_mon g) t" "one_call i who (wgs_mon g)" for t
    using I(3) [of t] I(4) by (simp_all add: placed_def one_call_def)
  moreover have "told_listed i who (wgs_mon g)" using I(5) same unfolding told_listed_def by metis
  moreover have "reach wg_init (wg_step who) g" by (rule reach_step [OF I(2)]) (use wgs_done [OF n c] g in simp)
  ultimately have "group_inv i who \<lparr>gr_worker = gr_worker s, gr_group = g\<rparr>" using I(1) by (intro group_invI)
  moreover have "notify_effect i NRet (gr_worker s) = Inr (gr_worker s)" by simp
  ultimately show ?thesis using False g by auto
qed

text \<open>Steps of the worker, and of other threads on it.\<close>

lemma group_worker_step:
  assumes inv: "group_inv i who s" and st: "wstep (gr_worker s) r" and pl: "\<And>w' t. r = Inr w' \<Longrightarrow> winv w' \<Longrightarrow> placed i who w' (gr_mon s) t"
  shows "\<exists>s'. both (Inr (gr_group s)) r = Inr s' \<and> group_inv i who s'"
proof -
  note I = group_invD [OF inv]
  obtain w' where w': "r = Inr w'" "winv w'" using worker_system.inv_step [OF I(8) st] by blast
  have "worker_reach w'" using reach_step [OF I(1)] st w'(1) by simp
  then have "group_inv i who \<lparr>gr_worker = w', gr_group = gr_group s\<rparr>" using I(2,4,5) pl [OF w'] by (intro group_invI)
  then show ?thesis using w'(1) by simp
qed

lemma placed_outer:
  assumes inv: "group_inv i who s" and "winv w'" "mutex_free (wpc w')" "stays (gr_worker s) w'"
    and "\<And>f. in_call i who (gr_group s) f \<Longrightarrow> fiber_state w' f = fiber_state (gr_worker s) f"
    and "wpc w' = wpc (gr_worker s) \<or> (\<exists>site b b'. wpc (gr_worker s) = PSpin site b \<and> wpc w' = PSpin site b')"
  shows "placed i who w' (gr_mon s) t"
  using placed_keep [OF group_invD(3) [OF inv] winv_mutex_free [OF assms(2,3)] assms(4) _ assms(6)] assms(5) by (auto simp: in_call_def)

lemma group_step_inv:
  assumes inv: "group_inv i who s" and st: "group_step i who s r"
  shows "\<exists>s'. r = Inr s' \<and> group_inv i who s'"
  using st
proof cases
  case gs_call
  then show ?thesis using group_call [OF inv] by simp
next
  case gs_done
  then show ?thesis using group_done_step [OF inv] by simp
next
  case (gs_other_call t r')
  note I = group_invD [OF inv]
  obtain m where m: "r' = Inr ((gr_group s)\<lparr>wgs_mon := m\<rparr>)" "wait_trans who (wg_open (wgs_group (gr_group s))) t (gr_mon s) m"
    by (rule wg_wait_next_cases [OF I(6) gs_other_call(3)])
  obtain p c where pc: "mo_wait m = (mo_wait (gr_mon s))(t := p)" "cs_point (mo_cv m) = (cs_point (mo_cv (gr_mon s)))(t := c)"
    using m(2) by (auto simp: wait_trans_def)
  have own: "u \<noteq> t" if "who u = Some (i, f)" for u f using that gs_other_call(2) by auto
  have "placed i who (gr_worker s) m u" for u using I(3) [of u] own pc by (auto simp: placed_def)
  moreover have "one_call i who m" using I(4) own pc(1) by (simp add: one_call_def) metis
  moreover have "told_listed i who m" by (rule told_wait [OF I(7) m(2) I(5)])
  moreover have "reach wg_init (wg_step who) ((gr_group s)\<lparr>wgs_mon := m\<rparr>)"
    by (rule reach_step [OF I(2)]) (use wgs_wait [OF gs_other_call(3)] m(1) in simp)
  ultimately have "group_inv i who \<lparr>gr_worker = gr_worker s, gr_group = (gr_group s)\<lparr>wgs_mon := m\<rparr>\<rparr>" using I(1) by (intro group_invI) simp_all
  then show ?thesis using gs_other_call(1) m(1) by simp
next
  case (gs_add n)
  note I = group_invD [OF inv]
  have "reach wg_init (wg_step who) ((gr_group s)\<lparr>wgs_group := wg_add n (wgs_group (gr_group s))\<rparr>)"
    by (rule reach_step [OF I(2) wgs_add [OF gs_add(2)]])
  then show ?thesis using gs_add(1) inv by (auto simp: group_inv_def)
next
  case (gs_spurious sel)
  note I = group_invD [OF inv]
  have "reach wg_init (wg_step who) ((gr_group s)\<lparr>wgs_mon := wake sel (gr_mon s)\<rparr>)" by (rule reach_step [OF I(2) wgs_spurious])
  moreover have "placed i who (gr_worker s) (wake sel (gr_mon s)) t" for t
    using I(3) [of t] gs_spurious(2) by (auto simp: placed_def wake_mo_wait)
  ultimately show ?thesis using gs_spurious(1) inv by (auto simp: group_inv_def one_call_def told_listed_def)
next
  case (gs_worker r')
  have "placed i who w' (gr_mon s) t" if "r' = Inr w'" for w' t
    using placed_tstep [OF group_invD(3) [OF inv]] gs_worker(2,3) that by (auto simp: in_call_def)
  then show ?thesis unfolding gs_worker(1) using group_worker_step [OF inv ws_thread [OF gs_worker(2)]] by blast
next
  case (gs_stolen site task)
  show ?thesis unfolding gs_stolen(1)
    by (rule group_worker_step [OF inv ws_spin_steal [OF gs_stolen(2-4)]], rule placed_outer [OF inv])
      (use gs_stolen(2) in \<open>auto simp: spinForWork_stolen_def\<close>)
next
  case (gs_task task)
  show ?thesis unfolding gs_task(1)
    by (rule group_worker_step [OF inv ws_enqueue_task [OF gs_task(2,4,5)]], rule placed_outer [OF inv])
      (use gs_task(2) in \<open>auto simp: enqueue_task_def enqueueAndUnlock_def\<close>)
next
  case (gs_notify f)
  show ?thesis unfolding gs_notify(1)
  proof (rule group_worker_step [OF inv ws_enqueue_fiber [OF gs_notify(2,4,5,6)]])
    fix w' t assume r: "rbind (enqueue_fiber f (gr_worker s)) (\<lambda>r. Inr (fst r)) = Inr w'" "winv w'"
    then obtain b where e: "enqueue_fiber f (gr_worker s) = Inr (w', b)" by (cases "enqueue_fiber f (gr_worker s)") auto
    note E = enqueue_fiber_effect [OF e]
    show "placed i who w' (gr_mon s) t"
    proof (rule placed_outer [OF inv r(2)])
      show "fiber_state w' g = fiber_state (gr_worker s) g" if "in_call i who (gr_group s) g" for g
        by (rule E(3)) (use that gs_notify(7) in auto)
    qed (use E gs_notify(2) in auto)
  qed
next
  case (gs_steal locked)
  have "wpc (fst (steal locked (gr_worker s))) = wpc (gr_worker s)" "fiber_state (fst (steal locked (gr_worker s))) = fiber_state (gr_worker s)"
    by (auto simp: steal_def split: list.splits)
  then show ?thesis unfolding gs_steal(1)
    by (intro group_worker_step [OF inv ws_steal [OF gs_steal(2)]] placed_outer [OF inv]) (use gs_steal(2) steal_stays in auto)
next
  case gs_shutdown
  have "live_inv ((gr_worker s)\<lparr>shutdown := True\<rparr>)" if "live_inv (gr_worker s)" using that by (simp add: live_inv_def pc_ok_shutdown)
  then show ?thesis unfolding gs_shutdown(1)
    by (intro group_worker_step [OF inv ws_shutdown [OF gs_shutdown(2)]]) (auto intro: placed_keep [OF group_invD(3) [OF inv]])
qed

interpretation group_system: invariant_system group_init "group_step i who" "group_inv i who"
proof (unfold_locales, goal_cases)
  case (1 s)
  obtain n where "gr_group s = wg_system_new n" using 1 by (auto simp: group_init_def wg_init_def)
  then have m: "gr_mon s = monitor_new" by (simp add: wg_system_new_def)
  show ?case unfolding group_inv_def m
    using 1 by (auto simp: group_init_def intro: reach_init)
      (auto simp: placed_def one_call_def told_listed_def monitor_new_def active_def)
next
  case (2 s r)
  then show ?case by (rule group_step_inv)
qed

section \<open>Property\<close>

lemma asleep_queued: "live_inv w \<Longrightarrow> fiber_state w f = Queued \<longleftrightarrow> f \<in> set (work_fibers w)"
  by (simp add: live_inv_def ginv_def located_def)

lemma current_running:
  assumes "live_inv w" "user_ctx (wpc w) \<noteq> None \<or> came_back w f"
  shows "fiber_state w (current_fiber w) = Running"
proof -
  have "pc_role (wpc w) = RActive" using assms(2) by (cases "wpc w") (auto simp: came_back_def)
  then show ?thesis using assms(1) by (simp add: live_inv_def ginv_def)
qed

lemma group_places:
  assumes "group_inv i who s" "who t = Some (i, f)"
  shows "mo_wait (gr_mon s) t = WBlocked \<Longrightarrow> fiber_state (gr_worker s) f = Yielded \<and> f \<notin> set (work_fibers (gr_worker s))"
    "mo_wait (gr_mon s) t = WWoken \<Longrightarrow> f \<in> set (work_fibers (gr_worker s)) \<or> f = current_fiber (gr_worker s) \<and> fiber_state (gr_worker s) f = Running"
    "mo_wait (gr_mon s) t \<notin> {WIdle, WBlocked, WWoken, WRet} \<Longrightarrow> f = current_fiber (gr_worker s) \<and> fiber_state (gr_worker s) f = Running"
proof -
  note P = placedD [OF group_invD(3) [OF assms(1)] assms(2)]
  show "fiber_state (gr_worker s) f = Yielded \<and> f \<notin> set (work_fibers (gr_worker s))" if "mo_wait (gr_mon s) t = WBlocked"
    using P(2,3) asleep_queued [of "gr_worker s" f] that by (auto simp: active_def)
  show "f \<in> set (work_fibers (gr_worker s)) \<or> f = current_fiber (gr_worker s) \<and> fiber_state (gr_worker s) f = Running"
    if w: "mo_wait (gr_mon s) t = WWoken"
  proof -
    have live: "live_inv (gr_worker s)" using P(2) w by (simp add: active_def)
    have "fiber_asleep (gr_worker s) f \<and> fiber_state (gr_worker s) f = Queued \<or> came_back (gr_worker s) f" using P(3) w by (simp add: active_def)
    then show ?thesis using asleep_queued [OF live] current_running [OF live] by (auto simp: came_back_def)
  qed
  show "f = current_fiber (gr_worker s) \<and> fiber_state (gr_worker s) f = Running" if "mo_wait (gr_mon s) t \<notin> {WIdle, WBlocked, WWoken, WRet}"
    using P(2,3) that current_running by (cases "mo_wait (gr_mon s) t") (auto simp: active_def)
qed

text \<open>C21. A wait group whose waiting fibers run on a worker, with the real queues of the worker: no step of the wait group or of the worker fails, and both behave as they
  do alone. A call whose fiber is blocked has given up the worker and is in no queue; a call that has been woken belongs to a fiber that is in the queue of its worker or that the
  worker has resumed; at every other point of the call the worker runs the fiber, so that a fiber never holds the mutex of the group while it is switched
  away. Once the count is zero and the notifications are over, the fiber of every call that has not returned is in the queue of the worker or runs.\<close>

theorem wait_group_on_worker:
  assumes "reach group_init (group_step i who) s"
  shows "(\<forall>r. group_step i who s r \<longrightarrow> ok r) \<and> worker_reach (gr_worker s) \<and> reach wg_init (wg_step who) (gr_group s) \<and>
    (\<forall>t f. who t = Some (i, f) \<longrightarrow>
       (mo_wait (gr_mon s) t = WBlocked \<longrightarrow> fiber_state (gr_worker s) f = Yielded \<and> f \<notin> set (work_fibers (gr_worker s))) \<and>
       (mo_wait (gr_mon s) t = WWoken \<longrightarrow>
          f \<in> set (work_fibers (gr_worker s)) \<or> f = current_fiber (gr_worker s) \<and> fiber_state (gr_worker s) f = Running) \<and>
       (mo_wait (gr_mon s) t \<notin> {WIdle, WBlocked, WWoken, WRet} \<longrightarrow>
          f = current_fiber (gr_worker s) \<and> fiber_state (gr_worker s) f = Running)) \<and>
    (wg_open (wgs_group (gr_group s)) \<and> (\<forall>d. mo_notify (gr_mon s) d = NIdle \<or> mo_notify (gr_mon s) d = NRet) \<longrightarrow>
       (\<forall>t f. who t = Some (i, f) \<and> mo_wait (gr_mon s) t \<noteq> WIdle \<and> mo_wait (gr_mon s) t \<noteq> WRet \<longrightarrow>
          f \<in> set (work_fibers (gr_worker s)) \<or> f = current_fiber (gr_worker s) \<and> fiber_state (gr_worker s) f = Running))"
proof -
  have inv: "group_inv i who s" by (rule group_system.reach_inv [OF assms])
  note I = group_invD [OF inv] and G = group_places [OF inv]
  have "f \<in> set (work_fibers (gr_worker s)) \<or> f = current_fiber (gr_worker s) \<and> fiber_state (gr_worker s) f = Running"
    if o: "wg_open (wgs_group (gr_group s))" "\<forall>d. mo_notify (gr_mon s) d = NIdle \<or> mo_notify (gr_mon s) d = NRet"
      and t: "who t = Some (i, f)" "mo_wait (gr_mon s) t \<noteq> WIdle" "mo_wait (gr_mon s) t \<noteq> WRet" for t f
  proof -
    have n: "mo_notify (gr_mon s) d = NIdle \<or> mo_notify (gr_mon s) d = NRet" for d using o(2) by blast
    have "\<not> to_reach who t c (mo_notify (gr_mon s) d)" "mo_notify (gr_mon s) d \<noteq> NLock" for c d using n [of d] by auto
    then have "\<not> drowsy (mo_wait (gr_mon s) t)" using wg_invD(6) [OF I(6), of t] o(1) unfolding covered_def will_wake_def by blast
    then have "mo_wait (gr_mon s) t \<noteq> WBlocked" by auto
    then show ?thesis using G(2,3) [OF t(1)] t(2,3) by blast
  qed
  then show ?thesis using group_system.reach_no_fault [OF assms] I(1,2) G by blast
qed

text \<open>The bound thread of a scheduler waits for a group with count one.\<close>

definition main_waits :: callers where
  "main_waits t = (if t = 0 then Some (0, main_fiber) else None)"

fun wait_run :: "nat \<Rightarrow> wg_system \<Rightarrow> wg_system result" where
  "wait_run 0 g = Inr g"
| "wait_run (Suc k) g =
     (if mo_wait (wgs_mon g) 0 = WReleased \<or> wg_open (wgs_group g) then Inl BadAccess
      else case wg_wait_next main_waits 0 g of Some r \<Rightarrow> rbind r (wait_run k) | None \<Rightarrow> Inl BadAccess)"

abbreviation bound_worker :: "unit worker" where
  "bound_worker \<equiv> worker_start SingleThreaded 0"

lemma bound_worker_call:
  assumes "reach group_init (group_step 0 main_waits) \<lparr>gr_worker = bound_worker, gr_group = g\<rparr>" "wg_wait_next main_waits 0 g = Some (Inr g')"
    "wait_effect (wg_open (wgs_group g)) 0 0 (mo_wait (wgs_mon g) 0) (cs_point (mo_cv (wgs_mon g)) 0) bound_worker = Inr w'"
  shows "reach group_init (group_step 0 main_waits) \<lparr>gr_worker = w', gr_group = g'\<rparr>"
proof (rule reach_step [OF assms(1)])
  let ?s = "\<lparr>gr_worker = bound_worker, gr_group = g\<rparr>"
  have "main_waits t = Some (0, f) \<Longrightarrow> t = 0" for t f by (simp add: main_waits_def split: if_splits)
  then have "\<not> in_call 0 main_waits g f" if "mo_wait (wgs_mon g) 0 = WIdle" for f using that by (fastforce simp: in_call_def active_def)
  then have "group_step 0 main_waits ?s (both (Inr g') (wait_effect (wg_open (wgs_group (gr_group ?s))) 0 0 (mo_wait (gr_mon ?s) 0)
      (cs_point (mo_cv (gr_mon ?s)) 0) (gr_worker ?s)))"
    using assms(2) by (intro gs_call)
      (auto simp: main_waits_def worker_start_def in_user_code_def pick_ok_def fiber_room_def queue_room_def wf_new_def)
  then show "group_step 0 main_waits ?s (Inr \<lparr>gr_worker = w', gr_group = g'\<rparr>)" using assms(3) by simp
qed

lemma wait_run_reach:
  "wait_run k g = Inr g' \<Longrightarrow> reach group_init (group_step 0 main_waits) \<lparr>gr_worker = bound_worker, gr_group = g\<rparr> \<Longrightarrow>
   reach group_init (group_step 0 main_waits) \<lparr>gr_worker = bound_worker, gr_group = g'\<rparr>"
proof (induction k arbitrary: g)
  case (Suc k)
  then obtain g1 where g1: "mo_wait (wgs_mon g) 0 \<noteq> WReleased" "\<not> wg_open (wgs_group g)" "wg_wait_next main_waits 0 g = Some (Inr g1)" "wait_run k g1 = Inr g'"
    by (auto split: if_splits option.splits)
  then show ?case using Suc bound_worker_call [OF Suc.prems(2) g1(3)] by (simp add: wait_effect_def)
qed simp

lemma bound_waits: "\<exists>g. wait_run 6 (wg_system_new 1) = Inr g \<and> mo_wait (wgs_mon g) 0 = WReleased \<and> \<not> wg_open (wgs_group g) \<and>
    (\<exists>g'. wg_wait_next main_waits 0 g = Some (Inr g') \<and> mo_wait (wgs_mon g') 0 = WBlocked)"
proof -
  obtain it and l :: "(nat \<times> nat) mlist" where "emplace_front (0 :: nat, main_fiber) mlist_new = Inr (it, l)"
    using mlist.emplace_law [OF mlist.inv_empty, of "(0 :: nat, main_fiber)"] by blast
  then show ?thesis
    by (simp add: eval_nat_numeral wg_system_new_def wg_new_def wg_open_def monitor_new_def condvar_new_def wg_wait_next_def wait_next_def call_next_def cv_advance_def wait_at_def put_lock_def
        fiber_sleep_def switch_away_def lock_simps main_waits_def)
qed

theorem wait_group_on_worker_witness:
  "\<exists>s. reach group_init (group_step 0 main_waits) s \<and> mo_wait (gr_mon s) 0 = WBlocked \<and>
     fiber_state (gr_worker s :: unit worker) main_fiber = Yielded \<and> main_fiber \<notin> set (work_fibers (gr_worker s))"
proof -
  obtain g g' where g: "wait_run 6 (wg_system_new 1) = Inr g" "mo_wait (wgs_mon g) 0 = WReleased" "\<not> wg_open (wgs_group g)"
    "wg_wait_next main_waits 0 g = Some (Inr g')" "mo_wait (wgs_mon g') 0 = WBlocked"
    using bound_waits by blast
  have "group_init \<lparr>gr_worker = bound_worker, gr_group = wg_system_new 1\<rparr>" by (auto simp: group_init_def worker_init_def wg_init_def)
  then have "reach group_init (group_step 0 main_waits) \<lparr>gr_worker = bound_worker, gr_group = g\<rparr>" by (intro wait_run_reach [OF g(1)] reach_init)
  moreover obtain w' where "pred_tested False 0 0 bound_worker = Inr w'"
    by (simp add: pred_tested_def worker_start_def wait_pred_def suspend_def changeFiberState_def waitForWork_def work_wait_def wf_new_def wf_bool_def)
  ultimately have s: "reach group_init (group_step 0 main_waits) \<lparr>gr_worker = w', gr_group = g'\<rparr>"
    using bound_worker_call [OF _ g(4)] g(2) by (simp add: wait_effect_def)
  have "main_waits 0 = Some (0, main_fiber)" by (simp add: main_waits_def)
  then show ?thesis using wait_group_on_worker [OF s] s g(5) by (intro exI [of _ "\<lparr>gr_worker = w', gr_group = g'\<rparr>"]) auto
qed

end
