(* ===== verification/Spec2Isabelle.thy ===== *)
theory Spec2Isabelle
  imports Marl_Prelude Waiting_Fibers Task_Model Worker_Model Worker_Invariant Worker_Properties
    Wait_Group Dag_Model Dag_Proofs Dag_Builder Dag_Properties Memory_Model Memory_Proofs
    Vector_Model Vector_Proofs List_Model List_Proofs Thread_Model Scheduler_Model Scheduler_Proofs
    Condition_Variable Event_Model Mutex_Model Monitor_Model Monitor_Proofs Wait_Group_Wait Parallel_Calls
    Os_Fiber Fiber_Model Worker_Tasks Worker_Moves Scheduler_System Scheduler_System_Proofs System_Properties System_Runs
    System_References Containers_Take Diagnostics Event_Wait Event_Progress Event_Properties Fiber_Contexts Trace_Model Dag_Scheduler Event_Chain
    Worker_Suspended Wait_Group_Fibers
begin

text \<open>
  \<^bold>\<open>A verification library for miniMarl\<close>

  miniMarl runs tasks on fibers. A \<open>Scheduler\<close> owns worker threads; each \<open>Worker\<close> runs many fibers, one at a time, and
  moves them between its queues. A fiber that blocks (on a condition variable, a wait group, an event, or until a
  deadline) suspends itself, and its worker goes on with another fiber or task; whoever ends the wait calls
  \<open>Fiber::notify\<close>, which puts the fiber back into the queue of its worker. On top of this there are graphs of tasks
  (\<open>dag.hpp\<close>), calls that wait for other threads (\<open>parallelize.hpp\<close>, \<open>blocking_call.hpp\<close>), and below it the switch between
  stacks, containers and allocators.

  \<^bold>\<open>Parts, theories and sources\<close> (paths below \<open>src/\<close>)

  \<^item> \<open>Marl_Prelude\<close>: faults and results (\<open>include/marl/debug.hpp\<close>), reachability, the locales \<open>invariant_system\<close> and \<open>simulation\<close>,
    generic lemmas.
  \<^item> \<open>Waiting_Fibers\<close>: \<open>Scheduler::WaitingFibers\<close>, the fibers with a deadline. Its two containers agree (\<open>wf_inv\<close>); the
    locale \<open>timer_queue\<close> is what the worker relies on, interpreted as \<open>wf\<close>.
  \<^item> \<open>Task_Model\<close>: \<open>task.hpp\<close>, \<open>finally.hpp\<close> (also the shared form, which runs its function when the last owner goes), \<open>defer.hpp\<close>.
  \<^item> \<open>Worker_Model\<close>: \<open>Scheduler::Worker\<close> in \<open>src/scheduler.cpp\<close> 318--681, every function as a definition, cut where it gives up the
    mutex or switches fibers, the steps \<open>tstep\<close> of its own thread, and \<open>wstep\<close>, which adds those of the threads that act on it. \<open>Worker_Invariant\<close> has the
    invariant and its preservation, step by step; \<open>Worker_Properties\<close> the theorems: no assertion fails, every fiber
    is where its state says, the counters are exact, a sleeping worker is woken by a task or a notified fiber, expired
    deadlines are handled in order, a worker leaves only when all is done, and \<open>stop\<close> runs all tasks and returns. \<open>Worker_Tasks\<close>: what a
    step does to the tasks of a worker. \<open>Worker_Moves\<close>: how it goes from fiber to fiber, and that the queue of fibers is served in order.
    \<open>Worker_Suspended\<close>: what happens to a fiber that sits in \<open>wait\<close> with a predicate.
  \<^item> \<open>Condition_Variable\<close>: \<open>condition_variable.hpp\<close> over the workers and the list: exact bookkeeping under every interleaving of
    waiters, \<open>notify_all\<close> reaches every waiting fiber, what \<open>notify_one\<close> does.
  \<^item> \<open>Mutex_Model\<close>: \<open>mutex.hpp\<close>: the mutex, the lock and the waits with a predicate; mutual exclusion, and what holds when a wait returns.
  \<^item> \<open>Monitor_Model\<close>, \<open>Monitor_Proofs\<close>: a condition variable with the mutex of its data, as \<open>WaitGroup\<close> uses it: \<open>ConditionVariable::wait\<close>
    together with the loop of \<open>Worker::wait\<close> and its second mutex, and \<open>notify_all\<close> fiber by fiber, in every interleaving. No mutex is misused; a sleeping
    call stays on the list of every notification in progress until it is woken.
  \<^item> \<open>Wait_Group\<close>: the counter of \<open>wait_group.hpp\<close> and the locale \<open>latch\<close> for its clients, interpreted as \<open>wg\<close>.
    \<open>Wait_Group_Wait\<close> puts it together with the monitor: no wake-up is lost, \<open>wait\<close> does not return early, and when the count is zero all calls return.
    \<open>Wait_Group_Fibers\<close> composes this with a worker whose fibers wait: they are where the worker's queues say, and a woken one is queued or runs.
  \<^item> \<open>Parallel_Calls\<close>: \<open>parallelize.hpp\<close> and \<open>blocking_call.hpp\<close> on the wait group: everything runs exactly once, nothing is touched
    after its lifetime, and the calls return.
  \<^item> \<open>Event_Model\<close>: \<open>event.hpp\<close>: chains of dependent events, automatic reset, \<open>any\<close>. \<open>Event_Wait\<close> has one event on the monitor:
    \<open>wait\<close>, \<open>wait_until\<close>, \<open>signal\<close> (\<open>notify_one\<close> for automatic events, \<open>notify_all\<close> for manual ones), \<open>clear\<close> and \<open>test\<close> step by step, with its
    invariant; \<open>Event_Progress\<close> the measure by which its calls come to rest; \<open>Event_Properties\<close> the theorems: no call sleeps while the event is
    signalled, a signal of an automatic event releases one wait, and with deadlines a signal can be lost. \<open>Event_Chain\<close> has the calls of \<open>signal\<close> and
    \<open>any\<close> interleaved, each with the mutexes it holds on its way: no deadlock, a bounded number of steps, and which events are signalled in the end.
  \<^item> \<open>Thread_Model\<close>: \<open>thread.hpp\<close>, \<open>src/thread.cpp\<close>: affinities, policies, ownership of threads.
  \<^item> \<open>Scheduler_Model\<close>, \<open>Scheduler_Proofs\<close>: \<open>Scheduler\<close> in \<open>src/scheduler.cpp\<close> 42--240 and \<open>scheduler.hpp\<close>: configuration, choice of the
    worker for a task, stealing, binding of threads.
  \<^item> \<open>Scheduler_System\<close>: all workers of a scheduler, the threads that bind it, schedule and notify, and its destructor, as one step
    relation \<open>sstep\<close> in which a worker moves by \<open>tstep\<close> and the others act on it by the operations of \<open>Scheduler_Model\<close>.
    Every operation in a step returns its result, so that a step that fails would be a fault of the relation; what is asked of callers are the definitions
    \<open>caller_ok\<close>, \<open>may_bind\<close>, \<open>may_unbind\<close> and \<open>may_notify\<close>, and the first theorem also says what happens outside of them.
    \<open>System_References\<close> shows that references stay valid and which shapes steps have, \<open>Scheduler_System_Proofs\<close> and \<open>System_Properties\<close> have the
    invariant, \<open>System_Runs\<close> concrete runs. The theorems are below: no assertion fails within the contract, tasks are neither lost nor doubled, the destructor ends with all tasks executed, a sleeping
    worker has no work, and the two runs in which \<open>stop\<close> goes wrong.
  \<^item> \<open>Dag_Model\<close>: \<open>dag.hpp\<close>: graphs, builder, and concurrent runs as the step relation \<open>dag_step\<close>. \<open>Dag_Proofs\<close> has the invariant of
    runs and the termination measure, \<open>Dag_Builder\<close> the builder against its specification, \<open>Dag_Properties\<close> the theorems: nodes start once and after
    all they depend on, a run ends after a bounded number of steps with every node executed, and every
    graph of the builder qualifies. \<open>Dag_Scheduler\<close> composes a run with \<open>Scheduler_System\<close>: the nodes are tasks of the workers. The composition simulates
    both (interpretations \<open>graph_sys\<close> and \<open>graph_dag\<close>), so the theorems of both hold of it.
  \<^item> \<open>Memory_Model\<close>, \<open>Memory_Proofs\<close>: \<open>memory.hpp\<close>, \<open>src/memory.cpp\<close>: aligned and guarded allocation on 64-bit addresses, the tracking
    allocator, smart pointers, the STL interface. The locale \<open>allocator\<close> is interpreted for the default and for the tracking allocator.
  \<^item> \<open>Os_Fiber\<close>: \<open>src/arch/osfiber_asm_x64.S\<close> instruction by instruction, \<open>osfiber_asm_x64.h\<close>, \<open>osfiber_x64.c\<close>, \<open>src/osfiber_asm.hpp\<close> and
    \<open>src/osfiber_ucontext.hpp\<close>: the routine exchanges two contexts, a fiber that switched away comes back as from a call, and a new fiber starts on its
    guarded stack. \<open>Fiber_Model\<close>: \<open>Scheduler::Fiber\<close> around it. \<open>Fiber_Contexts\<close> runs a worker with all its fibers on this machine: a
    fiber to which the worker switches goes on with the registers and at the place with which it left.
  \<^item> \<open>Vector_Model\<close>, \<open>Vector_Proofs\<close>: \<open>containers::vector\<close> with the lifetimes of its slots; locale \<open>sequence\<close>, interpreted as \<open>vector\<close>. For which
    targets assignment respects these lifetimes, and that two of the tests make one that does not.
  \<^item> \<open>List_Model\<close>, \<open>List_Proofs\<close>: \<open>containers::list\<close> as linked cells in a store; locale \<open>handle_list\<close>, interpreted as \<open>mlist\<close> and used by
    the condition variable. \<open>Containers_Take\<close>: \<open>containers::take\<close> and its uses.
  \<^item> \<open>Diagnostics\<close>: \<open>src/debug.cpp\<close> and the macros of \<open>debug.hpp\<close>: what is printed before the process stops, and the names of threads.
    \<open>Trace_Model\<close>: the scoped events of \<open>trace.hpp\<close>.

  \<^bold>\<open>How the code is read\<close>

  Every operation that can stop the process or leave defined behaviour returns a \<open>result\<close>: \<open>Inl\<close> of a \<open>fault\<close> stands for a failed
  \<open>MARL_ASSERT\<close>, \<open>MARL_FATAL\<close>, an access out of bounds or through a bad pointer, or a division by zero. Concurrency is interleaving of
  steps; a step is the code between two points where a thread holds no lock of the component or where it uses an atomic variable.
  Counters keep the width they have in the code where wrap-around could matter (\<open>Work::num\<close>, the counters of wait groups and graphs, the indices
  of the scheduler, all addresses); theorems that need a counter not to wrap say so by a bound on the size of queues or graphs
  (\<open>queue_room\<close>, \<open>fiber_room\<close>, \<open>dag_ok\<close>).

  Loops are structural recursion or functions with a measure. There are two bounded iterations: \<open>iterate\<close> over a linked list has the
  capacity of the list as fuel, which is at least the number of its entries (\<open>iterate_rel\<close>), and \<open>enqueue_loop\<close> gets the
  outcomes of \<open>tryLock\<close> as a list and has a result as soon as one of them is positive (\<open>Scheduler_Proofs\<close>).

  What comes from outside is an argument: the clock, values of predicates, the element that \<open>unordered_set::begin\<close> yields, outcomes of
  \<open>try_lock\<close>, the addresses that \<open>malloc\<close> and \<open>mmap\<close> choose, the processors that the system reports.

  \<^bold>\<open>Not modelled\<close>

  The member functions of \<open>Trace\<close> have no bodies in the sources (and tracing is switched off). The macros for exports, sanitizers and
  thread-safety analysis have no effect on the behaviour; the tests are left out. The critical sections of the workers and of the scheduler are
  atomic steps. Lifetimes are modelled where code
  refers to something by address (allocators, containers, the frame of \<open>blocking_call\<close>), not for \<open>shared_ptr\<close>. The memory model is that of
  interleaving: atomic variables are sequentially consistent.

  \<open>Fiber_Contexts\<close> assumes of the code that runs on a fiber that it does not write to the contexts of other fibers, and of a new fiber that its memory
  was not in use; the stacks themselves are not part of its invariant, only the registers that point into them.

  In \<open>Wait_Group_Wait\<close>, \<open>Event_Wait\<close> and \<open>Parallel_Calls\<close> a runnable fiber and a scheduled task may go on at any time: which one a worker runs next is the
  business of the worker theories. For wait groups \<open>Wait_Group_Fibers\<close> makes the connection, with one worker in full and the fibers of the other workers as before; for
  events, whose monitor is the same, it has not been repeated.

  All other code without a definition consists of declarations, includes and macros without behaviour of their own.
\<close>

section \<open>The scheduler as a whole\<close>

text \<open>The destructor with two workers, used by the witnesses: a worker that sleeps and one that finishes a task.\<close>

lemma stage_step: "sstep False stage (Inr (duo (plain 0 [] False False PIdle [User 1]) (plain 1 [] True False (PRunWait None) []) (replicate 8 (- 1))
    0x7FFFFFF 1 nobody [5 \<mapsto> WThread 0, 6 \<mapsto> WThread 1] None True True (DtorStop [1, 0]) [User 1] []))"
  using duo_own(1) [OF plain_done] by (fastforce simp: stage_def)

text \<open>C5. The data of a scheduler is well formed in every reachable state: the array has a worker exactly at the indices below the number of
  threads, each of them knows its index and mode, has only tasks with a function and only fibers it has created in its queues;
  the list of spinning workers has eight valid entries; and what a thread takes for its worker is a worker thread, or the worker
  that the scheduler keeps for this thread.\<close>

theorem system_well_formed:
  assumes "system_reach spurious s"
  shows "(\<forall>i < 256. case sch_workers (sys_sch s) ! i of
        None \<Rightarrow> nat (cfg_count (sch_cfg (sys_sch s))) \<le> i
      | Some w \<Rightarrow> i < nat (cfg_count (sch_cfg (sys_sch s))) \<and> wmode w = MultiThreaded \<and> own_id w = of_nat i \<and>
          (\<forall>t \<in> set (work_tasks w). task_function t \<noteq> None) \<and>
          (wpc w \<noteq> PExit \<longrightarrow> current_fiber w \<le> worker_fibers w \<and>
             set (work_fibers w) \<union> dom (wf_abs (work_waiting w)) \<subseteq> {..worker_fibers w})) \<and>
    length (sch_spinning (sys_sch s)) = 8 \<and> (\<forall>x \<in> set (sch_spinning (sys_sch s)). x < cfg_count (sch_cfg (sys_sch s))) \<and>
    (\<forall>tid. case sch_current (sys_sch s) tid of
        None \<Rightarrow> sch_by_tid (sys_sch s) tid = None
      | Some (WThread i) \<Rightarrow> i < nat (cfg_count (sch_cfg (sys_sch s))) \<and> sch_by_tid (sys_sch s) tid = None
      | Some (WSingle t) \<Rightarrow> t = tid \<and> sch_by_tid (sys_sch s) tid \<noteq> None)"
proof (intro conjI allI impI ballI)
  let ?S = "sys_sch s"
  have inv: "sys_inv s" "refs_ok ?S" using system_reach_inv [OF assms] by blast+
  note arr = sys_invD(2) [OF inv(1)] and cnt = sched_okD(3,4,6) [OF array_okD(1) [OF sys_invD(2) [OF inv(1)]]]
  show "length (sch_spinning ?S) = 8" by (rule cnt(1))
  show "x < cfg_count (sch_cfg ?S)" if "x \<in> set (sch_spinning ?S)" for x using cnt(2) [OF that] cnt(3) by simp
  show "case sch_current ?S tid of None \<Rightarrow> sch_by_tid ?S tid = None
      | Some (WThread i) \<Rightarrow> i < nat (cfg_count (sch_cfg ?S)) \<and> sch_by_tid ?S tid = None
      | Some (WSingle t) \<Rightarrow> t = tid \<and> sch_by_tid ?S tid \<noteq> None" for tid
    using refs_okD [OF inv(2), of tid] cnt(3) by (cases "(wcount ?S, tid, sch_current ?S tid, sch_by_tid ?S tid \<noteq> None)" rule: ref_ok.cases) auto
  fix i :: nat assume i: "i < 256"
  show "case sch_workers ?S ! i of None \<Rightarrow> nat (cfg_count (sch_cfg ?S)) \<le> i
      | Some w \<Rightarrow> i < nat (cfg_count (sch_cfg ?S)) \<and> wmode w = MultiThreaded \<and> own_id w = of_nat i \<and>
          (\<forall>t \<in> set (work_tasks w). task_function t \<noteq> None) \<and>
          (wpc w \<noteq> PExit \<longrightarrow> current_fiber w \<le> worker_fibers w \<and>
             set (work_fibers w) \<union> dom (wf_abs (work_waiting w)) \<subseteq> {..worker_fibers w})"
  proof (cases "i < wcount ?S")
    case True
    have "winv (wk ?S i)" if "wpc (wk ?S i) \<noteq> PExit"
      using sys_okD(2) [OF sys_invD(1) [OF inv(1)] True] that by (auto simp: worker_ok_def)
    then show ?thesis
      using sys_okD(2) [OF sys_invD(1) [OF inv(1)] True] fibers_exist [of "wk ?S i"] array_okD(4) [OF arr True] True cnt(3)
      by (auto simp: worker_ok_def task_bool_def)
  next
    case False
    then show ?thesis using arr i cnt(3) by (simp add: array_ok_def MaxWorkerThreads_def)
  qed
qed

theorem system_well_formed_witness: "sch_workers (sys_sch hung) ! 5 = None \<and> length (sch_spinning (sys_sch hung)) = 8 \<and>
  (\<exists>w. sch_workers (sys_sch hung) ! 1 = Some w \<and> own_id w = 1)"
proof -
  have c: "cfg_count (sch_cfg (sys_sch hung)) = 2" by (simp add: hung_def two_count)
  note wf = system_well_formed [OF hung_reach]
  have "case sch_workers (sys_sch hung) ! 5 of None \<Rightarrow> True | Some w \<Rightarrow> False"
    using spec [OF conjunct1 [OF wf], of 5] c by (auto split: option.splits)
  moreover have "case sch_workers (sys_sch hung) ! 1 of None \<Rightarrow> False | Some w \<Rightarrow> own_id w = 1"
    using spec [OF conjunct1 [OF wf], of 1] c by (auto split: option.splits)
  ultimately show ?thesis using wf by (auto split: option.splits)
qed

text \<open>C1. In no reachable state of the whole scheduler (worker threads that run, spin, steal and sleep, threads that schedule tasks, notify fibers and bind
  or unbind, and the destructor) does a step end in a failed assertion or an invalid access, provided that callers keep to the conditions \<open>caller_ok\<close>, \<open>may_bind\<close>,
  \<open>may_unbind\<close> and \<open>may_notify\<close>, that nobody binds a scheduler that is being destroyed, that the scheduler has worker threads (a positive count), and that no queue
  reaches the range of its counter; what a bound thread does with its own worker between \<open>bind\<close> and \<open>unbind\<close> is not among the steps. The conditions are needed, in every reachable state: \<open>bind\<close> fails exactly for a thread that has a scheduler bound; \<open>unbind\<close> fails
  exactly for a thread that did not bind one itself, whatever its worker did in the meantime; \<open>schedule\<close> fails for a thread without a scheduler; and
  a notification of a parked (\<open>Idle\<close>) fiber, which \<open>Worker::enqueue\<close> accepts, leaves the fiber in two containers, so that its worker aborts when it takes the fiber
  from its queue (at once if no other fiber is queued).\<close>

theorem system_no_fault:
  assumes "system_reach spurious s"
  shows "(\<forall>r. sstep spurious s r \<longrightarrow> ok r) \<and>
    (\<forall>tid. (\<exists>e. sched_bind tid (sys_sch s) = Inl e) \<longleftrightarrow> \<not> may_bind tid (sys_sch s)) \<and>
    (\<forall>tids tid w. (\<exists>e. sched_unbind tids tid w (sys_sch s) = Inl e) \<longleftrightarrow> \<not> may_unbind tid (sys_sch s)) \<and>
    (\<forall>tid locks t. sch_current (sys_sch s) tid = None \<longrightarrow>
       schedule tid locks t (sys_sch s) = Some (Inl (AssertFailed ''marl::schedule requires a marl::Scheduler to be bound''))) \<and>
    (\<forall>i w f. worker_at (WThread i) (sys_sch s) = Inr w \<and> mutex_free (wpc w) \<and> f \<le> worker_fibers w \<and> \<not> may_notify f w \<longrightarrow>
       (\<exists>w' n. enqueue_fiber f w = Inr (w', n) \<and> work_fibers w' = work_fibers w @ [f] \<and> f \<in> idle_fibers w' \<and>
          (work_fibers w = [] \<longrightarrow> runUntilIdle w' = Inl (AssertFailed ''dequeued fiber is idle''))))"
  using system.reach_no_fault [OF assms] bind_fails_iff unbind_fails_iff [OF system_reach_inv(2) [OF assms]] reach_notification [OF assms]
  by (intro conjI) (blast, blast, blast, simp add: schedule_def, blast)

text \<open>At a state with two worker threads, 5 and 6: a step, the calls that a worker thread must not make, and one that a thread without a scheduler must not make.\<close>

theorem system_no_fault_witness:
  "ok (Inr (duo (plain 0 [] False False PIdle [User 1]) (plain 1 [] True False (PRunWait None) []) (replicate 8 (- 1))
      0x7FFFFFF 1 nobody [5 \<mapsto> WThread 0, 6 \<mapsto> WThread 1] None True True (DtorStop [1, 0]) [User 1] [])) \<and>
    (\<exists>e. sched_bind 5 (sys_sch stage) = Inl e) \<and> (\<exists>e. sched_unbind [5] 5 single (sys_sch stage) = Inl e) \<and>
    schedule 7 [] (job 1) (sys_sch stage) = Some (Inl (AssertFailed ''marl::schedule requires a marl::Scheduler to be bound''))"
proof -
  have c: "sch_current (sys_sch stage) 5 = Some (WThread 0)" "sch_current (sys_sch stage) 7 = None" by (simp_all add: stage_def)
  note nf = system_no_fault [OF stage_reach, of False]
  have "\<not> may_bind 5 (sys_sch stage)" "\<not> may_unbind 5 (sys_sch stage)" by (simp_all add: may_bind_def may_unbind_def c)
  then have "\<exists>e. sched_bind 5 (sys_sch stage) = Inl e" "\<exists>e. sched_unbind [5] 5 single (sys_sch stage) = Inl e" using nf by blast+
  moreover have "schedule 7 [] (job 1) (sys_sch stage) = Some (Inl (AssertFailed ''marl::schedule requires a marl::Scheduler to be bound''))"
    using nf c(2) by blast
  ultimately show ?thesis using nf stage_step by blast
qed

text \<open>C2. The tasks given to the worker threads are, at every moment and counted with multiplicity, exactly those that have been executed,
  those that lie in a queue, and those a thief holds between two queues: stealing neither loses nor doubles a task.\<close>

theorem tasks_conserved:
  assumes "system_reach spurious s"
  shows "mset (sys_given s) =
    (\<Sum>k < wcount (sys_sch s). mset (executed (wk (sys_sch s) k)) + mset (bodies (work_tasks (wk (sys_sch s) k)))) +
    (\<Sum>k < wcount (sys_sch s). in_flight (sys_carry s k))"
  using sys_invD(4) [OF system_reach_inv(1) [OF assms]] by (simp add: tally_ok_def all_load_def all_flight_def load_def)

theorem tasks_conserved_witness:
  "{#User 1, SetShutdown 1#} = (\<Sum>k < 2. mset (executed (wk (sys_sch hung) k)) + mset (bodies (work_tasks (wk (sys_sch hung) k)))) +
    (\<Sum>k < 2. in_flight (sys_carry hung k))"
proof -
  have "wcount (sys_sch hung) = 2" "sys_given hung = [User 1, SetShutdown 1]" by (simp_all add: hung_def two_count)
  then show ?thesis using tasks_conserved [OF hung_reach] by simp
qed

text \<open>C3. When the destructor of the scheduler is done, every worker thread has ended, and every task ever given to a worker has been
  executed exactly once, except for tasks that were given to a worker whose thread had already ended.\<close>

theorem destructor_runs_all:
  assumes "system_reach spurious s" "sys_dtor s = DtorDone"
  shows "(\<forall>k < wcount (sys_sch s). wpc (wk (sys_sch s) k) = PExit) \<and>
    (\<exists>left. left \<subseteq># mset (sys_late s) \<and>
       mset (sys_given s) = (\<Sum>k < wcount (sys_sch s). mset (executed (wk (sys_sch s) k))) + left)"
proof -
  note inv = system_reach_inv(1) [OF assms(1)]
  have ex: "wpc (wk (sys_sch s) k) = PExit" if "k < wcount (sys_sch s)" for k
    using sys_invD(3) [OF inv] assms(2) that by (simp add: joined_ok_def)
  have "sys_carry s k = None" if "k < wcount (sys_sch s)" for k
    using sys_okD(3) [OF sys_invD(1) [OF inv] that] ex [OF that] by (cases "sys_carry s k") (auto simp: carry_ok_def)
  then have "all_flight s = {#}" by (simp add: all_flight_def)
  moreover have "all_load s = (\<Sum>k < wcount (sys_sch s). mset (executed (wk (sys_sch s) k))) + all_left s"
    using ex by (simp add: all_load_def all_left_def load_def left_over_def sum.distrib)
  ultimately show ?thesis using sys_invD(4) [OF inv] ex by (auto simp: tally_ok_def)
qed

theorem destructor_runs_all_witness:
  "\<exists>left. left \<subseteq># {#User 2#} \<and>
     {#User 1, SetShutdown 1, User 2, SetShutdown 0#} = (\<Sum>k < 2. mset (executed (wk (sys_sch lost) k))) + left"
proof -
  have "wcount (sys_sch lost) = 2" "sys_given lost = [User 1, SetShutdown 1, User 2, SetShutdown 0]" "sys_late lost = [User 2]"
    "sys_dtor lost = DtorDone" by (simp_all add: lost_def two_count)
  then show ?thesis using destructor_runs_all [OF lost_reach] by simp
qed

text \<open>C4. A worker thread that sleeps in Work::wait has no task and no fiber in its queues. The condition it waits for can be true only if
  another worker has executed its stop task.\<close>

theorem worker_sleeps_without_work:
  assumes "system_reach spurious s" "k < wcount (sys_sch s)" "in_work_wait (wpc (wk (sys_sch s) k))" "\<not> sys_check s k"
  shows "work_tasks (wk (sys_sch s) k) = [] \<and> work_fibers (wk (sys_sch s) k) = [] \<and>
    (wait_cond (wpc (wk (sys_sch s) k)) (wk (sys_sch s) k) \<longrightarrow>
       (\<exists>j < wcount (sys_sch s). j \<noteq> k \<and> SetShutdown (of_nat k) \<in> set (executed (wk (sys_sch s) j))))"
proof -
  let ?w = "wk (sys_sch s) k"
  note inv = system_reach_inv(1) [OF assms(1)]
  have sl: "asleep s k" using assms(3,4) by (simp add: asleep_def)
  have num: "work_num ?w = 0" by (rule no_wait_sleep [OF sys_invD(5) [OF inv assms(2)] sl])
  have "live_inv ?w"
    using sys_okD(2) [OF sys_invD(1) [OF inv] assms(2)] assms(3) by (auto simp: worker_ok_def winv_def exit_inv_def)
  then have "work_tasks ?w = [] \<and> work_fibers ?w = []" using num ginv_num_zero by (auto simp: live_inv_def)
  then show ?thesis using sys_invD(5) [OF inv assms(2)] sl by (auto simp: sleep_ok_def Let_def stopped_by_other_def)
qed

theorem worker_sleeps_without_work_witness:
  "work_tasks (wk (sys_sch hung) 1) = [] \<and> (\<exists>j < 2. j \<noteq> 1 \<and> SetShutdown 1 \<in> set (executed (wk (sys_sch hung) j)))"
proof -
  have w: "wk (sys_sch hung) 1 = plain 1 [] True True (PRunWait None) []" by (simp add: hung_def)
  have "wcount (sys_sch hung) = 2" "\<not> sys_check hung 1" by (simp_all add: hung_def two_count)
  moreover have "wait_cond (PRunWait None) (plain 1 [] True True (PRunWait None) [])" by (simp add: run_ready_def)
  ultimately show ?thesis using worker_sleeps_without_work [OF hung_reach, of 1] w by simp
qed

text \<open>C6. The task of Worker::stop may be stolen. Then the thief sets the flag without a notification, and there is a reachable state in
  which the destructor waits for the thread of worker 1 and no thread can make a step.\<close>

theorem destructor_may_hang:
  "\<exists>s :: nat system. system_reach False s \<and> sys_dtor s = DtorJoin 1 [0] \<and> {r. sstep False s r} \<subseteq> {Inr s}"
  using hung_reach hung_stuck by (intro exI [of _ hung]) (auto simp: hung_def)

text \<open>C7. The destructor does not wait for all tasks: there is a run, after which the destructor is done, with a task that was given to a
  worker and never executed.\<close>

theorem destructor_loses_task:
  "\<exists>s :: nat system. system_reach False s \<and> sys_dtor s = DtorDone \<and> User 2 \<in> set (sys_given s) \<and>
     wcount (sys_sch s) = 2 \<and> User 2 \<notin> set (executed (wk (sys_sch s) 0)) \<union> set (executed (wk (sys_sch s) 1))"
proof (intro exI conjI)
  show "system_reach False lost" by (rule lost_reach)
qed (simp_all add: lost_def two_count)

end
